(* ===== verification/Prelude.thy ===== *)
theory Prelude
  imports Main "HOL-Library.Monad_Syntax"
begin

text \<open>
  Generic facts the component theories share: the invariant rule for counted loops
  (a source loop \<open>for (i = 0; i < n; i++)\<close> is a \<open>fold\<close> over \<open>[0..<n]\<close>),
  lemmas on list update, and the named collections the components fill.
\<close>

named_theorems js_simps \<open>evaluation of JavaScript operators on numbers\<close>
named_theorems wf_intros \<open>well-formedness of the results of operations\<close>

section \<open>Counted loops\<close>

text \<open>The Hoare rule of \<open>for (i = 0; i < n; i++) s = f(i, s)\<close>.\<close>

lemma for_invariant:
  assumes "P 0 s"
    and "\<And>i s. i < n \<Longrightarrow> P i s \<Longrightarrow> P (Suc i) (f i s)"
  shows "P n (fold f [0..<n] s)"
  using assms(2)
proof (induction n)
  case 0
  then show ?case using assms(1) by simp
next
  case (Suc n)
  then have "P n (fold f [0..<n] s)" by simp
  with Suc.prems show ?case by simp
qed

text \<open>The same rule for a loop that counts from \<open>a\<close>.\<close>

lemma for_invariant_from:
  assumes "P a s" and "a \<le> n"
    and "\<And>i s. a \<le> i \<Longrightarrow> i < n \<Longrightarrow> P i s \<Longrightarrow> P (Suc i) (f i s)"
  shows "P n (fold f [a..<n] s)"
  using assms(2,3)
proof (induction n)
  case 0
  then show ?case using assms(1) by simp
next
  case (Suc n)
  show ?case
  proof (cases "a = Suc n")
    case True
    then show ?thesis using assms(1) by simp
  next
    case False
    with Suc have "a \<le> n" "P n (fold f [a..<n] s)" by simp_all
    with Suc.prems show ?thesis by simp
  qed
qed

text \<open>And for one that counts down from \<open>n - 1\<close> to \<open>0\<close>.\<close>

lemma for_down_invariant:
  assumes "P n s"
    and "\<And>i s. i < n \<Longrightarrow> P (Suc i) s \<Longrightarrow> P i (f i s)"
  shows "P 0 (fold f (rev [0..<n]) s)"
  using assms
proof (induction n arbitrary: s)
  case 0
  then show ?case by simp
next
  case (Suc n)
  have "P n (f n s)" using Suc.prems by simp
  then have "P 0 (fold f (rev [0..<n]) (f n s))"
    using Suc.prems(2) by (intro Suc.IH) auto
  then show ?case by simp
qed

lemma for_down_invariant_from:
  assumes "P n s" and "a \<le> n"
    and "\<And>i s. a \<le> i \<Longrightarrow> i < n \<Longrightarrow> P (Suc i) s \<Longrightarrow> P i (f i s)"
  shows "P a (fold f (rev [a..<n]) s)"
  using assms
proof (induction n arbitrary: s)
  case 0
  then show ?case by simp
next
  case (Suc n)
  show ?case
  proof (cases "a = Suc n")
    case False
    with Suc.prems have "a \<le> n" by simp
    moreover have "P n (f n s)" using Suc.prems \<open>a \<le> n\<close> by simp
    ultimately have "P a (fold f (rev [a..<n]) (f n s))"
      using Suc.prems(3) by (intro Suc.IH) auto
    with \<open>a \<le> n\<close> show ?thesis by simp
  qed (use Suc.prems in simp)
qed

section \<open>Lists\<close>

lemma take_Suc_snoc: "i < length xs \<Longrightarrow> take (Suc i) xs = take i xs @ [xs ! i]"
  by (simp add: take_Suc_conv_app_nth)

lemma list_all_update: "list_all P xs \<Longrightarrow> P x \<Longrightarrow> list_all P (xs[i := x])"
  by (cases "i < length xs")
    (auto simp: list_all_length nth_list_update list_update_beyond)


lemma find_append:
  "List.find P (xs @ ys) = (case List.find P xs of None \<Rightarrow> List.find P ys | Some x \<Rightarrow> Some x)"
  by (induction xs) auto


text \<open>A loop that only appends to its result.\<close>

lemma fold_collect: "fold (\<lambda>i r. r @ f i) xs r = r @ concat (map f xs)"
  by (induction xs arbitrary: r) auto

end
