(* ===== verification/Js_Values.thy ===== *)
theory Js_Values
  imports Prelude "HOL-Library.Word"
begin

unbundle bit_operations_syntax

text \<open>
  The part of JavaScript's numbers the arithmetic code under \<open>assets/plugins/rsa\<close> uses:
  integers (exact, every intermediate value of that code is below \<open>2 ^ 53\<close> in absolute value),
  \<open>NaN\<close>, and \<open>undefined\<close>, which an array read out of range gives and which
  becomes \<open>NaN\<close> in arithmetic. Bitwise operators convert to 32 bits first, as the language
  does; \<open>NaN\<close> and \<open>undefined\<close> convert to 0. Arrays are lists of such values: a read out of
  range is \<open>undefined\<close>, a write beyond the end extends the array.
\<close>

datatype jsnum = Undef | NaN | Num int

section \<open>Arithmetic and comparison\<close>

fun js_add :: "jsnum \<Rightarrow> jsnum \<Rightarrow> jsnum" where
  "js_add (Num a) (Num b) = Num (a + b)"
| "js_add _ _ = NaN"

fun js_sub :: "jsnum \<Rightarrow> jsnum \<Rightarrow> jsnum" where
  "js_sub (Num a) (Num b) = Num (a - b)"
| "js_sub _ _ = NaN"

fun js_mul :: "jsnum \<Rightarrow> jsnum \<Rightarrow> jsnum" where
  "js_mul (Num a) (Num b) = Num (a * b)"
| "js_mul _ _ = NaN"

text \<open>
  \<open>Math.floor(a / b)\<close>. The quotients of the source have \<open>a < 2 ^ 33\<close> and
  \<open>b < 2 ^ 16\<close>, where rounding to a double never crosses an integer. Division by zero
  gives an infinity or \<open>NaN\<close>; the model has no infinities and gives \<open>NaN\<close> for it.
\<close>

fun js_floor_div :: "jsnum \<Rightarrow> jsnum \<Rightarrow> jsnum" where
  "js_floor_div (Num a) (Num b) = (if b = 0 then NaN else Num (a div b))"
| "js_floor_div _ _ = NaN"

fun js_lt :: "jsnum \<Rightarrow> jsnum \<Rightarrow> bool" where
  "js_lt (Num a) (Num b) = (a < b)"
| "js_lt _ _ = False"

fun js_ge :: "jsnum \<Rightarrow> jsnum \<Rightarrow> bool" where
  "js_ge (Num a) (Num b) = (a \<ge> b)"
| "js_ge _ _ = False"

text \<open>Loose equality \<open>==\<close>: \<open>undefined\<close> equals itself, \<open>NaN\<close> equals nothing.\<close>

fun js_eq :: "jsnum \<Rightarrow> jsnum \<Rightarrow> bool" where
  "js_eq (Num a) (Num b) = (a = b)"
| "js_eq Undef Undef = True"
| "js_eq _ _ = False"

text \<open>\<open>Number(b)\<close> of a boolean.\<close>

definition js_of_bool :: "bool \<Rightarrow> jsnum" where
  "js_of_bool b = Num (of_bool b)"

section \<open>Bitwise operators on 32-bit integers\<close>

fun to_uint32 :: "jsnum \<Rightarrow> int" where
  "to_uint32 (Num a) = a mod 2 ^ 32"
| "to_uint32 _ = 0"

definition to_int32 :: "jsnum \<Rightarrow> int" where
  "to_int32 a = (let u = to_uint32 a in if u < 2 ^ 31 then u else u - 2 ^ 32)"

definition js_and :: "jsnum \<Rightarrow> jsnum \<Rightarrow> jsnum" where
  "js_and a b = Num (to_int32 a AND to_int32 b)"

definition js_or :: "jsnum \<Rightarrow> jsnum \<Rightarrow> jsnum" where
  "js_or a b = Num (to_int32 a OR to_int32 b)"

text \<open>\<open>a << n\<close>, \<open>a >> n\<close> and \<open>a >>> n\<close> with the shift count \<open>n\<close> below 32.\<close>

definition js_shl :: "jsnum \<Rightarrow> nat \<Rightarrow> jsnum" where
  "js_shl a n = Num (to_int32 (Num (to_int32 a * 2 ^ n)))"

definition js_shr :: "jsnum \<Rightarrow> nat \<Rightarrow> jsnum" where
  "js_shr a n = Num (to_int32 a div 2 ^ n)"

definition js_ushr :: "jsnum \<Rightarrow> nat \<Rightarrow> jsnum" where
  "js_ushr a n = Num (to_uint32 a div 2 ^ n)"

section \<open>Arrays\<close>

definition rd :: "jsnum list \<Rightarrow> int \<Rightarrow> jsnum" where
  "rd ds i = (if 0 \<le> i \<and> i < int (length ds) then ds ! nat i else Undef)"

text \<open>A write at a negative index does not touch the elements.\<close>

definition wr :: "jsnum list \<Rightarrow> int \<Rightarrow> jsnum \<Rightarrow> jsnum list" where
  "wr ds i v =
     (if i < 0 then ds
      else if i < int (length ds) then ds[nat i := v]
      else ds @ replicate (nat i - length ds) Undef @ [v])"

section \<open>Laws of the operators\<close>

lemma js_ge_Num [js_simps]: "js_ge (Num a) (Num b) \<longleftrightarrow> b \<le> a"
  by simp

lemma js_of_bool_Num [js_simps]: "js_of_bool b = Num (of_bool b)"
  by (simp add: js_of_bool_def)

lemma to_int32_mod: "to_int32 (Num a) mod 2 ^ 32 = a mod 2 ^ 32"
  by (simp add: to_int32_def Let_def)

lemma to_int32_small [js_simps]:
  assumes "- (2 ^ 31) \<le> a" and "a < 2 ^ 31"
  shows "to_int32 (Num a) = a"
proof (cases "a < 0")
  case True
  then have "a mod 2 ^ 32 = a + 2 ^ 32"
    using assms by (intro int_mod_pos_eq [where q = "-1"]) auto
  with True assms show ?thesis by (simp add: to_int32_def)
next
  case False
  with assms show ?thesis by (simp add: to_int32_def)
qed

lemma to_int32_id: "0 \<le> a \<Longrightarrow> a < 2147483648 \<Longrightarrow> to_int32 (Num a) = a"
  by (rule to_int32_small) auto

lemma to_uint32_range: "0 \<le> to_uint32 a" "to_uint32 a < 2 ^ 32"
  by (cases a; simp)+

lemma to_int32_range: "- (2 ^ 31) \<le> to_int32 a" "to_int32 a < 2 ^ 31"
  using to_uint32_range [of a] by (auto simp: to_int32_def Let_def)

lemma int_and_mask: "(a :: int) AND (2 ^ n - 1) = a mod 2 ^ n"
  unfolding mask_eq_exp_minus_1 [symmetric] take_bit_eq_mask [symmetric] by (rule take_bit_eq_mod)

lemma mod_mod_pow2:
  assumes "a mod 2 ^ m = b mod (2 ^ m :: int)" and "n \<le> m"
  shows "a mod 2 ^ n = b mod 2 ^ n"
proof -
  have "(2 ^ n :: int) dvd 2 ^ m" using assms(2) by (rule le_imp_power_dvd)
  then have "a mod 2 ^ n = a mod 2 ^ m mod 2 ^ n" "b mod 2 ^ n = b mod 2 ^ m mod 2 ^ n"
    by (simp_all add: mod_mod_cancel)
  with assms(1) show ?thesis by simp
qed

text \<open>Masking an integer of any size and sign keeps its low bits.\<close>

lemma js_and_low:
  assumes "n \<le> 30"
  shows "js_and (Num a) (Num (2 ^ n - 1)) = Num (a mod 2 ^ n)"
proof -
  have "(2 :: int) ^ n \<le> 2 ^ 30" using assms by (intro power_increasing) auto
  then have "to_int32 (Num (2 ^ n - 1)) = 2 ^ n - 1"
    by (intro to_int32_small) (auto intro: less_le_trans [of _ 0])
  moreover have "to_int32 (Num a) mod 2 ^ n = a mod 2 ^ n"
    using to_int32_mod by (rule mod_mod_pow2) (use assms in simp)
  ultimately show ?thesis by (simp add: js_and_def int_and_mask)
qed

lemma js_and_ffff [js_simps]: "js_and (Num a) (Num 65535) = Num (a mod 65536)"
  using js_and_low [of 16 a] by simp

lemma js_and_f [js_simps]: "js_and (Num a) (Num 15) = Num (a mod 16)"
  using js_and_low [of 4 a] by simp

lemma js_and_1 [js_simps]: "js_and (Num a) (Num 1) = Num (a mod 2)"
  using js_and_low [of 1 a] by simp

lemma js_and_NaN [simp]: "js_and NaN a = Num 0" "js_and Undef a = Num 0"
  by (simp_all add: js_and_def to_int32_def)

lemma js_ushr_small [js_simps]:
  "0 \<le> a \<Longrightarrow> a < 2 ^ 32 \<Longrightarrow> js_ushr (Num a) n = Num (a div 2 ^ n)"
  by (simp add: js_ushr_def)

lemma js_shl_small [js_simps]:
  assumes "0 \<le> a" and "a * 2 ^ n < 2 ^ 31"
  shows "js_shl (Num a) n = Num (a * 2 ^ n)"
proof -
  have "a * 1 \<le> a * 2 ^ n" using assms(1) by (intro mult_left_mono) auto
  with assms show ?thesis
    by (simp add: js_shl_def to_int32_small)
qed

section \<open>Array access in range\<close>

lemma rd_nth [simp]: "i < length ds \<Longrightarrow> rd ds (int i) = ds ! i"
  by (simp add: rd_def)

lemma wr_update [simp]: "i < length ds \<Longrightarrow> wr ds (int i) v = ds[i := v]"
  by (simp add: wr_def)

lemma rd_out [simp]: "i < 0 \<or> int (length ds) \<le> i \<Longrightarrow> rd ds i = Undef"
  by (auto simp: rd_def)

lemma length_wr [simp]: "0 \<le> i \<Longrightarrow> i < int (length ds) \<Longrightarrow> length (wr ds i v) = length ds"
  by (simp add: wr_def)

end
