(* ===== verification/Big_Int.thy ===== *)
theory Big_Int
  imports Js_Values Js_Strings
begin

text \<open>
  \<open>assets/plugins/rsa/BigInt.js\<close>: signed numbers in base \<open>2 ^ 16\<close>, least significant digit
  first, in an array of \<open>maxDigits\<close> digits. The global \<open>maxDigits\<close>, set by \<open>setMaxDigits\<close>,
  is the parameter \<open>N\<close> of the operations that create a number; \<open>ZERO_ARRAY\<close>, \<open>bigZero\<close> and
  \<open>bigOne\<close> are functions of it. The pages call \<open>setMaxDigits(130)\<close>; every \<open>N\<close> is at least 1.
  The operations return new arrays; the sign flips some of them make on an argument are undone
  before they return, so the model passes the flipped value instead.
\<close>

record bigint =
  digits :: "jsnum list"
  isNeg :: bool

definition ZERO_ARRAY :: "nat \<Rightarrow> jsnum list" where
  "ZERO_ARRAY N = fold (\<lambda>iza a. wr a (int iza) (Num 0)) [0..<N] (replicate N Undef)"

definition new_BigInt :: "nat \<Rightarrow> bigint" where
  "new_BigInt N = \<lparr>digits = ZERO_ARRAY N, isNeg = False\<rparr>"

definition bigZero :: "nat \<Rightarrow> bigint" where
  "bigZero N = new_BigInt N"

definition bigOne :: "nat \<Rightarrow> bigint" where
  "bigOne N = (new_BigInt N)\<lparr>digits := wr (ZERO_ARRAY N) 0 (Num 1)\<rparr>"

definition biCopy :: "bigint \<Rightarrow> bigint" where
  "biCopy bi = \<lparr>digits = digits bi, isNeg = isNeg bi\<rparr>"

section \<open>Conversion from numbers\<close>

lemma to_int32_le: "0 \<le> a \<Longrightarrow> to_int32 (Num a) \<le> a"
  using zmod_le_nonneg_dividend [of a "2 ^ 32"] by (simp add: to_int32_def Let_def)

text \<open>\<open>while (i > 0) { digits[j++] = i & maxDigitVal; i >>= biRadixBits; }\<close>\<close>

function biFromNumber_loop :: "int \<Rightarrow> int \<Rightarrow> jsnum list \<Rightarrow> jsnum list" where
  "biFromNumber_loop i j ds =
     (if i > 0
      then biFromNumber_loop (to_int32 (Num i) div 2 ^ 16) (j + 1)
             (wr ds j (js_and (Num i) (Num 65535)))
      else ds)"
  by pat_completeness auto

termination
proof (relation "measure (\<lambda>(i, j, ds). nat i)", goal_cases)
  case (2 i j ds)
  have "to_int32 (Num i) div 2 ^ 16 < i"
  proof (cases "to_int32 (Num i) > 0")
    case True
    then have "to_int32 (Num i) div 2 ^ 16 < to_int32 (Num i)" by (intro int_div_less_self) auto
    with to_int32_le [of i] 2 show ?thesis by simp
  next
    case False
    then have "to_int32 (Num i) div 2 ^ 16 \<le> 0" by (intro div_nonpos_pos_le0) auto
    with 2 show ?thesis by simp
  qed
  with 2 show ?case by simp
qed simp

declare biFromNumber_loop.simps [simp del]

definition biFromNumber :: "nat \<Rightarrow> int \<Rightarrow> bigint" where
  "biFromNumber N i =
     \<lparr>digits = biFromNumber_loop \<bar>i\<bar> 0 (ZERO_ARRAY N), isNeg = i < 0\<rparr>"

section \<open>Hexadecimal conversion\<close>

definition reverseStr :: "jsstr \<Rightarrow> jsstr" where
  "reverseStr s = fold (\<lambda>i result. result @ charAt s i) (rev [0..<length s]) []"

definition hexToChar :: "jsnum \<Rightarrow> jsstr" where
  "hexToChar d = (case d of Num v \<Rightarrow> charAt (js ''0123456789abcdef'') (nat v) | _ \<Rightarrow> js ''undefined'')"

definition digitToHex :: "jsnum \<Rightarrow> jsstr" where
  "digitToHex n =
     reverseStr (fst (fold (\<lambda>i (result, n). (result @ hexToChar (js_and n (Num 15)), js_ushr n 4))
       [0..<4] ([], n)))"

fun biHighIndex_loop :: "jsnum list \<Rightarrow> nat \<Rightarrow> nat" where
  "biHighIndex_loop ds 0 = 0"
| "biHighIndex_loop ds (Suc r) =
     (if js_eq (rd ds (int (Suc r))) (Num 0) then biHighIndex_loop ds r else Suc r)"

definition biHighIndex :: "bigint \<Rightarrow> nat" where
  "biHighIndex x = biHighIndex_loop (digits x) (length (digits x) - 1)"

definition biToHex :: "bigint \<Rightarrow> jsstr" where
  "biToHex x =
     fold (\<lambda>i result. result @ digitToHex (rd (digits x) (int i)))
       (rev [0..<Suc (biHighIndex x)]) []"

definition charToHex :: "nat \<Rightarrow> int" where
  "charToHex c =
     (if 48 \<le> c \<and> c \<le> 57 then int c - 48
      else if 65 \<le> c \<and> c \<le> 65 + 25 then 10 + int c - 65
      else if 97 \<le> c \<and> c \<le> 97 + 25 then 10 + int c - 97
      else 0)"

definition hexToDigit :: "jsstr \<Rightarrow> jsnum" where
  "hexToDigit s =
     fold (\<lambda>i result. js_or (js_shl result 4) (Num (charToHex (s ! i))))
       [0..<min (length s) 4] (Num 0)"

text \<open>\<open>for (i = sl, j = 0; i > 0; i -= 4, ++j)\<close>\<close>

fun biFromHex_loop :: "jsstr \<Rightarrow> nat \<Rightarrow> nat \<Rightarrow> jsnum list \<Rightarrow> jsnum list" where
  "biFromHex_loop s i j ds =
     (if i > 0
      then biFromHex_loop s (i - 4) (Suc j)
             (wr ds (int j) (hexToDigit (substr s (i - 4) (min i 4))))
      else ds)"

declare biFromHex_loop.simps [simp del]

definition biFromHex :: "nat \<Rightarrow> jsstr \<Rightarrow> bigint" where
  "biFromHex N s =
     (new_BigInt N)\<lparr>digits := biFromHex_loop s (length s) 0 (ZERO_ARRAY N)\<rparr>"

section \<open>Addition and subtraction\<close>

text \<open>The digit loops: \<open>n & 0xffff\<close> is the digit, a borrow is \<open>-1\<close>.\<close>

definition add_step :: "jsnum list \<Rightarrow> jsnum list \<Rightarrow> nat \<Rightarrow> jsnum list \<times> jsnum \<Rightarrow> jsnum list \<times> jsnum" where
  "add_step xs ys i = (\<lambda>(rs, c).
     let n = js_add (js_add (rd xs (int i)) (rd ys (int i))) c
     in (wr rs (int i) (js_and n (Num 65535)), js_of_bool (js_ge n (Num 65536))))"

definition fix_digit :: "jsnum \<Rightarrow> jsnum" where
  "fix_digit d = (if js_lt d (Num 0) then js_add d (Num 65536) else d)"

definition sub_step :: "(nat \<Rightarrow> jsnum list \<Rightarrow> jsnum) \<Rightarrow> nat \<Rightarrow> jsnum list \<times> jsnum \<Rightarrow> jsnum list \<times> jsnum" where
  "sub_step diff i = (\<lambda>(rs, c).
     let n = js_add (diff i rs) c
     in (wr rs (int i) (fix_digit (js_and n (Num 65535))),
         js_sub (Num 0) (js_of_bool (js_lt n (Num 0)))))"

definition biAdd_digits :: "nat \<Rightarrow> jsnum list \<Rightarrow> jsnum list \<Rightarrow> jsnum list" where
  "biAdd_digits N xs ys = fst (fold (add_step xs ys) [0..<length xs] (ZERO_ARRAY N, Num 0))"

text \<open>The digits and the final borrow of the first loop of \<open>biSubtract\<close>, and its second loop,
  which negates the digits when the borrow is \<open>-1\<close>.\<close>

definition biSub_digits :: "nat \<Rightarrow> jsnum list \<Rightarrow> jsnum list \<Rightarrow> jsnum list \<times> jsnum" where
  "biSub_digits N xs ys =
     fold (sub_step (\<lambda>i rs. js_sub (rd xs (int i)) (rd ys (int i)))) [0..<length xs]
       (ZERO_ARRAY N, Num 0)"

definition biNeg_digits :: "jsnum list \<Rightarrow> jsnum list \<Rightarrow> jsnum list" where
  "biNeg_digits xs rs =
     fst (fold (sub_step (\<lambda>i rs. js_sub (Num 0) (rd rs (int i)))) [0..<length xs] (rs, Num 0))"

function biAdd :: "nat \<Rightarrow> bigint \<Rightarrow> bigint \<Rightarrow> bigint"
  and biSubtract :: "nat \<Rightarrow> bigint \<Rightarrow> bigint \<Rightarrow> bigint" where
  "biAdd N x y =
     (if isNeg x \<noteq> isNeg y then biSubtract N x (y\<lparr>isNeg := \<not> isNeg y\<rparr>)
      else \<lparr>digits = biAdd_digits N (digits x) (digits y), isNeg = isNeg x\<rparr>)"
| "biSubtract N x y =
     (if isNeg x \<noteq> isNeg y then biAdd N x (y\<lparr>isNeg := \<not> isNeg y\<rparr>)
      else (case biSub_digits N (digits x) (digits y) of (rs, c) \<Rightarrow>
        if js_eq c (Num (-1))
        then \<lparr>digits = biNeg_digits (digits x) rs, isNeg = (\<not> isNeg x)\<rparr>
        else \<lparr>digits = rs, isNeg = isNeg x\<rparr>))"
  by pat_completeness auto
termination
  by (relation "measure (\<lambda>a. case a of Inl (N, x, y) \<Rightarrow> of_bool (isNeg x \<noteq> isNeg y)
                                   | Inr (N, x, y) \<Rightarrow> of_bool (isNeg x \<noteq> isNeg y))") auto

declare biAdd.simps [simp del] biSubtract.simps [simp del]

section \<open>Size\<close>

text \<open>\<open>for (result = m; result > m - bitsPerDigit; --result)\<close>: the loop's variable is
  \<open>m - 16 + k\<close>.\<close>

fun biNumBits_loop :: "jsnum \<Rightarrow> nat \<Rightarrow> nat" where
  "biNumBits_loop d 0 = 0"
| "biNumBits_loop d (Suc k) =
     (if js_and d (Num 32768) \<noteq> Num 0 then Suc k else biNumBits_loop (js_shl d 1) k)"

definition biNumBits :: "bigint \<Rightarrow> nat" where
  "biNumBits x =
     (let n = biHighIndex x; d = rd (digits x) (int n); m = (n + 1) * 16
      in m - 16 + biNumBits_loop d 16)"

section \<open>Multiplication\<close>

definition mul_step :: "jsnum list \<Rightarrow> jsnum \<Rightarrow> nat \<Rightarrow> nat \<Rightarrow> jsnum list \<times> jsnum \<Rightarrow> jsnum list \<times> jsnum" where
  "mul_step xs yi i j = (\<lambda>(rs, c).
     let k = i + j; uv = js_add (js_add (rd rs (int k)) (js_mul (rd xs (int j)) yi)) c
     in (wr rs (int k) (js_and uv (Num 65535)), js_ushr uv 16))"

definition mul_row :: "jsnum list \<Rightarrow> nat \<Rightarrow> jsnum list \<Rightarrow> nat \<Rightarrow> jsnum list \<Rightarrow> jsnum list" where
  "mul_row xs n ys i rs =
     (case fold (mul_step xs (rd ys (int i)) i) [0..<Suc n] (rs, Num 0) of (rs', c) \<Rightarrow>
        wr rs' (int (i + n + 1)) c)"

definition biMultiply :: "nat \<Rightarrow> bigint \<Rightarrow> bigint \<Rightarrow> bigint" where
  "biMultiply N x y =
     (let n = biHighIndex x; t = biHighIndex y
      in \<lparr>digits = fold (mul_row (digits x) n (digits y)) [0..<Suc t] (ZERO_ARRAY N),
          isNeg = (isNeg x \<noteq> isNeg y)\<rparr>)"

definition biMultiplyDigit :: "nat \<Rightarrow> bigint \<Rightarrow> jsnum \<Rightarrow> bigint" where
  "biMultiplyDigit N x y =
     (let n = biHighIndex x
      in case fold (mul_step (digits x) y 0) [0..<Suc n] (ZERO_ARRAY N, Num 0) of (rs, c) \<Rightarrow>
           \<lparr>digits = wr rs (int (1 + n)) c, isNeg = False\<rparr>)"

section \<open>Shifts\<close>

definition arrayCopy :: "jsnum list \<Rightarrow> nat \<Rightarrow> jsnum list \<Rightarrow> nat \<Rightarrow> nat \<Rightarrow> jsnum list" where
  "arrayCopy src srcStart dest destStart n =
     (let m = min (srcStart + n) (length src)
      in fold (\<lambda>i dest. wr dest (int (destStart + (i - srcStart))) (rd src (int i)))
           [srcStart..<m] dest)"

definition highBitMasks :: "int list" where
  "highBitMasks = [0x0000, 0x8000, 0xC000, 0xE000, 0xF000, 0xF800,
                   0xFC00, 0xFE00, 0xFF00, 0xFF80, 0xFFC0, 0xFFE0,
                   0xFFF0, 0xFFF8, 0xFFFC, 0xFFFE, 0xFFFF]"

definition lowBitMasks :: "int list" where
  "lowBitMasks = [0x0000, 0x0001, 0x0003, 0x0007, 0x000F, 0x001F,
                  0x003F, 0x007F, 0x00FF, 0x01FF, 0x03FF, 0x07FF,
                  0x0FFF, 0x1FFF, 0x3FFF, 0x7FFF, 0xFFFF]"

definition shl_step :: "nat \<Rightarrow> nat \<Rightarrow> jsnum list \<Rightarrow> jsnum list" where
  "shl_step bits i rs =
     wr rs (int i)
       (js_or (js_and (js_shl (rd rs (int i)) bits) (Num 65535))
              (js_ushr (js_and (rd rs (int i - 1)) (Num (highBitMasks ! bits))) (16 - bits)))"

definition biShiftLeft :: "nat \<Rightarrow> bigint \<Rightarrow> nat \<Rightarrow> bigint" where
  "biShiftLeft N x n =
     (let digitCount = n div 16; bits = n mod 16;
          rs = arrayCopy (digits x) 0 (ZERO_ARRAY N) digitCount (N - digitCount);
          rs = fold (shl_step bits) (rev [1..<length rs]) rs
      in \<lparr>digits = wr rs 0 (js_and (js_shl (rd rs 0) bits) (Num 65535)), isNeg = isNeg x\<rparr>)"

definition shr_step :: "nat \<Rightarrow> nat \<Rightarrow> jsnum list \<Rightarrow> jsnum list" where
  "shr_step bits i rs =
     wr rs (int i)
       (js_or (js_ushr (rd rs (int i)) bits)
              (js_shl (js_and (rd rs (int i + 1)) (Num (lowBitMasks ! bits))) (16 - bits)))"

definition biShiftRight :: "nat \<Rightarrow> bigint \<Rightarrow> nat \<Rightarrow> bigint" where
  "biShiftRight N x n =
     (let digitCount = n div 16; bits = n mod 16;
          rs = arrayCopy (digits x) digitCount (ZERO_ARRAY N) 0 (length (digits x) - digitCount);
          rs = fold (shr_step bits) [0..<length rs - 1] rs;
          last = int (length rs) - 1
      in \<lparr>digits = wr rs last (js_ushr (rd rs last) bits), isNeg = isNeg x\<rparr>)"

definition biMultiplyByRadixPower :: "nat \<Rightarrow> bigint \<Rightarrow> nat \<Rightarrow> bigint" where
  "biMultiplyByRadixPower N x n =
     (new_BigInt N)\<lparr>digits := arrayCopy (digits x) 0 (ZERO_ARRAY N) n (N - n)\<rparr>"

definition biDivideByRadixPower :: "nat \<Rightarrow> bigint \<Rightarrow> nat \<Rightarrow> bigint" where
  "biDivideByRadixPower N x n =
     (new_BigInt N)\<lparr>digits := arrayCopy (digits x) n (ZERO_ARRAY N) 0 (N - n)\<rparr>"

definition biModuloByRadixPower :: "nat \<Rightarrow> bigint \<Rightarrow> nat \<Rightarrow> bigint" where
  "biModuloByRadixPower N x n =
     (new_BigInt N)\<lparr>digits := arrayCopy (digits x) 0 (ZERO_ARRAY N) 0 n\<rparr>"

section \<open>Comparison\<close>

fun biCompare_loop :: "bool \<Rightarrow> jsnum list \<Rightarrow> jsnum list \<Rightarrow> nat \<Rightarrow> int" where
  "biCompare_loop neg xs ys 0 = 0"
| "biCompare_loop neg xs ys (Suc i) =
     (if \<not> js_eq (rd xs (int i)) (rd ys (int i)) then
        (if neg then 1 - 2 * of_bool (js_lt (rd ys (int i)) (rd xs (int i)))
         else 1 - 2 * of_bool (js_lt (rd xs (int i)) (rd ys (int i))))
      else biCompare_loop neg xs ys i)"

definition biCompare :: "bigint \<Rightarrow> bigint \<Rightarrow> int" where
  "biCompare x y =
     (if isNeg x \<noteq> isNeg y then 1 - 2 * of_bool (isNeg x)
      else biCompare_loop (isNeg x) (digits x) (digits y) (length (digits x)))"

end
