(* ===== verification/Big_Int_Value.thy ===== *)
theory Big_Int_Value
  imports Big_Int
begin

text \<open>
  The abstraction of \<open>BigInt.js\<close>: a digit array stands for the number \<open>vald\<close> it writes in
  base 65536, a \<open>bigint\<close> for the signed number \<open>bival\<close>. \<open>wf_bi N x\<close> says that \<open>x\<close> has
  \<open>N\<close> digits, all integers from 0 to 65535. Each operation keeps \<open>wf_bi\<close> and computes the
  operation on numbers, as long as the result fits in \<open>N\<close> digits.
\<close>

section \<open>Digits and values\<close>

fun dval :: "jsnum \<Rightarrow> int" where
  "dval (Num v) = v"
| "dval _ = 0"

fun is_digit :: "jsnum \<Rightarrow> bool" where
  "is_digit (Num v) = (0 \<le> v \<and> v < 65536)"
| "is_digit _ = False"

fun vald :: "jsnum list \<Rightarrow> int" where
  "vald [] = 0"
| "vald (d # ds) = dval d + 65536 * vald ds"

abbreviation all_digits :: "jsnum list \<Rightarrow> bool" where
  "all_digits ds \<equiv> list_all is_digit ds"

definition wf_bi :: "nat \<Rightarrow> bigint \<Rightarrow> bool" where
  "wf_bi N x \<longleftrightarrow> length (digits x) = N \<and> all_digits (digits x)"

definition bival :: "bigint \<Rightarrow> int" where
  "bival x = (if isNeg x then - vald (digits x) else vald (digits x))"

lemma is_digitD: "is_digit d \<Longrightarrow> d = Num (dval d) \<and> 0 \<le> dval d \<and> dval d < 65536"
  by (cases d) auto

lemma all_digits_nth:
  assumes "all_digits ds" and "i < length ds"
  shows "ds ! i = Num (dval (ds ! i))" "0 \<le> dval (ds ! i)" "dval (ds ! i) < 65536"
  using assms is_digitD [of "ds ! i"] by (auto simp: list_all_length)

lemma digit_obtain:
  assumes "all_digits ds" and "i < length ds"
  obtains v where "ds ! i = Num v" "0 \<le> v" "v < 65536"
  using all_digits_nth [OF assms] by blast

lemma vald_append: "vald (xs @ ys) = vald xs + 65536 ^ length xs * vald ys"
  by (induction xs) (auto simp: algebra_simps)

lemma vald_nonneg: "all_digits ds \<Longrightarrow> 0 \<le> vald ds"
  by (induction ds) (auto dest: is_digitD)

lemma vald_less: "all_digits ds \<Longrightarrow> vald ds < 65536 ^ length ds"
proof (induction ds)
  case Nil
  then show ?case by simp
next
  case (Cons d ds)
  then have "vald ds + 1 \<le> 65536 ^ length ds" and "dval d < 65536" by (auto dest: is_digitD)
  then have "65536 * (vald ds + 1) \<le> 65536 * 65536 ^ length ds" by simp
  with \<open>dval d < 65536\<close> show ?case by simp
qed

lemma vald_replicate [simp]: "vald (replicate n (Num 0)) = 0"
  by (induction n) auto

lemma vald_take_Suc:
  "i < length ds \<Longrightarrow> vald (take (Suc i) ds) = vald (take i ds) + dval (ds ! i) * 65536 ^ i"
  by (simp add: take_Suc_snoc vald_append)

lemma vald_split: "vald ds = vald (take i ds) + 65536 ^ min i (length ds) * vald (drop i ds)"
  by (metis append_take_drop_id length_take min.commute vald_append)

lemma vald_update:
  "i < length ds \<Longrightarrow> vald (ds[i := d]) = vald ds + (dval d - dval (ds ! i)) * 65536 ^ i"
proof -
  assume i: "i < length ds"
  then have "vald ds = vald (take i ds) + 65536 ^ i * (dval (ds ! i) + 65536 * vald (drop (Suc i) ds))"
    using id_take_nth_drop [OF i] vald_append [of "take i ds" "ds ! i # drop (Suc i) ds"]
    by (simp add: min_absorb2)
  with i show ?thesis
    by (simp add: upd_conv_take_nth_drop vald_append min_absorb2 algebra_simps)
qed

lemma all_digits_take: "all_digits ds \<Longrightarrow> all_digits (take n ds)"
  and all_digits_drop: "all_digits ds \<Longrightarrow> all_digits (drop n ds)"
  by (auto simp: list_all_iff dest: in_set_takeD in_set_dropD)

lemma vald_take:
  assumes "all_digits ds"
  shows "vald (take n ds) = vald ds mod 65536 ^ n"
proof (cases "n \<le> length ds")
  case True
  have b: "0 \<le> vald (take n ds)" "vald (take n ds) < 65536 ^ n"
    using vald_nonneg [OF all_digits_take [OF assms]] vald_less [OF all_digits_take [OF assms], of n] True
    by (auto simp: min_absorb2)
  have "vald ds = vald (take n ds) + 65536 ^ n * vald (drop n ds)"
    using vald_split [of ds n] True by (simp add: min_absorb1)
  then have "vald ds mod 65536 ^ n = vald (take n ds) mod 65536 ^ n" by simp
  with b show ?thesis by simp
next
  case False
  then have "(65536 :: int) ^ length ds \<le> 65536 ^ n" by (intro power_increasing) auto
  then have "vald ds < 65536 ^ n" using vald_less [OF assms] by linarith
  with False vald_nonneg [OF assms] show ?thesis by simp
qed

lemma vald_drop:
  assumes "all_digits ds"
  shows "vald (drop n ds) = vald ds div 65536 ^ n"
proof (cases "n \<le> length ds")
  case True
  have b: "0 \<le> vald (take n ds)" "vald (take n ds) < 65536 ^ n"
    using assms by (simp_all add: vald_take)
  have "vald ds = vald (take n ds) + 65536 ^ n * vald (drop n ds)"
    using vald_split [of ds n] True by (simp add: min_absorb1)
  with b show ?thesis by simp
next
  case False
  then have "(65536 :: int) ^ length ds \<le> 65536 ^ n" by (intro power_increasing) auto
  then have "vald ds < 65536 ^ n" using vald_less [OF assms] by linarith
  with False vald_nonneg [OF assms] show ?thesis by simp
qed

lemma dval_nth:
  assumes "all_digits ds" and "i < length ds"
  shows "dval (ds ! i) = vald ds div 65536 ^ i mod 65536"
proof -
  have "vald (drop i ds) = dval (ds ! i) + 65536 * vald (drop (Suc i) ds)"
    using assms(2) by (simp add: Cons_nth_drop_Suc [symmetric])
  with all_digits_nth [OF assms] show ?thesis
    by (simp add: vald_drop [OF assms(1), symmetric])
qed

text \<open>Two well-formed arrays of one length with one value are equal.\<close>

lemma vald_inj:
  assumes "all_digits xs" and "all_digits ys" and "length xs = length ys" and "vald xs = vald ys"
  shows "xs = ys"
proof (rule nth_equalityI)
  fix i assume "i < length xs"
  with assms show "xs ! i = ys ! i"
    by (metis all_digits_nth(1) dval_nth)
qed (rule assms(3))

lemma length_ZERO_ARRAY [simp]: "length (ZERO_ARRAY N) = N"
  and ZERO_ARRAY_replicate: "ZERO_ARRAY N = replicate N (Num 0)"
proof -
  have *: "i \<le> N \<longrightarrow> a = replicate i (Num 0) @ replicate (N - i) Undef"
    if "i = N" "a = ZERO_ARRAY N" for i a
    unfolding that ZERO_ARRAY_def
  proof (rule for_invariant [where P = "\<lambda>i a. i \<le> N \<longrightarrow> a = replicate i (Num 0) @ replicate (N - i) Undef"])
    fix i a
    assume i: "i < N" and "i \<le> N \<longrightarrow> a = replicate i (Num 0) @ replicate (N - i) Undef"
    then have "a = replicate i (Num 0) @ replicate (N - i) Undef" by simp
    then have a: "a = replicate i (Num 0) @ Undef # replicate (N - Suc i) Undef"
      using i by (metis Suc_diff_Suc replicate_Suc)
    have "wr a (int i) (Num 0) = (replicate i (Num 0) @ [Num 0]) @ replicate (N - Suc i) Undef"
      using i unfolding a by (simp add: list_update_append)
    then show "Suc i \<le> N \<longrightarrow>
        wr a (int i) (Num 0) = replicate (Suc i) (Num 0) @ replicate (N - Suc i) Undef"
      by (simp add: replicate_append_same)
  qed simp
  then show "ZERO_ARRAY N = replicate N (Num 0)" by simp
  then show "length (ZERO_ARRAY N) = N" by simp
qed

lemma all_digits_ZERO [simp]: "all_digits (ZERO_ARRAY N)"
  and vald_ZERO [simp]: "vald (ZERO_ARRAY N) = 0"
  by (simp_all add: ZERO_ARRAY_replicate list_all_iff)

lemma ZERO_nth [simp]: "i < N \<Longrightarrow> ZERO_ARRAY N ! i = Num 0"
  by (simp add: ZERO_ARRAY_replicate)

lemma wf_biD [dest]: "wf_bi N x \<Longrightarrow> length (digits x) = N" "wf_bi N x \<Longrightarrow> all_digits (digits x)"
  by (auto simp: wf_bi_def)

lemma bival_nonneg: "\<not> isNeg x \<Longrightarrow> wf_bi N x \<Longrightarrow> 0 \<le> bival x"
  by (auto simp: bival_def intro: vald_nonneg)

lemma wf_new [simp, wf_intros]: "wf_bi N (new_BigInt N)" and bival_new [simp]: "bival (new_BigInt N) = 0"
  by (auto simp: wf_bi_def new_BigInt_def bival_def)

lemma wf_bigOne [simp, wf_intros]: "0 < N \<Longrightarrow> wf_bi N (bigOne N)"
  and bival_bigOne [simp]: "0 < N \<Longrightarrow> bival (bigOne N) = 1"
  and isNeg_bigOne [simp]: "\<not> isNeg (bigOne N)"
  using wr_update [of 0 "ZERO_ARRAY N" "Num 1"]
  by (auto simp: wf_bi_def bigOne_def new_BigInt_def bival_def vald_update list_all_update)

end
