(* ===== verification/Big_Int_Arith.thy ===== *)
theory Big_Int_Arith
  imports Big_Int_Value
begin

text \<open>
  The operations of \<open>BigInt.js\<close> below division compute sums, differences, products, shifts and
  comparisons of the numbers the arrays stand for.
\<close>

section \<open>Addition\<close>

definition add_inv :: "nat \<Rightarrow> jsnum list \<Rightarrow> jsnum list \<Rightarrow> nat \<Rightarrow> jsnum list \<times> jsnum \<Rightarrow> bool" where
  "add_inv N xs ys i = (\<lambda>(rs, c).
     length rs = N \<and> all_digits rs \<and> c = Num (dval c) \<and> dval c \<in> {0, 1} \<and>
     vald (take i rs) + dval c * 65536 ^ i = vald (take i xs) + vald (take i ys))"

lemma add_step_inv:
  assumes "all_digits xs" "all_digits ys" "length xs = N" "length ys = N"
    and "i < N" "add_inv N xs ys i s"
  shows "add_inv N xs ys (Suc i) (add_step xs ys i s)"
proof -
  obtain rs c where s: "s = (rs, Num c)" and l: "length rs = N" and d: "all_digits rs" and c: "c = 0 \<or> c = 1"
    and v: "vald (take i rs) + c * 65536 ^ i = vald (take i xs) + vald (take i ys)"
    using assms(6) by (cases s) (auto simp: add_inv_def)
  obtain x where x: "xs ! i = Num x" "0 \<le> x" "x < 65536"
    using digit_obtain [OF assms(1)] assms(3,5) by metis
  obtain y where y: "ys ! i = Num y" "0 \<le> y" "y < 65536"
    using digit_obtain [OF assms(2)] assms(4,5) by metis
  define n where "n = x + y + c"
  define m b where "m = n mod 65536" and "b = (of_bool (65536 \<le> n) :: int)"
  have n: "n = m + b * 65536"
  proof (cases "65536 \<le> n")
    case True
    then have "(n - 65536) mod 65536 = n - 65536" using x y c by (intro mod_pos_pos_trivial) (auto simp: n_def)
    then have "n mod 65536 = n - 65536" by simp
    with True show ?thesis by (simp add: m_def b_def)
  next
    case False
    with x y c show ?thesis by (auto simp: n_def m_def b_def)
  qed
  have step: "add_step xs ys i s = (rs[i := Num m], Num b)"
    using assms(3-5) l x y by (simp add: s add_step_def n_def m_def b_def js_simps)
  have "vald (take (Suc i) xs) + vald (take (Suc i) ys)
        = vald (take i rs) + n * 65536 ^ i"
    using v assms(3-5) x y by (simp add: vald_take_Suc n_def algebra_simps)
  also have "\<dots> = vald (take i rs) + m * 65536 ^ i + b * 65536 ^ Suc i"
    by (simp add: n algebra_simps)
  finally have "vald (take i rs) + m * 65536 ^ i + b * 65536 ^ Suc i
      = vald (take (Suc i) xs) + vald (take (Suc i) ys)" by (rule sym)
  moreover have "vald (take (Suc i) (rs[i := Num m])) = vald (take i rs) + m * 65536 ^ i"
    using assms(5) l by (simp add: vald_take_Suc)
  moreover have "is_digit (Num m)" by (simp add: m_def)
  moreover have "b = 0 \<or> b = 1" by (simp add: b_def)
  ultimately show ?thesis
    unfolding step add_inv_def using l list_all_update [OF d] by auto
qed

lemma biAdd_digits:
  assumes "all_digits xs" "all_digits ys" "length xs = N" "length ys = N"
    and "vald xs + vald ys < 65536 ^ N"
  shows "length (biAdd_digits N xs ys) = N \<and> all_digits (biAdd_digits N xs ys) \<and>
         vald (biAdd_digits N xs ys) = vald xs + vald ys"
proof -
  define s where "s = fold (add_step xs ys) [0..<N] (ZERO_ARRAY N, Num 0)"
  have "add_inv N xs ys N s"
    unfolding s_def
    by (rule for_invariant [where P = "add_inv N xs ys"])
      (use assms in \<open>auto simp: add_inv_def [of _ _ _ 0] intro!: add_step_inv\<close>)
  then obtain rs c where s: "s = (rs, Num c)" and l: "length rs = N" "all_digits rs" "c = 0 \<or> c = 1"
    and v: "vald rs + c * 65536 ^ N = vald xs + vald ys"
    using assms by (cases s) (auto simp: add_inv_def)
  have "0 \<le> vald rs" using l(2) by (rule vald_nonneg)
  with v assms(5) have "c \<noteq> 1" by auto
  with l v show ?thesis using assms(3) by (simp add: biAdd_digits_def s_def [symmetric] s)
qed

section \<open>Subtraction\<close>

lemma fix_digit_mod [simp]: "fix_digit (Num (n mod 65536)) = Num (n mod 65536)"
  by (simp add: fix_digit_def not_less)

text \<open>One step of either loop: the difference at \<open>i\<close> enters with weight \<open>65536 ^ i\<close>.\<close>

definition sub_inv :: "nat \<Rightarrow> (nat \<Rightarrow> int) \<Rightarrow> nat \<Rightarrow> jsnum list \<times> jsnum \<Rightarrow> bool" where
  "sub_inv N tot i = (\<lambda>(rs, c).
     length rs = N \<and> all_digits rs \<and> c = Num (dval c) \<and> dval c \<in> {0, - 1} \<and>
     vald (take i rs) + dval c * 65536 ^ i = tot i)"

lemma sub_step_inv:
  assumes "i < N" "sub_inv N tot i (rs, c)"
    and "diff i rs = Num v" "- 65536 < v" "v < 65536"
    and "tot (Suc i) = tot i + v * 65536 ^ i"
  shows "sub_inv N tot (Suc i) (sub_step diff i (rs, c))
    \<and> drop (Suc i) (fst (sub_step diff i (rs, c))) = drop (Suc i) rs"
proof -
  obtain cv where c: "c = Num cv" "cv = 0 \<or> cv = - 1" and l: "length rs = N" and d: "all_digits rs"
    and t: "vald (take i rs) + cv * 65536 ^ i = tot i"
    using assms(2) by (auto simp: sub_inv_def)
  define n where "n = v + cv"
  define m b where "m = n mod 65536" and "b = (of_bool (n < 0) :: int)"
  have n: "n = m - b * 65536"
  proof (cases "n < 0")
    case True
    then have "(n + 65536) mod 65536 = n + 65536" using c assms(4) by (intro mod_pos_pos_trivial) (auto simp: n_def)
    then have "n mod 65536 = n + 65536" by simp
    with True show ?thesis by (simp add: m_def b_def)
  next
    case False
    with c assms(5) show ?thesis by (auto simp: n_def m_def b_def)
  qed
  have step: "sub_step diff i (rs, c) = (rs[i := Num m], Num (- b))"
    using assms(1,3) l by (simp add: sub_step_def n_def c m_def b_def js_simps)
  have "tot (Suc i) = vald (take i rs) + n * 65536 ^ i"
    using t assms(6) by (simp add: n_def algebra_simps)
  also have "\<dots> = vald (take i rs) + m * 65536 ^ i - b * 65536 ^ Suc i"
    by (simp add: n algebra_simps)
  finally have "vald (take i rs) + m * 65536 ^ i + - b * 65536 ^ Suc i = tot (Suc i)" by simp
  moreover have "vald (take (Suc i) (rs[i := Num m])) = vald (take i rs) + m * 65536 ^ i"
    using assms(1) l by (simp add: vald_take_Suc)
  moreover have "is_digit (Num m)" by (simp add: m_def)
  moreover have "b = 0 \<or> b = 1" by (simp add: b_def)
  ultimately show ?thesis
    unfolding step sub_inv_def using l list_all_update [OF d] by auto
qed

lemma biSub_digits:
  assumes "all_digits xs" "all_digits ys" "length xs = N" "length ys = N"
  shows "\<exists>rs c. biSub_digits N xs ys = (rs, Num c) \<and> length rs = N \<and> all_digits rs \<and>
    (c = 0 \<or> c = - 1) \<and> vald rs + c * 65536 ^ N = vald xs - vald ys"
proof -
  let ?total = "\<lambda>i. vald (take i xs) - vald (take i ys)"
  have "sub_inv N ?total N (biSub_digits N xs ys)"
    unfolding biSub_digits_def assms(3)
  proof (rule for_invariant [where P = "sub_inv N ?total"])
    fix i and s :: "jsnum list \<times> jsnum"
    assume i: "i < N" and inv: "sub_inv N ?total i s"
    obtain rs c where s: "s = (rs, c)" by force
    obtain x where x: "xs ! i = Num x" "0 \<le> x" "x < 65536"
      using digit_obtain [OF assms(1)] assms(3) i by metis
    obtain y where y: "ys ! i = Num y" "0 \<le> y" "y < 65536"
      using digit_obtain [OF assms(2)] assms(4) i by metis
    show "sub_inv N ?total (Suc i) (sub_step (\<lambda>i rs. js_sub (rd xs (int i)) (rd ys (int i))) i s)"
      unfolding s
      by (rule sub_step_inv [where v = "x - y", THEN conjunct1, OF i inv [unfolded s]])
        (use x y i assms(3,4) in \<open>simp_all add: vald_take_Suc algebra_simps\<close>)
  qed (simp add: sub_inv_def)
  then show ?thesis
    using assms by (auto simp: sub_inv_def split: prod.splits)
qed

lemma biNeg_digits:
  assumes "length xs = N" "all_digits rs" "length rs = N" "0 < vald rs"
  shows "length (biNeg_digits xs rs) = N \<and> all_digits (biNeg_digits xs rs) \<and>
    vald (biNeg_digits xs rs) = 65536 ^ N - vald rs"
proof -
  let ?total = "\<lambda>i. - vald (take i rs)"
  define s where "s = fold (sub_step (\<lambda>i rs. js_sub (Num 0) (rd rs (int i)))) [0..<N] (rs, Num 0)"
  have "sub_inv N ?total N s \<and> drop N (fst s) = drop N rs"
    unfolding s_def
  proof (rule for_invariant [where P = "\<lambda>i s. sub_inv N ?total i s \<and> drop i (fst s) = drop i rs"])
    fix i and s :: "jsnum list \<times> jsnum"
    assume i: "i < N" and inv: "sub_inv N ?total i s \<and> drop i (fst s) = drop i rs"
    obtain as c where s: "s = (as, c)" by force
    have "length as = N" using inv by (simp add: s sub_inv_def)
    then have "as ! i = rs ! i"
      using inv i assms(3) by (metis Cons_nth_drop_Suc fst_conv nth_via_drop s)
    obtain r where r: "rs ! i = Num r" "0 \<le> r" "r < 65536"
      using digit_obtain [OF assms(2)] assms(3) i by metis
    have "sub_inv N ?total (Suc i) (sub_step (\<lambda>i rs. js_sub (Num 0) (rd rs (int i))) i s) \<and>
        drop (Suc i) (fst (sub_step (\<lambda>i rs. js_sub (Num 0) (rd rs (int i))) i s)) = drop (Suc i) as"
      unfolding s
      by (rule sub_step_inv [where v = "- r", OF i])
        (use r i inv assms(3) \<open>length as = N\<close> \<open>as ! i = rs ! i\<close> in \<open>simp_all add: s vald_take_Suc\<close>)
    moreover have "drop (Suc i) as = drop (Suc i) rs"
      using inv by (metis drop_Suc fst_conv s tl_drop)
    ultimately show "sub_inv N ?total (Suc i) (sub_step (\<lambda>i rs. js_sub (Num 0) (rd rs (int i))) i s) \<and>
        drop (Suc i) (fst (sub_step (\<lambda>i rs. js_sub (Num 0) (rd rs (int i))) i s)) = drop (Suc i) rs"
      by simp
  qed (use assms in \<open>simp add: sub_inv_def\<close>)
  then obtain as c where s: "s = (as, Num c)" "length as = N" "all_digits as" "c = 0 \<or> c = - 1"
    "vald as + c * 65536 ^ N = - vald rs"
    using assms by (cases s) (auto simp: sub_inv_def)
  have "0 \<le> vald as" using s(3) by (rule vald_nonneg)
  with s assms(4) have "c = - 1" by auto
  with s assms(1) show ?thesis by (simp add: biNeg_digits_def s_def [symmetric])
qed

lemma biSubtract_same:
  assumes "wf_bi N x" "wf_bi N y" "isNeg x = isNeg y"
  shows "wf_bi N (biSubtract N x y) \<and> bival (biSubtract N x y) = bival x - bival y \<and>
    (isNeg (biSubtract N x y) \<longleftrightarrow> (if vald (digits x) < vald (digits y) then \<not> isNeg x else isNeg x))"
proof -
  have x: "all_digits (digits x)" "length (digits x) = N" and y: "all_digits (digits y)" "length (digits y) = N"
    using assms by auto
  obtain rs c where rs: "biSub_digits N (digits x) (digits y) = (rs, Num c)" "length rs = N" "all_digits rs"
    "c = 0 \<or> c = - 1" "vald rs + c * 65536 ^ N = vald (digits x) - vald (digits y)"
    using biSub_digits [OF x(1) y(1) x(2) y(2)] by blast
  have b: "0 \<le> vald rs" "vald rs < 65536 ^ N"
    using vald_nonneg vald_less rs by blast+
  show ?thesis
  proof (cases "c = - 1")
    case True
    have "0 < vald rs" using True rs(5) vald_nonneg [OF x(1)] vald_less [OF y(1)] y(2) by auto
    note neg = biNeg_digits [OF x(2) rs(3,2) this]
    have "vald (digits x) < vald (digits y)" using True rs b by auto
    then show ?thesis
      using True rs neg assms(3) by (simp add: biSubtract.simps wf_bi_def bival_def)
  next
    case False
    with rs b have "\<not> vald (digits x) < vald (digits y)" by auto
    with False rs assms(3) show ?thesis
      by (auto simp: biSubtract.simps wf_bi_def bival_def)
  qed
qed

lemma biAdd_same:
  assumes "wf_bi N x" "wf_bi N y" "isNeg x = isNeg y"
    and "vald (digits x) + vald (digits y) < 65536 ^ N"
  shows "wf_bi N (biAdd N x y) \<and> bival (biAdd N x y) = bival x + bival y \<and> isNeg (biAdd N x y) = isNeg x"
  using biAdd_digits [of "digits x" "digits y" N] assms wf_biD [OF assms(1)] wf_biD [OF assms(2)]
  by (auto simp: biAdd.simps wf_bi_def bival_def)

lemma wf_bi_flip [simp]: "wf_bi N (y\<lparr>isNeg := b\<rparr>) = wf_bi N y"
  by (simp add: wf_bi_def)

lemma bival_flip: "bival (y\<lparr>isNeg := \<not> isNeg y\<rparr>) = - bival y"
  by (simp add: bival_def)

lemma abs_bival: "wf_bi N x \<Longrightarrow> \<bar>bival x\<bar> = vald (digits x)"
  using vald_nonneg [of "digits x"] by (auto simp: bival_def)

lemma abs_bival_less: "wf_bi N x \<Longrightarrow> \<bar>bival x\<bar> < 65536 ^ N"
  using vald_less [of "digits x"] by (auto simp: abs_bival)

lemma vald_bival: "wf_bi N x \<Longrightarrow> \<not> isNeg x \<Longrightarrow> vald (digits x) = bival x"
  by (simp add: bival_def)

theorem biAdd_correct:
  assumes "wf_bi N x" "wf_bi N y" "\<bar>bival x + bival y\<bar> < 65536 ^ N"
  shows "wf_bi N (biAdd N x y)" "bival (biAdd N x y) = bival x + bival y"
proof -
  have "wf_bi N (biAdd N x y) \<and> bival (biAdd N x y) = bival x + bival y"
  proof (cases "isNeg x = isNeg y")
    case True
    have "vald (digits x) + vald (digits y) < 65536 ^ N"
      using True assms by (auto simp: bival_def split: if_splits)
    then show ?thesis using biAdd_same assms True by blast
  next
    case False
    then have "biAdd N x y = biSubtract N x (y\<lparr>isNeg := \<not> isNeg y\<rparr>)" by (simp add: biAdd.simps)
    with biSubtract_same [of N x "y\<lparr>isNeg := \<not> isNeg y\<rparr>"] assms False
    show ?thesis by (simp add: bival_flip)
  qed
  then show "wf_bi N (biAdd N x y)" "bival (biAdd N x y) = bival x + bival y" by auto
qed

theorem biSubtract_correct:
  assumes "wf_bi N x" "wf_bi N y" "\<bar>bival x - bival y\<bar> < 65536 ^ N"
  shows "wf_bi N (biSubtract N x y)" "bival (biSubtract N x y) = bival x - bival y"
proof -
  have "wf_bi N (biSubtract N x y) \<and> bival (biSubtract N x y) = bival x - bival y"
  proof (cases "isNeg x = isNeg y")
    case True
    then show ?thesis using biSubtract_same assms by blast
  next
    case False
    then have "biSubtract N x y = biAdd N x (y\<lparr>isNeg := \<not> isNeg y\<rparr>)" by (subst biSubtract.simps) simp
    moreover have "vald (digits x) + vald (digits y) < 65536 ^ N"
      using False assms by (auto simp: bival_def split: if_splits)
    ultimately show ?thesis
      using biAdd_same [of N x "y\<lparr>isNeg := \<not> isNeg y\<rparr>"] assms False by (simp add: bival_flip)
  qed
  then show "wf_bi N (biSubtract N x y)" "bival (biSubtract N x y) = bival x - bival y" by auto
qed

lemma biSubtract_nonneg:
  assumes "wf_bi N x" "wf_bi N y" "\<not> isNeg x" "\<not> isNeg y"
  shows "wf_bi N (biSubtract N x y)" "bival (biSubtract N x y) = bival x - bival y"
    "isNeg (biSubtract N x y) \<longleftrightarrow> bival x < bival y"
  using biSubtract_same [of N x y] assms by (auto simp: bival_def)

end
