(* ===== verification/Big_Int_Mul.thy ===== *)
theory Big_Int_Mul
  imports Big_Int_Arith
begin

text \<open>
  The highest digit in use, the schoolbook multiplication, multiplication by one digit and
  comparison.
\<close>

section \<open>The highest index\<close>

lemma biHighIndex_loop:
  assumes "all_digits ds" "r < length ds" "vald (drop (Suc r) ds) = 0"
  shows "biHighIndex_loop ds r \<le> r \<and> vald (drop (Suc (biHighIndex_loop ds r)) ds) = 0 \<and>
    (biHighIndex_loop ds r > 0 \<longrightarrow> dval (ds ! biHighIndex_loop ds r) \<noteq> 0)"
  using assms
proof (induction r)
  case 0
  then show ?case by simp
next
  case (Suc r)
  obtain v where v: "ds ! Suc r = Num v" using digit_obtain [OF Suc.prems(1,2)] by metis
  have e: "rd ds (1 + int r) = Num v" using v Suc.prems(2) rd_nth [of "Suc r" ds] by simp
  show ?case
  proof (cases "v = 0")
    case True
    have "vald (drop (Suc r) ds) = 0"
      using True v Suc.prems(2,3) by (simp add: Cons_nth_drop_Suc [symmetric])
    with Suc e True show ?thesis by simp
  next
    case False
    with Suc.prems e v show ?thesis by simp
  qed
qed

lemma biHighIndex:
  assumes "wf_bi N x" "0 < N"
  shows biHighIndex_less: "biHighIndex x < N"
    and vald_take_high: "vald (take (Suc (biHighIndex x)) (digits x)) = vald (digits x)"
    and vald_less_high: "vald (digits x) < 65536 ^ Suc (biHighIndex x)"
    and high_le_vald: "biHighIndex x > 0 \<Longrightarrow> 65536 ^ biHighIndex x \<le> vald (digits x)"
proof -
  let ?h = "biHighIndex x" and ?ds = "digits x"
  have d: "all_digits ?ds" "length ?ds = N" using assms(1) by auto
  have h: "?h \<le> N - 1 \<and> vald (drop (Suc ?h) ?ds) = 0 \<and> (?h > 0 \<longrightarrow> dval (?ds ! ?h) \<noteq> 0)"
    using biHighIndex_loop [OF d(1), of "N - 1"] assms(2) d(2) by (simp add: biHighIndex_def)
  then show lt: "?h < N" using assms(2) by linarith
  show take: "vald (take (Suc ?h) ?ds) = vald ?ds"
    using h vald_split [of ?ds "Suc ?h"] by simp
  show "vald ?ds < 65536 ^ Suc ?h"
    using vald_less [OF all_digits_take [OF d(1)], of "Suc ?h"] lt d(2) take by (simp add: min_absorb2)
  assume "?h > 0"
  with h have "dval (?ds ! ?h) \<noteq> 0" by simp
  with all_digits_nth [OF d(1), of ?h] lt d(2) have "1 \<le> dval (?ds ! ?h)" by simp
  then have "1 * 65536 ^ ?h \<le> dval (?ds ! ?h) * 65536 ^ ?h" by (rule mult_right_mono) simp
  moreover have "0 \<le> vald (take ?h ?ds)" using d(1) by (intro vald_nonneg all_digits_take)
  moreover have "vald ?ds = vald (take ?h ?ds) + dval (?ds ! ?h) * 65536 ^ ?h"
    using take lt d(2) by (simp add: vald_take_Suc)
  ultimately show "65536 ^ ?h \<le> vald ?ds" by linarith
qed

lemma biHighIndex_le:
  assumes "wf_bi N x" "0 < N" "\<bar>bival x\<bar> < 65536 ^ Suc a"
  shows "biHighIndex x \<le> a"
proof (rule ccontr)
  assume "\<not> biHighIndex x \<le> a"
  then have "biHighIndex x > 0" "Suc a \<le> biHighIndex x" by auto
  then have "(65536 :: int) ^ Suc a \<le> 65536 ^ biHighIndex x" by (intro power_increasing) auto
  also have "\<dots> \<le> \<bar>bival x\<bar>"
    using high_le_vald [OF assms(1,2)] \<open>biHighIndex x > 0\<close> assms(1) by (simp add: abs_bival)
  finally show False using assms(3) by simp
qed

lemma biHighIndex_ge:
  assumes "wf_bi N x" "0 < N" "65536 ^ a \<le> \<bar>bival x\<bar>"
  shows "a \<le> biHighIndex x"
proof (rule ccontr)
  assume "\<not> a \<le> biHighIndex x"
  then have "(65536 :: int) ^ Suc (biHighIndex x) \<le> 65536 ^ a" by (intro power_increasing) auto
  with vald_less_high [OF assms(1,2)] assms(3) show False
    using assms(1) by (simp add: abs_bival)
qed

section \<open>Multiplication\<close>

definition mul_inv :: "nat \<Rightarrow> jsnum list \<Rightarrow> jsnum list \<Rightarrow> int \<Rightarrow> nat \<Rightarrow> nat \<Rightarrow> jsnum list \<times> jsnum \<Rightarrow> bool" where
  "mul_inv N rs0 xs y i j = (\<lambda>(rs, c).
     length rs = N \<and> all_digits rs \<and> (\<exists>cv. c = Num cv \<and> 0 \<le> cv \<and> cv < 65536 \<and>
       vald rs + cv * 65536 ^ (i + j) = vald rs0 + y * vald (take j xs) * 65536 ^ i) \<and>
     drop (i + j) rs = drop (i + j) rs0)"

lemma mul_bound:
  assumes "0 \<le> r" "r < 65536" "0 \<le> x" "x < 65536" "0 \<le> y" "y < 65536" "0 \<le> c" "c < (65536 :: int)"
  shows "0 \<le> r + x * y + c" "r + x * y + c < 4294967296"
proof -
  have "x * y \<le> 65535 * 65535" using assms by (intro mult_mono) auto
  with assms show "0 \<le> r + x * y + c" "r + x * y + c < 4294967296" by auto
qed

lemma mul_step_inv:
  assumes xs: "all_digits xs" "j < length xs" and y: "0 \<le> y" "y < 65536"
    and k: "i + j < N" and inv: "mul_inv N rs0 xs y i j s"
  shows "mul_inv N rs0 xs y i (Suc j) (mul_step xs (Num y) i j s)"
proof -
  obtain rs c where s: "s = (rs, Num c)" and l: "length rs = N" and d: "all_digits rs"
    and c: "0 \<le> c" "c < 65536"
    and v: "vald rs + c * 65536 ^ (i + j) = vald rs0 + y * vald (take j xs) * 65536 ^ i"
    and dr: "drop (i + j) rs = drop (i + j) rs0"
    using inv by (cases s) (auto simp: mul_inv_def)
  obtain x where x: "xs ! j = Num x" "0 \<le> x" "x < 65536" using digit_obtain [OF xs] by metis
  obtain r where r: "rs ! (i + j) = Num r" "0 \<le> r" "r < 65536" using digit_obtain [OF d] l k by metis
  define uv where "uv = r + x * y + c"
  have uv: "0 \<le> uv" "uv < 4294967296" using mul_bound r x y c by (auto simp: uv_def)
  define m q where "m = uv mod 65536" and "q = uv div 65536"
  have mq: "uv = m + q * 65536" "0 \<le> q" "q < 65536" "is_digit (Num m)"
    using uv by (auto simp: m_def q_def)
  have "rd rs (int (i + j)) = Num r" "rd xs (int j) = Num x"
    using k l x r xs(2) by (simp_all only: rd_nth)
  then have step: "mul_step xs (Num y) i j s = (rs[i + j := Num m], Num q)"
    using k l uv wr_update [of "i + j" rs] by (simp add: s mul_step_def Let_def uv_def [symmetric] m_def q_def js_simps)
  have "vald (rs[i + j := Num m]) + q * 65536 ^ (i + Suc j) = vald rs + (m + q * 65536 - r) * 65536 ^ (i + j)"
    using k l r by (simp add: vald_update algebra_simps)
  also have "\<dots> = vald rs + c * 65536 ^ (i + j) + x * y * 65536 ^ (i + j)"
    unfolding mq(1) [symmetric] by (simp add: uv_def algebra_simps)
  also have "\<dots> = vald rs0 + y * vald (take (Suc j) xs) * 65536 ^ i"
    unfolding v using xs(2) x by (simp add: vald_take_Suc power_add algebra_simps)
  finally have "vald (rs[i + j := Num m]) + q * 65536 ^ (i + Suc j)
      = vald rs0 + y * vald (take (Suc j) xs) * 65536 ^ i" .
  moreover have "drop (i + Suc j) (rs[i + j := Num m]) = drop (i + Suc j) rs0"
    using dr by (metis add_Suc_right drop_Suc drop_update_cancel lessI tl_drop)
  ultimately show ?thesis
    unfolding step mul_inv_def using mq(2,3) l list_all_update [OF d mq(4)] by auto
qed

lemma mul_row_correct:
  assumes xs: "all_digits xs" "n < length xs" "vald (take (Suc n) xs) = vald xs"
    and ys: "rd ys (int i) = Num y" "0 \<le> y" "y < 65536"
    and i: "i + n + 1 < N" and rs: "length rs = N" "all_digits rs"
    and z: "drop (i + n + 1) rs = replicate (N - (i + n + 1)) (Num 0)"
  shows "length (mul_row xs n ys i rs) = N \<and> all_digits (mul_row xs n ys i rs) \<and>
    vald (mul_row xs n ys i rs) = vald rs + y * vald xs * 65536 ^ i \<and>
    drop (Suc i + n + 1) (mul_row xs n ys i rs) = replicate (N - (Suc i + n + 1)) (Num 0)"
proof -
  define s where "s = fold (mul_step xs (Num y) i) [0..<Suc n] (rs, Num 0)"
  have "mul_inv N rs xs y i (Suc n) s"
    unfolding s_def
  proof (rule for_invariant [where P = "mul_inv N rs xs y i"])
    show "mul_inv N rs xs y i 0 (rs, Num 0)" using rs by (simp add: mul_inv_def)
  qed (use xs ys i in \<open>auto intro!: mul_step_inv\<close>)
  then obtain as c where s: "s = (as, Num c)" and as: "length as = N" "all_digits as" and c: "0 \<le> c" "c < 65536"
    and v: "vald as + c * 65536 ^ (i + n + 1) = vald rs + y * vald xs * 65536 ^ i"
    and dr: "drop (i + n + 1) as = replicate (N - (i + n + 1)) (Num 0)"
    using z xs(3) by (cases s) (auto simp: mul_inv_def)
  have "as ! (i + n + 1) = Num 0"
    using dr i as(1) by (metis Cons_nth_drop_Suc Suc_diff_Suc list.inject replicate_Suc)
  moreover have "mul_row xs n ys i rs = as[i + n + 1 := Num c]"
    using i as(1) wr_update [of "i + n + 1" as] by (simp add: mul_row_def ys(1) s_def [symmetric] s del: upt_Suc)
  moreover have "drop (Suc i + n + 1) (as[i + n + 1 := Num c]) = replicate (N - (Suc i + n + 1)) (Num 0)"
    using dr i by (metis add_Suc add_Suc_shift diff_Suc_Suc drop_Suc drop_replicate drop_update_cancel lessI
        Nat.diff_diff_right Suc_diff_Suc replicate_Suc list.sel(3) tl_drop)
  ultimately show ?thesis
    using v i as c by (auto simp: vald_update list_all_update)
qed

theorem biMultiply_correct:
  assumes "wf_bi N x" "wf_bi N y" and fits: "biHighIndex x + biHighIndex y + 1 < N"
  shows "wf_bi N (biMultiply N x y)" "bival (biMultiply N x y) = bival x * bival y"
    "isNeg (biMultiply N x y) \<longleftrightarrow> isNeg x \<noteq> isNeg y"
proof -
  let ?n = "biHighIndex x" and ?t = "biHighIndex y"
  have N: "0 < N" using fits by simp
  define P where "P = (\<lambda>i rs. length rs = N \<and> all_digits rs \<and>
    vald rs = vald (digits x) * vald (take i (digits y)) \<and>
    drop (i + ?n + 1) rs = replicate (N - (i + ?n + 1)) (Num 0))"
  define rs where "rs = fold (mul_row (digits x) ?n (digits y)) [0..<Suc ?t] (ZERO_ARRAY N)"
  have "P (Suc ?t) rs"
    unfolding rs_def
  proof (rule for_invariant [where P = P])
    show "P 0 (ZERO_ARRAY N)" by (simp add: P_def ZERO_ARRAY_replicate list_all_iff)
  next
    fix i rs assume i: "i < Suc ?t" and P: "P i rs"
    have iN: "i < length (digits y)" using i fits assms(2) by auto
    obtain v where v: "digits y ! i = Num v" "0 \<le> v" "v < 65536"
      using digit_obtain [OF wf_biD(2) [OF assms(2)] iN] by metis
    have n: "?n < length (digits x)" using biHighIndex_less [OF assms(1) N] assms(1) by auto
    have rd: "rd (digits y) (int i) = Num v" using iN v(1) by simp
    have "i + ?n + 1 < N" using i fits by simp
    from mul_row_correct [OF wf_biD(2) [OF assms(1)] n vald_take_high [OF assms(1) N] rd v(2,3) this, of rs] P
    show "P (Suc i) (mul_row (digits x) ?n (digits y) i rs)"
      using iN v by (simp add: P_def vald_take_Suc algebra_simps)
  qed
  then have "length rs = N" "all_digits rs" "vald rs = vald (digits x) * vald (digits y)"
    using vald_take_high [OF assms(2) N] by (auto simp: P_def)
  then show "wf_bi N (biMultiply N x y)" "bival (biMultiply N x y) = bival x * bival y"
    "isNeg (biMultiply N x y) \<longleftrightarrow> isNeg x \<noteq> isNeg y"
    by (auto simp: biMultiply_def Let_def rs_def [symmetric] wf_bi_def bival_def simp del: upt_Suc)
qed

text \<open>The same with the bound stated on the numbers.\<close>

lemma biMultiply_fits:
  assumes "wf_bi N x" "wf_bi N y" "\<bar>bival x\<bar> < 65536 ^ Suc a" "\<bar>bival y\<bar> < 65536 ^ Suc b" "a + b + 1 < N"
  shows "wf_bi N (biMultiply N x y)" "bival (biMultiply N x y) = bival x * bival y"
    "isNeg (biMultiply N x y) \<longleftrightarrow> isNeg x \<noteq> isNeg y"
proof -
  have "biHighIndex x \<le> a" "biHighIndex y \<le> b"
    using biHighIndex_le assms by (metis less_nat_zero_code not_gr_zero)+
  with assms(5) have "biHighIndex x + biHighIndex y + 1 < N" by simp
  then show "wf_bi N (biMultiply N x y)" "bival (biMultiply N x y) = bival x * bival y"
    "isNeg (biMultiply N x y) \<longleftrightarrow> isNeg x \<noteq> isNeg y"
    using biMultiply_correct assms(1,2) by blast+
qed

theorem biMultiplyDigit_correct:
  assumes "wf_bi N x" "\<not> isNeg x" "0 \<le> y" "y < 65536" "biHighIndex x + 1 < N"
  shows "wf_bi N (biMultiplyDigit N x (Num y))" "bival (biMultiplyDigit N x (Num y)) = bival x * y"
    "\<not> isNeg (biMultiplyDigit N x (Num y))"
proof -
  let ?n = "biHighIndex x"
  have N: "0 < N" using assms(5) by simp
  have n: "?n < length (digits x)" using biHighIndex_less [OF assms(1) N] assms(1) by auto
  have y: "rd [Num y] (int 0) = Num y" by (simp add: rd_def)
  have row: "biMultiplyDigit N x (Num y) =
      \<lparr>digits = mul_row (digits x) ?n [Num y] 0 (ZERO_ARRAY N), isNeg = False\<rparr>"
    by (simp add: biMultiplyDigit_def mul_row_def Let_def rd_def del: upt_Suc split: prod.splits)
  have "drop (0 + ?n + 1) (ZERO_ARRAY N) = replicate (N - (0 + ?n + 1)) (Num 0)"
    by (simp add: ZERO_ARRAY_replicate)
  from mul_row_correct [OF wf_biD(2) [OF assms(1)] n vald_take_high [OF assms(1) N] y assms(3,4) _ _ _ this]
  show "wf_bi N (biMultiplyDigit N x (Num y))" "bival (biMultiplyDigit N x (Num y)) = bival x * y"
    "\<not> isNeg (biMultiplyDigit N x (Num y))"
    using assms(2,5) by (simp_all add: row wf_bi_def bival_def algebra_simps)
qed

section \<open>Comparison\<close>

lemma biCompare_loop:
  assumes "all_digits xs" "all_digits ys" "i \<le> length xs" "i \<le> length ys"
  shows "biCompare_loop neg xs ys i =
    (let a = vald (take i xs); b = vald (take i ys)
     in if a = b then 0 else if (a < b) \<noteq> neg then - 1 else 1)"
  using assms(3,4)
proof (induction i)
  case 0
  then show ?case by simp
next
  case (Suc i)
  obtain x where x: "xs ! i = Num x" "0 \<le> x" "x < 65536" using digit_obtain [OF assms(1)] Suc.prems by (metis Suc_le_lessD)
  obtain y where y: "ys ! i = Num y" "0 \<le> y" "y < 65536" using digit_obtain [OF assms(2)] Suc.prems by (metis Suc_le_lessD)
  define p where "p = (65536 :: int) ^ i"
  have a: "0 \<le> vald (take i xs)" "vald (take i xs) < p" and b: "0 \<le> vald (take i ys)" "vald (take i ys) < p"
    using assms by (simp_all add: vald_take p_def)
  have t: "vald (take (Suc i) xs) = vald (take i xs) + x * p" "vald (take (Suc i) ys) = vald (take i ys) + y * p"
    using Suc.prems x y by (simp_all add: vald_take_Suc p_def)
  consider "x = y" | "x < y" | "y < x" by linarith
  then show ?case
  proof cases
    case 1
    with Suc x y t show ?thesis by (simp add: Let_def)
  next
    case 2
    then have "(x + 1) * p \<le> y * p" by (intro mult_right_mono) (auto simp: p_def)
    with a b t have "vald (take (Suc i) xs) < vald (take (Suc i) ys)" by (simp add: algebra_simps)
    with 2 Suc.prems x y show ?thesis by (auto simp: Let_def)
  next
    case 3
    then have "(y + 1) * p \<le> x * p" by (intro mult_right_mono) (auto simp: p_def)
    with a b t have "vald (take (Suc i) ys) < vald (take (Suc i) xs)" by (simp add: algebra_simps)
    with 3 Suc.prems x y show ?thesis by (auto simp: Let_def)
  qed
qed

text \<open>
  With equal signs the comparison is the comparison of the numbers. (With opposite signs it
  is 1 for the number that is not negative, also when both are zero.)
\<close>

theorem biCompare_correct:
  assumes "wf_bi N x" "wf_bi N y" "isNeg x = isNeg y"
  shows "biCompare x y = (if bival x < bival y then - 1 else if bival x = bival y then 0 else 1)"
  using assms biCompare_loop [of "digits x" "digits y" N "isNeg x"] wf_biD [OF assms(1)] wf_biD [OF assms(2)]
  by (auto simp: biCompare_def bival_def Let_def)

end
