(* ===== verification/Big_Int_Shift.thy ===== *)
theory Big_Int_Shift
  imports Big_Int_Mul
begin

text \<open>Copying of digits, multiplication, division and remainder by powers of the radix, and the bit shifts.\<close>

section \<open>Copying\<close>

lemma arrayCopy:
  assumes "d + (min (s + n) (length src) - s) \<le> length dest"
  shows "arrayCopy src s dest d n =
    (let k = min (s + n) (length src) - s
     in take d dest @ take k (drop s src) @ drop (d + k) dest)"
proof -
  define m where "m = min (s + n) (length src)"
  define P where "P = (\<lambda>i as. as = take d dest @ take (i - s) (drop s src) @ drop (d + (i - s)) dest)"
  show ?thesis
  proof (cases "s \<le> m")
    case False
    then show ?thesis by (simp add: arrayCopy_def m_def)
  next
    case True
    have "P m (fold (\<lambda>i dest. wr dest (int (d + (i - s))) (rd src (int i))) [s..<m] dest)"
    proof (rule for_invariant_from [where P = P])
      fix i as
      assume i: "s \<le> i" "i < m" and "P i as"
      then have as: "as = take d dest @ take (i - s) (drop s src) @ drop (d + (i - s)) dest" by (simp add: P_def)
      have len: "i < length src" "d + (i - s) < length dest" using i assms by (auto simp: m_def)
      have l: "length (take d dest) = d" "length (take (i - s) (drop s src)) = i - s" using len i by auto
      have "wr as (int (d + (i - s))) (rd src (int i)) = as[d + (i - s) := src ! i]"
        using len i l by (subst wr_update) (auto simp: as)
      also have "\<dots> = take d dest @ (take (i - s) (drop s src) @ [src ! i]) @ drop (Suc (d + (i - s))) dest"
        using l len(2) by (simp add: as list_update_append Cons_nth_drop_Suc [symmetric])
      also have "take (i - s) (drop s src) @ [src ! i] = take (Suc i - s) (drop s src)"
        using i len(1) by (simp add: take_Suc_snoc Suc_diff_le)
      finally show "P (Suc i) (wr as (int (d + (i - s))) (rd src (int i)))"
        using i by (simp add: P_def Suc_diff_le)
    qed (use True in \<open>simp_all add: P_def\<close>)
    then show ?thesis by (simp add: P_def arrayCopy_def m_def Let_def)
  qed
qed

lemma replicate_zero_digits [simp]: "all_digits (replicate n (Num 0))"
  by (simp add: list_all_iff)

lemma copy_up:
  assumes "all_digits ds" "length ds = N"
  shows "length (arrayCopy ds 0 (ZERO_ARRAY N) n (N - n)) = N \<and>
    all_digits (arrayCopy ds 0 (ZERO_ARRAY N) n (N - n)) \<and>
    vald (arrayCopy ds 0 (ZERO_ARRAY N) n (N - n)) = vald ds * 65536 ^ n mod 65536 ^ N"
proof (cases "n \<le> N")
  case True
  then have "arrayCopy ds 0 (ZERO_ARRAY N) n (N - n) = replicate n (Num 0) @ take (N - n) ds"
    using assms by (simp add: arrayCopy ZERO_ARRAY_replicate)
  moreover have "vald (replicate n (Num 0) @ take (N - n) ds) = vald ds * 65536 ^ n mod 65536 ^ N"
  proof -
    have "(65536 :: int) ^ N = 65536 ^ n * 65536 ^ (N - n)"
      using True by (simp add: power_add [symmetric])
    then show ?thesis
      using assms(1)
      by (simp only: vald_append vald_replicate length_replicate vald_take mult_mod_right add_0
          mult.commute [of "vald ds"])
  qed
  ultimately show ?thesis
    using True assms by (simp add: all_digits_take)
next
  case False
  then have "arrayCopy ds 0 (ZERO_ARRAY N) n (N - n) = ZERO_ARRAY N" by (simp add: arrayCopy_def)
  moreover have "(65536 :: int) ^ N dvd 65536 ^ n" using False by (intro le_imp_power_dvd) simp
  ultimately show ?thesis by simp
qed

lemma copy_down:
  assumes "all_digits ds" "length ds = N"
  shows "arrayCopy ds n (ZERO_ARRAY N) 0 (N - n) = drop n ds @ replicate (min n N) (Num 0)"
  using assms by (cases "n \<le> N") (simp_all add: arrayCopy ZERO_ARRAY_replicate)

theorem biMultiplyByRadixPower_correct:
  assumes "wf_bi N x" "\<not> isNeg x" "bival x * 65536 ^ n < 65536 ^ N"
  shows "wf_bi N (biMultiplyByRadixPower N x n)"
    "bival (biMultiplyByRadixPower N x n) = bival x * 65536 ^ n"
    "\<not> isNeg (biMultiplyByRadixPower N x n)"
  using copy_up [of "digits x" N n] assms wf_biD [OF assms(1)] bival_nonneg [OF assms(2,1)]
  by (simp_all add: biMultiplyByRadixPower_def new_BigInt_def wf_bi_def bival_def)

theorem biDivideByRadixPower_correct:
  assumes "wf_bi N x" "\<not> isNeg x"
  shows "wf_bi N (biDivideByRadixPower N x n)"
    "bival (biDivideByRadixPower N x n) = bival x div 65536 ^ n"
    "\<not> isNeg (biDivideByRadixPower N x n)"
  using assms wf_biD [OF assms(1)]
  by (auto simp: biDivideByRadixPower_def new_BigInt_def copy_down wf_bi_def bival_def vald_append
      all_digits_drop vald_drop)

lemma vald_mod_min:
  "all_digits ds \<Longrightarrow> vald ds mod 65536 ^ min n (length ds) = vald ds mod 65536 ^ n"
  using vald_take [of ds "length ds"] vald_take [of ds n] by (cases "n \<le> length ds") (auto simp: min_def)

theorem biModuloByRadixPower_correct:
  assumes "wf_bi N x" "\<not> isNeg x"
  shows "wf_bi N (biModuloByRadixPower N x n)"
    "bival (biModuloByRadixPower N x n) = bival x mod 65536 ^ n"
    "\<not> isNeg (biModuloByRadixPower N x n)"
  using assms wf_biD [OF assms(1)]
  by (auto simp: biModuloByRadixPower_def new_BigInt_def arrayCopy ZERO_ARRAY_replicate wf_bi_def
      bival_def vald_append all_digits_take vald_take Let_def vald_mod_min)

section \<open>Bits of a digit\<close>

lemma less_16_cases:
  "b < 16 \<Longrightarrow> b \<in> {0, 1, 2, 3, 4, 5, 6, 7, 8, 9, 10, 11, 12, 13, 14, 15 :: nat}"
  unfolding insert_iff empty_iff by presburger

lemma high_mask: "b < 16 \<Longrightarrow> highBitMasks ! b = (2 ^ b - 1) * 2 ^ (16 - b)"
  by (drule less_16_cases) (auto simp: highBitMasks_def)

lemma low_mask: "b < 16 \<Longrightarrow> lowBitMasks ! b = 2 ^ b - 1"
  by (drule less_16_cases) (auto simp: lowBitMasks_def)

lemma digit_shl:
  assumes "0 \<le> d" "d < 65536" "b < 16"
  shows "js_and (js_shl (Num d) b) (Num 65535) = Num (d * 2 ^ b mod 65536)"
proof -
  have "(2 :: int) ^ b \<le> 2 ^ 15" using assms(3) by (intro power_increasing) auto
  then have "d * 2 ^ b \<le> 65535 * 2 ^ 15" using assms by (intro mult_mono) auto
  then have "d * 2 ^ b < 2 ^ 31" by simp
  with assms(1) show ?thesis by (simp add: js_simps)
qed

lemma and_div_pow2: "((a :: int) AND b) div 2 ^ n = (a div 2 ^ n) AND (b div 2 ^ n)"
  by (simp flip: drop_bit_eq_div add: drop_bit_and)

lemma digit_high:
  assumes "0 \<le> d" "d < 65536" "b < 16"
  shows "js_ushr (js_and (Num d) (Num (highBitMasks ! b))) (16 - b) = Num (d div 2 ^ (16 - b))"
proof -
  let ?m = "(2 ^ b - 1) * 2 ^ (16 - b) :: int"
  have split: "(65536 :: int) = 2 ^ b * 2 ^ (16 - b)" using assms(3) by (simp flip: power_add)
  have m: "0 \<le> ?m" "?m < 65536" by (simp_all add: split algebra_simps)
  have "to_int32 (Num d) = d" "to_int32 (Num ?m) = ?m"
    by (rule to_int32_id, use assms m in linarith, use assms m in linarith)+
  then have a: "js_and (Num d) (Num ?m) = Num (d AND ?m)" by (simp only: js_and_def)
  have le: "0 \<le> d AND ?m" "d AND ?m \<le> d" using assms(1) by (simp_all add: AND_upper1)
  have "d div 2 ^ (16 - b) < 2 ^ b"
  proof (rule mult_right_less_imp_less)
    have "d div 2 ^ (16 - b) * 2 ^ (16 - b) \<le> d" by (simp flip: minus_mod_eq_div_mult)
    also have "d < 2 ^ b * 2 ^ (16 - b)" using assms(2) by (simp only: split)
    finally show "d div 2 ^ (16 - b) * 2 ^ (16 - b) < 2 ^ b * 2 ^ (16 - b)" .
  qed simp
  moreover have "0 \<le> d div 2 ^ (16 - b)" using assms by (simp add: pos_imp_zdiv_nonneg_iff)
  ultimately have "(d AND ?m) div 2 ^ (16 - b) = d div 2 ^ (16 - b)"
    by (simp add: and_div_pow2 int_and_mask)
  then show ?thesis
    using le assms by (simp add: high_mask a js_ushr_small)
qed

lemma digit_low:
  assumes "0 \<le> d" "d < 65536" "b < 16"
  shows "js_shl (js_and (Num d) (Num (lowBitMasks ! b))) (16 - b) = Num (d mod 2 ^ b * 2 ^ (16 - b))"
proof -
  have "(65536 :: int) = 2 ^ b * 2 ^ (16 - b)" using assms(3) by (simp flip: power_add)
  moreover have "d mod 2 ^ b * 2 ^ (16 - b) \<le> 2 ^ b * 2 ^ (16 - b)"
    by (intro mult_right_mono) (auto intro: less_imp_le)
  ultimately have "d mod 2 ^ b * 2 ^ (16 - b) < 2 ^ 31" by simp
  with assms show ?thesis by (simp add: low_mask js_and_low js_shl_small)
qed

lemma or_disjoint:
  assumes "0 \<le> a" "0 \<le> c" "c < 2 ^ n"
  shows "(a * 2 ^ n) OR c = a * 2 ^ n + (c :: int)"
proof -
  have "\<not> bit (a * 2 ^ n) k \<or> \<not> bit c k" for k
  proof (cases "k < n")
    case True
    then show ?thesis by (simp flip: push_bit_eq_mult add: bit_push_bit_iff)
  next
    case False
    then have "(2 :: int) ^ n \<le> 2 ^ k" by (intro power_increasing) auto
    with assms have "c < 2 ^ k" by linarith
    with assms have "c div 2 ^ k = 0" by (intro div_pos_pos_trivial) auto
    then show ?thesis by (simp add: bit_iff_odd)
  qed
  then show ?thesis by (simp add: disjunctive_add_eq_or bit_eq_iff bit_and_iff)
qed

lemma js_or_disjoint:
  assumes "0 \<le> a" "0 \<le> c" "c < 2 ^ n" "a * 2 ^ n + c < 65536"
  shows "js_or (Num (a * 2 ^ n)) (Num c) = Num (a * 2 ^ n + c)"
proof -
  have "0 \<le> a * 2 ^ n" using assms(1) by simp
  moreover have "a * 2 ^ n < 2147483648" "c < 2147483648" using assms(2,4) \<open>0 \<le> a * 2 ^ n\<close> by linarith+
  ultimately have "to_int32 (Num (a * 2 ^ n)) = a * 2 ^ n" "to_int32 (Num c) = c"
    using assms(2) by (simp_all only: to_int32_id)
  then show ?thesis by (simp only: js_or_def or_disjoint [OF assms(1-3)])
qed

section \<open>Bit shifts\<close>

lemma shl_step_digit:
  assumes "0 \<le> d" "d < 65536" "0 \<le> e" "e < 65536" "b < 16"
  shows "js_or (js_and (js_shl (Num d) b) (Num 65535))
      (js_ushr (js_and (Num e) (Num (highBitMasks ! b))) (16 - b))
    = Num (d * 2 ^ b mod 65536 + e * 2 ^ b div 65536)"
    and "0 \<le> d * 2 ^ b mod 65536 + e * 2 ^ b div 65536"
    and "d * 2 ^ b mod 65536 + e * 2 ^ b div 65536 < 65536"
proof -
  define k r where "k = (2 :: int) ^ (16 - b)" and "r = (2 :: int) ^ b"
  have split: "(65536 :: int) = k * r" "0 < k" "0 < r" using assms(5) by (simp_all add: k_def r_def flip: power_add)
  have dm: "d * r mod 65536 = d mod k * r" by (simp add: split(1) mult_mod_left)
  have ek: "e * r div 65536 = e div k" using split(2,3) by (simp add: split(1))
  have "0 \<le> e mod k" using split(2) by simp
  then have "e div k * k \<le> e" by (simp flip: minus_mod_eq_div_mult)
  then have "e div k * k < r * k" using assms(4) split(1) by (simp add: mult.commute)
  then have c: "e div k < r" "0 \<le> e div k" using split(2) assms(3) by (simp_all add: pos_imp_zdiv_nonneg_iff)
  have "d mod k + 1 \<le> k" using pos_mod_bound [OF split(2), of d] by linarith
  then have "(d mod k + 1) * r \<le> k * r" using split(3) by (intro mult_right_mono) auto
  then have s: "d mod k * r + e div k < 65536" using c(1) by (simp add: split(1) algebra_simps)
  show "0 \<le> d * 2 ^ b mod 65536 + e * 2 ^ b div 65536" using assms(3) by (simp add: pos_imp_zdiv_nonneg_iff)
  show "d * 2 ^ b mod 65536 + e * 2 ^ b div 65536 < 65536"
    using s dm ek by (simp add: r_def)
  have "js_or (Num (d mod k * 2 ^ b)) (Num (e div k)) = Num (d mod k * 2 ^ b + e div k)"
    using c s split(2) by (intro js_or_disjoint) (auto simp: r_def)
  then show "js_or (js_and (js_shl (Num d) b) (Num 65535))
      (js_ushr (js_and (Num e) (Num (highBitMasks ! b))) (16 - b))
    = Num (d * 2 ^ b mod 65536 + e * 2 ^ b div 65536)"
    using digit_shl [OF assms(1,2,5)] digit_high [OF assms(3,4,5)] dm ek
    by (simp add: r_def k_def)
qed

text \<open>
  The downward loop of \<open>biShiftLeft\<close>: \<open>carry i\<close> is what digit \<open>i - 1\<close> hands to digit \<open>i\<close>;
  what the top digit hands on is lost.
\<close>

definition shl_carry :: "jsnum list \<Rightarrow> nat \<Rightarrow> nat \<Rightarrow> int" where
  "shl_carry ds b i = (if i = 0 then 0 else dval (ds ! (i - 1)) * 2 ^ b div 65536)"

definition shl_inv :: "jsnum list \<Rightarrow> nat \<Rightarrow> nat \<Rightarrow> jsnum list \<Rightarrow> bool" where
  "shl_inv ds b i rs \<longleftrightarrow> length rs = length ds \<and> all_digits rs \<and> take i rs = take i ds \<and>
     vald (drop i rs) + shl_carry ds b (length ds) * 65536 ^ (length ds - i)
       = vald (drop i ds) * 2 ^ b + shl_carry ds b i"

lemma shl_inv_step:
  assumes "all_digits ds" "i < length ds" "b < 16" "shl_inv ds b (Suc i) rs"
    and "is_digit (Num (d * 2 ^ b mod 65536 + shl_carry ds b i))" "ds ! i = Num d"
  shows "shl_inv ds b i (rs[i := Num (d * 2 ^ b mod 65536 + shl_carry ds b i)])"
proof -
  let ?v = "d * 2 ^ b mod 65536 + shl_carry ds b i" and ?n = "length ds"
  have rs: "length rs = ?n" "all_digits rs" "take (Suc i) rs = take (Suc i) ds"
    and v: "vald (drop (Suc i) rs) + shl_carry ds b ?n * 65536 ^ (?n - Suc i)
      = vald (drop (Suc i) ds) * 2 ^ b + shl_carry ds b (Suc i)"
    using assms(4) by (auto simp: shl_inv_def)
  have "drop i (rs[i := Num ?v]) = Num ?v # drop (Suc i) rs"
    using assms(2) rs(1) by (simp add: Cons_nth_drop_Suc [symmetric])
  moreover have "drop i ds = Num d # drop (Suc i) ds"
    using assms(2,6) by (simp add: Cons_nth_drop_Suc [symmetric])
  moreover have "(65536 :: int) ^ (?n - i) = 65536 * 65536 ^ (?n - Suc i)"
    using assms(2) by (simp flip: power_Suc add: Suc_diff_Suc)
  moreover have "d * 2 ^ b = d * 2 ^ b mod 65536 + 65536 * shl_carry ds b (Suc i)"
    using assms(6) by (simp add: shl_carry_def)
  moreover have "65536 * vald (drop (Suc i) rs) + 65536 * (shl_carry ds b ?n * 65536 ^ (?n - Suc i))
      = 65536 * vald (drop (Suc i) ds) * 2 ^ b + 65536 * shl_carry ds b (Suc i)"
    using v by (simp add: algebra_simps)
  ultimately have "vald (drop i (rs[i := Num ?v])) + shl_carry ds b ?n * 65536 ^ (?n - i)
      = vald (drop i ds) * 2 ^ b + shl_carry ds b i"
    by (simp add: algebra_simps)
  moreover have "take i rs = take i ds" using rs(3) by (metis Suc_leD min_def nat_le_linear take_take)
  ultimately show ?thesis
    using rs assms(5) by (simp add: shl_inv_def list_all_update)
qed

lemma rev_upt_1: "0 < n \<Longrightarrow> rev [0..<n] = rev [1..<n] @ [0]"
  by (simp add: upt_conv_Cons)

lemma shl_digits:
  assumes ds: "all_digits ds" "ds \<noteq> []" and b: "b < 16"
    and rs: "rs = fold (shl_step b) (rev [1..<length ds]) ds"
  shows "shl_inv ds b 0 (wr rs 0 (js_and (js_shl (rd rs 0) b) (Num 65535)))"
proof -
  have "shl_inv ds b 1 rs"
  proof -
    define f where "f = (\<lambda>i rs. if i = 0 then rs else shl_step b i rs)"
    have "fold f (rev [1..<length ds]) ds = rs"
      unfolding rs by (rule fold_cong) (auto simp: f_def)
    then have rs_f: "rs = fold f (rev [0..<length ds]) ds"
      using ds(2) by (simp add: rev_upt_1 f_def)
    have "shl_inv ds b (max 1 0) (fold f (rev [0..<length ds]) ds)"
    proof (rule for_down_invariant [where P = "\<lambda>i. shl_inv ds b (max 1 i)"])
      show "shl_inv ds b (max 1 (length ds)) ds"
        using ds by (cases ds) (simp_all add: shl_inv_def shl_carry_def)
    next
      fix i as assume i: "i < length ds" and inv: "shl_inv ds b (max 1 (Suc i)) as"
      show "shl_inv ds b (max 1 i) (f i as)"
      proof (cases "i = 0")
        case True
        with inv show ?thesis by (simp add: f_def)
      next
        case False
        have as: "length as = length ds" "take (Suc i) as = take (Suc i) ds"
          using inv by (auto simp: shl_inv_def)
        have i': "i - 1 < length ds" using i by simp
        obtain d where d: "ds ! i = Num d" "0 \<le> d" "d < 65536" using digit_obtain [OF ds(1) i] .
        obtain e where e: "ds ! (i - 1) = Num e" "0 \<le> e" "e < 65536" using digit_obtain [OF ds(1) i'] .
        have "as ! i = ds ! i" "as ! (i - 1) = ds ! (i - 1)"
          using as(2) by (metis lessI nth_take, metis less_SucI nth_take False diff_less not_gr_zero zero_less_one)
        moreover have "int i - 1 = int (i - 1)" using False by simp
        ultimately have rd: "rd as (int i) = Num d" "rd as (int i - 1) = Num e"
          using i i' as(1) d e by (simp_all only: rd_nth)
        have c: "shl_carry ds b i = e * 2 ^ b div 65536" using False e by (simp add: shl_carry_def)
        note digit = shl_step_digit [OF d(2,3) e(2,3) b]
        have "f i as = as[i := Num (d * 2 ^ b mod 65536 + shl_carry ds b i)]"
          using False i as(1) by (simp add: f_def shl_step_def rd digit(1) c)
        then show ?thesis
          using shl_inv_step [OF ds(1) i b, of as d] inv digit(2,3) d False by (simp add: c max_def)
      qed
    qed
    then show ?thesis by (simp add: rs_f)
  qed
  moreover have "0 < length ds" using ds(2) by simp
  moreover obtain d where d: "ds ! 0 = Num d" "0 \<le> d" "d < 65536" using digit_obtain [OF ds(1) \<open>0 < length ds\<close>] .
  moreover have "rd rs 0 = Num d"
    using \<open>shl_inv ds b 1 rs\<close> d(1) ds(2) by (cases rs; cases ds) (auto simp: shl_inv_def rd_def)
  moreover have "length rs = length ds" using \<open>shl_inv ds b 1 rs\<close> by (simp add: shl_inv_def)
  ultimately show ?thesis
    using shl_inv_step [OF ds(1) _ b, of 0 rs d] wr_update [of 0 rs] digit_shl [OF d(2,3) b]
    by (simp add: shl_carry_def)
qed

theorem biShiftLeft_correct:
  assumes "wf_bi N x" "0 < N"
  shows "wf_bi N (biShiftLeft N x n)"
    "vald (digits (biShiftLeft N x n)) = vald (digits x) * 2 ^ n mod 65536 ^ N"
    "isNeg (biShiftLeft N x n) = isNeg x"
proof -
  define ds where "ds = arrayCopy (digits x) 0 (ZERO_ARRAY N) (n div 16) (N - n div 16)"
  define rs where "rs = digits (biShiftLeft N x n)"
  have ds: "length ds = N" "all_digits ds" "vald ds = vald (digits x) * 65536 ^ (n div 16) mod 65536 ^ N"
    using copy_up [OF wf_biD(2,1) [OF assms(1)]] by (auto simp: ds_def)
  have "shl_inv ds (n mod 16) 0 rs"
    unfolding rs_def biShiftLeft_def Let_def ds_def [symmetric]
    using shl_digits [OF ds(2) _ _ refl, of "n mod 16"] ds(1) assms(2) by (cases ds) auto
  then have rs: "length rs = N" "all_digits rs"
    and v: "vald rs + shl_carry ds (n mod 16) N * 65536 ^ N = vald ds * 2 ^ (n mod 16)"
    using ds(1) by (auto simp: shl_inv_def shl_carry_def)
  have "vald rs = vald rs mod 65536 ^ N"
    using vald_take [OF rs(2), of N] rs(1) by simp
  also have "\<dots> = (vald rs + shl_carry ds (n mod 16) N * 65536 ^ N) mod 65536 ^ N" by simp
  also have "\<dots> = vald (digits x) * 65536 ^ (n div 16) * 2 ^ (n mod 16) mod 65536 ^ N"
    unfolding v ds(3) by (simp add: mod_mult_left_eq)
  also have "vald (digits x) * 65536 ^ (n div 16) * 2 ^ (n mod 16) = vald (digits x) * 2 ^ n"
  proof -
    have "(65536 :: int) ^ (n div 16) = 2 ^ (16 * (n div 16))" by (simp add: power_mult)
    then have "(65536 :: int) ^ (n div 16) * 2 ^ (n mod 16) = 2 ^ n" by (simp flip: power_add)
    then show ?thesis by (simp add: mult.assoc)
  qed
  finally show "vald (digits (biShiftLeft N x n)) = vald (digits x) * 2 ^ n mod 65536 ^ N"
    by (simp add: rs_def)
  show "wf_bi N (biShiftLeft N x n)" using rs by (simp add: wf_bi_def rs_def)
  show "isNeg (biShiftLeft N x n) = isNeg x" by (simp add: biShiftLeft_def Let_def)
qed

text \<open>The upward loop of \<open>biShiftRight\<close>.\<close>

lemma shr_step_digit:
  assumes "0 \<le> d" "d < 65536" "0 \<le> e" "e < 65536" "b < 16"
  shows "js_or (js_ushr (Num d) b) (js_shl (js_and (Num e) (Num (lowBitMasks ! b))) (16 - b))
    = Num (d div 2 ^ b + e mod 2 ^ b * 2 ^ (16 - b))"
    and "is_digit (Num (d div 2 ^ b + e mod 2 ^ b * 2 ^ (16 - b)))"
    and "2 ^ b * (d div 2 ^ b + e mod 2 ^ b * 2 ^ (16 - b)) = d - d mod 2 ^ b + e mod 2 ^ b * 65536"
proof -
  define k r where "k = (2 :: int) ^ (16 - b)" and "r = (2 :: int) ^ b"
  have split: "(65536 :: int) = k * r" "0 < k" "0 < r" using assms(5) by (simp_all add: k_def r_def flip: power_add)
  have "0 \<le> d mod r" using split(3) by simp
  then have "d div r * r \<le> d" by (simp flip: minus_mod_eq_div_mult)
  then have "d div r * r < k * r" using assms(2) split(1) by simp
  then have c: "d div r < k" "0 \<le> d div r" using split(3) assms(1) by (simp_all add: pos_imp_zdiv_nonneg_iff)
  have "e mod r + 1 \<le> r" using pos_mod_bound [OF split(3), of e] by linarith
  then have "(e mod r + 1) * k \<le> r * k" using split(2) by (intro mult_right_mono) auto
  then have s: "e mod r * k + d div r < 65536" using c(1) by (simp add: split(1) algebra_simps)
  have e0: "0 \<le> e mod r" using split(3) by simp
  have "js_or (Num (d div r)) (Num (e mod r * 2 ^ (16 - b))) = js_or (Num (e mod r * 2 ^ (16 - b))) (Num (d div r))"
    by (simp add: js_or_def or.commute)
  also have "\<dots> = Num (e mod r * 2 ^ (16 - b) + d div r)"
    using c s e0 by (intro js_or_disjoint) (auto simp: k_def)
  finally show "js_or (js_ushr (Num d) b) (js_shl (js_and (Num e) (Num (lowBitMasks ! b))) (16 - b))
    = Num (d div 2 ^ b + e mod 2 ^ b * 2 ^ (16 - b))"
    using digit_low [OF assms(3,4,5)] assms(1,2) by (simp add: js_ushr_small r_def)
  show "is_digit (Num (d div 2 ^ b + e mod 2 ^ b * 2 ^ (16 - b)))"
    using s c e0 split(2) by (simp add: r_def k_def)
  have "r * (d div r) = d - d mod r" by (simp add: minus_mod_eq_mult_div)
  then have "r * (d div r + e mod r * k) = d - d mod r + e mod r * (k * r)" by (simp add: algebra_simps)
  then show "2 ^ b * (d div 2 ^ b + e mod 2 ^ b * 2 ^ (16 - b)) = d - d mod 2 ^ b + e mod 2 ^ b * 65536"
    unfolding split(1) by (simp only: r_def k_def)
qed

definition shr_inv :: "jsnum list \<Rightarrow> nat \<Rightarrow> nat \<Rightarrow> jsnum list \<Rightarrow> bool" where
  "shr_inv ds b i rs \<longleftrightarrow> length rs = length ds \<and> all_digits rs \<and> drop i rs = drop i ds \<and>
     2 ^ b * vald (take i rs) = vald (take i ds) - dval (ds ! 0) mod 2 ^ b
       + (if i < length ds then dval (ds ! i) mod 2 ^ b * 65536 ^ i else 0)"

lemma shr_inv_step:
  assumes "i < length ds" "shr_inv ds b i rs" "is_digit (Num v)" "ds ! i = Num d"
    and "2 ^ b * v = d - d mod 2 ^ b + (if Suc i < length ds then dval (ds ! Suc i) mod 2 ^ b * 65536 else 0)"
  shows "shr_inv ds b (Suc i) (rs[i := Num v])"
proof -
  have rs: "length rs = length ds" "all_digits rs" "drop i rs = drop i ds"
    and w: "2 ^ b * vald (take i rs) = vald (take i ds) - dval (ds ! 0) mod 2 ^ b + d mod 2 ^ b * 65536 ^ i"
    using assms(1,2,4) by (auto simp: shr_inv_def)
  have "vald (take (Suc i) (rs[i := Num v])) = vald (take i rs) + v * 65536 ^ i"
    using assms(1) rs(1) by (simp add: vald_take_Suc)
  then have "2 ^ b * vald (take (Suc i) (rs[i := Num v])) = 2 ^ b * vald (take i rs) + 2 ^ b * v * 65536 ^ i"
    by (simp add: algebra_simps)
  also have "\<dots> = vald (take (Suc i) ds) - dval (ds ! 0) mod 2 ^ b
      + (if Suc i < length ds then dval (ds ! Suc i) mod 2 ^ b * 65536 ^ Suc i else 0)"
    unfolding w assms(5) using assms(1,4) by (simp add: vald_take_Suc algebra_simps)
  finally have "2 ^ b * vald (take (Suc i) (rs[i := Num v])) = vald (take (Suc i) ds) - dval (ds ! 0) mod 2 ^ b
      + (if Suc i < length ds then dval (ds ! Suc i) mod 2 ^ b * 65536 ^ Suc i else 0)" .
  moreover have "drop (Suc i) (rs[i := Num v]) = drop (Suc i) ds"
    using rs(3) by (metis drop_Suc drop_update_cancel lessI tl_drop)
  ultimately show ?thesis
    using rs assms(3) by (simp add: shr_inv_def list_all_update)
qed

lemma shr_digits:
  assumes ds: "all_digits ds" "ds \<noteq> []" and b: "b < 16"
    and rs: "rs = fold (shr_step b) [0..<length ds - 1] ds"
  shows "shr_inv ds b (length ds)
    (wr rs (int (length rs) - 1) (js_ushr (rd rs (int (length rs) - 1)) b))"
proof -
  let ?n = "length ds - 1"
  have n: "?n < length ds" "Suc ?n = length ds" using ds(2) by simp_all
  have inv: "shr_inv ds b ?n rs"
    unfolding rs
  proof (rule for_invariant [where P = "shr_inv ds b"])
    show "shr_inv ds b 0 ds" using ds by (simp add: shr_inv_def)
  next
    fix i as assume i: "i < ?n" and inv: "shr_inv ds b i as"
    have i': "i < length ds" "Suc i < length ds" using i by auto
    have as: "length as = length ds" "drop i as = drop i ds" using inv by (auto simp: shr_inv_def)
    obtain d where d: "ds ! i = Num d" "0 \<le> d" "d < 65536" using digit_obtain [OF ds(1) i'(1)] .
    obtain e where e: "ds ! Suc i = Num e" "0 \<le> e" "e < 65536" using digit_obtain [OF ds(1) i'(2)] .
    have "as ! i = ds ! i" "as ! Suc i = ds ! Suc i"
      using arg_cong [OF as(2), of "\<lambda>l. l ! 0"] arg_cong [OF as(2), of "\<lambda>l. l ! 1"] as(1) i' by auto
    moreover have "int i + 1 = int (Suc i)" by simp
    ultimately have rd: "rd as (int i) = Num d" "rd as (int i + 1) = Num e"
      using i' as(1) d e by (simp_all only: rd_nth)
    note digit = shr_step_digit [OF d(2,3) e(2,3) b]
    show "shr_inv ds b (Suc i) (shr_step b i as)"
      using shr_inv_step [OF i'(1) inv digit(2) d(1)] digit(3) i' as(1) e
      by (simp add: shr_step_def rd digit(1))
  qed
  have as: "length rs = length ds" "drop ?n rs = drop ?n ds" using inv by (auto simp: shr_inv_def)
  obtain d where d: "ds ! ?n = Num d" "0 \<le> d" "d < 65536" using digit_obtain [OF ds(1) n(1)] .
  have "rs ! ?n = Num d" using arg_cong [OF as(2), of "\<lambda>l. l ! 0"] as(1) n(1) d(1) by auto
  moreover have "int (length rs) - 1 = int ?n" using as(1) n by simp
  ultimately have "rd rs (int (length rs) - 1) = Num d"
    "\<And>v. wr rs (int (length rs) - 1) v = rs[?n := v]"
    using n(1) as(1) by (simp_all only: rd_nth wr_update)
  moreover have "js_ushr (Num d) b = Num (d div 2 ^ b)" using d by (simp add: js_ushr_small)
  moreover have "is_digit (Num (d div 2 ^ b))" using shr_step_digit(2) [OF d(2,3), of 0 b] b by simp
  moreover have "2 ^ b * (d div 2 ^ b) = d - d mod 2 ^ b" by (simp add: minus_mod_eq_mult_div)
  ultimately show ?thesis
    using shr_inv_step [OF n(1) inv _ d(1)] n(2) by simp
qed

theorem biShiftRight_correct:
  assumes "wf_bi N x" "0 < N"
  shows "wf_bi N (biShiftRight N x n)"
    "vald (digits (biShiftRight N x n)) = vald (digits x) div 2 ^ n"
    "isNeg (biShiftRight N x n) = isNeg x"
proof -
  let ?b = "n mod 16"
  define ds where "ds = arrayCopy (digits x) (n div 16) (ZERO_ARRAY N) 0 (N - n div 16)"
  define rs where "rs = digits (biShiftRight N x n)"
  have x: "length (digits x) = N" "all_digits (digits x)" using assms(1) by auto
  have eq: "ds = drop (n div 16) (digits x) @ replicate (min (n div 16) N) (Num 0)"
    unfolding ds_def by (rule copy_down [OF x(2,1)])
  have ds: "length ds = N" "all_digits ds" "vald ds = vald (digits x) div 65536 ^ (n div 16)"
    using x by (auto simp: eq all_digits_drop vald_append vald_drop)
  have "shr_inv ds ?b N rs"
    unfolding rs_def biShiftRight_def Let_def x(1) ds_def [symmetric]
    using shr_digits [OF ds(2) _ _ refl, of ?b] ds(1) assms(2) by (cases ds) auto
  then have rs: "length rs = N" "all_digits rs"
    and v: "2 ^ ?b * vald rs = vald ds - dval (ds ! 0) mod 2 ^ ?b"
    using ds(1) by (auto simp: shr_inv_def)
  have "vald ds = vald rs * 2 ^ ?b + dval (ds ! 0) mod 2 ^ ?b" using v by (simp add: algebra_simps)
  then have "vald rs = vald ds div 2 ^ ?b" by simp
  also have "\<dots> = vald (digits x) div (65536 ^ (n div 16) * 2 ^ ?b)"
    unfolding ds(3) by (simp add: zdiv_zmult2_eq)
  also have "(65536 :: int) ^ (n div 16) * 2 ^ ?b = 2 ^ n"
  proof -
    have "(65536 :: int) ^ (n div 16) = 2 ^ (16 * (n div 16))" by (simp add: power_mult)
    then show ?thesis by (simp flip: power_add)
  qed
  finally show "vald (digits (biShiftRight N x n)) = vald (digits x) div 2 ^ n" by (simp add: rs_def)
  show "wf_bi N (biShiftRight N x n)" using rs by (simp add: wf_bi_def rs_def)
  show "isNeg (biShiftRight N x n) = isNeg x" by (simp add: biShiftRight_def Let_def)
qed

end
