(* ===== verification/Big_Int_Div.thy ===== *)
theory Big_Int_Div
  imports Big_Int_Shift
begin

text \<open>
  \<open>biDivideModulo\<close> of \<open>BigInt.js\<close>: Knuth's long division on normalised operands. Its loops are
  \<^theory_text>\<open>partial_function (option)\<close>: \<open>None\<close> is a loop that does not end.
\<close>

section \<open>The code\<close>

text \<open>\<open>Math.ceil(tb / bitsPerDigit) - 1\<close>\<close>

definition top_index :: "nat \<Rightarrow> int" where
  "top_index tb = int ((tb + 15) div 16) - 1"

text \<open>\<open>while (y.digits[t] < biHalfRadix)\<close>\<close>

partial_function (option) bi_normalize :: "nat \<Rightarrow> bigint \<Rightarrow> nat \<Rightarrow> nat \<Rightarrow> (bigint \<times> nat \<times> nat) option" where
  "bi_normalize N y lambda tb =
     (if js_lt (rd (digits y) (top_index tb)) (Num 32768)
      then bi_normalize N (biShiftLeft N y 1) (Suc lambda) (Suc tb)
      else Some (y, lambda, tb))"

declare bi_normalize.simps [code]

text \<open>\<open>while (biCompare(r, b) != -1)\<close>\<close>

partial_function (option) bi_first_digit :: "nat \<Rightarrow> bigint \<Rightarrow> nat \<Rightarrow> bigint \<Rightarrow> jsnum list \<Rightarrow> (bigint \<times> jsnum list) option" where
  "bi_first_digit N b k r qs =
     (if biCompare r b \<noteq> - 1
      then bi_first_digit N b k (biSubtract N r b) (wr qs (int k) (js_add (rd qs (int k)) (Num 1)))
      else Some (r, qs))"

declare bi_first_digit.simps [code]

text \<open>
  \<open>while (c1 > c2)\<close>: the first \<open>c1\<close> is computed with \<open>yt * biRadix + yt1\<close>, the ones inside the
  loop with the 32-bit operator \<open>yt * biRadix | yt1\<close>.
\<close>

partial_function (option) bi_qhat_loop ::
  "jsnum \<Rightarrow> jsnum \<Rightarrow> jsnum \<Rightarrow> jsnum \<Rightarrow> jsnum \<Rightarrow> jsnum \<Rightarrow> jsnum \<Rightarrow> jsnum \<Rightarrow> jsnum option" where
  "bi_qhat_loop ri ri1 ri2 yt yt1 qd c1 c2 =
     (if js_lt c2 c1
      then let qd = js_sub qd (Num 1)
           in bi_qhat_loop ri ri1 ri2 yt yt1 qd
                (js_mul qd (js_or (js_mul yt (Num 65536)) yt1))
                (js_add (js_mul (js_mul ri (Num 65536)) (Num 65536))
                        (js_add (js_mul ri1 (Num 65536)) ri2))
      else Some qd)"

declare bi_qhat_loop.simps [code]

text \<open>\<open>(i >= ds.length) ? 0 : ds[i]\<close>\<close>

definition digit_or_0 :: "jsnum list \<Rightarrow> int \<Rightarrow> jsnum" where
  "digit_or_0 ds i = (if i \<ge> int (length ds) then Num 0 else rd ds i)"

text \<open>
  The body of \<open>for (i = n; i > t; --i)\<close>, with \<open>i = t + 1 + k\<close>. (\<open>yt\<close> is never 0: after
  normalisation it is at least \<open>biHalfRadix\<close>, or undefined when \<open>y\<close> is 0.)
\<close>

definition bi_div_step :: "nat \<Rightarrow> bigint \<Rightarrow> int \<Rightarrow> nat \<Rightarrow> bigint \<Rightarrow> jsnum list \<Rightarrow> (bigint \<times> jsnum list) option" where
  "bi_div_step N y t k r qs =
     (let i = t + 1 + int k;
          ri = digit_or_0 (digits r) i;
          ri1 = digit_or_0 (digits r) (i - 1);
          ri2 = digit_or_0 (digits r) (i - 2);
          yt = digit_or_0 (digits y) t;
          yt1 = digit_or_0 (digits y) (t - 1);
          qd = (if js_eq ri yt then Num 65535
                else js_floor_div (js_add (js_mul ri (Num 65536)) ri1) yt);
          c1 = js_mul qd (js_add (js_mul yt (Num 65536)) yt1);
          c2 = js_add (js_mul ri (Num 4294967296)) (js_add (js_mul ri1 (Num 65536)) ri2)
      in do {
           qd \<leftarrow> bi_qhat_loop ri ri1 ri2 yt yt1 qd c1 c2;
           let b = biMultiplyByRadixPower N y k;
           let r = biSubtract N r (biMultiplyDigit N b qd);
           Some (if isNeg r then (biAdd N r b, wr qs (int k) (js_sub qd (Num 1)))
                 else (r, wr qs (int k) qd))
         })"

fun bi_div_loop :: "nat \<Rightarrow> bigint \<Rightarrow> int \<Rightarrow> nat \<Rightarrow> bigint \<Rightarrow> jsnum list \<Rightarrow> (bigint \<times> jsnum list) option" where
  "bi_div_loop N y t 0 r qs = Some (r, qs)"
| "bi_div_loop N y t (Suc k) r qs =
     do { (r, qs) \<leftarrow> bi_div_step N y t k r qs; bi_div_loop N y t k r qs }"

definition biDivideModulo :: "nat \<Rightarrow> bigint \<Rightarrow> bigint \<Rightarrow> (bigint \<times> bigint) option" where
  "biDivideModulo N x y =
     (let nb = biNumBits x; tb = biNumBits y; origYIsNeg = isNeg y
      in if nb < tb then
           (if isNeg x then
              Some ((biCopy (bigOne N))\<lparr>isNeg := \<not> isNeg y\<rparr>,
                    biSubtract N (y\<lparr>isNeg := False\<rparr>) (x\<lparr>isNeg := False\<rparr>))
            else Some (new_BigInt N, biCopy x))
         else do {
           (y, lambda, tb) \<leftarrow> bi_normalize N y 0 tb;
           let t = top_index tb;
           let r = biShiftLeft N x lambda;
           let nb = nb + lambda;
           let n = top_index nb;
           let k = nat (n - t);
           let b = biMultiplyByRadixPower N y k;
           (r, qs) \<leftarrow> bi_first_digit N b k r (ZERO_ARRAY N);
           (r, qs) \<leftarrow> bi_div_loop N y t k r qs;
           let r = biShiftRight N r lambda;
           let q = \<lparr>digits = qs, isNeg = (isNeg x \<noteq> origYIsNeg)\<rparr>;
           let (q, r) =
             (if isNeg x then
                (if origYIsNeg then biAdd N q (bigOne N) else biSubtract N q (bigOne N),
                 biSubtract N (biShiftRight N y lambda) r)
              else (q, r));
           let r = (if js_eq (rd (digits r) 0) (Num 0) \<and> biHighIndex r = 0
                    then r\<lparr>isNeg := False\<rparr> else r);
           Some (q, r)
         })"

definition biDivide :: "nat \<Rightarrow> bigint \<Rightarrow> bigint \<Rightarrow> bigint option" where
  "biDivide N x y = map_option fst (biDivideModulo N x y)"

definition biModulo :: "nat \<Rightarrow> bigint \<Rightarrow> bigint \<Rightarrow> bigint option" where
  "biModulo N x y = map_option snd (biDivideModulo N x y)"

definition biMultiplyMod :: "nat \<Rightarrow> bigint \<Rightarrow> bigint \<Rightarrow> bigint \<Rightarrow> bigint option" where
  "biMultiplyMod N x y m = biModulo N (biMultiply N x y) m"

section \<open>The number of bits\<close>

lemma and_8000: "0 \<le> d \<Longrightarrow> d < 65536 \<Longrightarrow> js_and (Num d) (Num 32768) \<noteq> Num 0 \<longleftrightarrow> 32768 \<le> d"
proof -
  assume d: "0 \<le> d" "d < 65536"
  have "d AND 2 ^ 15 = 0 \<longleftrightarrow> \<not> bit d 15" by (rule and_exp_eq_0_iff_not_bit)
  also have "\<dots> \<longleftrightarrow> even (d div 32768)" by (simp add: bit_iff_odd)
  also have "\<dots> \<longleftrightarrow> d < 32768"
  proof (cases "d < 32768")
    case False
    then have "d div 32768 = 1" using d by simp
    with False show ?thesis by simp
  qed (use d in simp)
  finally show ?thesis using d by (simp add: js_and_def to_int32_id not_less)
qed

lemma biNumBits_loop:
  assumes "k \<le> 16" "0 < d" "d < 65536" "65536 \<le> d * 2 ^ k"
  shows "0 < biNumBits_loop (Num d) k \<and> biNumBits_loop (Num d) k \<le> k \<and>
    32768 \<le> d * 2 ^ (k - biNumBits_loop (Num d) k) \<and> d * 2 ^ (k - biNumBits_loop (Num d) k) < 65536"
  using assms
proof (induction k arbitrary: d)
  case 0
  then show ?case by simp
next
  case (Suc k)
  show ?case
  proof (cases "32768 \<le> d")
    case True
    then show ?thesis using Suc.prems by (simp add: and_8000)
  next
    case False
    have sh: "js_shl (Num d) (Suc 0) = Num (d * 2)"
      using False Suc.prems js_shl_small [of d "Suc 0"] by simp
    have "biNumBits_loop (Num d) (Suc k) = biNumBits_loop (Num (d * 2)) k"
      using False Suc.prems and_8000 [of d] by (simp add: sh)
    with Suc.IH [of "d * 2"] False Suc.prems show ?thesis
      by (auto simp: Suc_diff_le mult.assoc)
  qed
qed

lemma biNumBits_loop_0: "biNumBits_loop (Num 0) k = 0"
  by (induction k) (simp_all add: js_simps js_and_def to_int32_id)

lemma high_digit_0: "biHighIndex x = 0 \<Longrightarrow> wf_bi N x \<Longrightarrow> 0 < N \<Longrightarrow> vald (digits x) = dval (digits x ! 0)"
  using vald_take_high [of N x] by (cases "digits x") auto

theorem biNumBits_correct:
  assumes "wf_bi N x" "0 < N"
  shows "vald (digits x) = 0 \<Longrightarrow> biNumBits x = 0"
    and "vald (digits x) \<noteq> 0 \<Longrightarrow>
      0 < biNumBits x \<and> 2 ^ (biNumBits x - 1) \<le> vald (digits x) \<and> vald (digits x) < 2 ^ biNumBits x"
proof -
  let ?h = "biHighIndex x" and ?v = "vald (digits x)"
  have h: "?h < length (digits x)" using biHighIndex_less [OF assms] assms(1) by auto
  obtain d where d: "digits x ! ?h = Num d" "0 \<le> d" "d < 65536"
    using digit_obtain [OF wf_biD(2) [OF assms(1)] h] .
  define p where "p = (65536 :: int) ^ ?h"
  have p: "0 < p" "p = 2 ^ (16 * ?h)" by (simp_all add: p_def power_mult)
  have v: "?v = vald (take ?h (digits x)) + d * p"
    using vald_take_high [OF assms] h d by (simp add: vald_take_Suc p_def)
  have lo: "0 \<le> vald (take ?h (digits x))" "vald (take ?h (digits x)) < p"
    using wf_biD(2) [OF assms(1)] by (simp_all add: vald_take p_def)
  have nb: "biNumBits x = 16 * ?h + biNumBits_loop (Num d) 16" using h d by (simp add: biNumBits_def Let_def)
  { assume "?v = 0"
    have "?h = 0"
    proof (rule ccontr)
      assume "?h \<noteq> 0"
      then have "(65536 :: int) ^ ?h \<le> 0" using high_le_vald [OF assms] \<open>?v = 0\<close> by simp
      then show False using zero_less_power [of "65536 :: int" ?h] by linarith
    qed
    moreover have "d = 0" using \<open>?v = 0\<close> high_digit_0 [OF \<open>?h = 0\<close> assms] d \<open>?h = 0\<close> by simp
    ultimately show "biNumBits x = 0" by (simp add: nb biNumBits_loop_0)
  }
  assume nz: "?v \<noteq> 0"
  have "0 < d"
  proof (rule ccontr)
    assume "\<not> 0 < d"
    then have "d = 0" using d by simp
    then show False
      using nz v lo high_le_vald [OF assms] high_digit_0 [OF _ assms] d by (cases "?h = 0") (auto simp: p_def)
  qed
  define b where "b = biNumBits_loop (Num d) 16"
  have b: "0 < b" "b \<le> 16" "32768 \<le> d * 2 ^ (16 - b)" "d * 2 ^ (16 - b) < 65536"
    using biNumBits_loop [of 16 d] d \<open>0 < d\<close> by (auto simp: b_def)
  have "(2 :: int) ^ (b - 1) * 2 ^ (16 - b) = 2 ^ (b - 1 + (16 - b))" by (simp add: power_add)
  also have "b - 1 + (16 - b) = 15" using b by simp
  finally have "2 ^ (b - 1) * 2 ^ (16 - b) \<le> d * 2 ^ (16 - b)" using b(3) by simp
  then have d1: "2 ^ (b - 1) \<le> d" by simp
  have "(2 :: int) ^ b * 2 ^ (16 - b) = 65536" using b(2) by (simp flip: power_add)
  then have "d * 2 ^ (16 - b) < 2 ^ b * 2 ^ (16 - b)" using b(4) by simp
  then have d2: "d + 1 \<le> 2 ^ b" by simp
  have "2 ^ (b - 1) * p \<le> d * p" using d1 p(1) by (intro mult_right_mono) auto
  moreover have "(d + 1) * p \<le> 2 ^ b * p" using d2 p(1) by (intro mult_right_mono) auto
  moreover have "(d + 1) * p = d * p + p" by (simp add: distrib_right)
  ultimately have "2 ^ (b - 1) * p \<le> ?v" "?v < 2 ^ b * p" using v lo by linarith+
  moreover have "2 ^ (b - 1) * p = 2 ^ (biNumBits x - 1)" "2 ^ b * p = 2 ^ biNumBits x"
    using b(1) by (simp_all add: nb p(2) b_def [symmetric] mult.commute flip: power_add)
  ultimately show "0 < biNumBits x \<and> 2 ^ (biNumBits x - 1) \<le> ?v \<and> ?v < 2 ^ biNumBits x"
    using b(1) by (simp add: nb b_def)
qed

end
