(* ===== verification/Knuth_Division.thy ===== *)
theory Knuth_Division
  imports Main
begin

text \<open>
  The number theory behind \<open>biDivideModulo\<close>: bounds on the trial quotient \<open>qhat\<close> of one step of
  long division by a normalised divisor, for any radix \<open>B\<close>. The state of the step is the
  remainder \<open>r < v * B ^ (k + 1)\<close>, the divisor \<open>v\<close> with top digit \<open>v div B ^ t\<close>, and the true
  digit is \<open>r div (v * B ^ k)\<close>.
\<close>

lemma int_div_bounds:
  assumes "0 < (b :: int)"
  shows "a div b * b \<le> a" "a < (a div b + 1) * b"
proof -
  have "0 \<le> a mod b" "a mod b < b" using assms by simp_all
  moreover have "a = a div b * b + a mod b" by simp
  moreover have "(a div b + 1) * b = a div b * b + b" by (simp only: distrib_right mult_1)
  ultimately show "a div b * b \<le> a" "a < (a div b + 1) * b" by linarith+
qed

lemma int_le_div_iff: "0 < (b :: int) \<Longrightarrow> q \<le> a div b \<longleftrightarrow> q * b \<le> a"
proof
  assume "0 < b" "q \<le> a div b"
  then have "q * b \<le> a div b * b" by (intro mult_right_mono) auto
  with int_div_bounds(1) [OF \<open>0 < b\<close>, of a] show "q * b \<le> a" by linarith
next
  assume b: "0 < b" and "q * b \<le> a"
  with int_div_bounds(2) [OF b, of a] have "q * b < (a div b + 1) * b" by linarith
  with b have "q < a div b + 1" by (simp add: mult_less_cancel_right)
  then show "q \<le> a div b" by simp
qed

lemma int_div_less_iff: "0 < (b :: int) \<Longrightarrow> a div b < q \<longleftrightarrow> a < q * b"
  using int_le_div_iff [of b q a] by (simp add: not_le [symmetric])

locale knuth_radix =
  fixes B :: int
  assumes B: "1 < B"
begin

definition step :: "int \<Rightarrow> int \<Rightarrow> nat \<Rightarrow> nat \<Rightarrow> bool" where
  "step v r t k \<longleftrightarrow> B ^ t * B \<le> 2 * v \<and> v < B ^ t * B \<and> 0 \<le> r \<and> r < v * B ^ k * B"

definition yt :: "int \<Rightarrow> nat \<Rightarrow> int" where "yt v t = v div B ^ t"
definition ri :: "int \<Rightarrow> nat \<Rightarrow> nat \<Rightarrow> int" where "ri r t k = r div B ^ (t + k + 1)"
definition u2 :: "int \<Rightarrow> nat \<Rightarrow> nat \<Rightarrow> int" where "u2 r t k = r div B ^ (t + k)"
definition Q :: "int \<Rightarrow> int \<Rightarrow> nat \<Rightarrow> int" where "Q v r k = r div (v * B ^ k)"
definition qhat :: "int \<Rightarrow> int \<Rightarrow> nat \<Rightarrow> nat \<Rightarrow> int" where
  "qhat v r t k = (if ri r t k = yt v t then B - 1 else u2 r t k div yt v t)"

text \<open>The operands of the test against the second digit of the divisor.\<close>

definition y2 :: "int \<Rightarrow> nat \<Rightarrow> int" where "y2 v t = v div B ^ (t - 1)"
definition u3 :: "int \<Rightarrow> nat \<Rightarrow> nat \<Rightarrow> int" where "u3 r t k = r div B ^ (t - 1 + k)"

lemma B0 [simp]: "0 < B" "0 \<le> B" "B \<noteq> 0" using B by simp_all

lemma Bt [simp]: "0 < B ^ n" "0 \<le> B ^ n" using B by simp_all

lemma stepD:
  assumes "step v r t k"
  shows v_ge: "B ^ t * B \<le> 2 * v" and v_less: "v < B ^ t * B"
    and r_nonneg: "0 \<le> r" and r_less: "r < v * B ^ k * B"
  using assms by (auto simp: step_def)

lemma v_pos:
  assumes s: "step v r t k"
  shows "0 < v"
proof -
  have "0 < B ^ t * B" using B by simp
  with v_ge [OF s] show ?thesis by linarith
qed

lemma b_pos:
  assumes s: "step v r t k"
  shows "0 < v * B ^ k"
  using v_pos [OF s] by simp

lemma yt_le: "yt v t * B ^ t \<le> v" and v_less_yt: "v < (yt v t + 1) * B ^ t"
  unfolding yt_def by (simp_all add: int_div_bounds)

lemma yt_ge:
  assumes s: "step v r t k"
  shows "B \<le> 2 * yt v t + 1" and yt_less: "yt v t < B"
proof -
  have "B ^ t * B < 2 * (yt v t + 1) * B ^ t" using v_ge [OF s] v_less_yt [of v t] by linarith
  then have "B * B ^ t < (2 * (yt v t + 1)) * B ^ t" by (simp add: mult.commute)
  then have "B < 2 * (yt v t + 1)" using mult_less_cancel_right_pos [OF Bt(1)] by blast
  then show "B \<le> 2 * yt v t + 1" by simp
  have "yt v t * B ^ t < B * B ^ t" using yt_le [of v t] v_less [OF s] mult.commute [of B] by (metis le_less_trans)
  then show "yt v t < B" using mult_less_cancel_right_pos [OF Bt(1)] by blast
qed

lemma yt_pos:
  assumes s: "step v r t k"
  shows "0 < yt v t"
  using yt_ge [OF s] B by linarith

lemma ri_u2: "ri r t k = u2 r t k div B" by (simp add: ri_def u2_def flip: zdiv_zmult2_eq) (simp add: mult.commute)

lemma ri_le_yt:
  assumes s: "step v r t k"
  shows "ri r t k \<le> yt v t"
proof -
  have "r div B ^ (t + k + 1) \<le> (v * B ^ k * B) div B ^ (t + k + 1)"
    using r_less [OF s] by (intro zdiv_mono1) (simp_all del: power_Suc)
  also have "v * B ^ k * B = v * (B ^ k * B)" by simp
  also have "B ^ (t + k + 1) = B ^ t * (B ^ k * B)" by (simp add: power_add)
  also have "v * (B ^ k * B) div (B ^ t * (B ^ k * B)) = v div B ^ t"
    by (intro div_mult_mult2) simp
  finally show ?thesis unfolding ri_def yt_def power_add mult.assoc power_one_right .
qed

lemma Q_range:
  assumes s: "step v r t k"
  shows "0 \<le> Q v r k" "Q v r k < B"
proof -
  show "0 \<le> Q v r k" using r_nonneg [OF s] b_pos [OF s] by (simp add: Q_def pos_imp_zdiv_nonneg_iff)
  show "Q v r k < B" unfolding Q_def using r_less [OF s] by (simp add: int_div_less_iff [OF b_pos [OF s]] mult.commute)
qed

lemma u2_bounds: "u2 r t k * B ^ (t + k) \<le> r" "r < (u2 r t k + 1) * B ^ (t + k)"
  unfolding u2_def by (simp_all add: int_div_bounds)

lemma b_ge: "yt v t * B ^ (t + k) \<le> v * B ^ k" and b_less: "v * B ^ k < (yt v t + 1) * B ^ (t + k)"
proof -
  have "yt v t * B ^ t * B ^ k \<le> v * B ^ k" using yt_le [of v t] by (intro mult_right_mono) auto
  then show "yt v t * B ^ (t + k) \<le> v * B ^ k" by (simp add: power_add mult.assoc)
  have "v * B ^ k < (yt v t + 1) * B ^ t * B ^ k" using v_less_yt [of v t] by (intro mult_strict_right_mono) auto
  then show "v * B ^ k < (yt v t + 1) * B ^ (t + k)" by (simp add: power_add mult.assoc)
qed

lemma qhat_range:
  assumes s: "step v r t k"
  shows "0 \<le> qhat v r t k" "qhat v r t k < B"
proof -
  have u2_nn: "0 \<le> u2 r t k" using r_nonneg [OF s] by (simp add: u2_def pos_imp_zdiv_nonneg_iff)
  then show "0 \<le> qhat v r t k" using B yt_pos [OF s] by (simp add: qhat_def pos_imp_zdiv_nonneg_iff)
  show "qhat v r t k < B"
  proof (cases "ri r t k = yt v t")
    case False
    then have "ri r t k + 1 \<le> yt v t" using ri_le_yt [OF s] by simp
    then have "(ri r t k + 1) * B \<le> yt v t * B" using B by (intro mult_right_mono) auto
    moreover have "u2 r t k < (ri r t k + 1) * B" unfolding ri_u2 using B by (intro int_div_bounds) simp
    ultimately have "u2 r t k < B * yt v t" using mult.commute [of "yt v t" B] by linarith
    with False yt_pos [OF s] show ?thesis by (simp add: qhat_def int_div_less_iff)
  qed (use B in \<open>simp add: qhat_def\<close>)
qed

lemma qhat_yt:
  assumes s: "step v r t k"
  shows "qhat v r t k * yt v t \<le> u2 r t k"
proof (cases "ri r t k = yt v t")
  case True
  have "ri r t k * B \<le> u2 r t k" unfolding ri_u2 using B by (intro int_div_bounds) simp
  moreover have "(B - 1) * yt v t \<le> B * yt v t" using yt_pos [OF s] by simp
  ultimately show ?thesis using True by (simp add: qhat_def mult.commute)
next
  case False
  then show ?thesis using int_div_bounds(1) [OF yt_pos [OF s], of "u2 r t k"] by (simp add: qhat_def)
qed

theorem Q_le_qhat:
  assumes s: "step v r t k"
  shows "Q v r k \<le> qhat v r t k"
proof (cases "ri r t k = yt v t")
  case True
  with Q_range [OF s] show ?thesis by (simp add: qhat_def)
next
  case False
  then have "u2 r t k + 1 \<le> (qhat v r t k + 1) * yt v t" using int_div_bounds(2) [OF yt_pos [OF s], of "u2 r t k"] by (simp add: qhat_def)
  then have "(u2 r t k + 1) * B ^ (t + k) \<le> (qhat v r t k + 1) * yt v t * B ^ (t + k)" by (intro mult_right_mono) auto
  also have "\<dots> = (qhat v r t k + 1) * (yt v t * B ^ (t + k))" by (simp add: mult.assoc)
  also have "\<dots> \<le> (qhat v r t k + 1) * (v * B ^ k)" using b_ge [of v t k] qhat_range [OF s] by (intro mult_left_mono) auto
  finally have "r < (qhat v r t k + 1) * (v * B ^ k)" using u2_bounds(2) [of r t k] by linarith
  then show ?thesis using int_div_less_iff [OF b_pos [OF s], of r "qhat v r t k + 1"] by (simp add: Q_def)
qed

theorem qhat_le:
  assumes s: "step v r t k"
  shows "qhat v r t k \<le> Q v r k + 2"
proof -
  have "qhat v r t k * (v * B ^ k) \<le> qhat v r t k * ((yt v t + 1) * B ^ (t + k))"
    using b_less [of v k t] qhat_range [OF s] by (intro mult_left_mono) auto
  also have "\<dots> = qhat v r t k * yt v t * B ^ (t + k) + qhat v r t k * B ^ (t + k)" by (simp add: algebra_simps)
  also have "qhat v r t k * yt v t * B ^ (t + k) \<le> u2 r t k * B ^ (t + k)" using qhat_yt [OF s] by (intro mult_right_mono) auto
  also have "u2 r t k * B ^ (t + k) \<le> r" by (rule u2_bounds)
  also have "qhat v r t k * B ^ (t + k) \<le> (2 * yt v t) * B ^ (t + k)"
    using qhat_range [OF s] yt_ge [OF s] by (intro mult_right_mono) auto
  also have "(2 * yt v t) * B ^ (t + k) \<le> 2 * (v * B ^ k)" using b_ge [of v t k] by simp
  finally have "(qhat v r t k - 2) * (v * B ^ k) \<le> r" by (simp add: algebra_simps)
  then have "qhat v r t k - 2 \<le> Q v r k" unfolding Q_def using int_le_div_iff [OF b_pos [OF s]] by blast
  then show ?thesis by simp
qed

text \<open>With a divisor of one digit the trial quotient is the digit.\<close>

theorem qhat_one_digit:
  assumes s: "step v r t k" and t: "t = 0"
  shows "qhat v r t k = Q v r k \<and> ri r t k \<noteq> yt v t"
proof -
  have y: "yt v t = v" unfolding yt_def using t by simp
  have "ri r t k < v" unfolding ri_def using t r_less [OF s] by (simp only: int_div_less_iff Bt) (simp add: ac_simps)
  moreover have "u2 r t k div v = Q v r k"
    unfolding u2_def Q_def using t v_pos [OF s] zdiv_zmult2_eq [of v r "B ^ k"] by (simp add: mult.commute)
  ultimately show ?thesis unfolding qhat_def y by simp
qed

text \<open>The test against the second digit of the divisor.\<close>

theorem test_fails:
  assumes s: "step v r t k"
  shows "0 < t \<Longrightarrow> u3 r t k < qhat v r t k * y2 v t \<Longrightarrow> Q v r k < qhat v r t k"
proof -
  assume t: "0 < t" and "u3 r t k < qhat v r t k * y2 v t"
  then have "(u3 r t k + 1) * B ^ (t - 1 + k) \<le> qhat v r t k * y2 v t * B ^ (t - 1 + k)" by (intro mult_right_mono) auto
  moreover have "r < (u3 r t k + 1) * B ^ (t - 1 + k)" unfolding u3_def by (intro int_div_bounds) simp
  moreover have "y2 v t * B ^ (t - 1) * B ^ k \<le> v * B ^ k"
    unfolding y2_def by (intro mult_right_mono int_div_bounds) auto
  then have "qhat v r t k * (y2 v t * B ^ (t - 1 + k)) \<le> qhat v r t k * (v * B ^ k)"
    using qhat_range [OF s] by (intro mult_left_mono) (auto simp: power_add mult.assoc)
  ultimately have "r < qhat v r t k * (v * B ^ k)"
    using mult.assoc [of "qhat v r t k" "y2 v t" "B ^ (t - 1 + k)"] by linarith
  then show "Q v r k < qhat v r t k" unfolding Q_def by (simp add: int_div_less_iff [OF b_pos [OF s]])
qed

theorem test_passes:
  assumes s: "step v r t k"
  shows "0 < t \<Longrightarrow> qhat v r t k * y2 v t \<le> u3 r t k \<Longrightarrow> qhat v r t k \<le> Q v r k + 1"
proof -
  assume t: "0 < t" and le: "qhat v r t k * y2 v t \<le> u3 r t k"
  let ?p = "B ^ (t - 1 + k)"
  have "v < (y2 v t + 1) * B ^ (t - 1)" unfolding y2_def by (intro int_div_bounds) simp
  then have "v * B ^ k \<le> (y2 v t + 1) * B ^ (t - 1) * B ^ k" by (intro mult_right_mono) auto
  then have "qhat v r t k * (v * B ^ k) \<le> qhat v r t k * ((y2 v t + 1) * ?p)"
    using qhat_range [OF s] by (intro mult_left_mono) (auto simp: power_add mult.assoc)
  also have "\<dots> = qhat v r t k * y2 v t * ?p + qhat v r t k * ?p" by (simp add: algebra_simps)
  also have "qhat v r t k * y2 v t * ?p \<le> u3 r t k * ?p" using le by (intro mult_right_mono) auto
  also have "u3 r t k * ?p \<le> r" unfolding u3_def by (intro int_div_bounds) simp
  also have "qhat v r t k * ?p \<le> B * ?p" using qhat_range [OF s] by (intro mult_right_mono) auto
  also have "B * ?p = B ^ (t + k)" using t by (cases t) (auto simp: power_add)
  also have "B ^ (t + k) \<le> yt v t * B ^ (t + k)" using yt_pos [OF s] mult_right_mono [of 1 "yt v t" "B ^ (t + k)"] by simp
  also have "yt v t * B ^ (t + k) \<le> v * B ^ k" by (rule b_ge)
  finally have "(qhat v r t k - 1) * (v * B ^ k) \<le> r" by (simp add: algebra_simps)
  then have "qhat v r t k - 1 \<le> Q v r k" unfolding Q_def using int_le_div_iff [OF b_pos [OF s]] by blast
  then show "qhat v r t k \<le> Q v r k + 1" by simp
qed

text \<open>
  When the divisor goes into the remainder exactly, the test catches every trial quotient that is
  too big: the remainder never has to be added back and reach zero from below.
\<close>

lemma exact_bound:
  assumes s: "step v r t k" and ex: "r = Q v r k * (v * B ^ k)" and le: "d * B ^ n * B ^ k \<le> r" and v: "v < (c + 1) * B ^ n"
    and c: "0 \<le> c"
  shows "d < Q v r k * (c + 1) \<or> d \<le> 0"
proof (cases "Q v r k = 0")
  case True
  then have "d * (B ^ n * B ^ k) \<le> 0 * (B ^ n * B ^ k)" using ex le by (simp add: mult.assoc)
  then show ?thesis using mult_right_le_imp_le [of d "B ^ n * B ^ k" 0] by simp
next
  case False
  then have Q: "0 < Q v r k" using Q_range [OF s] by simp
  have "d * B ^ n * B ^ k \<le> Q v r k * v * B ^ k" using le ex by (simp add: mult.assoc)
  then have "d * B ^ n \<le> Q v r k * v" by (rule mult_right_le_imp_le) simp
  also have "\<dots> < Q v r k * ((c + 1) * B ^ n)" using Q v by (intro mult_strict_left_mono)
  finally have "d * B ^ n < Q v r k * (c + 1) * B ^ n" by (simp add: mult.assoc)
  then have "d < Q v r k * (c + 1)" by (rule mult_right_less_imp_less) simp
  then show ?thesis by simp
qed

theorem exact_qhat_le:
  assumes s: "step v r t k" and ex: "r = Q v r k * (v * B ^ k)"
  shows "qhat v r t k \<le> Q v r k + 1"
proof -
  have "qhat v r t k * yt v t * B ^ (t + k) \<le> u2 r t k * B ^ (t + k)"
    using qhat_yt [OF s] by (intro mult_right_mono) auto
  then have "qhat v r t k * yt v t * B ^ (t + k) \<le> r" using u2_bounds(1) [of r t k] by linarith
  then have "qhat v r t k * yt v t * B ^ t * B ^ k \<le> r" by (simp add: power_add mult.assoc)
  from exact_bound [OF s ex this v_less_yt]
  have "qhat v r t k * yt v t < Q v r k * (yt v t + 1) \<or> qhat v r t k * yt v t \<le> 0"
    using yt_pos [OF s] by simp
  then have "qhat v r t k * yt v t < (Q v r k + 2) * yt v t"
  proof
    assume "qhat v r t k * yt v t < Q v r k * (yt v t + 1)"
    also have "\<dots> = Q v r k * yt v t + Q v r k" by (simp add: algebra_simps)
    also have "\<dots> \<le> Q v r k * yt v t + 2 * yt v t" using Q_range [OF s] yt_ge [OF s] by simp
    finally show ?thesis by (simp add: algebra_simps)
  next
    assume "qhat v r t k * yt v t \<le> 0"
    moreover have "0 < (Q v r k + 2) * yt v t" using Q_range [OF s] yt_pos [OF s] by simp
    ultimately show ?thesis by linarith
  qed
  then have "qhat v r t k < Q v r k + 2" by (rule mult_right_less_imp_less) (use yt_pos [OF s] in simp)
  then show ?thesis by simp
qed

theorem exact_test:
  assumes s: "step v r t k" and ex: "r = Q v r k * (v * B ^ k)" and t: "0 < t"
    and q: "qhat v r t k * y2 v t \<le> u3 r t k"
  shows "qhat v r t k \<le> Q v r k"
proof (rule ccontr)
  assume "\<not> qhat v r t k \<le> Q v r k"
  then have q1: "Q v r k + 1 \<le> qhat v r t k" by simp
  have "yt v t * B * B ^ (t - 1) = yt v t * B ^ t" using t by (cases t) auto
  then have "yt v t * B * B ^ (t - 1) \<le> v" using yt_le [of v t] by (simp only:)
  then have "yt v t * B \<le> y2 v t" unfolding y2_def by (simp add: int_le_div_iff)
  moreover have "1 * B \<le> yt v t * B" using yt_pos [OF s] by (intro mult_right_mono) auto
  ultimately have y2: "B \<le> y2 v t" by linarith
  have "(Q v r k + 1) * y2 v t \<le> qhat v r t k * y2 v t" using q1 y2 B by (intro mult_right_mono) auto
  then have "(Q v r k + 1) * y2 v t * B ^ (t - 1 + k) \<le> u3 r t k * B ^ (t - 1 + k)"
    using q by (intro mult_right_mono) auto
  also have "\<dots> \<le> r" unfolding u3_def by (intro int_div_bounds) simp
  finally have "(Q v r k + 1) * y2 v t * B ^ (t - 1) * B ^ k \<le> r" by (simp add: power_add mult.assoc)
  moreover have "v < (y2 v t + 1) * B ^ (t - 1)" unfolding y2_def by (intro int_div_bounds) simp
  ultimately have "(Q v r k + 1) * y2 v t < Q v r k * (y2 v t + 1) \<or> (Q v r k + 1) * y2 v t \<le> 0"
    using exact_bound [OF s ex] y2 B by simp
  moreover have "0 < (Q v r k + 1) * y2 v t" using Q_range [OF s] y2 B by simp
  ultimately have "y2 v t < Q v r k" by (auto simp: algebra_simps)
  with y2 Q_range [OF s] show False by simp
qed

end

end
