(* ===== verification/Big_Int_Div_Correct.thy ===== *)
theory Big_Int_Div_Correct
  imports Big_Int_Div Knuth_Division
begin

text \<open>
  \<open>biDivideModulo\<close> terminates and computes quotient and remainder, for a dividend that is not
  negative and leaves the top digit free, and any divisor but 0.
\<close>

interpretation bi: knuth_radix 65536
  by unfold_locales simp

section \<open>Normalisation\<close>

lemma pow_65536: "(65536 :: int) ^ n = 2 ^ (16 * n)"
  by (simp add: power_mult)

lemma bi_normalize_correct:
  assumes "wf_bi N y" "0 < N" "0 < tb" "2 ^ (tb - 1) \<le> vald (digits y)" "vald (digits y) < 2 ^ tb"
    and "tb \<le> 16 * Suc t" "16 * t < tb" "t < N"
  shows "\<exists>y'. bi_normalize N y lambda tb = Some (y', lambda + (16 * Suc t - tb), 16 * Suc t) \<and>
    wf_bi N y' \<and> isNeg y' = isNeg y \<and> vald (digits y') = vald (digits y) * 2 ^ (16 * Suc t - tb)"
  using assms
proof (induction "16 * Suc t - tb" arbitrary: y lambda tb)
  case (0 tb)
  then have tb: "tb = 16 * Suc t" by simp
  have "top_index tb = int t" by (simp add: top_index_def tb)
  have ds: "all_digits (digits y)" "length (digits y) = N" using 0 by auto
  obtain d where d: "digits y ! t = Num d" "0 \<le> d" "d < 65536"
    using digit_obtain [OF ds(1)] ds(2) 0 by metis
  have "d = vald (digits y) div 65536 ^ t mod 65536"
    using dval_nth [OF ds(1), of t] d ds(2) 0 by simp
  moreover have "vald (digits y) < 65536 * 65536 ^ t"
    using 0 by (simp add: tb pow_65536 power_add)
  then have "vald (digits y) div 65536 ^ t < 65536"
    by (simp add: int_div_less_iff)
  moreover have "32768 * 65536 ^ t \<le> vald (digits y)"
    using 0 by (simp add: tb pow_65536 power_add mult.commute)
  then have "32768 \<le> vald (digits y) div 65536 ^ t"
    by (simp add: int_le_div_iff)
  ultimately have "\<not> d < 32768" by simp
  moreover have "rd (digits y) (top_index tb) = Num d"
    using d ds(2) 0 \<open>top_index tb = int t\<close> by simp
  ultimately have "bi_normalize N y lambda tb = Some (y, lambda, tb)"
    by (subst bi_normalize.simps) simp
  with 0 tb show ?case by simp
next
  case (Suc m)
  then have tb: "tb \<le> 16 * t + 15" by simp
  have ti: "top_index tb = int t"
  proof -
    have "(tb + 15) div 16 = Suc t" using tb Suc.prems by (intro div_nat_eqI) auto
    then show ?thesis by (simp add: top_index_def)
  qed
  have ds: "all_digits (digits y)" "length (digits y) = N" using Suc by auto
  obtain d where d: "digits y ! t = Num d" "0 \<le> d" "d < 65536"
    using digit_obtain [OF ds(1)] ds(2) Suc by metis
  have "d = vald (digits y) div 65536 ^ t mod 65536"
    using dval_nth [OF ds(1), of t] d ds(2) Suc by simp
  moreover have "(2 :: int) ^ tb \<le> 2 ^ (16 * t + 15)" using tb by (intro power_increasing) auto
  then have "vald (digits y) < 32768 * 65536 ^ t"
    using Suc.prems by (simp add: pow_65536 power_add)
  then have "vald (digits y) div 65536 ^ t < 32768"
    by (simp add: int_div_less_iff)
  moreover have "0 \<le> vald (digits y) div 65536 ^ t"
    using vald_nonneg [OF ds(1)] by (simp add: pos_imp_zdiv_nonneg_iff)
  ultimately have "d < 32768" by simp
  moreover have "rd (digits y) (top_index tb) = Num d"
    using d ds(2) Suc ti by simp
  ultimately have step: "bi_normalize N y lambda tb
      = bi_normalize N (biShiftLeft N y 1) (Suc lambda) (Suc tb)"
    by (subst bi_normalize.simps) simp
  have "vald (digits y) * 2 < 2 ^ Suc tb" using Suc.prems by simp
  also have "(2 :: int) ^ Suc tb \<le> 2 ^ (16 * N)" using tb Suc.prems by (intro power_increasing) auto
  finally have "vald (digits y) * 2 < 65536 ^ N" by (simp add: pow_65536)
  then have v: "vald (digits (biShiftLeft N y 1)) = vald (digits y) * 2"
    using biShiftLeft_correct(2) [of N y 1] Suc.prems vald_nonneg [OF ds(1)] by simp
  have p: "(2 :: int) ^ tb = 2 * 2 ^ (tb - 1)" using Suc.prems by (simp flip: power_Suc)
  have "\<exists>y'. bi_normalize N (biShiftLeft N y 1) (Suc lambda) (Suc tb)
      = Some (y', Suc lambda + (16 * Suc t - Suc tb), 16 * Suc t) \<and>
    wf_bi N y' \<and> isNeg y' = isNeg (biShiftLeft N y 1) \<and>
    vald (digits y') = vald (digits (biShiftLeft N y 1)) * 2 ^ (16 * Suc t - Suc tb)"
  proof (rule Suc.hyps(1))
    show "m = 16 * Suc t - Suc tb" using Suc.hyps(2) by simp
    show "wf_bi N (biShiftLeft N y 1)" using biShiftLeft_correct Suc.prems by blast
    show "2 ^ (Suc tb - 1) \<le> vald (digits (biShiftLeft N y 1))" unfolding v using Suc.prems p by simp
    show "vald (digits (biShiftLeft N y 1)) < 2 ^ Suc tb" unfolding v using Suc.prems by simp
  qed (use Suc.prems tb in simp_all)
  moreover have "Suc lambda + (16 * Suc t - Suc tb) = lambda + (16 * Suc t - tb)" using tb by simp
  moreover have "(2 :: int) ^ (16 * Suc t - tb) = 2 * 2 ^ (16 * Suc t - Suc tb)"
    using tb by (simp add: Suc_diff_le flip: power_Suc)
  ultimately show ?case
    using step v biShiftLeft_correct(3) [OF Suc.prems(1,2)] by (auto simp: mult.assoc)
qed

section \<open>The first digit\<close>

lemma bi_first_digit_correct:
  assumes "wf_bi N r" "wf_bi N b" "\<not> isNeg r" "\<not> isNeg b"
    and "bival r < 2 * bival b" "k < length qs" "qs ! k = Num 0"
  shows "\<exists>r'. bi_first_digit N b k r qs = Some (r', qs[k := Num (bival r div bival b)]) \<and>
    wf_bi N r' \<and> \<not> isNeg r' \<and> bival r' = bival r mod bival b"
proof -
  have r0: "0 \<le> bival r" and b0: "0 \<le> bival b" using assms bival_nonneg by blast+
  have stop: "bi_first_digit N b k r qs = Some (r, qs)"
    if "wf_bi N r" "\<not> isNeg r" "bival r < bival b" for r qs
    using that assms by (subst bi_first_digit.simps) (simp add: biCompare_correct)
  show ?thesis
  proof (cases "bival r < bival b")
    case True
    then have "bival r div bival b = 0" "bival r mod bival b = bival r" using r0 by auto
    moreover have "qs[k := Num 0] = qs" using assms(6,7) by (metis list_update_id)
    ultimately show ?thesis using stop [of r qs] True assms by auto
  next
    case False
    let ?r = "biSubtract N r b"
    have r': "wf_bi N ?r" "bival ?r = bival r - bival b" "\<not> isNeg ?r"
      using biSubtract_nonneg [of N r b] False assms by auto
    have qs: "wr qs (int k) (js_add (rd qs (int k)) (Num 1)) = qs[k := Num 1]"
      using assms(6,7) by simp
    have "bi_first_digit N b k r qs = bi_first_digit N b k ?r (qs[k := Num 1])"
      using False assms qs by (subst bi_first_digit.simps) (simp add: biCompare_correct)
    also have "\<dots> = Some (?r, qs[k := Num 1])"
      using r' assms(5) by (intro stop) auto
    finally have run: "bi_first_digit N b k r qs = Some (?r, qs[k := Num 1])" .
    have "bival r = bival b * 1 + (bival r - bival b)" by simp
    moreover have "0 \<le> bival r - bival b" "bival r - bival b < bival b" using False assms(5) by auto
    ultimately have "bival r div bival b = 1" "bival r mod bival b = bival r - bival b"
      using int_div_pos_eq int_mod_pos_eq by blast+
    with run r' show ?thesis by auto
  qed
qed

section \<open>One digit of the quotient\<close>

text \<open>
  Inside the loop the product is computed with a 32-bit \<open>or\<close>: the left operand has bit 31 set,
  so the result is negative and the test \<open>c1 > c2\<close> fails at its second evaluation.
\<close>

lemma or_is_negative:
  assumes "32768 \<le> yt" "yt < 65536" "0 \<le> yt1" "yt1 < 65536"
  shows "\<exists>w. js_or (js_mul (Num yt) (Num 65536)) (Num yt1) = Num w \<and> w < 0"
proof -
  have "yt * 65536 mod 2 ^ 32 = yt * 65536" using assms by simp
  then have "to_int32 (Num (yt * 65536)) = yt * 65536 - 4294967296"
    using assms by (simp add: to_int32_def)
  moreover have "yt * 65536 - 4294967296 < 0" using assms by simp
  ultimately show ?thesis by (simp add: js_or_def or_negative_int_iff)
qed

lemma bi_qhat_loop_correct:
  assumes "32768 \<le> yt" "yt < 65536" "0 \<le> yt1" "yt1 < 65536" "0 \<le> ri" "0 \<le> ri1" "0 \<le> ri2" "1 \<le> qd \<or> c1 \<le> c2"
    and c2: "c2 = ri * 4294967296 + (ri1 * 65536 + ri2)"
  shows "bi_qhat_loop (Num ri) (Num ri1) (Num ri2) (Num yt) (Num yt1) (Num qd) (Num c1) (Num c2)
    = Some (Num (if c2 < c1 then qd - 1 else qd))"
proof (cases "c2 < c1")
  case False
  then show ?thesis by (subst bi_qhat_loop.simps) simp
next
  case True
  obtain w where w: "js_or (js_mul (Num yt) (Num 65536)) (Num yt1) = Num w" "w < 0"
    using or_is_negative [OF assms(1-4)] by blast
  have "(qd - 1) * w \<le> 0" using True assms(8) w(2) by (intro mult_nonneg_nonpos) auto
  moreover have "0 \<le> ri * 65536 * 65536 + (ri1 * 65536 + ri2)" using assms by simp
  ultimately have "\<not> ri * 65536 * 65536 + (ri1 * 65536 + ri2) < (qd - 1) * w" by linarith
  then have "bi_qhat_loop (Num ri) (Num ri1) (Num ri2) (Num yt) (Num yt1) (Num (qd - 1))
      (Num ((qd - 1) * w)) (Num (ri * 65536 * 65536 + (ri1 * 65536 + ri2))) = Some (Num (qd - 1))"
    by (subst bi_qhat_loop.simps) simp
  with True w(1) show ?thesis by (subst bi_qhat_loop.simps) (simp add: Let_def)
qed

text \<open>The digits the step reads are digits of the numbers \<open>r\<close> and \<open>v\<close>.\<close>

lemma digit_or_0_val:
  assumes "wf_bi N x" "i < N"
  shows "digit_or_0 (digits x) (int i) = Num (vald (digits x) div 65536 ^ i mod 65536)"
proof -
  have x: "all_digits (digits x)" "length (digits x) = N" using assms(1) by auto
  with assms(2) have i: "i < length (digits x)" by simp
  obtain d where d: "digits x ! i = Num d" using digit_obtain [OF x(1) i] .
  with dval_nth [OF x(1) i] show ?thesis using i by (simp add: digit_or_0_def)
qed

lemma digit_pair: "a div 65536 ^ Suc n * 65536 + a div 65536 ^ n mod 65536 = a div (65536 :: int) ^ n"
proof -
  have "a div 65536 ^ Suc n = a div 65536 ^ n div 65536"
    by (metis power_Suc2 zdiv_zmult2_eq zero_le_numeral)
  then show ?thesis by simp
qed

definition step_pre :: "nat \<Rightarrow> bigint \<Rightarrow> nat \<Rightarrow> nat \<Rightarrow> bigint \<Rightarrow> bool" where
  "step_pre N y t k r \<longleftrightarrow>
     wf_bi N y \<and> wf_bi N r \<and> \<not> isNeg r \<and> t + 1 + k < N \<and>
     bi.step (vald (digits y)) (bival r) t k"

lemma bi_div_qhat:
  assumes pre: "step_pre N y t k r"
  defines "v \<equiv> vald (digits y)" and "rv \<equiv> bival r"
  defines "ri \<equiv> digit_or_0 (digits r) (int t + 1 + int k)"
    and "ri1 \<equiv> digit_or_0 (digits r) (int t + 1 + int k - 1)"
    and "ri2 \<equiv> digit_or_0 (digits r) (int t + 1 + int k - 2)"
    and "yt \<equiv> digit_or_0 (digits y) (int t)"
    and "yt1 \<equiv> digit_or_0 (digits y) (int t - 1)"
  defines "qd0 \<equiv> (if js_eq ri yt then Num 65535 else js_floor_div (js_add (js_mul ri (Num 65536)) ri1) yt)"
  defines "c1 \<equiv> js_mul qd0 (js_add (js_mul yt (Num 65536)) yt1)"
    and "c2 \<equiv> js_add (js_mul ri (Num 4294967296)) (js_add (js_mul ri1 (Num 65536)) ri2)"
  shows "\<exists>qd. bi_qhat_loop ri ri1 ri2 yt yt1 qd0 c1 c2 = Some (Num qd) \<and>
    (qd = bi.Q v rv k \<or> qd = bi.Q v rv k + 1 \<and> rv \<noteq> bi.Q v rv k * (v * 65536 ^ k)) \<and>
    0 \<le> qd \<and> qd < 65536"
proof -
  have wf: "wf_bi N y" "wf_bi N r" "\<not> isNeg r" "t + 1 + k < N" and s: "bi.step v rv t k"
    using pre by (auto simp: step_pre_def v_def rv_def)
  have rv: "vald (digits r) = rv" using wf by (simp add: rv_def vald_bival)
  have v0: "0 \<le> v" and r0: "0 \<le> rv" using bi.v_pos [OF s] bi.r_nonneg [OF s] by auto
  let ?ri = "bi.ri rv t k" and ?yt = "bi.yt v t"
  define r1 where "r1 = rv div 65536 ^ (t + k) mod 65536"
  have yt_lt: "?yt < 65536" "32768 \<le> ?yt" using bi.yt_less [OF s] bi.yt_ge [OF s] by simp_all
  have ri_lt: "0 \<le> ?ri" "?ri < 65536"
    using bi.ri_le_yt [OF s] yt_lt r0 by (auto simp: bi.ri_def pos_imp_zdiv_nonneg_iff)
  have ri: "ri = Num ?ri"
    using digit_or_0_val [OF wf(2), of "t + 1 + k"] wf(4) ri_lt
    by (simp add: ri_def rv bi.ri_def ac_simps)
  have ri1: "ri1 = Num r1"
    using digit_or_0_val [OF wf(2), of "t + k"] wf(4) by (simp add: ri1_def rv r1_def)
  have yt: "yt = Num ?yt"
    using digit_or_0_val [OF wf(1), of t] wf(4) yt_lt by (simp add: yt_def v_def bi.yt_def)
  have u2: "?ri * 65536 + r1 = bi.u2 rv t k"
    using digit_pair [of rv "t + k"] by (simp add: bi.ri_def bi.u2_def r1_def)
  have qd0: "qd0 = Num (bi.qhat v rv t k)"
    unfolding qd0_def ri ri1 yt using yt_lt u2 by (simp add: bi.qhat_def)
  have Qr: "0 \<le> bi.Q v rv k" "bi.Q v rv k < 65536" using bi.Q_range [OF s] by auto
  have qr: "0 \<le> bi.qhat v rv t k" "bi.qhat v rv t k < 65536" using bi.qhat_range [OF s] by auto
  show ?thesis
  proof (cases "t = 0")
    case True
    then have "yt1 = Undef" by (simp add: yt1_def digit_or_0_def rd_def)
    then have "c1 = NaN" by (cases "js_mul yt (Num 65536)"; cases qd0) (simp_all add: c1_def)
    then have "\<not> js_lt c2 c1" by (cases c2) simp_all
    then have "bi_qhat_loop ri ri1 ri2 yt yt1 qd0 c1 c2 = Some qd0" by (subst bi_qhat_loop.simps) simp
    with qd0 qr bi.qhat_one_digit [OF s True] show ?thesis by simp
  next
    case False
    then obtain t' where t: "t = Suc t'" by (cases t) auto
    define y1 r2 where "y1 = v div 65536 ^ t' mod 65536" and "r2 = rv div 65536 ^ (t' + k) mod 65536"
    have yt1: "yt1 = Num y1"
      using digit_or_0_val [OF wf(1), of t'] wf(4) by (simp add: yt1_def t v_def y1_def)
    have ri2: "ri2 = Num r2"
      using digit_or_0_val [OF wf(2), of "t' + k"] wf(4) by (simp add: ri2_def t rv r2_def)
    have y2: "?yt * 65536 + y1 = bi.y2 v t"
      using digit_pair [of v t'] by (simp add: bi.yt_def bi.y2_def t y1_def)
    have "(?ri * 65536 + r1) * 65536 + r2 = bi.u3 rv t k"
      unfolding u2 using digit_pair [of rv "t' + k"] by (simp add: bi.u2_def bi.u3_def t r2_def)
    then have u3: "?ri * 4294967296 + (r1 * 65536 + r2) = bi.u3 rv t k" by (simp add: algebra_simps)
    have c1: "c1 = Num (bi.qhat v rv t k * bi.y2 v t)" unfolding c1_def qd0 yt yt1 using y2 by simp
    have c2: "c2 = Num (bi.u3 rv t k)" unfolding c2_def ri ri1 ri2 using u3 by simp
    have u30: "0 \<le> bi.u3 rv t k" using r0 by (simp add: bi.u3_def pos_imp_zdiv_nonneg_iff)
    have "1 \<le> bi.qhat v rv t k \<or> bi.qhat v rv t k * bi.y2 v t \<le> bi.u3 rv t k"
      using qr u30 by (cases "bi.qhat v rv t k = 0") auto
    then have loop: "bi_qhat_loop ri ri1 ri2 yt yt1 qd0 c1 c2
        = Some (Num (if bi.u3 rv t k < bi.qhat v rv t k * bi.y2 v t then bi.qhat v rv t k - 1 else bi.qhat v rv t k))"
      unfolding ri ri1 ri2 yt yt1 qd0 c1 c2 using yt_lt ri_lt
      by (intro bi_qhat_loop_correct) (auto simp: y1_def r1_def r2_def u3 [symmetric])
    show ?thesis
    proof (cases "bi.u3 rv t k < bi.qhat v rv t k * bi.y2 v t")
      case True
      have "bi.Q v rv k < bi.qhat v rv t k" using bi.test_fails [OF s _ True] t by simp
      moreover have "rv = bi.Q v rv k * (v * 65536 ^ k) \<Longrightarrow> bi.qhat v rv t k \<le> bi.Q v rv k + 1"
        by (rule bi.exact_qhat_le [OF s])
      ultimately show ?thesis using bi.qhat_le [OF s] loop True qr Qr by auto
    next
      case le: False
      have "bi.qhat v rv t k \<le> bi.Q v rv k + 1" using bi.test_passes [OF s] le t by simp
      moreover have "rv = bi.Q v rv k * (v * 65536 ^ k) \<Longrightarrow> bi.qhat v rv t k \<le> bi.Q v rv k"
        using bi.exact_test [OF s] le t by simp
      ultimately show ?thesis using bi.Q_le_qhat [OF s] loop le qr by auto
    qed
  qed
qed

lemma bi_div_step_correct:
  assumes pre: "step_pre N y t k r" and qs: "k < length qs"
  shows "\<exists>r'. bi_div_step N y (int t) k r qs
      = Some (r', qs[k := Num (bival r div (vald (digits y) * 65536 ^ k))]) \<and>
    wf_bi N r' \<and> \<not> isNeg r' \<and> bival r' = bival r mod (vald (digits y) * 65536 ^ k)"
proof -
  let ?v = "vald (digits y)" and ?Q = "bi.Q (vald (digits y)) (bival r) k"
  have wf: "wf_bi N y" "wf_bi N r" "\<not> isNeg r" "t + 1 + k < N" and s: "bi.step ?v (bival r) t k"
    using pre by (auto simp: step_pre_def)
  have N: "0 < N" using wf(4) by simp
  define b where "b = biMultiplyByRadixPower N y k"
  have "?v < 65536 ^ t * 65536" using bi.v_less [OF s] .
  then have "?v * 65536 ^ k < 65536 ^ t * 65536 * 65536 ^ k" by (intro mult_strict_right_mono) auto
  then have vb: "?v * 65536 ^ k < 65536 ^ Suc (t + k)" by (simp add: power_add ac_simps)
  also have "(65536 :: int) ^ Suc (t + k) \<le> 65536 ^ N" using wf(4) by (intro power_increasing) auto
  finally have "?v * 65536 ^ k < 65536 ^ N" .
  then have b: "wf_bi N b" "bival b = ?v * 65536 ^ k" "\<not> isNeg b"
    using biMultiplyByRadixPower_correct [of N "y\<lparr>isNeg := False\<rparr>" k] wf(1)
    by (auto simp: b_def biMultiplyByRadixPower_def bival_def)
  have b0: "0 < bival b" using bi.b_pos [OF s] b(2) by simp
  obtain qd where loop:
    "bi_qhat_loop (digit_or_0 (digits r) (int t + 1 + int k)) (digit_or_0 (digits r) (int t + 1 + int k - 1))
       (digit_or_0 (digits r) (int t + 1 + int k - 2)) (digit_or_0 (digits y) (int t)) (digit_or_0 (digits y) (int t - 1))
       (if js_eq (digit_or_0 (digits r) (int t + 1 + int k)) (digit_or_0 (digits y) (int t)) then Num 65535
        else js_floor_div (js_add (js_mul (digit_or_0 (digits r) (int t + 1 + int k)) (Num 65536))
               (digit_or_0 (digits r) (int t + 1 + int k - 1))) (digit_or_0 (digits y) (int t)))
       (js_mul (if js_eq (digit_or_0 (digits r) (int t + 1 + int k)) (digit_or_0 (digits y) (int t)) then Num 65535
          else js_floor_div (js_add (js_mul (digit_or_0 (digits r) (int t + 1 + int k)) (Num 65536))
               (digit_or_0 (digits r) (int t + 1 + int k - 1))) (digit_or_0 (digits y) (int t)))
          (js_add (js_mul (digit_or_0 (digits y) (int t)) (Num 65536)) (digit_or_0 (digits y) (int t - 1))))
       (js_add (js_mul (digit_or_0 (digits r) (int t + 1 + int k)) (Num 4294967296))
          (js_add (js_mul (digit_or_0 (digits r) (int t + 1 + int k - 1)) (Num 65536))
             (digit_or_0 (digits r) (int t + 1 + int k - 2)))) = Some (Num qd)"
    and qd: "qd = ?Q \<or> qd = ?Q + 1 \<and> bival r \<noteq> ?Q * (?v * 65536 ^ k)" "0 \<le> qd" "qd < 65536"
    using bi_div_qhat [OF pre] by blast
  have "biHighIndex b \<le> t + k" using biHighIndex_le [OF b(1) N, of "t + k"] b(2) b0 vb by simp
  then have m: "wf_bi N (biMultiplyDigit N b (Num qd))" "bival (biMultiplyDigit N b (Num qd)) = bival b * qd"
    "\<not> isNeg (biMultiplyDigit N b (Num qd))"
    using biMultiplyDigit_correct [OF b(1,3) qd(2,3)] wf(4) by auto
  define r' where "r' = biSubtract N r (biMultiplyDigit N b (Num qd))"
  have r': "wf_bi N r'" "bival r' = bival r - bival b * qd" "isNeg r' \<longleftrightarrow> bival r < bival b * qd"
    using biSubtract_nonneg [OF wf(2) m(1) wf(3) m(3)] m(2) by (auto simp: r'_def)
  have step: "bi_div_step N y (int t) k r qs =
      Some (if isNeg r' then (biAdd N r' b, wr qs (int k) (js_sub (Num qd) (Num 1))) else (r', wr qs (int k) (Num qd)))"
    by (simp only: bi_div_step_def Let_def loop bind.bind_lunit b_def [symmetric] r'_def)
  have Q: "bival r div bival b = ?Q" "bival r mod bival b = bival r - bival b * ?Q"
    using b(2) by (simp_all add: bi.Q_def minus_mult_div_eq_mod)
  have Qb: "bival b * ?Q \<le> bival r" "bival r < bival b * (?Q + 1)"
    using int_div_bounds [OF b0, of "bival r"] Q(1) by (simp_all add: mult.commute)
  show ?thesis
  proof (cases "qd = ?Q")
    case True
    then have "\<not> isNeg r'" using r'(3) Qb by simp
    with step r' True Q b(2) qs show ?thesis by simp
  next
    case False
    then have q1: "qd = ?Q + 1" using qd(1) by simp
    then have neg: "isNeg r'" using r'(3) Qb by simp
    have "bival r' + bival b = bival r - bival b * ?Q" using r'(2) q1 by (simp add: algebra_simps)
    moreover have "biAdd N r' b = biSubtract N r' (b\<lparr>isNeg := True\<rparr>)" using neg b(3) by (simp add: biAdd.simps)
    moreover have "wf_bi N (b\<lparr>isNeg := True\<rparr>)" "bival (b\<lparr>isNeg := True\<rparr>) = - bival b"
      using b by (auto simp: bival_def)
    moreover have "vald (digits r') = - bival r'" using neg by (simp add: bival_def)
    moreover have "vald (digits (b\<lparr>isNeg := True\<rparr>)) = bival b" using b(3) by (simp add: bival_def)
    ultimately have a: "wf_bi N (biAdd N r' b)" "bival (biAdd N r' b) = bival r - bival b * ?Q"
      and sg: "isNeg (biAdd N r' b) \<longleftrightarrow> (if - bival r' < bival b then \<not> isNeg r' else isNeg r')"
      using biSubtract_same [of N r' "b\<lparr>isNeg := True\<rparr>"] r'(1) neg by auto
    have "bival b * ?Q \<noteq> bival r" using qd(1) False b(2) by (simp add: mult.commute)
    then have "- bival r' < bival b" using Qb r'(2) q1 by (simp add: algebra_simps)
    with sg neg have "\<not> isNeg (biAdd N r' b)" by simp
    with step neg a Q b(2) qs q1 show ?thesis by simp
  qed
qed

section \<open>The loop over the digits and the whole division\<close>

text \<open>What normalisation establishes for the divisor of the loop.\<close>

definition div_pre :: "nat \<Rightarrow> bigint \<Rightarrow> nat \<Rightarrow> nat \<Rightarrow> bigint \<Rightarrow> bool" where
  "div_pre N y t k r \<longleftrightarrow>
     wf_bi N y \<and> wf_bi N r \<and> \<not> isNeg r \<and> t + k < N \<and>
     65536 ^ t * 65536 \<le> 2 * vald (digits y) \<and> vald (digits y) < 65536 ^ t * 65536 \<and>
     bival r < vald (digits y) * 65536 ^ k"

lemma div_pre_step: "div_pre N y t (Suc k) r \<Longrightarrow> step_pre N y t k r"
  using bival_nonneg [of r N] by (auto simp: div_pre_def step_pre_def bi.step_def ac_simps)

lemma is_digit_quotient:
  assumes "0 < (b :: int)" "0 \<le> a" "a < b * 65536"
  shows "is_digit (Num (a div b))"
  using assms by (simp add: pos_imp_zdiv_nonneg_iff int_div_less_iff mult.commute)

lemma bi_div_loop_correct:
  assumes "div_pre N y t k r" "length qs = N" "all_digits qs"
  shows "\<exists>r' qs'. bi_div_loop N y (int t) k r qs = Some (r', qs') \<and>
    wf_bi N r' \<and> \<not> isNeg r' \<and> bival r' = bival r mod vald (digits y) \<and>
    length qs' = N \<and> all_digits qs' \<and> drop k qs' = drop k qs \<and>
    vald (take k qs') = bival r div vald (digits y)"
  using assms
proof (induction k arbitrary: r qs)
  case 0
  then have "0 \<le> bival r" "bival r < vald (digits y)" using bival_nonneg by (auto simp: div_pre_def)
  then show ?case using 0 by (simp add: div_pre_def)
next
  case (Suc k)
  let ?v = "vald (digits y)"
  let ?b = "?v * 65536 ^ k" and ?w = "65536 ^ k :: int"
  note pre = Suc.prems(1)
  have k: "k < length qs" and kN: "k < N" using Suc.prems by (auto simp: div_pre_def)
  have v0: "0 < ?v" using pre zero_less_power [of "65536 :: int" t] by (auto simp: div_pre_def)
  then have b0: "0 < ?b" by simp
  have r0: "0 \<le> bival r" using pre bival_nonneg by (auto simp: div_pre_def)
  let ?Q = "bival r div ?b"
  obtain r1 where r1: "bi_div_step N y (int t) k r qs = Some (r1, qs[k := Num ?Q])"
    "wf_bi N r1" "\<not> isNeg r1" "bival r1 = bival r mod ?b"
    using bi_div_step_correct [OF div_pre_step [OF pre] k] by blast
  have "bival r < ?b * 65536" using pre by (simp add: div_pre_def ac_simps)
  then have Qd: "is_digit (Num ?Q)" by (rule is_digit_quotient [OF b0 r0])
  have "div_pre N y t k r1" using pre r1 b0 by (auto simp: div_pre_def)
  then obtain r2 qs2 where r2: "bi_div_loop N y (int t) k r1 (qs[k := Num ?Q]) = Some (r2, qs2)"
    "wf_bi N r2" "\<not> isNeg r2" "bival r2 = bival r1 mod ?v"
    "length qs2 = N" "all_digits qs2" "drop k qs2 = drop k (qs[k := Num ?Q])"
    "vald (take k qs2) = bival r1 div ?v"
    using Suc.IH [of r1 "qs[k := Num ?Q]"] Suc.prems list_all_update [OF Suc.prems(3) Qd] by auto
  have "bi_div_loop N y (int t) (Suc k) r qs = Some (r2, qs2)" using r1(1) r2(1) by simp
  moreover have "bival r2 = bival r mod ?v" using r2(4) r1(4) by (simp add: mod_mod_cancel)
  moreover have "drop (Suc k) qs2 = drop (Suc k) qs"
    using r2(7) by (metis drop_Suc drop_update_cancel lessI tl_drop)
  moreover have "qs2 ! k = Num ?Q"
    using arg_cong [OF r2(7), of "\<lambda>l. l ! 0"] r2(5) k kN by simp
  then have "vald (take (Suc k) qs2) = bival r1 div ?v + ?Q * ?w"
    using r2(5,8) kN by (simp add: vald_take_Suc)
  moreover have "bival r1 div ?v + ?Q * ?w = bival r div ?v"
  proof -
    have "bival r = bival r mod ?b + ?Q * ?b" by (simp only: mod_div_mult_eq)
    then have "bival r = bival r1 + ?Q * ?w * ?v" using r1(4) by (simp add: ac_simps)
    then have "bival r div ?v = (bival r1 + ?Q * ?w * ?v) div ?v" by (rule arg_cong)
    also have "\<dots> = ?Q * ?w + bival r1 div ?v" using v0 by simp
    finally show ?thesis by simp
  qed
  ultimately show ?case using r2 by auto
qed

text \<open>How the number of bits fixes the index of the top digit.\<close>

lemma top_index_bounds:
  assumes "0 < nb"
  obtains n where "top_index nb = int n" "nb \<le> 16 * Suc n" "16 * n < nb"
proof
  let ?n = "(nb + 15) div 16 - 1"
  have n: "(nb + 15) div 16 = Suc ?n" using assms by (simp add: div_greater_zero_iff)
  then show "top_index nb = int ?n" by (simp add: top_index_def)
  have "16 * ((nb + 15) div 16) \<le> nb + 15" by simp
  then show "16 * ?n < nb" using n by simp
  have "nb + 15 < 16 * Suc ((nb + 15) div 16)" by simp
  then show "nb \<le> 16 * Suc ?n" using n by simp
qed

lemma pow_less_imp: "(2 :: int) ^ a < 2 ^ b \<Longrightarrow> a < b"
  by (metis linorder_not_less one_le_numeral power_increasing)

theorem biDivideModulo_correct:
  assumes x: "wf_bi N x" "\<not> isNeg x" "bival x < 65536 ^ (N - 1)"
    and y: "wf_bi N y" "bival y \<noteq> 0"
  shows "\<exists>q r. biDivideModulo N x y = Some (q, r) \<and>
    wf_bi N q \<and> wf_bi N r \<and> \<not> isNeg r \<and>
    bival r = bival x mod \<bar>bival y\<bar> \<and> vald (digits q) = bival x div \<bar>bival y\<bar> \<and>
    (bival q = sgn (bival y) * (bival x div \<bar>bival y\<bar>))"
proof -
  let ?X = "vald (digits x)" and ?V = "vald (digits y)"
  have X: "?X = bival x" using x by (simp add: bival_def)
  have V: "?V = \<bar>bival y\<bar>" using y by (simp add: abs_bival)
  have Xr: "0 \<le> ?X" "?X < 65536 ^ (N - 1)" using x bival_nonneg by (auto simp: X)
  have V0: "0 < ?V" using y by (simp add: V)
  have "?V < 65536 ^ N" using vald_less y(1) by auto
  then have N: "0 < N" using V0 by (cases N) auto
  define nb tb where "nb = biNumBits x" and "tb = biNumBits y"
  have tb: "0 < tb" "2 ^ (tb - 1) \<le> ?V" "?V < 2 ^ tb"
    using biNumBits_correct(2) [OF y(1) N] V0 by (auto simp: tb_def)
  have nbX: "?X < 2 ^ nb" "nb \<noteq> 0 \<longrightarrow> 2 ^ (nb - 1) \<le> ?X"
    using biNumBits_correct [OF x(1) N] by (cases "?X = 0"; auto simp: nb_def)+
  have sgn: "sgn (bival y) = (if isNeg y then - 1 else 1)" using V0 by (simp add: bival_def sgn_if)
  show ?thesis
  proof (cases "nb < tb")
    case True
    have "?X < ?V"
    proof -
      have "(2 :: int) ^ nb \<le> 2 ^ (tb - 1)" using True by (intro power_increasing) auto
      then show ?thesis using nbX tb by linarith
    qed
    then have "bival x div \<bar>bival y\<bar> = 0" "bival x mod \<bar>bival y\<bar> = bival x"
      using Xr(1) by (simp_all add: X V)
    moreover have "biDivideModulo N x y = Some (new_BigInt N, biCopy x)"
      using True x by (simp add: biDivideModulo_def Let_def nb_def tb_def)
    moreover have "vald (digits (new_BigInt N)) = 0" "biCopy x = x" by (simp_all add: new_BigInt_def biCopy_def)
    ultimately show ?thesis using x by auto
  next
    case False
    then have nb0: "0 < nb" using tb by simp
    obtain t where t: "top_index tb = int t" "tb \<le> 16 * Suc t" "16 * t < tb" using top_index_bounds [OF tb(1)] .
    define lam where "lam = 16 * Suc t - tb"
    have lam: "lam < 16" "tb + lam = 16 * Suc t" using t by (auto simp: lam_def)
    obtain n where n: "top_index (nb + lam) = int n" "nb + lam \<le> 16 * Suc n" "16 * n < nb + lam"
      using top_index_bounds [of "nb + lam"] nb0 by blast
    have tn: "t \<le> n" using False lam n by simp
    have "2 ^ (nb - 1) \<le> ?X" using nbX(2) nb0 by simp
    then have "(2 :: int) ^ (nb - 1) < 2 ^ (16 * (N - 1))" using Xr(2) pow_65536 [of "N - 1"] by linarith
    then have "nb - 1 < 16 * (N - 1)" by (rule pow_less_imp)
    then have nN: "n < N" using n(3) lam(1) nb0 by simp
    then have tN: "t < N" using tn by simp
    obtain y' where y': "bi_normalize N y 0 tb = Some (y', lam, 16 * Suc t)" "wf_bi N y'" "isNeg y' = isNeg y"
      "vald (digits y') = ?V * 2 ^ lam"
      using bi_normalize_correct [OF y(1) N tb t(2,3) tN, of 0] by (auto simp: lam_def)
    have tt: "top_index (16 * Suc t) = int t"
      using div_nat_eqI [of 16 "Suc t" "16 * Suc t + 15"] by (simp add: top_index_def)
    define V' X' where "V' = ?V * 2 ^ lam" and "X' = ?X * 2 ^ lam"
    have V'0: "0 < V'" and X'0: "0 \<le> X'" using V0 Xr by (simp_all add: V'_def X'_def)
    have V'r: "65536 ^ t * 65536 \<le> 2 * V'" "V' < 65536 ^ t * 65536"
    proof -
      have B: "(65536 :: int) ^ t * 65536 = 2 ^ (tb + lam)" using lam(2) by (simp add: pow_65536 power_add)
      have "(2 :: int) ^ (tb + lam) = 2 * (2 ^ (tb - 1) * 2 ^ lam)" using tb(1) by (cases tb) (auto simp: power_add)
      also have "\<dots> \<le> 2 * V'" using tb(2) by (simp add: V'_def)
      finally show "65536 ^ t * 65536 \<le> 2 * V'" by (simp add: B)
      have "V' < 2 ^ tb * 2 ^ lam" unfolding V'_def using tb(3) by simp
      then show "V' < 65536 ^ t * 65536" by (simp add: B power_add)
    qed
    have X'n: "X' < 65536 ^ Suc n"
    proof -
      have "X' < 2 ^ nb * 2 ^ lam" unfolding X'_def using nbX(1) by simp
      also have "(2 :: int) ^ nb * 2 ^ lam = 2 ^ (nb + lam)" by (simp add: power_add)
      also have "(2 :: int) ^ (nb + lam) \<le> 2 ^ (16 * Suc n)" using n(2) by (intro power_increasing) auto
      finally show ?thesis by (simp only: pow_65536)
    qed
    also have "(65536 :: int) ^ Suc n \<le> 65536 ^ N" using nN by (intro power_increasing) auto
    finally have X'N: "X' < 65536 ^ N" .
    define r0 where "r0 = biShiftLeft N x lam"
    have r0: "wf_bi N r0" "\<not> isNeg r0" "bival r0 = X'"
      using biShiftLeft_correct [OF x(1) N, of lam] x(2) X'0 X'N by (auto simp: r0_def X'_def bival_def)
    let ?k = "n - t"
    have kn: "nat (int n - int t) = ?k" by simp
    define b where "b = biMultiplyByRadixPower N y' ?k"
    have "V' * 65536 ^ ?k < 65536 ^ t * 65536 * 65536 ^ ?k" using V'r by (intro mult_strict_right_mono) auto
    also have "(65536 :: int) ^ t * 65536 * 65536 ^ ?k = 65536 ^ Suc n" using tn by (simp flip: power_add power_Suc2)
    also have "(65536 :: int) ^ Suc n \<le> 65536 ^ N" using nN by (intro power_increasing) auto
    finally have bN: "V' * 65536 ^ ?k < 65536 ^ N" .
    then have b: "wf_bi N b" "bival b = V' * 65536 ^ ?k" "\<not> isNeg b"
      using biMultiplyByRadixPower_correct [of N "y'\<lparr>isNeg := False\<rparr>" ?k] y'(2,4)
      by (auto simp: b_def biMultiplyByRadixPower_def bival_def V'_def)
    have "65536 ^ Suc n \<le> 2 * bival b"
    proof -
      have "65536 ^ t * 65536 * 65536 ^ ?k \<le> 2 * V' * 65536 ^ ?k" using V'r by (intro mult_right_mono) auto
      moreover have "(65536 :: int) ^ t * 65536 * 65536 ^ ?k = 65536 ^ Suc n" using tn by (simp flip: power_add power_Suc2)
      ultimately show ?thesis by (simp add: b(2))
    qed
    then have "bival r0 < 2 * bival b" using X'n r0(3) by simp
    moreover have kN: "?k < length (ZERO_ARRAY N)" using nN by simp
    moreover have "ZERO_ARRAY N ! ?k = Num 0" using nN by simp
    ultimately obtain r1 where r1: "bi_first_digit N b ?k r0 (ZERO_ARRAY N)
        = Some (r1, (ZERO_ARRAY N)[?k := Num (X' div (V' * 65536 ^ ?k))])"
      "wf_bi N r1" "\<not> isNeg r1" "bival r1 = X' mod (V' * 65536 ^ ?k)"
      using bi_first_digit_correct [OF r0(1) b(1) r0(2) b(3)] unfolding r0(3) b(2) by blast
    let ?Qn = "X' div (V' * 65536 ^ ?k)"
    define qs1 where "qs1 = (ZERO_ARRAY N)[?k := Num ?Qn]"
    have B0: "0 < V' * 65536 ^ ?k" using V'0 by simp
    have "X' < V' * 65536 ^ ?k * 65536" using \<open>bival r0 < 2 * bival b\<close> B0 by (simp add: r0(3) b(2))
    then have Qd: "is_digit (Num ?Qn)" by (rule is_digit_quotient [OF B0 X'0])
    have qs1: "length qs1 = N" "all_digits qs1" using list_all_update [OF all_digits_ZERO Qd] by (simp_all add: qs1_def)
    have pre: "div_pre N y' t ?k r1"
      using y' r1 V'r nN tn B0 by (simp add: div_pre_def V'_def [symmetric])
    obtain r2 qs2 where r2: "bi_div_loop N y' (int t) ?k r1 qs1 = Some (r2, qs2)"
      "wf_bi N r2" "\<not> isNeg r2" "bival r2 = bival r1 mod V'"
      "length qs2 = N" "all_digits qs2" "drop ?k qs2 = drop ?k qs1" "vald (take ?k qs2) = bival r1 div V'"
      using bi_div_loop_correct [OF pre qs1] y'(4) by (auto simp: V'_def)
    have r2v: "bival r2 = (?X mod ?V) * 2 ^ lam"
      using r2(4) r1(4) by (simp add: mod_mod_cancel X'_def V'_def mult_mod_left)
    have q2v: "vald qs2 = ?X div ?V"
    proof -
      have "vald (drop ?k qs1) = ?Qn"
      proof -
        have "drop ?k qs1 = Num ?Qn # drop (Suc ?k) (ZERO_ARRAY N)"
          using kN by (simp add: qs1_def Cons_nth_drop_Suc [symmetric])
        then show ?thesis by (simp add: ZERO_ARRAY_replicate)
      qed
      moreover have "vald qs2 = vald (take ?k qs2) + 65536 ^ ?k * vald (drop ?k qs2)"
        using vald_split [of qs2 ?k] r2(5) nN by (simp add: min_absorb1)
      ultimately have "vald qs2 = bival r1 div V' + 65536 ^ ?k * ?Qn" using r2(7,8) by simp
      moreover have "X' = X' mod (V' * 65536 ^ ?k) + ?Qn * (V' * 65536 ^ ?k)" by (simp only: mod_div_mult_eq)
      then have "X' = bival r1 + (65536 ^ ?k * ?Qn) * V'" using r1(4) by (simp add: ac_simps)
      then have "X' div V' = (bival r1 + (65536 ^ ?k * ?Qn) * V') div V'" by (rule arg_cong)
      then have "X' div V' = bival r1 div V' + 65536 ^ ?k * ?Qn" using V'0 by simp
      moreover have "X' div V' = ?X div ?V" by (simp add: X'_def V'_def)
      ultimately show ?thesis by simp
    qed
    define r3 where "r3 = biShiftRight N r2 lam"
    have "vald (digits r2) = bival r2" using r2(3) by (simp add: bival_def)
    then have r3: "wf_bi N r3" "\<not> isNeg r3" "bival r3 = ?X mod ?V"
      using biShiftRight_correct [OF r2(2) N, of lam] r2(3) r2v by (auto simp: r3_def bival_def)
    have fin: "r3\<lparr>isNeg := False\<rparr> = r3"
      using r3(2) by (cases r3) auto
    define q where "q = \<lparr>digits = qs2, isNeg = isNeg y\<rparr>"
    have "biDivideModulo N x y = Some (q, r3)"
      unfolding biDivideModulo_def Let_def nb_def [symmetric] tb_def [symmetric]
      using False y'(1) x(2) r1(1) r2(1) fin
      using tt by (simp add: n(1) kn r0_def [symmetric] b_def [symmetric] qs1_def [symmetric] r3_def [symmetric] q_def)
    moreover have "wf_bi N q" using r2(5,6) by (simp add: q_def wf_bi_def)
    moreover have "vald (digits q) = ?X div ?V" by (simp add: q_def q2v)
    moreover have "bival q = sgn (bival y) * (?X div ?V)" unfolding sgn by (simp add: q_def bival_def q2v)
    ultimately show ?thesis using r3 unfolding X V by blast
  qed
qed

end
