(* ===== verification/Barrett.thy ===== *)
theory Barrett
  imports Big_Int_Div_Correct
begin

text \<open>
  \<open>assets/plugins/rsa/Barrett.js\<close> (modular reduction without division) and the two
  square-and-multiply loops, \<open>BarrettMu_powMod\<close> and \<open>biPowMod\<close> of \<open>BigInt.js\<close>, which are the
  same loop over different modular multiplications: the locale \<open>modular_mult\<close> is that interface.
\<close>

section \<open>Square and multiply\<close>

text \<open>
  The \<open>while (true)\<close> loop of \<open>BarrettMu_powMod\<close> and \<open>biPowMod\<close>; \<open>mul\<close> is the modular
  multiplication it calls.
\<close>

partial_function (option) pow_loop ::
  "nat \<Rightarrow> (bigint \<Rightarrow> bigint \<Rightarrow> bigint option) \<Rightarrow> bigint \<Rightarrow> bigint \<Rightarrow> bigint \<Rightarrow> bigint option" where
  "pow_loop N mul result a k =
     do {
       result \<leftarrow> (if js_and (rd (digits k) 0) (Num 1) \<noteq> Num 0 then mul result a else Some result);
       let k = biShiftRight N k 1;
       if js_eq (rd (digits k) 0) (Num 0) \<and> biHighIndex k = 0 then Some result
       else do { a \<leftarrow> mul a a; pow_loop N mul result a k }
     }"

declare pow_loop.simps [code]

definition biPowMod :: "nat \<Rightarrow> bigint \<Rightarrow> bigint \<Rightarrow> bigint \<Rightarrow> bigint option" where
  "biPowMod N x y m = pow_loop N (\<lambda>a b. biMultiplyMod N a b m) (bigOne N) x y"

lemma js_odd: "is_digit d \<Longrightarrow> js_and d (Num 1) \<noteq> Num 0 \<longleftrightarrow> odd (dval d)"
  by (cases d) (auto simp: js_and_1 odd_iff_mod_2_eq_one)

lemma digit_0:
  assumes "wf_bi N x" "0 < N"
  shows "is_digit (rd (digits x) 0)" "dval (rd (digits x) 0) = vald (digits x) mod 65536"
proof -
  have x: "all_digits (digits x)" "0 < length (digits x)" using assms by auto
  obtain d where d: "digits x ! 0 = Num d" "0 \<le> d" "d < 65536" using digit_obtain [OF x] .
  have "rd (digits x) 0 = Num d" using d(1) x(2) by (simp add: rd_def)
  with d dval_nth [OF x] show "is_digit (rd (digits x) 0)" "dval (rd (digits x) 0) = vald (digits x) mod 65536"
    by simp_all
qed

lemma zero_test:
  assumes "wf_bi N x" "0 < N"
  shows "js_eq (rd (digits x) 0) (Num 0) \<and> biHighIndex x = 0 \<longleftrightarrow> vald (digits x) = 0"
proof
  assume "js_eq (rd (digits x) 0) (Num 0) \<and> biHighIndex x = 0"
  moreover obtain d where "rd (digits x) 0 = Num d" using digit_0(1) [OF assms] is_digitD by blast
  moreover have "0 < length (digits x)" using assms by auto
  ultimately show "vald (digits x) = 0"
    using high_digit_0 [OF _ assms] by (simp add: rd_def)
next
  assume z: "vald (digits x) = 0"
  have "dval (rd (digits x) 0) = 0" using digit_0(2) [OF assms] z by simp
  then have "js_eq (rd (digits x) 0) (Num 0)" using digit_0(1) [OF assms] is_digitD by (metis js_eq.simps(1))
  moreover have "biHighIndex x = 0"
  proof (rule ccontr)
    assume "biHighIndex x \<noteq> 0"
    then have "(65536 :: int) ^ biHighIndex x \<le> 0" using high_le_vald [OF assms] z by simp
    then show False using zero_less_power [of "65536 :: int" "biHighIndex x"] by linarith
  qed
  ultimately show "js_eq (rd (digits x) 0) (Num 0) \<and> biHighIndex x = 0" by simp
qed

locale modular_mult =
  fixes N :: nat and mul :: "bigint \<Rightarrow> bigint \<Rightarrow> bigint option" and ok :: "bigint \<Rightarrow> bool" and m :: int
  assumes mul: "ok a \<Longrightarrow> ok b \<Longrightarrow> \<exists>c. mul a b = Some c \<and> ok c \<and> bival c = bival a * bival b mod m"
begin

lemma mul_obtain:
  assumes "ok a" "ok b"
  obtains c where "mul a b = Some c" "ok c" "bival c = bival a * bival b mod m"
  using mul [OF assms] by blast

text \<open>The loop returns, and its result is the power, by the binary expansion of the exponent.\<close>

theorem pow_loop_correct:
  assumes "wf_bi N k" "\<not> isNeg k" "0 < N" "ok result" "ok a"
  shows "\<exists>r. pow_loop N mul result a k = Some r \<and> ok r \<and>
    bival r mod m = bival result * bival a ^ nat (bival k) mod m"
  using assms
proof (induction "nat (bival k)" arbitrary: k result a rule: less_induct)
  case less
  let ?k = "biShiftRight N k 1"
  note N = less.prems(3)
  have k0: "0 \<le> bival k" "vald (digits k) = bival k"
    using bival_nonneg vald_bival less.prems(1,2) by blast+
  have k1: "wf_bi N ?k" "\<not> isNeg ?k"
    using biShiftRight_correct [OF less.prems(1) N, of 1] less.prems(2) by blast+
  have "bival ?k = bival k div 2"
    using biShiftRight_correct(2) [OF less.prems(1) N, of 1] unfolding vald_bival [OF k1] k0(2) by simp
  note k' = k1 this
  have odd: "js_and (rd (digits k) 0) (Num 1) \<noteq> Num 0 \<longleftrightarrow> odd (bival k)"
    unfolding js_odd [OF digit_0(1) [OF less.prems(1) N]] digit_0(2) [OF less.prems(1) N] k0(2)
    by presburger
  obtain c where c: "mul result a = Some c" "ok c" "bival c = bival result * bival a mod m"
    using mul_obtain [OF less.prems(4,5)] .
  obtain r1 where r1: "(if odd (bival k) then mul result a else Some result) = Some r1" "ok r1"
    "bival r1 mod m = bival result * (if odd (bival k) then bival a else 1) mod m"
  proof
    let ?r = "if odd (bival k) then c else result"
    show "(if odd (bival k) then mul result a else Some result) = Some ?r" "ok ?r"
      using c(1,2) less.prems(4) by auto
    show "bival ?r mod m = bival result * (if odd (bival k) then bival a else 1) mod m"
      using c(3) by auto
  qed
  have stop: "js_eq (rd (digits ?k) 0) (Num 0) \<and> biHighIndex ?k = 0 \<longleftrightarrow> bival k div 2 = 0"
    unfolding zero_test [OF k'(1) N] vald_bival [OF k'(1,2)] k'(3) by (rule refl)
  show ?case
  proof (cases "bival k div 2 = 0")
    case True
    then have "pow_loop N mul result a k = Some r1"
      using stop odd r1(1) by (subst pow_loop.simps) (simp add: Let_def)
    moreover have "bival k = 0 \<or> bival k = 1" using True k0(1) by linarith
    then have "bival r1 mod m = bival result * bival a ^ nat (bival k) mod m" using r1(3) by auto
    ultimately show ?thesis using r1(2) by blast
  next
    case False
    obtain a' where a': "mul a a = Some a'" "ok a'" "bival a' = bival a * bival a mod m"
      using mul_obtain [OF less.prems(5,5)] .
    have step: "pow_loop N mul result a k = pow_loop N mul r1 a' ?k"
      using False stop odd r1(1) a'(1) by (subst pow_loop.simps) (auto simp: Let_def)
    have "bival k div 2 < bival k" "0 < bival k" using False k0(1) by linarith+
    then have "nat (bival ?k) < nat (bival k)" unfolding k'(3) by linarith
    from less.hyps [OF this k'(1,2) N r1(2) a'(2)] obtain r where r: "pow_loop N mul r1 a' ?k = Some r" "ok r"
      "bival r mod m = bival r1 * bival a' ^ nat (bival ?k) mod m" by blast
    have split: "nat (bival k) = 2 * nat (bival ?k) + (if odd (bival k) then 1 else 0)"
      using k0(1) k'(3) by (auto simp: nat_eq_iff elim!: evenE oddE)
    have "bival r mod m = (bival r1 mod m) * (bival a' ^ nat (bival ?k) mod m) mod m"
      using r(3) by (simp add: mod_mult_eq)
    also have "\<dots> = (bival result * (if odd (bival k) then bival a else 1) mod m) * ((bival a * bival a) ^ nat (bival ?k) mod m) mod m"
      unfolding r1(3) a'(3) by (simp add: power_mod)
    also have "\<dots> = bival result * ((if odd (bival k) then bival a else 1) * (bival a * bival a) ^ nat (bival ?k)) mod m"
      by (simp add: mod_mult_eq mult.assoc)
    also have "(if odd (bival k) then bival a else 1) * (bival a * bival a) ^ nat (bival ?k) = bival a ^ nat (bival k)"
      unfolding split by (simp add: power_add power_mult power2_eq_square)
    finally show ?thesis using step r by auto
  qed
qed

end

section \<open>Multiplication with \<open>biModulo\<close>\<close>

definition mod_ok :: "nat \<Rightarrow> bigint \<Rightarrow> bigint \<Rightarrow> bool" where
  "mod_ok N m a \<longleftrightarrow> wf_bi N m \<and> \<not> isNeg m \<and> 2 * biHighIndex m + 2 < N \<and>
     wf_bi N a \<and> \<not> isNeg a \<and> bival a < bival m"

lemma biMultiplyMod_correct:
  assumes "mod_ok N m a" "mod_ok N m b"
  shows "\<exists>c. biMultiplyMod N a b m = Some c \<and> mod_ok N m c \<and> bival c = bival a * bival b mod bival m"
proof -
  let ?s = "biHighIndex m" and ?ab = "biMultiply N a b"
  have m: "wf_bi N m" "\<not> isNeg m" "2 * ?s + 2 < N" using assms(1) by (auto simp: mod_ok_def)
  have N: "0 < N" using m(3) by simp
  have ab: "wf_bi N a" "wf_bi N b" "\<not> isNeg a" "\<not> isNeg b" "0 \<le> bival a" "0 \<le> bival b"
    "bival a < bival m" "bival b < bival m"
    using assms bival_nonneg by (auto simp: mod_ok_def)
  have mv: "bival m < 65536 ^ Suc ?s" using vald_less_high [OF m(1) N] m by (simp add: vald_bival)
  have fits: "?s + ?s + 1 < N" using m(3) by simp
  have p: "wf_bi N ?ab" "bival ?ab = bival a * bival b" "\<not> isNeg ?ab"
    using biMultiply_fits [OF ab(1,2) _ _ fits] ab mv by auto
  have "bival a * bival b \<le> 65536 ^ Suc ?s * bival b" using ab mv by (intro mult_right_mono) auto
  also have "\<dots> < 65536 ^ Suc ?s * 65536 ^ Suc ?s" using ab mv by (intro mult_strict_left_mono) auto
  also have "\<dots> = 65536 ^ (2 * ?s + 2)" by (simp add: power_add mult_2)
  also have "(65536 :: int) ^ (2 * ?s + 2) \<le> 65536 ^ (N - 1)" using m(3) by (intro power_increasing) auto
  finally have "bival ?ab < 65536 ^ (N - 1)" using p(2) by simp
  moreover have "bival m \<noteq> 0" "\<bar>bival m\<bar> = bival m" using ab by auto
  ultimately obtain q r where r: "biDivideModulo N ?ab m = Some (q, r)" "wf_bi N r" "\<not> isNeg r"
    "bival r = bival ?ab mod bival m"
    using biDivideModulo_correct [OF p(1,3) _ m(1)] by auto
  moreover have "bival r < bival m" using r(4) ab by simp
  ultimately show ?thesis
    using m p(2) by (auto simp: biMultiplyMod_def biModulo_def mod_ok_def)
qed

interpretation bi_mod: modular_mult N "\<lambda>a b. biMultiplyMod N a b m" "mod_ok N m" "bival m" for N m
  by unfold_locales (rule biMultiplyMod_correct)

lemma mod_small_eq:
  assumes "mod_ok N m r"
  shows "bival r mod bival m = bival r"
  using assms bival_nonneg [of r N] by (auto simp: mod_ok_def)

theorem biPowMod_correct:
  assumes "mod_ok N m x" "1 < bival m" "wf_bi N y" "\<not> isNeg y"
  shows "\<exists>r. biPowMod N x y m = Some r \<and> mod_ok N m r \<and> bival r = bival x ^ nat (bival y) mod bival m"
proof -
  have N: "0 < N" and one: "mod_ok N m (bigOne N)" using assms by (auto simp: mod_ok_def)
  then obtain r where "biPowMod N x y m = Some r" "mod_ok N m r"
    "bival r mod bival m = bival (bigOne N) * bival x ^ nat (bival y) mod bival m"
    using bi_mod.pow_loop_correct [OF assms(3,4) N one assms(1)] by (auto simp: biPowMod_def)
  then show ?thesis using mod_small_eq N by auto
qed

section \<open>Barrett reduction: the code\<close>

record barrett =
  modulus :: bigint
  bk :: nat
  mu :: bigint
  bkplus1 :: bigint

definition radix_power :: "nat \<Rightarrow> nat \<Rightarrow> bigint" where
  "radix_power N i = (new_BigInt N)\<lparr>digits := wr (ZERO_ARRAY N) (int i) (Num 1)\<rparr>"

definition BarrettMu :: "nat \<Rightarrow> bigint \<Rightarrow> barrett option" where
  "BarrettMu N m =
     (let modulus = biCopy m; k = biHighIndex modulus + 1;
          b2k = radix_power N (2 * k)
      in do {
           mu \<leftarrow> biDivide N b2k modulus;
           Some \<lparr>modulus = modulus, bk = k, mu = mu, bkplus1 = radix_power N (k + 1)\<rparr>
         })"

text \<open>\<open>while (rgtem) { r = biSubtract(r, this.modulus); ... }\<close>\<close>

partial_function (option) barrett_reduce :: "nat \<Rightarrow> bigint \<Rightarrow> bigint \<Rightarrow> bigint option" where
  "barrett_reduce N m r =
     (if biCompare r m \<ge> 0 then barrett_reduce N m (biSubtract N r m) else Some r)"

declare barrett_reduce.simps [code]

definition BarrettMu_modulo :: "nat \<Rightarrow> barrett \<Rightarrow> bigint \<Rightarrow> bigint option" where
  "BarrettMu_modulo N b x =
     (let q1 = biDivideByRadixPower N x (bk b - 1);
          q2 = biMultiply N q1 (mu b);
          q3 = biDivideByRadixPower N q2 (bk b + 1);
          r1 = biModuloByRadixPower N x (bk b + 1);
          r2term = biMultiply N q3 (modulus b);
          r2 = biModuloByRadixPower N r2term (bk b + 1);
          r = biSubtract N r1 r2;
          r = (if isNeg r then biAdd N r (bkplus1 b) else r)
      in barrett_reduce N (modulus b) r)"

definition BarrettMu_multiplyMod :: "nat \<Rightarrow> barrett \<Rightarrow> bigint \<Rightarrow> bigint \<Rightarrow> bigint option" where
  "BarrettMu_multiplyMod N b x y = BarrettMu_modulo N b (biMultiply N x y)"

definition BarrettMu_powMod :: "nat \<Rightarrow> barrett \<Rightarrow> bigint \<Rightarrow> bigint \<Rightarrow> bigint option" where
  "BarrettMu_powMod N b x y =
     pow_loop N (BarrettMu_multiplyMod N b) ((new_BigInt N)\<lparr>digits := wr (ZERO_ARRAY N) 0 (Num 1)\<rparr>) x y"

section \<open>Barrett reduction: correctness\<close>

text \<open>
  The quotient estimate is at most 2 too small. Here \<open>P = b^(k-1)\<close> and \<open>R = b^(k+1)\<close> for a
  modulus \<open>m\<close> of \<open>k\<close> digits.
\<close>

lemma barrett_estimate:
  fixes x m P R :: int
  assumes m: "0 < m" and P: "0 < P" "P \<le> m" and R: "0 < R" and x: "0 \<le> x" "x < P * R"
  defines "q3 \<equiv> (x div P) * (P * R div m) div R"
  shows "q3 * m \<le> x" "x < q3 * m + 3 * m" "0 \<le> q3" "q3 < R"
proof -
  let ?q1 = "x div P" and ?mu = "P * R div m"
  have q1: "?q1 * P \<le> x" "x < (?q1 + 1) * P" "0 \<le> ?q1" using int_div_bounds [OF P(1), of x] x P by (auto simp: pos_imp_zdiv_nonneg_iff)
  have mu: "?mu * m \<le> P * R" "P * R < (?mu + 1) * m" "0 \<le> ?mu" using int_div_bounds [OF m, of "P * R"] m P R by (auto simp: pos_imp_zdiv_nonneg_iff)
  have q3: "q3 * R \<le> ?q1 * ?mu" "?q1 * ?mu < (q3 + 1) * R" using int_div_bounds [OF R, of "?q1 * ?mu"] by (auto simp: q3_def)
  show "0 \<le> q3" using q1 mu R by (auto simp: q3_def pos_imp_zdiv_nonneg_iff)
  have "q3 * R * m \<le> ?q1 * ?mu * m" using q3(1) m by (intro mult_right_mono) auto
  also have "\<dots> = ?q1 * (?mu * m)" by simp
  also have "\<dots> \<le> ?q1 * (P * R)" using q1 mu by (intro mult_left_mono) auto
  also have "\<dots> = ?q1 * P * R" by simp
  also have "\<dots> \<le> x * R" using q1 R by (intro mult_right_mono) auto
  finally have "(q3 * m) * R \<le> x * R" by (simp add: ac_simps)
  then show le: "q3 * m \<le> x" using R by simp
  have "?q1 < R" using x P by (simp add: int_div_less_iff mult.commute)
  then have a: "?q1 * m \<le> R * m" using m by (intro mult_right_mono) auto
  have b: "P * R \<le> m * R" using P R by (intro mult_right_mono) auto
  have "?q1 * ?mu * m < (q3 + 1) * R * m" using q3(2) m by (intro mult_strict_right_mono) auto
  moreover have "?q1 * (P * R) \<le> ?q1 * ((?mu + 1) * m)" using q1 mu by (intro mult_left_mono) auto
  moreover have "x * R < (?q1 + 1) * P * R" using q1 R by (intro mult_strict_right_mono) auto
  moreover have "?q1 * ((?mu + 1) * m) = ?q1 * ?mu * m + ?q1 * m" by (simp add: algebra_simps)
  moreover have "(?q1 + 1) * P * R = ?q1 * (P * R) + P * R" by (simp add: algebra_simps)
  ultimately have "x * R < (q3 + 1) * R * m + R * m + m * R" using a b by linarith
  then have "x * R < (q3 * m + 3 * m) * R" by (simp add: algebra_simps)
  then show "x < q3 * m + 3 * m" using R by simp
  have "q3 * P \<le> q3 * m" using P \<open>0 \<le> q3\<close> by (intro mult_left_mono) auto
  then have "q3 * P < P * R" using le x by linarith
  then show "q3 < R" using P by (simp add: mult.commute)
qed

definition mu_ok :: "nat \<Rightarrow> barrett \<Rightarrow> bool" where
  "mu_ok N b \<longleftrightarrow>
     (let m = bival (modulus b); k = bk b
      in wf_bi N (modulus b) \<and> \<not> isNeg (modulus b) \<and> 0 < k \<and> 2 * k + 2 \<le> N \<and>
         65536 ^ (k - 1) < m \<and> m < 65536 ^ k \<and>
         wf_bi N (mu b) \<and> bival (mu b) = 65536 ^ (2 * k) div m \<and>
         wf_bi N (bkplus1 b) \<and> \<not> isNeg (bkplus1 b) \<and> bival (bkplus1 b) = 65536 ^ (k + 1))"

lemma radix_power_correct:
  assumes "i < N"
  shows "wf_bi N (radix_power N i)" "bival (radix_power N i) = 65536 ^ i" "\<not> isNeg (radix_power N i)"
  using assms by (auto simp: radix_power_def new_BigInt_def wf_bi_def bival_def list_all_update vald_update)

theorem BarrettMu_correct:
  assumes m: "wf_bi N m" "\<not> isNeg m" "2 * biHighIndex m + 4 \<le> N" "65536 ^ biHighIndex m < bival m"
  shows "\<exists>b. BarrettMu N m = Some b \<and> mu_ok N b \<and> modulus b = m"
proof -
  let ?k = "biHighIndex m + 1"
  have N: "0 < N" using m(3) by simp
  have m0: "0 < bival m" using m(4) zero_less_power [of "65536 :: int" "biHighIndex m"] by linarith
  have c: "biCopy m = m" by (simp add: biCopy_def)
  have "2 * ?k < N" using m(3) by simp
  note b2k = radix_power_correct [OF this]
  have "(65536 :: int) ^ (2 * ?k) < 65536 ^ (N - 1)" using m(3) by (intro power_strict_increasing) auto
  then obtain q r where q: "biDivideModulo N (radix_power N (2 * ?k)) m = Some (q, r)" "wf_bi N q"
    "bival q = 65536 ^ (2 * ?k) div bival m"
    using biDivideModulo_correct [OF b2k(1,3) _ m(1)] b2k(2) m0 by auto
  have "?k + 1 < N" using m(3) by simp
  note bk1 = radix_power_correct [OF this]
  have "bival m < 65536 ^ ?k" using vald_less_high [OF m(1) N] m by (simp add: vald_bival)
  then have "mu_ok N \<lparr>modulus = m, bk = ?k, mu = q, bkplus1 = radix_power N (?k + 1)\<rparr>"
    using m q bk1 by (simp add: mu_ok_def Let_def)
  moreover have "BarrettMu N m = Some \<lparr>modulus = m, bk = ?k, mu = q, bkplus1 = radix_power N (?k + 1)\<rparr>"
    using q(1) by (simp add: BarrettMu_def Let_def c biDivide_def)
  ultimately show ?thesis by auto
qed

lemma barrett_reduce_correct:
  assumes "wf_bi N m" "\<not> isNeg m" "0 < bival m" "wf_bi N r" "\<not> isNeg r"
  shows "\<exists>r'. barrett_reduce N m r = Some r' \<and> wf_bi N r' \<and> \<not> isNeg r' \<and> bival r' = bival r mod bival m"
  using assms(4,5)
proof (induction "nat (bival r)" arbitrary: r rule: less_induct)
  case less
  have r0: "0 \<le> bival r" using less.prems bival_nonneg by blast
  have cmp: "biCompare r m \<ge> 0 \<longleftrightarrow> bival m \<le> bival r"
    using biCompare_correct [OF less.prems(1) assms(1)] less.prems(2) assms(2) by auto
  show ?case
  proof (cases "bival m \<le> bival r")
    case False
    then show ?thesis using less.prems r0 cmp by (subst barrett_reduce.simps) simp
  next
    case True
    let ?r = "biSubtract N r m"
    have r': "wf_bi N ?r" "bival ?r = bival r - bival m" "\<not> isNeg ?r"
      using biSubtract_nonneg [OF less.prems(1) assms(1) less.prems(2) assms(2)] True by auto
    have "nat (bival ?r) < nat (bival r)" using True r' assms(3) by simp
    from less.hyps [OF this r'(1,3)] show ?thesis
      using True cmp r'(2) by (subst barrett_reduce.simps) simp
  qed
qed

theorem BarrettMu_modulo_correct:
  assumes b: "mu_ok N b" and x: "wf_bi N x" "\<not> isNeg x" "bival x < 65536 ^ (2 * bk b)"
  shows "\<exists>r. BarrettMu_modulo N b x = Some r \<and> wf_bi N r \<and> \<not> isNeg r \<and>
    bival r = bival x mod bival (modulus b)"
proof -
  define m k where "m = bival (modulus b)" and "k = bk b"
  define P R where "P = (65536 :: int) ^ (k - 1)" and "R = (65536 :: int) ^ (k + 1)"
  have m: "wf_bi N (modulus b)" "\<not> isNeg (modulus b)" "P < m" "m < 65536 ^ k" "0 < k" "2 * k + 2 \<le> N"
    and mu: "wf_bi N (mu b)" "bival (mu b) = 65536 ^ (2 * k) div m"
    and b1: "wf_bi N (bkplus1 b)" "\<not> isNeg (bkplus1 b)" "bival (bkplus1 b) = R"
    using b by (auto simp: mu_ok_def Let_def m_def k_def P_def R_def)
  have pos: "0 < P" "0 < R" by (simp_all add: P_def R_def)
  then have m0: "0 < m" using m(3) by simp
  have PR: "P * R = 65536 ^ (2 * k)"
  proof -
    have "k - 1 + (k + 1) = 2 * k" using m(5) by linarith
    then show ?thesis unfolding P_def R_def power_add [symmetric] by (rule arg_cong)
  qed
  have x0: "0 \<le> bival x" "bival x < P * R" using x bival_nonneg by (auto simp: PR k_def)
  define q3v where "q3v = (bival x div P) * (P * R div m) div R"
  note est = barrett_estimate [OF m0 pos(1) less_imp_le [OF m(3)] pos(2) x0, folded q3v_def]
  define q1 where "q1 = biDivideByRadixPower N x (k - 1)"
  have q1: "wf_bi N q1" "bival q1 = bival x div P" "\<not> isNeg q1"
    using biDivideByRadixPower_correct [OF x(1,2), of "k - 1"] by (simp_all add: q1_def P_def)
  have "bival q1 < R" using x0 pos by (simp add: q1(2) int_div_less_iff mult.commute)
  then have q1b: "\<bar>bival q1\<bar> < 65536 ^ Suc k" using bival_nonneg [OF q1(3,1)] by (simp add: R_def)
  have mu0: "0 \<le> bival (mu b)" using m0 by (simp add: mu(2) pos_imp_zdiv_nonneg_iff)
  have "P * R < R * m" using m(3) pos by (simp add: mult.commute)
  then have mub: "\<bar>bival (mu b)\<bar> < 65536 ^ Suc k"
    using mu0 m0 by (simp add: mu(2) PR [symmetric] int_div_less_iff R_def)
  define q2 where "q2 = biMultiply N q1 (mu b)"
  have kk: "k + k + 1 < N" "k + (k - 1) + 1 < N" using m(6) by auto
  have q2: "wf_bi N q2" "bival q2 = bival q1 * bival (mu b)"
    using biMultiply_fits [OF q1(1) mu(1) q1b mub kk(1)] by (simp_all add: q2_def)
  have "\<not> isNeg (mu b)"
  proof
    assume "isNeg (mu b)"
    then have "bival (mu b) \<le> 0" using vald_nonneg [OF wf_biD(2) [OF mu(1)]] by (simp add: bival_def)
    then have "P * R div m \<le> 0" by (simp add: mu(2) PR)
    moreover have "1 \<le> P * R div m"
    proof -
      have "m < R" using m(4) by (rule less_le_trans) (simp add: R_def)
      also have "R \<le> P * R" using pos mult_right_mono [of 1 P R] by simp
      finally show ?thesis using m0 by (simp add: int_le_div_iff)
    qed
    ultimately show False by simp
  qed
  then have q2n: "\<not> isNeg q2"
    using biMultiply_fits(3) [OF q1(1) mu(1) q1b mub kk(1)] q1(3) by (simp add: q2_def)
  define q3 where "q3 = biDivideByRadixPower N q2 (k + 1)"
  have q3: "wf_bi N q3" "bival q3 = q3v" "\<not> isNeg q3"
    using biDivideByRadixPower_correct [OF q2(1) q2n, of "k + 1"]
    by (simp_all only: q3_def q2(2) q1(2) mu(2) q3v_def PR R_def[symmetric] simp_thms)
  define r1 where "r1 = biModuloByRadixPower N x (k + 1)"
  have r1: "wf_bi N r1" "bival r1 = bival x mod R" "\<not> isNeg r1"
    using biModuloByRadixPower_correct [OF x(1,2), of "k + 1"] by (simp_all add: r1_def R_def)
  define r2t where "r2t = biMultiply N q3 (modulus b)"
  have q3b: "\<bar>bival q3\<bar> < 65536 ^ Suc k" using est by (simp add: q3(2) R_def)
  have mb: "\<bar>bival (modulus b)\<bar> < 65536 ^ Suc (k - 1)" using m m0 by (simp add: m_def [symmetric])
  have r2t: "wf_bi N r2t" "bival r2t = q3v * m" "\<not> isNeg r2t"
    using biMultiply_fits [OF q3(1) m(1) q3b mb kk(2)] q3 m(2) by (simp_all add: r2t_def m_def)
  define r2 where "r2 = biModuloByRadixPower N r2t (k + 1)"
  have r2: "wf_bi N r2" "bival r2 = q3v * m mod R" "\<not> isNeg r2"
    using biModuloByRadixPower_correct [OF r2t(1,3), of "k + 1"] by (simp_all add: r2_def r2t(2) R_def)
  define r where "r = biSubtract N r1 r2"
  have r: "wf_bi N r" "bival r = bival x mod R - q3v * m mod R" "isNeg r \<longleftrightarrow> bival x mod R < q3v * m mod R"
    using biSubtract_nonneg [OF r1(1) r2(1) r1(3) r2(3)] by (simp_all add: r_def r1(2) r2(2))
  define d where "d = bival x - q3v * m"
  have d: "0 \<le> d" "d < R"
  proof -
    show "0 \<le> d" using est(1) by (simp add: d_def)
    have "3 * m \<le> 65536 * 65536 ^ k" using m(4) m0 by linarith
    then have "3 * m \<le> R" by (simp add: R_def)
    with est(2) show "d < R" by (simp add: d_def)
  qed
  have dm: "d = (bival x mod R - q3v * m mod R) mod R"
    using d by (simp add: d_def mod_diff_eq)
  have rng: "- R < bival r" "bival r < R"
    unfolding r(2)
    using pos_mod_bound [OF pos(2), of "bival x"] pos_mod_bound [OF pos(2), of "q3v * m"]
      pos_mod_sign [OF pos(2), of "bival x"] pos_mod_sign [OF pos(2), of "q3v * m"] by linarith+
  define r' where "r' = (if isNeg r then biAdd N r (bkplus1 b) else r)"
  have r': "wf_bi N r'" "bival r' = d" "\<not> isNeg r'"
  proof -
    have "wf_bi N r' \<and> bival r' = d \<and> \<not> isNeg r'"
    proof (cases "isNeg r")
      case True
      then have neg: "bival r < 0" using r(2,3) by simp
      have "\<bar>bival r + R\<bar> < 65536 ^ N"
      proof -
        have "R < 65536 ^ N" unfolding R_def using m(6) by (intro power_strict_increasing) auto
        with neg rng show ?thesis by simp
      qed
      then have a: "wf_bi N r'" "bival r' = bival r + R"
        using biAdd_correct [OF r(1) b1(1)] b1(3) True by (simp_all add: r'_def)
      have "bival r mod R = bival r + R"
        using mod_pos_pos_trivial [of "bival r + R" R] neg rng by simp
      then have "bival r' = d" using dm a(2) r(2) by simp
      moreover have "0 < bival r'" using a(2) rng by simp
      then have "\<not> isNeg r'"
        using vald_nonneg [OF wf_biD(2) [OF a(1)]] by (auto simp: bival_def split: if_splits)
      ultimately show ?thesis using a by simp
    next
      case False
      then have "0 \<le> bival r" using r(1) bival_nonneg by blast
      then have "bival r mod R = bival r" using rng by simp
      with False r dm show ?thesis by (simp add: r'_def)
    qed
    then show "wf_bi N r'" "bival r' = d" "\<not> isNeg r'" by auto
  qed
  have "BarrettMu_modulo N b x = barrett_reduce N (modulus b) r'"
    by (simp add: BarrettMu_modulo_def Let_def k_def [symmetric] q1_def [symmetric] q2_def [symmetric]
        q3_def [symmetric] r1_def [symmetric] r2t_def [symmetric] r2_def [symmetric] r_def [symmetric] r'_def
        del: One_nat_def add_Suc_right)
  moreover have "d mod m = bival x mod m" by (simp add: d_def mod_diff_right_eq [symmetric])
  ultimately show ?thesis
    using barrett_reduce_correct [OF m(1,2) _ r'(1,3)] r'(2) m0 by (auto simp: m_def)
qed


section \<open>Square and multiply with Barrett reduction\<close>

definition barrett_ok :: "nat \<Rightarrow> barrett \<Rightarrow> bigint \<Rightarrow> bool" where
  "barrett_ok N b a \<longleftrightarrow> mu_ok N b \<and> wf_bi N a \<and> \<not> isNeg a \<and> bival a < bival (modulus b)"

lemma BarrettMu_multiplyMod_correct:
  assumes "barrett_ok N b x" "barrett_ok N b y"
  shows "\<exists>c. BarrettMu_multiplyMod N b x y = Some c \<and> barrett_ok N b c \<and>
    bival c = bival x * bival y mod bival (modulus b)"
proof -
  let ?m = "bival (modulus b)" and ?k = "bk b"
  have b: "mu_ok N b" and x: "wf_bi N x" "\<not> isNeg x" "bival x < ?m" and y: "wf_bi N y" "\<not> isNeg y" "bival y < ?m"
    using assms by (auto simp: barrett_ok_def)
  have m: "?m < 65536 ^ ?k" "0 < ?k" "2 * ?k + 2 \<le> N" using b by (auto simp: mu_ok_def Let_def)
  have x0: "0 \<le> bival x" "0 \<le> bival y" using x y bival_nonneg by auto
  have k: "65536 ^ ?k = (65536 :: int) ^ Suc (?k - 1)" using m(2) by simp
  have fits: "?k - 1 + (?k - 1) + 1 < N" using m by simp
  have xb: "\<bar>bival x\<bar> < 65536 ^ Suc (?k - 1)" "\<bar>bival y\<bar> < 65536 ^ Suc (?k - 1)"
    unfolding k [symmetric] using x y x0 m(1) by linarith+
  have p: "wf_bi N (biMultiply N x y)" "bival (biMultiply N x y) = bival x * bival y" "\<not> isNeg (biMultiply N x y)"
    using biMultiply_fits [OF x(1) y(1) xb fits] x(2) y(2) by auto
  have "bival x * bival y \<le> 65536 ^ ?k * bival y" using x x0 m(1) by (intro mult_right_mono) linarith+
  also have "\<dots> < 65536 ^ ?k * 65536 ^ ?k" using y m(1) by (intro mult_strict_left_mono) auto
  also have "\<dots> = 65536 ^ (2 * ?k)" by (simp add: mult_2 power_add)
  finally have "bival (biMultiply N x y) < 65536 ^ (2 * ?k)" using p(2) by simp
  then obtain c where c: "BarrettMu_modulo N b (biMultiply N x y) = Some c" "wf_bi N c" "\<not> isNeg c"
    "bival c = bival (biMultiply N x y) mod ?m"
    using BarrettMu_modulo_correct [OF b p(1,3)] by blast
  have "0 < ?m" using x(3) x0(1) by linarith
  then have "bival c < ?m" using c(4) by simp
  then show ?thesis using c b p(2) by (auto simp: BarrettMu_multiplyMod_def barrett_ok_def)
qed

interpretation barrett: modular_mult N "BarrettMu_multiplyMod N b" "barrett_ok N b" "bival (modulus b)" for N b
  by unfold_locales (rule BarrettMu_multiplyMod_correct)

theorem BarrettMu_powMod_correct:
  assumes "barrett_ok N b x" "1 < bival (modulus b)" "wf_bi N y" "\<not> isNeg y"
  shows "\<exists>r. BarrettMu_powMod N b x y = Some r \<and> barrett_ok N b r \<and>
    bival r = bival x ^ nat (bival y) mod bival (modulus b)"
proof -
  let ?one = "(new_BigInt N)\<lparr>digits := wr (ZERO_ARRAY N) 0 (Num 1)\<rparr>"
  have N: "0 < N" using assms(1) by (auto simp: barrett_ok_def mu_ok_def Let_def)
  have rp: "?one = radix_power N 0" by (simp add: radix_power_def)
  have one: "barrett_ok N b ?one" "bival ?one = 1"
    unfolding rp using radix_power_correct [OF N] assms(1,2) by (auto simp: barrett_ok_def)
  obtain r where r: "BarrettMu_powMod N b x y = Some r" "barrett_ok N b r"
    "bival r mod bival (modulus b) = bival ?one * bival x ^ nat (bival y) mod bival (modulus b)"
    using barrett.pow_loop_correct [OF assms(3,4) N one(1) assms(1)] by (auto simp: BarrettMu_powMod_def)
  have "bival r mod bival (modulus b) = bival r"
    using r(2) bival_nonneg by (auto simp: barrett_ok_def)
  then show ?thesis using r one(2) by auto
qed

end
