(* ===== verification/Js_Text.thy ===== *)
theory Js_Text
  imports Js_Values Js_Strings
begin

text \<open>
  Conversions between numbers and text that the language provides: \<open>String(n)\<close> and
  \<open>parseInt(s)\<close>.
\<close>

text \<open>\<open>String(n)\<close> of a number.\<close>

fun string_of_nat :: "nat \<Rightarrow> jsstr" where
  "string_of_nat n = (if n < 10 then [48 + n] else string_of_nat (n div 10) @ [48 + n mod 10])"

declare string_of_nat.simps [simp del]

definition string_of_num :: "jsnum \<Rightarrow> jsstr" where
  "string_of_num d =
     (case d of Num v \<Rightarrow> if v < 0 then js ''-'' @ string_of_nat (nat (- v)) else string_of_nat (nat v)
      | NaN \<Rightarrow> js ''NaN'' | Undef \<Rightarrow> js ''undefined'')"

text \<open>White space and line terminators of the language, as \<open>\s\<close> and \<open>trim\<close> use them.\<close>

definition is_space :: "nat \<Rightarrow> bool" where
  "is_space c \<longleftrightarrow>
     c \<in> {9, 10, 11, 12, 13, 32, 160, 5760, 8232, 8233, 8239, 8287, 12288, 65279} \<or> 8192 \<le> c \<and> c \<le> 8202"

definition trim :: "jsstr \<Rightarrow> jsstr" where
  "trim s = rev (dropWhile is_space (rev (dropWhile is_space s)))"

text \<open>The value of a character as a digit in a base up to 36; 36 for one that is no digit.\<close>

definition digit_value :: "nat \<Rightarrow> nat" where
  "digit_value c =
     (if 48 \<le> c \<and> c \<le> 57 then c - 48
      else if 65 \<le> c \<and> c \<le> 90 then c - 55
      else if 97 \<le> c \<and> c \<le> 122 then c - 87
      else 36)"

definition digits_value :: "nat \<Rightarrow> jsstr \<Rightarrow> nat" where
  "digits_value b s = foldl (\<lambda>a c. b * a + digit_value c) 0 s"

definition parse_digits :: "nat \<Rightarrow> jsstr \<Rightarrow> nat option" where
  "parse_digits b s =
     (let ds = takeWhile (\<lambda>c. digit_value c < b) s in if ds = [] then None else Some (digits_value b ds))"

text \<open>
  The \<open>parseInt(s, radix)\<close> of the language: white space, a sign, \<open>0x\<close> for base 16, the longest run
  of digits; \<open>NaN\<close> without one. Radix 0 stands for \<open>undefined\<close>.
\<close>

definition native_parseInt :: "jsstr \<Rightarrow> nat \<Rightarrow> jsnum" where
  "native_parseInt s radix =
     (let s = dropWhile is_space s;
          neg = (s \<noteq> [] \<and> hd s = 45);
          s = (if s \<noteq> [] \<and> (hd s = 45 \<or> hd s = 43) then tl s else s);
          hex = ((radix = 0 \<or> radix = 16) \<and> 2 \<le> length s \<and> hd s = 48 \<and> (s ! 1 = 120 \<or> s ! 1 = 88));
          base = (if hex then 16 else if radix = 0 then 10 else radix)
      in if base < 2 \<or> 36 < base then NaN
         else case parse_digits base (if hex then drop 2 s else s) of
           None \<Rightarrow> NaN
         | Some n \<Rightarrow> Num (if neg then - int n else int n))"

text \<open>\<open>n || d\<close> for a number: \<open>NaN\<close>, \<open>undefined\<close> and 0 are false.\<close>

definition js_or_else :: "jsnum \<Rightarrow> int \<Rightarrow> int" where
  "js_or_else n d = (case n of Num v \<Rightarrow> if v = 0 then d else v | _ \<Rightarrow> d)"

section \<open>Writing and reading a number\<close>

lemma digits_value_snoc [simp]: "digits_value b (s @ [c]) = b * digits_value b s + digit_value c"
  by (simp add: digits_value_def)

lemma string_of_nat_digits:
  "digits_value 10 (string_of_nat n) = n \<and> string_of_nat n \<noteq> [] \<and> (\<forall>c \<in> set (string_of_nat n). 48 \<le> c \<and> c \<le> 57)"
proof (induction n rule: string_of_nat.induct)
  case (1 n)
  show ?case
  proof (cases "n < 10")
    case True
    then show ?thesis by (subst (1 2 3) string_of_nat.simps) (simp add: digits_value_def digit_value_def)
  next
    case False
    have "n mod 10 < 10" by simp
    with 1 [OF False] False show ?thesis
      by (subst (1 2 3) string_of_nat.simps) (auto simp: digit_value_def)
  qed
qed

lemma parse_digits_string_of_nat: "parse_digits 10 (string_of_nat n) = Some n"
proof -
  have tw: "takeWhile (\<lambda>c. digit_value c < 10) (string_of_nat n) = string_of_nat n"
    using string_of_nat_digits [of n] by (auto simp: takeWhile_eq_all_conv digit_value_def)
  show ?thesis unfolding parse_digits_def tw using string_of_nat_digits [of n] by simp
qed

lemma string_of_nat_plain: "c \<in> set (string_of_nat n) \<Longrightarrow> 48 \<le> c \<and> c \<le> 57"
  and string_of_nat_not_Nil [simp]: "string_of_nat n \<noteq> []"
  using string_of_nat_digits [of n] by auto

text \<open>\<open>digits_value\<close> only depends on the digits: leading zeros do not count.\<close>

lemma digits_value_append:
  "digits_value b (s @ t) = digits_value b s * b ^ length t + digits_value b t"
proof (induction t rule: rev_induct)
  case (snoc c t)
  have "digits_value b (s @ t @ [c]) = b * digits_value b (s @ t) + digit_value c"
    by (metis append_assoc digits_value_snoc)
  with snoc show ?case by (simp add: algebra_simps)
qed (simp add: digits_value_def)

lemma digits_value_zeros: "digits_value b (replicate n 48 @ s) = digits_value b s"
proof -
  have "digits_value b (replicate n 48) = 0"
    by (induction n) (simp_all add: digits_value_def digit_value_def)
  then show ?thesis by (simp add: digits_value_append)
qed

theorem native_parseInt_string_of_num: "native_parseInt (string_of_num (Num v)) 0 = Num v"
proof -
  define n where "n = nat \<bar>v\<bar>"
  obtain c s where s: "string_of_nat n = c # s" using string_of_nat_digits [of n] by (cases "string_of_nat n") auto
  have c: "48 \<le> c" "c \<le> 57" "\<forall>d \<in> set s. 48 \<le> d \<and> d \<le> 57" using string_of_nat_digits [of n] s by auto
  have sp: "\<not> is_space c" using c by (auto simp: is_space_def)
  have hx: "Suc 0 \<le> length s \<Longrightarrow> s ! 0 \<noteq> 120 \<and> s ! 0 \<noteq> 88"
    using c(3) by (cases s) auto
  have p: "parse_digits 10 (c # s) = Some n" using parse_digits_string_of_nat [of n] s by simp
  show ?thesis
  proof (cases "v < 0")
    case True
    then have t: "string_of_num (Num v) = 45 # c # s" using s by (simp add: string_of_num_def n_def)
    have "\<not> is_space 45" by (simp add: is_space_def)
    then show ?thesis unfolding t using True hx p by (auto simp: native_parseInt_def Let_def n_def)
  next
    case False
    then have t: "string_of_num (Num v) = c # s" using s by (simp add: string_of_num_def n_def)
    show ?thesis unfolding t using False sp c hx p by (auto simp: native_parseInt_def Let_def n_def)
  qed
qed

end
