(* ===== verification/Big_Int_Text.thy ===== *)
theory Big_Int_Text
  imports Big_Int_Div_Correct Js_Text
begin

text \<open>
  The conversions of \<open>BigInt.js\<close> between numbers and strings. The hexadecimal ones, which
  \<open>RSA.js\<close> uses, are in \<^theory_text>\<open>Big_Int\<close>; the ones for any radix, which divide, are here. Both are
  shown to read and write positional notation (\<open>numval\<close>).
\<close>

section \<open>The code: any radix\<close>

definition hexatrigesimalToChar :: "jsnum \<Rightarrow> jsstr" where
  "hexatrigesimalToChar d =
     (case d of Num v \<Rightarrow>
        if 0 \<le> v \<and> v < 36 then charAt (js ''0123456789abcdefghijklmnopqrstuvwxyz'') (nat v)
        else js ''undefined''
      | _ \<Rightarrow> js ''undefined'')"

text \<open>\<open>while (biCompare(qr[0], bigZero) == 1)\<close>; \<open>out\<close> is how the caller writes a digit.\<close>

partial_function (option) biToString_loop :: "nat \<Rightarrow> (jsnum \<Rightarrow> jsstr) \<Rightarrow> bigint \<Rightarrow> bigint \<Rightarrow> jsstr \<Rightarrow> jsstr option" where
  "biToString_loop N out b q result =
     (if biCompare q (bigZero N) = 1
      then do {
        qr \<leftarrow> biDivideModulo N q b;
        biToString_loop N out b (fst qr) (result @ out (rd (digits (snd qr)) 0))
      }
      else Some result)"

declare biToString_loop.simps [code]

definition biToString :: "nat \<Rightarrow> bigint \<Rightarrow> int \<Rightarrow> jsstr option" where
  "biToString N x radix =
     (let b = (new_BigInt N)\<lparr>digits := wr (ZERO_ARRAY N) 0 (Num radix)\<rparr>
      in do {
        qr \<leftarrow> biDivideModulo N x b;
        result \<leftarrow> biToString_loop N hexatrigesimalToChar b (fst qr)
                    (hexatrigesimalToChar (rd (digits (snd qr)) 0));
        Some ((if isNeg x then js ''-'' else []) @ reverseStr result)
      })"

definition biToDecimal :: "nat \<Rightarrow> bigint \<Rightarrow> jsstr option" where
  "biToDecimal N x =
     (let b = (new_BigInt N)\<lparr>digits := wr (ZERO_ARRAY N) 0 (Num 10)\<rparr>
      in do {
        qr \<leftarrow> biDivideModulo N x b;
        result \<leftarrow> biToString_loop N string_of_num b (fst qr) (string_of_num (rd (digits (snd qr)) 0));
        Some ((if isNeg x then js ''-'' else []) @ reverseStr result)
      })"

definition biFromString_step :: "nat \<Rightarrow> jsstr \<Rightarrow> int \<Rightarrow> nat \<Rightarrow> bigint \<times> bigint \<Rightarrow> bigint \<times> bigint" where
  "biFromString_step N s radix i = (\<lambda>(result, place).
     let digit = charToHex (s ! i); biDigit = biMultiplyDigit N place (Num digit)
     in (biAdd N result biDigit, biMultiplyDigit N place (Num radix)))"

definition biFromString :: "nat \<Rightarrow> jsstr \<Rightarrow> int \<Rightarrow> bigint" where
  "biFromString N s radix =
     (let isNeg = (charAt s 0 = js ''-''); istop = (if isNeg then 1 else 0);
          place = (new_BigInt N)\<lparr>digits := wr (ZERO_ARRAY N) 0 (Num 1)\<rparr>
      in (fst (fold (biFromString_step N s radix) (rev [istop..<length s]) (new_BigInt N, place)))
           \<lparr>isNeg := isNeg\<rparr>)"

text \<open>\<open>biDump\<close>: \<open>b.digits.join(" ")\<close>.\<close>

definition biDump :: "bigint \<Rightarrow> jsstr" where
  "biDump b =
     (if isNeg b then js ''-'' else []) @
     join_with (js '' '') (map (\<lambda>d. case d of Undef \<Rightarrow> [] | _ \<Rightarrow> string_of_num d) (digits b))"

section \<open>Positional notation\<close>

definition numval :: "int \<Rightarrow> jsstr \<Rightarrow> int" where
  "numval b s = foldl (\<lambda>a c. b * a + charToHex c) 0 s"

abbreviation hexval :: "jsstr \<Rightarrow> int" where
  "hexval \<equiv> numval 16"

definition is_hex :: "nat \<Rightarrow> bool" where
  "is_hex c \<longleftrightarrow> 48 \<le> c \<and> c \<le> 57 \<or> 65 \<le> c \<and> c \<le> 70 \<or> 97 \<le> c \<and> c \<le> 102"

definition lower_hex :: "nat \<Rightarrow> bool" where
  "lower_hex c \<longleftrightarrow> 48 \<le> c \<and> c \<le> 57 \<or> 97 \<le> c \<and> c \<le> 102"

lemma lower_hex_is_hex: "lower_hex c \<Longrightarrow> is_hex c"
  by (auto simp: lower_hex_def is_hex_def)

lemma charToHex_bounds: "0 \<le> charToHex c" "charToHex c < 36" "is_hex c \<Longrightarrow> charToHex c < 16"
  by (auto simp: charToHex_def is_hex_def)

lemma numval_Nil [simp]: "numval b [] = 0"
  by (simp add: numval_def)

lemma numval_snoc [simp]: "numval b (s @ [c]) = b * numval b s + charToHex c"
  by (simp add: numval_def)

lemma numval_append: "numval b (s @ t) = numval b s * b ^ length t + numval b t"
proof (induction t rule: rev_induct)
  case Nil
  then show ?case by simp
next
  case (snoc c t)
  have "numval b (s @ t @ [c]) = b * numval b (s @ t) + charToHex c"
    by (metis append_assoc numval_snoc)
  with snoc show ?case by (simp add: algebra_simps)
qed

lemma numval_Cons: "numval b (c # s) = charToHex c * b ^ length s + numval b s"
  using numval_append [of b "[c]" s] numval_snoc [of b "[]" c] by simp

lemma numval_nonneg: "0 \<le> b \<Longrightarrow> 0 \<le> numval b s"
  by (induction s rule: rev_induct) (auto simp: charToHex_bounds)

lemma numval_less:
  assumes "\<forall>c \<in> set s. charToHex c < b"
  shows "numval b s < b ^ length s"
  using assms
proof (induction s rule: rev_induct)
  case Nil
  then show ?case by simp
next
  case (snoc c s)
  then have "numval b s + 1 \<le> b ^ length s" "charToHex c < b" "0 \<le> b"
    using charToHex_bounds(1) [of c] by auto
  then have "b * (numval b s + 1) \<le> b * b ^ length s" by (intro mult_left_mono) auto
  with \<open>charToHex c < b\<close> show ?case by (simp add: algebra_simps)
qed

lemma hexval_less: "\<forall>c \<in> set s. is_hex c \<Longrightarrow> hexval s < 16 ^ length s"
  by (rule numval_less) (auto simp: charToHex_bounds)

section \<open>Reading hexadecimal\<close>

lemma hexToDigit_correct:
  assumes "\<forall>c \<in> set s. is_hex c" "length s \<le> 4"
  shows "hexToDigit s = Num (hexval s)"
proof -
  define P where "P = (\<lambda>i r. r = Num (hexval (take i s)))"
  have "P (min (length s) 4) (hexToDigit s)"
    unfolding hexToDigit_def
  proof (rule for_invariant [where P = P])
    show "P 0 (Num 0)" by (simp add: P_def)
    fix i r assume i: "i < min (length s) 4" and r: "P i r"
    let ?v = "hexval (take i s)"
    have h: "\<forall>c \<in> set (take i s). is_hex c" using assms(1) by (auto dest: in_set_takeD)
    have "?v < 16 ^ i" using hexval_less [OF h] i by simp
    also have "(16 :: int) ^ i \<le> 16 ^ 3" using i by (intro power_increasing) auto
    finally have v: "0 \<le> ?v" "?v < 4096" using numval_nonneg [of 16] by auto
    have c: "0 \<le> charToHex (s ! i)" "charToHex (s ! i) < 16"
      using assms(1) i charToHex_bounds by auto
    have sh: "js_shl (Num ?v) 4 = Num (?v * 2 ^ 4)" using v by (intro js_shl_small) auto
    have "js_or (Num (?v * 2 ^ 4)) (Num (charToHex (s ! i))) = Num (?v * 2 ^ 4 + charToHex (s ! i))"
      using v c by (intro js_or_disjoint) auto
    then show "P (Suc i) (js_or (js_shl r 4) (Num (charToHex (s ! i))))"
      using r i sh by (simp add: P_def take_Suc_snoc)
  qed
  then show ?thesis using assms(2) by (simp add: P_def min_absorb1)
qed

lemma biFromHex_loop_correct:
  assumes s: "\<forall>c \<in> set s. is_hex c"
    and "i \<le> length s" "all_digits ds" "length ds = N" "i \<le> 4 * (N - j)" "\<forall>k. j \<le> k \<and> k < N \<longrightarrow> ds ! k = Num 0"
  shows "length (biFromHex_loop s i j ds) = N \<and> all_digits (biFromHex_loop s i j ds) \<and>
    vald (biFromHex_loop s i j ds) = vald ds + 65536 ^ j * hexval (take i s)"
  using assms(2-)
proof (induction i arbitrary: j ds rule: less_induct)
  case (less i)
  show ?case
  proof (cases "i > 0")
    case False
    then show ?thesis using less.prems by (simp add: biFromHex_loop.simps [of s 0 j ds])
  next
    case True
    let ?w = "substr s (i - 4) (min i 4)"
    have j: "j < N" using True less.prems(4) by simp
    have w: "\<forall>c \<in> set ?w. is_hex c" "length ?w = min i 4"
      using s less.prems(1) by (auto simp: substr_def dest!: in_set_takeD in_set_dropD)
    have hx: "hexToDigit ?w = Num (hexval ?w)" using w by (intro hexToDigit_correct) auto
    have "hexval ?w < 16 ^ min i 4" using hexval_less [OF w(1)] w(2) by simp
    also have "(16 :: int) ^ min i 4 \<le> 16 ^ 4" by (intro power_increasing) auto
    finally have d: "is_digit (Num (hexval ?w))" using numval_nonneg [of 16 ?w] by simp
    let ?ds = "ds[j := Num (hexval ?w)]"
    have "take i s = take (i - 4) s @ ?w"
    proof -
      have "i = (i - 4) + min i 4" by simp
      then have "take i s = take ((i - 4) + min i 4) s" by (rule arg_cong)
      then show ?thesis by (simp only: take_add substr_def)
    qed
    then have tk: "hexval (take i s) = hexval (take (i - 4) s) * 16 ^ min i 4 + hexval ?w"
      using w(2) by (simp add: numval_append)
    have tk': "hexval (take (i - 4) s) * 16 ^ min i 4 = 65536 * hexval (take (i - 4) s)"
      by (cases "i < 4") (auto simp: min_def)
    have "i - 4 < i" "i - 4 \<le> length s" "all_digits ?ds" "length ?ds = N" "i - 4 \<le> 4 * (N - Suc j)"
      "\<forall>k. Suc j \<le> k \<and> k < N \<longrightarrow> ?ds ! k = Num 0"
      using True less.prems d by (auto intro: list_all_update)
    from less.IH [OF this] have ih: "length (biFromHex_loop s (i - 4) (Suc j) ?ds) = N \<and>
      all_digits (biFromHex_loop s (i - 4) (Suc j) ?ds) \<and>
      vald (biFromHex_loop s (i - 4) (Suc j) ?ds) = vald ?ds + 65536 ^ Suc j * hexval (take (i - 4) s)" .
    have "vald ?ds = vald ds + hexval ?w * 65536 ^ j"
      using vald_update [of j ds "Num (hexval ?w)"] j less.prems(3,5) by simp
    then have "vald ?ds + 65536 ^ Suc j * hexval (take (i - 4) s) = vald ds + 65536 ^ j * hexval (take i s)"
      unfolding tk tk' by (simp add: algebra_simps)
    moreover have "biFromHex_loop s i j ds = biFromHex_loop s (i - 4) (Suc j) ?ds"
      using True j less.prems(3) by (subst biFromHex_loop.simps) (simp add: hx)
    ultimately show ?thesis using ih by simp
  qed
qed

theorem biFromHex_correct:
  assumes "\<forall>c \<in> set s. is_hex c" "length s \<le> 4 * N"
  shows "wf_bi N (biFromHex N s)" "bival (biFromHex N s) = hexval s" "\<not> isNeg (biFromHex N s)"
  using biFromHex_loop_correct [OF assms(1) order_refl, of "ZERO_ARRAY N" N 0] assms(2)
  by (auto simp: biFromHex_def new_BigInt_def wf_bi_def bival_def)

section \<open>Writing hexadecimal\<close>

lemma reverseStr_rev [simp]: "reverseStr s = rev s"
proof -
  have "map (charAt s) (rev [0..<length s]) = map (\<lambda>i. [s ! i]) (rev [0..<length s])"
    by (rule map_cong) (auto simp: charAt_def)
  then have "reverseStr s = map ((!) s) (rev [0..<length s])"
    by (simp only: reverseStr_def fold_collect append_Nil concat_map_singleton)
  also have "\<dots> = rev s" by (simp add: map_nth flip: rev_map)
  finally show ?thesis .
qed

definition hexdigit :: "int \<Rightarrow> nat" where
  "hexdigit v = js ''0123456789abcdef'' ! nat v"

lemma hexdigit:
  assumes "0 \<le> v" "v < 16"
  shows "charToHex (hexdigit v) = v" "lower_hex (hexdigit v)" "hexToChar (Num v) = [hexdigit v]"
    "hexdigit v = 48 \<longleftrightarrow> v = 0"
proof -
  have all: "list_all (\<lambda>n. charToHex (hexdigit (int n)) = int n \<and> lower_hex (hexdigit (int n)) \<and>
      hexToChar (Num (int n)) = [hexdigit (int n)] \<and> (hexdigit (int n) = 48 \<longleftrightarrow> n = 0)) [0..<16]"
    by (simp add: upt_rec hexdigit_def charToHex_def lower_hex_def hexToChar_def charAt_def)
  have "charToHex (hexdigit v) = v \<and> lower_hex (hexdigit v) \<and> hexToChar (Num v) = [hexdigit v]
      \<and> (hexdigit v = 48 \<longleftrightarrow> v = 0)"
    using all [unfolded list_all_iff, THEN bspec, of "nat v"] assms by auto
  then show "charToHex (hexdigit v) = v" "lower_hex (hexdigit v)" "hexToChar (Num v) = [hexdigit v]"
    "hexdigit v = 48 \<longleftrightarrow> v = 0" by auto
qed

lemma digitToHex_correct:
  assumes "is_digit d"
  shows "hexval (digitToHex d) = dval d" "length (digitToHex d) = 4" "\<forall>c \<in> set (digitToHex d). lower_hex c"
proof -
  define v where "v = dval d"
  have v: "d = Num v" "0 \<le> v" "v < 65536" using is_digitD [OF assms] by (auto simp: v_def)
  have m: "0 \<le> x mod 16" "x mod 16 < 16" for x :: int by auto
  have l: "[0..<4] = [0, 1, 2, 3 :: nat]" by (simp add: upt_rec)
  have b: "v div 16 < 4294967296" "v div 256 < 4294967296" "v div 4096 < 4294967296" "0 \<le> v div 16" "0 \<le> v div 256" "0 \<le> v div 4096"
    using v by auto
  have t: "v div 4096 mod 16 = v div 4096" "0 \<le> v div 4096" "v div 4096 < 16" using v by auto
  have dg: "digitToHex d = [hexdigit (v div 4096 mod 16), hexdigit (v div 256 mod 16), hexdigit (v div 16 mod 16), hexdigit (v mod 16)]"
    using v b
    by (simp add: digitToHex_def l js_and_f js_ushr_small hexdigit(3) [OF m] t(1) hexdigit(3) [OF t(2,3)] zdiv_zmult2_eq [symmetric])
  have "((v div 4096 mod 16 * 16 + v div 256 mod 16) * 16 + v div 16 mod 16) * 16 + v mod 16 = v"
  proof -
    have q: "v div 16 div 16 = v div 256" "v div 256 div 16 = v div 4096"
      using zdiv_zmult2_eq [of 16 v 16] zdiv_zmult2_eq [of 16 v 256] by simp_all
    have "v div 256 div 16 * 16 + v div 256 mod 16 = v div 256" "v div 16 div 16 * 16 + v div 16 mod 16 = v div 16"
      "v div 16 * 16 + v mod 16 = v" by (rule div_mult_mod_eq)+
    then show ?thesis by (simp only: t(1) q)
  qed
  then show "hexval (digitToHex d) = dval d"
    unfolding dg numval_def
    by (simp only: foldl.simps hexdigit(1) [OF m] mult_zero_right mult_zero_left add_0 mult.commute [of 16] v(1) dval.simps)
  show "length (digitToHex d) = 4" "\<forall>c \<in> set (digitToHex d). lower_hex c"
    unfolding dg by (simp_all add: hexdigit(2) [OF m])
qed


lemma biToHex_loop:
  assumes "all_digits ds" "n \<le> length ds"
  defines "r \<equiv> fold (\<lambda>i result. result @ digitToHex (rd ds (int i))) (rev [0..<n]) []"
  shows "hexval r = vald (take n ds) \<and> length r = 4 * n \<and> (\<forall>c \<in> set r. lower_hex c)"
proof -
  define P where "P = (\<lambda>i r. hexval r = vald (drop i (take n ds)) \<and> length r = 4 * (n - i) \<and> (\<forall>c \<in> set r. lower_hex c))"
  have "P 0 r"
    unfolding r_def
  proof (rule for_down_invariant [where P = P])
    show "P n []" by (simp add: P_def)
    fix i r assume i: "i < n" and r: "P (Suc i) r"
    have dg: "is_digit (ds ! i)" using assms(1,2) i by (simp add: list_all_length)
    have rd: "rd ds (int i) = ds ! i" using assms(2) i by simp
    have "drop i (take n ds) = ds ! i # drop (Suc i) (take n ds)"
      using Cons_nth_drop_Suc [of i "take n ds"] assms(2) i by simp
    then have v: "vald (drop i (take n ds)) = dval (ds ! i) + 65536 * vald (drop (Suc i) (take n ds))" by simp
    note h = digitToHex_correct [OF dg]
    have "hexval (r @ digitToHex (ds ! i)) = vald (drop i (take n ds))"
      using r unfolding v numval_append h(1,2) P_def by simp
    moreover have "length (r @ digitToHex (ds ! i)) = 4 * (n - i)" using r i h(2) by (simp add: P_def)
    ultimately show "P i (r @ digitToHex (rd ds (int i)))"
      using r h(3) unfolding rd P_def by auto
  qed
  then show ?thesis by (simp add: P_def)
qed

theorem biToHex_correct:
  assumes "wf_bi N x" "0 < N"
  shows "hexval (biToHex x) = \<bar>bival x\<bar>" "length (biToHex x) = 4 * Suc (biHighIndex x)"
    "\<forall>c \<in> set (biToHex x). lower_hex c"
proof -
  have "all_digits (digits x)" "Suc (biHighIndex x) \<le> length (digits x)"
    using assms biHighIndex_less [OF assms] by auto
  note h = biToHex_loop [OF this]
  have "vald (take (Suc (biHighIndex x)) (digits x)) = \<bar>bival x\<bar>"
    using vald_take_high [OF assms] vald_nonneg [OF wf_biD(2) [OF assms(1)]] by (auto simp: bival_def)
  with h show "hexval (biToHex x) = \<bar>bival x\<bar>" "length (biToHex x) = 4 * Suc (biHighIndex x)"
    "\<forall>c \<in> set (biToHex x). lower_hex c"
    by (simp_all add: biToHex_def del: upt_Suc)
qed

text \<open>Two representations of one number without sign are the same array.\<close>

lemma bigint_eqI:
  assumes "wf_bi N x" "wf_bi N y" "\<not> isNeg x" "\<not> isNeg y" "bival x = bival y"
  shows "x = y"
proof -
  have "digits x = digits y"
    using assms by (intro vald_inj) (auto simp: bival_def wf_bi_def)
  with assms(3,4) show ?thesis by simp
qed


section \<open>Writing in any radix\<close>

text \<open>The characters are digits below \<open>b\<close> (other characters also have the value 0).\<close>

definition digits_below :: "int \<Rightarrow> jsstr \<Rightarrow> bool" where
  "digits_below b s \<longleftrightarrow> (\<forall>c \<in> set s. charToHex c < b \<and> (charToHex c = 0 \<longrightarrow> c = 48))"

text \<open>
  The interface of the writing loop: a digit below the base is written as one character, which
  \<open>charToHex\<close> reads back, and only 0 is written as the character \<open>0\<close>.
\<close>

locale digit_writer =
  fixes out :: "jsnum \<Rightarrow> jsstr" and base :: int
  assumes base: "2 \<le> base" "base < 65536"
    and out: "0 \<le> v \<Longrightarrow> v < base \<Longrightarrow> \<exists>c. out (Num v) = [c] \<and> charToHex c = v \<and> (c = 48 \<longleftrightarrow> v = 0)"
begin

lemma positive_test:
  assumes "wf_bi N q"
  shows "biCompare q (bigZero N) = 1 \<longleftrightarrow> 0 < bival q"
proof (cases "isNeg q")
  case True
  then have "bival q \<le> 0" using vald_nonneg [OF wf_biD(2) [OF assms]] by (simp add: bival_def)
  with True show ?thesis by (simp add: biCompare_def bigZero_def new_BigInt_def)
next
  case False
  have "isNeg (bigZero N) = False" "wf_bi N (bigZero N)" "bival (bigZero N) = 0"
    by (auto simp: bigZero_def) (simp add: new_BigInt_def)
  with False show ?thesis using biCompare_correct [OF assms, of "bigZero N"] bival_nonneg [OF False assms] by auto
qed

lemma divide_base:
  assumes "wf_bi N q" "\<not> isNeg q" "bival q < 65536 ^ (N - 1)" "0 < N" "wf_bi N b" "bival b = base"
  obtains q' r c where "biDivideModulo N q b = Some (q', r)" "wf_bi N q'" "bival q' = bival q div base"
    "out (rd (digits r) 0) = [c]" "charToHex c = bival q mod base" "c = 48 \<longleftrightarrow> bival q mod base = 0"
proof -
  obtain q' r where qr: "biDivideModulo N q b = Some (q', r)" "wf_bi N q'" "wf_bi N r" "\<not> isNeg r"
    "bival r = bival q mod base" "bival q' = bival q div base"
    using biDivideModulo_correct [OF assms(1-3,5)] assms(6) base by auto
  have m: "0 \<le> bival q mod base" "bival q mod base < base" using base by auto
  have "digits r ! 0 = Num (bival q mod base)"
  proof -
    have "all_digits (digits r)" "0 < length (digits r)" using qr(3) assms(4) by auto
    then obtain d where d: "digits r ! 0 = Num d" "0 \<le> d" "d < 65536" using digit_obtain by blast
    have "dval (digits r ! 0) = vald (digits r) mod 65536"
      using dval_nth [of "digits r" 0] qr(3) assms(4) by auto
    also have "\<dots> = bival q mod base mod 65536" using qr(4,5) by (simp add: bival_def)
    also have "\<dots> = bival q mod base" using m base by (intro mod_pos_pos_trivial) linarith+
    finally show ?thesis using d by simp
  qed
  then have "rd (digits r) 0 = Num (bival q mod base)" using qr(3) assms(4) by (auto simp: rd_def)
  with out [OF m] qr that show ?thesis by auto
qed

lemma loop_correct:
  assumes "0 < N" "wf_bi N b" "bival b = base" "wf_bi N q" "0 \<le> bival q" "bival q < 65536 ^ (N - 1)"
  shows "\<exists>s. biToString_loop N out b q result = Some (result @ s) \<and> numval base (rev s) = bival q \<and> digits_below base s \<and>
    (s \<noteq> [] \<longrightarrow> last s \<noteq> 48) \<and> (s = [] \<longleftrightarrow> bival q = 0)"
  using assms(4-)
proof (induction "nat (bival q)" arbitrary: q result rule: less_induct)
  case less
  show ?case
  proof (cases "0 < bival q")
    case False
    then show ?thesis
      using less.prems positive_test [OF less.prems(1)] by (subst biToString_loop.simps) (simp add: digits_below_def)
  next
    case True
    then have "\<not> isNeg q" using vald_nonneg [OF wf_biD(2) [OF less.prems(1)]] by (auto simp: bival_def)
    then obtain q' r c where d: "biDivideModulo N q b = Some (q', r)" "wf_bi N q'" "bival q' = bival q div base"
      "out (rd (digits r) 0) = [c]" "charToHex c = bival q mod base" "c = 48 \<longleftrightarrow> bival q mod base = 0"
      using divide_base [OF less.prems(1) _ less.prems(3) assms(1-3)] by blast
    have lt: "bival q' < bival q" "0 \<le> bival q'"
      using True base d(3) by (auto intro: int_div_less_self simp: pos_imp_zdiv_nonneg_iff)
    then have "nat (bival q') < nat (bival q)" "bival q' < 65536 ^ (N - 1)" using less.prems(3) by auto
    from less.hyps [OF this(1) d(2) lt(2) this(2), of "result @ [c]"] obtain s where
      s: "biToString_loop N out b q' (result @ [c]) = Some ((result @ [c]) @ s)" "numval base (rev s) = bival q'"
        "digits_below base s" "s \<noteq> [] \<longrightarrow> last s \<noteq> 48" "s = [] \<longleftrightarrow> bival q' = 0" by blast
    have "biToString_loop N out b q result = Some (result @ (c # s))"
      using True positive_test [OF less.prems(1)] d(1,4) s(1) by (subst biToString_loop.simps) simp
    moreover have "numval base (rev (c # s)) = bival q" by (simp only: rev.simps numval_snoc s(2) d(3,5) mult_div_mod_eq)
    moreover have "digits_below base (c # s)" using s(3) d(5,6) base by (simp add: digits_below_def)
    moreover have "last (c # s) \<noteq> 48"
    proof (cases "s = []")
      case True
      then have z: "bival q div base = 0" using s(5) d(3) by simp
      have "bival q mod base = bival q" using div_mult_mod_eq [of "bival q" base] z by simp
      with True d(6) \<open>0 < bival q\<close> show ?thesis by simp
    qed (use s(4) in simp)
    ultimately show ?thesis using True by (intro exI [of _ "c # s"] conjI) simp_all
  qed
qed

lemma write_correct:
  assumes "0 < N" "wf_bi N b" "bival b = base" "wf_bi N x" "\<not> isNeg x" "bival x < 65536 ^ (N - 1)"
  shows "\<exists>qr s. biDivideModulo N x b = Some qr \<and>
    biToString_loop N out b (fst qr) (out (rd (digits (snd qr)) 0)) = Some s \<and>
    numval base (rev s) = bival x \<and> digits_below base s \<and> (s = [48] \<or> last s \<noteq> 48) \<and> s \<noteq> []"
proof -
  obtain q r c where d: "biDivideModulo N x b = Some (q, r)" "wf_bi N q" "bival q = bival x div base"
      "out (rd (digits r) 0) = [c]" "charToHex c = bival x mod base" "c = 48 \<longleftrightarrow> bival x mod base = 0"
    using divide_base [OF assms(4-6) assms(1-3)] .
  have x0: "0 \<le> bival x" using assms(4,5) bival_nonneg by blast
  have "bival x div base \<le> bival x div 1" using x0 base by (intro zdiv_mono2) auto
  then have q: "0 \<le> bival q" "bival q \<le> bival x"
    using x0 base d(3) by (auto simp: pos_imp_zdiv_nonneg_iff)
  then have "bival q < 65536 ^ (N - 1)" using assms(6) by simp
  from loop_correct [OF assms(1-3) d(2) q(1) this, of "[c]"] obtain s where
    s: "biToString_loop N out b q [c] = Some ([c] @ s)" "numval base (rev s) = bival q" "digits_below base s"
      "s \<noteq> [] \<longrightarrow> last s \<noteq> 48" by blast
  have "numval base (rev (c # s)) = bival x" by (simp only: rev.simps numval_snoc s(2) d(3,5) mult_div_mod_eq)
  moreover have "digits_below base (c # s)" using s(3) d(5,6) base by (simp add: digits_below_def)
  ultimately show ?thesis using d(1,4) s by (intro exI [of _ "(q, r)"] exI [of _ "c # s"]) auto
qed

end

lemma hexatrigesimalToChar:
  assumes "0 \<le> v" "v < 36"
  shows "\<exists>c. hexatrigesimalToChar (Num v) = [c] \<and> charToHex c = v \<and> (c = 48 \<longleftrightarrow> v = 0)"
proof -
  have c: "nat v < 36" using assms by simp
  have table: "js ''0123456789abcdefghijklmnopqrstuvwxyz'' = map (\<lambda>i. if i < 10 then 48 + i else 87 + i) [0..<36]"
    by (simp add: upt_rec)
  show ?thesis
    using assms c unfolding hexatrigesimalToChar_def table
    by (auto simp: charAt_def charToHex_def nat_less_iff)
qed

text \<open>For every radix from 2 to 36.\<close>

definition valid_radix :: "int \<Rightarrow> int" where
  "valid_radix r = max 2 (min 36 r)"

interpretation hexatrigesimal: digit_writer hexatrigesimalToChar "valid_radix r" for r
  by unfold_locales (auto simp: valid_radix_def intro!: hexatrigesimalToChar)

lemma string_of_digit: "0 \<le> v \<Longrightarrow> v < 10 \<Longrightarrow> string_of_num (Num v) = [48 + nat v]"
  by (simp add: string_of_num_def string_of_nat.simps nat_less_iff)

interpretation decimal: digit_writer string_of_num 10
  by unfold_locales (auto simp: string_of_digit charToHex_def)

lemma radix_digit:
  assumes "0 < N" "0 \<le> v" "v < 65536"
  defines "b \<equiv> (new_BigInt N)\<lparr>digits := wr (ZERO_ARRAY N) 0 (Num v)\<rparr>"
  shows "wf_bi N b" "bival b = v" "\<not> isNeg b"
proof -
  have "wr (ZERO_ARRAY N) 0 (Num v) = (ZERO_ARRAY N)[0 := Num v]" using wr_update [of 0 "ZERO_ARRAY N"] assms(1) by simp
  then show "wf_bi N b" "bival b = v" "\<not> isNeg b"
    using assms by (auto simp: b_def wf_bi_def new_BigInt_def bival_def vald_update list_all_update)
qed

text \<open>
  A number that is not negative is written as the numeral of its value, without leading zeros.
\<close>

theorem biToString_correct:
  assumes "0 < N" "2 \<le> r" "r \<le> 36" "wf_bi N x" "\<not> isNeg x" "bival x < 65536 ^ (N - 1)"
  shows "\<exists>s. biToString N x r = Some s \<and> numval r s = bival x \<and> digits_below r s \<and> s \<noteq> [] \<and> (s = js ''0'' \<or> hd s \<noteq> 48)"
proof -
  let ?b = "(new_BigInt N)\<lparr>digits := wr (ZERO_ARRAY N) 0 (Num r)\<rparr>"
  have b: "wf_bi N ?b" "bival ?b = r" using radix_digit [OF assms(1), of r] assms(2,3) by auto
  have r: "valid_radix r = r" using assms(2,3) by (simp add: valid_radix_def)
  obtain qr s where "biDivideModulo N x ?b = Some qr"
    "biToString_loop N hexatrigesimalToChar ?b (fst qr) (hexatrigesimalToChar (rd (digits (snd qr)) 0)) = Some s"
    "numval r (rev s) = bival x" "digits_below r s" "s = [48] \<or> last s \<noteq> 48" "s \<noteq> []"
    using hexatrigesimal.write_correct [of N ?b r, unfolded r, OF assms(1) b assms(4-6)] by blast
  then show ?thesis
    using assms(5) by (auto simp: biToString_def Let_def digits_below_def hd_rev)
qed

theorem biToDecimal_correct:
  assumes "0 < N" "wf_bi N x" "\<not> isNeg x" "bival x < 65536 ^ (N - 1)"
  shows "\<exists>s. biToDecimal N x = Some s \<and> numval 10 s = bival x \<and> digits_below 10 s \<and> s \<noteq> [] \<and> (s = js ''0'' \<or> hd s \<noteq> 48)"
proof -
  let ?b = "(new_BigInt N)\<lparr>digits := wr (ZERO_ARRAY N) 0 (Num 10)\<rparr>"
  have b: "wf_bi N ?b" "bival ?b = 10" using radix_digit [OF assms(1), of 10] by auto
  obtain qr s where "biDivideModulo N x ?b = Some qr"
    "biToString_loop N string_of_num ?b (fst qr) (string_of_num (rd (digits (snd qr)) 0)) = Some s"
    "numval 10 (rev s) = bival x" "digits_below 10 s" "s = [48] \<or> last s \<noteq> 48" "s \<noteq> []"
    using decimal.write_correct [OF assms(1) b assms(2-4)] by blast
  then show ?thesis
    using assms(3) by (auto simp: biToDecimal_def Let_def digits_below_def hd_rev)
qed


section \<open>Reading in any radix\<close>

lemma biFromString_loop:
  assumes r: "2 \<le> r" "r < 65536" and s: "digits_below r s" and fits: "r ^ length s < 65536 ^ (N - 1)" "2 \<le> N"
    and k: "k \<le> length s"
  defines "st \<equiv> fold (biFromString_step N s r) (rev [k..<length s])
    (new_BigInt N, (new_BigInt N)\<lparr>digits := wr (ZERO_ARRAY N) 0 (Num 1)\<rparr>)"
  shows "wf_bi N (fst st) \<and> \<not> isNeg (fst st) \<and> bival (fst st) = numval r (drop k s)"
proof -
  let ?n = "length s"
  define P where "P = (\<lambda>i (res, place). wf_bi N res \<and> \<not> isNeg res \<and> bival res = numval r (drop i s) \<and>
    wf_bi N place \<and> \<not> isNeg place \<and> bival place = r ^ (?n - i))"
  have "P k st"
    unfolding st_def
  proof (rule for_down_invariant_from [where P = P, OF _ k])
    show "P ?n (new_BigInt N, (new_BigInt N)\<lparr>digits := wr (ZERO_ARRAY N) 0 (Num 1)\<rparr>)"
      using radix_digit [of N 1] fits(2) by (simp add: P_def)
    fix i st assume i: "i < ?n" and "P (Suc i) st"
    then obtain res place where st: "st = (res, place)"
      and res: "wf_bi N res" "\<not> isNeg res" "bival res = numval r (drop (Suc i) s)"
      and place: "wf_bi N place" "\<not> isNeg place" "bival place = r ^ (?n - Suc i)"
      by (cases st) (auto simp: P_def)
    let ?c = "charToHex (s ! i)"
    have c: "0 \<le> ?c" "?c < 65536" "?c < r"
      using charToHex_bounds [of "s ! i"] s i by (auto simp: digits_below_def)
    have pw: "r ^ (?n - i) \<le> r ^ ?n" "r ^ (?n - Suc i) \<le> r ^ ?n" using r by (auto intro: power_increasing)
    have "65536 ^ (N - 1) = (65536 :: int) ^ Suc (N - 2)" using fits(2) by (simp flip: power_Suc add: Suc_diff_Suc numeral_2_eq_2)
    moreover have "0 \<le> r ^ (?n - Suc i)" using r by simp
    ultimately have "\<bar>bival place\<bar> < 65536 ^ Suc (N - 2)" using pw(2) fits(1) unfolding place(3) by linarith
    then have "biHighIndex place \<le> N - 2" using biHighIndex_le [OF place(1)] fits(2) by simp
    then have h: "biHighIndex place + 1 < N" using fits(2) by simp
    have r0: "0 \<le> r" using r by simp
    note d = biMultiplyDigit_correct [OF place(1,2) c(1,2) h]
    note p = biMultiplyDigit_correct [OF place(1,2) r0 r(2) h]
    have step: "drop i s = s ! i # drop (Suc i) s" using Cons_nth_drop_Suc [OF i] by simp
    have v: "numval r (drop i s) = numval r (drop (Suc i) s) + bival place * ?c"
      unfolding step numval_Cons place(3) by simp
    have "numval r (drop i s) < r ^ length (drop i s)"
      using s by (intro numval_less) (auto simp: digits_below_def dest: in_set_dropD)
    also have "\<dots> < 65536 ^ (N - 1)" using pw(1) fits(1) by simp
    also have "(65536 :: int) ^ (N - 1) \<le> 65536 ^ N" by (intro power_increasing) auto
    finally have b: "numval r (drop i s) < 65536 ^ N" .
    have dg: "vald (digits res) = bival res"
      "vald (digits (biMultiplyDigit N place (Num ?c))) = bival place * ?c"
      using res(2) d(2,3) by (auto simp: bival_def)
    have a: "wf_bi N (biAdd N res (biMultiplyDigit N place (Num ?c)))"
      "bival (biAdd N res (biMultiplyDigit N place (Num ?c))) = numval r (drop i s)"
      "\<not> isNeg (biAdd N res (biMultiplyDigit N place (Num ?c)))"
      using biAdd_same [OF res(1) d(1)] res d b v dg by auto
    have "?n - i = Suc (?n - Suc i)" using i by simp
    then show "P i (biFromString_step N s r i st)"
      using a p place(3) by (simp add: P_def st biFromString_step_def mult.commute)
  qed
  then show ?thesis by (cases st) (auto simp: P_def)
qed

theorem biFromString_correct:
  assumes r: "2 \<le> r" "r < 65536" and s: "digits_below r s" and fits: "r ^ length s < 65536 ^ (N - 1)" "2 \<le> N"
  shows "wf_bi N (biFromString N s r)"
    "bival (biFromString N s r) = (if charAt s 0 = js ''-'' then - numval r (tl s) else numval r s)"
    "isNeg (biFromString N s r) \<longleftrightarrow> charAt s 0 = js ''-''"
proof -
  define k where "k = (if charAt s 0 = js ''-'' then 1 else 0 :: nat)"
  have k: "k \<le> length s" by (cases s) (auto simp: k_def charAt_def)
  let ?st = "fold (biFromString_step N s r) (rev [k..<length s])
    (new_BigInt N, (new_BigInt N)\<lparr>digits := wr (ZERO_ARRAY N) 0 (Num 1)\<rparr>)"
  have e: "biFromString N s r = (fst ?st)\<lparr>isNeg := charAt s 0 = js ''-''\<rparr>"
    by (simp only: biFromString_def Let_def k_def)
  have "drop k s = (if charAt s 0 = js ''-'' then tl s else s)" by (simp add: k_def drop_Suc)
  with biFromString_loop [OF r s fits k]
  show "wf_bi N (biFromString N s r)"
    "bival (biFromString N s r) = (if charAt s 0 = js ''-'' then - numval r (tl s) else numval r s)"
    "isNeg (biFromString N s r) \<longleftrightarrow> charAt s 0 = js ''-''"
    unfolding e by (auto simp: wf_bi_def bival_def split: if_splits)
qed

text \<open>Writing a number and reading it back gives the number.\<close>

theorem biFromString_biToString:
  assumes N: "2 \<le> N" and r: "2 \<le> r" "r \<le> 36" and x: "wf_bi N x" "\<not> isNeg x" "bival x * r < 65536 ^ (N - 1)"
  shows "\<exists>s. biToString N x r = Some s \<and> biFromString N s r = x"
proof -
  have x0: "0 \<le> bival x" using x bival_nonneg by blast
  have "bival x * 1 \<le> bival x * r" using x0 r by (intro mult_left_mono) auto
  then have "bival x < 65536 ^ (N - 1)" using x(3) by linarith
  with N r x biToString_correct [of N r x] obtain s where
    s: "biToString N x r = Some s" "numval r s = bival x" "digits_below r s" "s \<noteq> []" "s = [48] \<or> hd s \<noteq> 48"
    by (auto simp: digits_below_def)
  have ge: "r ^ (length s - 1) \<le> max 1 (bival x)"
  proof (cases "s = [48]")
    case False
    then obtain c t where c: "s = c # t" "c \<noteq> 48" using s(4,5) by (cases s) auto
    then have "1 \<le> charToHex c" using s(3) charToHex_bounds(1) [of c] by (auto simp: digits_below_def)
    then have "1 * r ^ length t \<le> charToHex c * r ^ length t" using r by (intro mult_right_mono) auto
    also have "\<dots> \<le> bival x" using s(2) numval_nonneg [of r t] r by (simp add: c(1) numval_Cons)
    finally show ?thesis by (simp add: c(1))
  qed simp
  have "charAt s 0 \<noteq> js ''-''"
    using s(3,4) by (cases s) (auto simp: charAt_def digits_below_def charToHex_def)
  have "r ^ length s = r ^ (length s - 1) * r" using s(4) by (cases s) auto
  also have "\<dots> \<le> max 1 (bival x) * r" using ge r by (intro mult_right_mono) auto
  also have "\<dots> < 65536 ^ (N - 1)"
  proof -
    have "(65536 :: int) ^ 1 \<le> 65536 ^ (N - 1)" using N by (intro power_increasing) auto
    with x(3) r show ?thesis by (simp add: max_def)
  qed
  finally have fits: "r ^ length s < 65536 ^ (N - 1)" .
  have r': "r < 65536" using r by simp
  note f = biFromString_correct [OF r(1) r' s(3) fits N]
  have "biFromString N s r = x"
    using f s(2) \<open>charAt s 0 \<noteq> js ''-''\<close> x by (intro bigint_eqI [of N]) auto
  with s(1) show ?thesis by blast
qed

end
