(* ===== verification/Rsa_Numbers.thy ===== *)
theory Rsa_Numbers
  imports Main
begin

text \<open>
  The number theory \<open>RSA.js\<close> rests on: Fermat's little theorem and that raising to the exponents
  of an RSA key pair, one after the other, gives a number back modulo the product of the primes.
\<close>

definition is_prime :: "nat \<Rightarrow> bool" where
  "is_prime p \<longleftrightarrow> 1 < p \<and> (\<forall>d \<in> {2..<p}. \<not> d dvd p)"

lemma is_primeD: "is_prime p \<Longrightarrow> 1 < p"
  by (simp add: is_prime_def)

lemma prime_divisor:
  assumes "is_prime p" "d dvd p"
  shows "d = 1 \<or> d = p"
proof (rule ccontr)
  assume n: "\<not> (d = 1 \<or> d = p)"
  have "p \<noteq> 0" "1 < p" using is_primeD [OF assms(1)] by auto
  then have "d \<le> p" "d \<noteq> 0" using assms(2) by (auto dest: dvd_imp_le intro: ccontr)
  with n have "d \<in> {2..<p}" by auto
  with assms show False by (auto simp: is_prime_def)
qed

lemma prime_coprime:
  assumes "is_prime p" "\<not> p dvd a"
  shows "coprime p a"
proof -
  have "gcd p a = 1 \<or> gcd p a = p" using prime_divisor [OF assms(1)] by simp
  moreover have "gcd p a \<noteq> p" using assms(2) by (metis gcd_dvd2)
  ultimately show ?thesis by (simp add: coprime_iff_gcd_eq_1)
qed

lemma prime_dvd_mult:
  assumes "is_prime p" "p dvd a * b"
  shows "p dvd a \<or> p dvd b"
proof (cases "p dvd a")
  case False
  with assms show ?thesis using prime_coprime coprime_dvd_mult_right_iff by blast
qed simp

lemma prime_dvd_choose:
  assumes "is_prime p" "0 < k" "k < p"
  shows "p dvd p choose k"
proof -
  obtain j n where j: "k = Suc j" and n: "p = Suc n" using assms(2,3) by (cases k; cases p) auto
  have "Suc j * (Suc n choose Suc j) = Suc n * (n choose j)" by (rule Suc_times_binomial)
  then have "p dvd k * (p choose k)" unfolding j n by (metis dvd_triv_left)
  moreover have "\<not> p dvd k" using assms(2,3) by (auto dest: dvd_imp_le)
  ultimately show ?thesis using prime_dvd_mult [OF assms(1)] by blast
qed

theorem fermat:
  assumes "is_prime p"
  shows "a ^ p mod p = a mod p"
proof (induction a)
  case 0
  then show ?case using is_primeD [OF assms] by (simp add: power_0_left)
next
  case (Suc a)
  have p: "1 < p" using is_primeD [OF assms] .
  have "(a + 1) ^ p = (\<Sum>k\<le>p. (p choose k) * a ^ k)" using binomial_ring [of a 1 p] by simp
  also have "{..p} = insert 0 (insert p {0<..<p})" using p by auto
  also have "(\<Sum>k\<in>insert 0 (insert p {0<..<p}). (p choose k) * a ^ k) =
      1 + a ^ p + (\<Sum>k\<in>{0<..<p}. (p choose k) * a ^ k)"
    using p by (subst sum.insert; simp)+
  finally have "(a + 1) ^ p = 1 + a ^ p + (\<Sum>k\<in>{0<..<p}. (p choose k) * a ^ k)" .
  moreover have "p dvd (\<Sum>k\<in>{0<..<p}. (p choose k) * a ^ k)"
    by (rule dvd_sum) (use prime_dvd_choose [OF assms] in auto)
  ultimately have "(a + 1) ^ p mod p = (1 + a ^ p) mod p" by (metis add.right_neutral dvd_eq_mod_eq_0 mod_add_right_eq)
  also have "\<dots> = (1 + a) mod p" using Suc by (metis mod_add_right_eq)
  finally show ?case by simp
qed

lemma fermat_unit:
  assumes "is_prime p" "\<not> p dvd a"
  shows "a ^ (p - 1) mod p = 1"
proof -
  have p: "1 < p" using is_primeD [OF assms(1)] .
  have a: "1 \<le> a" using assms(2) by (cases a) auto
  then have g: "1 \<le> a ^ (p - 1)" by simp
  have e: "a ^ p = a * a ^ (p - 1)" using p by (cases p) auto
  have "a ^ p mod p = a mod p" by (rule fermat [OF assms(1)])
  moreover have "a \<le> a ^ p" unfolding e using g by simp
  ultimately have "p dvd a ^ p - a" by (metis mod_eq_dvd_iff_nat)
  also have "a ^ p - a = a * (a ^ (p - 1) - 1)" using e by (simp add: right_diff_distrib')
  finally have "p dvd a ^ (p - 1) - 1" using prime_dvd_mult [OF assms(1)] assms(2) by blast
  then have "a ^ (p - 1) mod p = 1 mod p" using g by (metis mod_eq_dvd_iff_nat)
  then show ?thesis using p by simp
qed

lemma power_cycle:
  assumes "is_prime p"
  shows "x ^ (k * (p - 1) + 1) mod p = x mod p"
proof (cases "p dvd x")
  case True
  then show ?thesis by simp
next
  case False
  have "x ^ (k * (p - 1) + 1) = (x ^ (p - 1)) ^ k * x"
    by (metis mult.commute power_add power_mult power_one_right)
  then have "x ^ (k * (p - 1) + 1) mod p = (x ^ (p - 1)) ^ k * x mod p" by (rule arg_cong)
  also have "\<dots> = ((x ^ (p - 1)) ^ k mod p) * x mod p" by (simp add: mod_mult_left_eq)
  also have "(x ^ (p - 1)) ^ k mod p = (x ^ (p - 1) mod p) ^ k mod p" by (simp add: power_mod)
  also have "\<dots> = 1" using fermat_unit [OF assms False] is_primeD [OF assms] by simp
  finally show ?thesis by simp
qed

text \<open>The exponents of a key pair with modulus \<open>p * q\<close>.\<close>

definition rsa_exponents :: "nat \<Rightarrow> nat \<Rightarrow> nat \<Rightarrow> nat \<Rightarrow> bool" where
  "rsa_exponents p q e d \<longleftrightarrow>
     is_prime p \<and> is_prime q \<and> p \<noteq> q \<and> e * d mod ((p - 1) * (q - 1)) = 1"

theorem rsa_inverse:
  assumes "rsa_exponents p q e d"
  shows "(x ^ e) ^ d mod (p * q) = x mod (p * q)"
proof -
  have pq: "is_prime p" "is_prime q" "p \<noteq> q" "e * d mod ((p - 1) * (q - 1)) = 1"
    using assms by (auto simp: rsa_exponents_def)
  define k where "k = e * d div ((p - 1) * (q - 1))"
  have ed: "e * d = (k * (q - 1)) * (p - 1) + 1" "e * d = (k * (p - 1)) * (q - 1) + 1"
    using div_mult_mod_eq [of "e * d" "(p - 1) * (q - 1)"] pq(4) by (simp_all add: k_def ac_simps)
  have "\<not> p dvd q" using prime_divisor [OF pq(2)] pq(3) is_primeD [OF pq(1)] by auto
  then have c: "coprime p q" by (rule prime_coprime [OF pq(1)])
  have "x ^ (e * d) mod p = x mod p" unfolding ed(1) by (rule power_cycle [OF pq(1)])
  moreover have "x ^ (e * d) mod q = x mod q" unfolding ed(2) by (rule power_cycle [OF pq(2)])
  moreover have le: "x \<le> x ^ (e * d)" unfolding ed(1) by (cases "x = 0") simp_all
  ultimately have "p dvd x ^ (e * d) - x" "q dvd x ^ (e * d) - x"
    by (metis mod_eq_dvd_iff_nat)+
  then have "p * q dvd x ^ (e * d) - x" using c by (simp add: divides_mult)
  then have "x ^ (e * d) mod (p * q) = x mod (p * q)" using le by (metis mod_eq_dvd_iff_nat)
  then show ?thesis by (simp add: power_mult)
qed

end
