(* ===== verification/Rsa.thy ===== *)
theory Rsa
  imports Barrett Big_Int_Text Rsa_Numbers
begin

text \<open>
  \<open>assets/plugins/rsa/RSA.js\<close>: the encryption of the password in the login and password pages
  (\<open>RSAKeyPair\<close>, \<open>encryptedString\<close>) and its inverse \<open>decryptedString\<close>. A \<open>while\<close> that may not
  end is a \<^theory_text>\<open>partial_function (option)\<close>; \<open>None\<close> is then a page that hangs.
\<close>

section \<open>The code\<close>

record rsa_key =
  key_e :: bigint
  key_d :: bigint
  key_m :: bigint
  chunkSize :: nat
  key_radix :: int
  key_barrett :: barrett

definition RSAKeyPair :: "nat \<Rightarrow> jsstr \<Rightarrow> jsstr \<Rightarrow> jsstr \<Rightarrow> rsa_key option" where
  "RSAKeyPair N encryptionExponent decryptionExponent modulusHex =
     (let e = biFromHex N encryptionExponent;
          d = biFromHex N decryptionExponent;
          m = biFromHex N modulusHex
      in do {
        b \<leftarrow> BarrettMu N m;
        Some \<lparr>key_e = e, key_d = d, key_m = m, chunkSize = 2 * biHighIndex m, key_radix = 16,
              key_barrett = b\<rparr>
      })"

definition twoDigit :: "int \<Rightarrow> jsstr" where
  "twoDigit n = (if n < 10 then js ''0'' else []) @ string_of_num (Num n)"

definition reverseString :: "jsstr \<Rightarrow> jsstr" where
  "reverseString s =
     (if s \<noteq> [] then fold (\<lambda>i r. charAt s i @ r) [0..<length s] [] else s)"

text \<open>
  \<open>while (a.length % key.chunkSize != 0) a[i++] = 0\<close>; for a chunk size of 0 the remainder is
  \<open>NaN\<close>, which differs from 0.
\<close>

partial_function (option) pad_loop :: "nat \<Rightarrow> nat list \<Rightarrow> nat list option" where
  "pad_loop cs a = (if cs = 0 \<or> length a mod cs \<noteq> 0 then pad_loop cs (a @ [0]) else Some a)"

declare pad_loop.simps [code]

definition block_step :: "nat list \<Rightarrow> nat \<Rightarrow> nat \<Rightarrow> jsnum list \<Rightarrow> jsnum list" where
  "block_step a i j ds =
     (let ds = wr ds (int j) (Num (int (a ! (i + 2 * j))))
      in wr ds (int j) (js_add (rd ds (int j)) (js_shl (Num (int (a ! (i + 2 * j + 1)))) 8)))"

definition block_of :: "nat \<Rightarrow> nat \<Rightarrow> nat list \<Rightarrow> nat \<Rightarrow> bigint" where
  "block_of N cs a i =
     (new_BigInt N)\<lparr>digits := fold (block_step a i) [0..<cs div 2] (ZERO_ARRAY N)\<rparr>"

text \<open>
  \<open>c == 0\<close> for a string \<open>c\<close> of at most one character: true for the empty string, for
  \<open>"0"\<close> and for white space, which convert to the number 0.
\<close>

definition char_eq_0 :: "jsstr \<Rightarrow> bool" where
  "char_eq_0 c \<longleftrightarrow>
     c = [] \<or> c = [48] \<or> hd c \<in> {9, 10, 11, 12, 13, 32, 160, 5760, 8232, 8233, 8239, 8287, 12288, 65279}
     \<or> 8192 \<le> hd c \<and> hd c \<le> 8202"

text \<open>\<open>while (text.charAt(0) == 0) text = text.substr(1)\<close>\<close>

partial_function (option) strip_loop :: "jsstr \<Rightarrow> jsstr option" where
  "strip_loop text = (if char_eq_0 (charAt text 0) then strip_loop (drop 1 text) else Some text)"

declare strip_loop.simps [code]

definition crypt_text :: "nat \<Rightarrow> rsa_key \<Rightarrow> bigint \<Rightarrow> jsstr option" where
  "crypt_text N key block =
     do {
       crypt \<leftarrow> BarrettMu_powMod N (key_barrett key) block (key_e key);
       text \<leftarrow> (if key_radix key = 16 then Some (biToHex crypt) else biToString N crypt (key_radix key));
       strip_loop text
     }"

text \<open>\<open>for (i = 0; i < al; i += key.chunkSize)\<close>\<close>

partial_function (option) encrypt_loop :: "nat \<Rightarrow> rsa_key \<Rightarrow> nat list \<Rightarrow> nat \<Rightarrow> jsstr \<Rightarrow> jsstr option" where
  "encrypt_loop N key a i result =
     (if i < length a
      then do {
        text \<leftarrow> crypt_text N key (block_of N (chunkSize key) a i);
        encrypt_loop N key a (i + chunkSize key) (result @ text @ js '' '')
      }
      else Some result)"

declare encrypt_loop.simps [code]

definition encryptedString :: "nat \<Rightarrow> rsa_key \<Rightarrow> jsstr \<Rightarrow> jsstr option" where
  "encryptedString N key s =
     do {
       a \<leftarrow> pad_loop (chunkSize key) (reverseString s);
       result \<leftarrow> encrypt_loop N key a 0 [];
       Some (substring result 0 (int (length result) - 1))
     }"

text \<open>\<open>String.fromCharCode\<close> of one number, which it converts to 16 bits.\<close>

definition fromCharCode :: "jsnum \<Rightarrow> nat" where
  "fromCharCode d = nat (to_uint32 d mod 65536)"

definition block_chars :: "bigint \<Rightarrow> jsstr" where
  "block_chars block =
     fold (\<lambda>j result. result @ [fromCharCode (js_and (rd (digits block) (int j)) (Num 255)),
                              fromCharCode (js_shr (rd (digits block) (int j)) 8)])
       [0..<Suc (biHighIndex block)] []"

fun decrypt_loop :: "nat \<Rightarrow> rsa_key \<Rightarrow> jsstr list \<Rightarrow> jsstr \<Rightarrow> jsstr option" where
  "decrypt_loop N key [] result = Some result"
| "decrypt_loop N key (w # blocks) result =
     do {
       let bi = (if key_radix key = 16 then biFromHex N w else biFromString N w (key_radix key));
       block \<leftarrow> BarrettMu_powMod N (key_barrett key) bi (key_d key);
       decrypt_loop N key blocks (result @ block_chars block)
     }"

definition decryptedString :: "nat \<Rightarrow> rsa_key \<Rightarrow> jsstr \<Rightarrow> jsstr option" where
  "decryptedString N key s =
     do {
       result \<leftarrow> decrypt_loop N key (split_on 32 s) [];
       let result = (if result \<noteq> [] \<and> last result = 0
                     then substring result 0 (int (length result) - 1) else result);
       Some (reverseString result)
     }"

section \<open>Numbers in base 256\<close>

fun byteval :: "nat list \<Rightarrow> int" where
  "byteval [] = 0"
| "byteval (c # cs) = int c + 256 * byteval cs"

abbreviation bytes :: "nat list \<Rightarrow> bool" where
  "bytes cs \<equiv> list_all (\<lambda>c. c < 256) cs"

lemma byteval_nonneg: "0 \<le> byteval cs"
  by (induction cs) auto

lemma byteval_append: "byteval (cs @ ds) = byteval cs + 256 ^ length cs * byteval ds"
  by (induction cs) (auto simp: algebra_simps)

lemma byteval_zeros [simp]: "byteval (replicate n 0) = 0"
  by (induction n) auto

lemma byteval_less: "bytes cs \<Longrightarrow> byteval cs < 256 ^ length cs"
proof (induction cs)
  case Nil
  then show ?case by simp
next
  case (Cons c cs)
  then have "byteval cs + 1 \<le> 256 ^ length cs" "int c < 256" by auto
  then show ?case by simp
qed

lemma byteval_ge:
  assumes "cs \<noteq> []" "last cs \<noteq> 0"
  shows "256 ^ (length cs - 1) \<le> byteval cs"
proof -
  have "byteval cs = byteval (butlast cs) + 256 ^ (length cs - 1) * int (last cs)"
    using byteval_append [of "butlast cs" "[last cs]"] assms(1) by simp
  moreover have "(256 :: int) ^ (length cs - 1) * 1 \<le> 256 ^ (length cs - 1) * int (last cs)"
    using assms(2) by (intro mult_left_mono) auto
  ultimately show ?thesis using byteval_nonneg [of "butlast cs"] by linarith
qed

lemma byteval_inj:
  assumes "bytes cs" "bytes ds" "length cs = length ds" "byteval cs = byteval ds"
  shows "cs = ds"
  using assms(3,1,2,4)
proof (induction cs ds rule: list_induct2)
  case (Cons c cs d ds)
  then have e: "int c + 256 * byteval cs = int d + 256 * byteval ds" and b: "c < 256" "d < 256" by auto
  have "int c = (int c + 256 * byteval cs) mod 256" using b by simp
  also have "\<dots> = int d" unfolding e using b by simp
  finally show ?case using Cons e by auto
qed simp


section \<open>The loops of the encryption\<close>

lemma reverseString_rev [simp]: "reverseString s = rev s"
proof -
  have "fold (\<lambda>i r. charAt s i @ r) [0..<n] [] = rev (take n s)" if "n \<le> length s" for n
    using that by (induction n) (auto simp: charAt_def take_Suc_snoc)
  from this [of "length s"] show ?thesis by (simp add: reverseString_def)
qed

lemma mod_less_step: "0 < k \<Longrightarrow> n mod k \<noteq> 0 \<Longrightarrow> Suc n mod k = 0 \<or> Suc n mod k = Suc (n mod k)"
  by (metis mod_Suc)

lemma pad_loop_correct:
  assumes "0 < cs"
  shows "\<exists>z. pad_loop cs a = Some (a @ replicate z 0) \<and> z < cs \<and> (length a + z) mod cs = 0"
proof (induction "(cs - length a mod cs) mod cs" arbitrary: a rule: less_induct)
  case less
  show ?case
  proof (cases "length a mod cs = 0")
    case True
    then show ?thesis using assms by (intro exI [of _ 0]) (subst pad_loop.simps, simp)
  next
    case False
    have lt: "length a mod cs < cs" using assms by simp
    have nx: "Suc (length a) mod cs = (if Suc (length a mod cs) = cs then 0 else Suc (length a mod cs))"
      by (simp add: mod_Suc)
    have "(cs - length (a @ [0]) mod cs) mod cs < (cs - length a mod cs) mod cs"
      using nx lt False by (auto split: if_splits)
    from less [OF this] obtain z where z: "pad_loop cs (a @ [0]) = Some ((a @ [0]) @ replicate z 0)" "z < cs"
      "(Suc (length a) + z) mod cs = 0" by auto
    have "pad_loop cs a = Some (a @ replicate (Suc z) 0)"
      using False z(1) by (subst pad_loop.simps) simp
    moreover have "Suc z < cs"
    proof (rule ccontr)
      assume "\<not> Suc z < cs"
      then have "Suc z = cs" using z(2) by simp
      moreover have "Suc (length a) + z = length a + Suc z" by simp
      ultimately have "(length a + cs) mod cs = 0" using z(3) by metis
      with False show False by simp
    qed
    ultimately show ?thesis using z(3) by (intro exI [of _ "Suc z"]) simp
  qed
qed

lemma byteval_take_two:
  assumes "Suc k < length a"
  shows "byteval (take (Suc (Suc k)) a) = byteval (take k a) + 256 ^ k * (int (a ! k) + 256 * int (a ! Suc k))"
proof -
  have "take (Suc (Suc k)) a = take k a @ [a ! k, a ! Suc k]" using assms by (simp add: take_Suc_snoc)
  then show ?thesis using assms by (simp add: byteval_append)
qed

lemma block_of_correct:
  assumes a: "bytes a" "i + 2 * h \<le> length a" "h \<le> N"
  shows "wf_bi N (block_of N (2 * h) a i) \<and> \<not> isNeg (block_of N (2 * h) a i) \<and>
    bival (block_of N (2 * h) a i) = byteval (take (2 * h) (drop i a))"
proof -
  define P where "P = (\<lambda>j ds. length ds = N \<and> all_digits ds \<and> vald ds = byteval (take (2 * j) (drop i a)) \<and>
    (\<forall>k. j \<le> k \<and> k < N \<longrightarrow> ds ! k = Num 0))"
  have "P h (fold (block_step a i) [0..<h] (ZERO_ARRAY N))"
  proof (rule for_invariant [where P = P])
    show "P 0 (ZERO_ARRAY N)" by (simp add: P_def)
    fix j ds assume j: "j < h" and "P j ds"
    then have ds: "length ds = N" "all_digits ds" "vald ds = byteval (take (2 * j) (drop i a))"
      "\<forall>k. j \<le> k \<and> k < N \<longrightarrow> ds ! k = Num 0" by (auto simp: P_def)
    have jN: "j < N" using j assms(3) by simp
    define c0 c1 where "c0 = int (a ! (i + 2 * j))" and "c1 = int (a ! (i + 2 * j + 1))"
    have "i + 2 * j < length a" "i + 2 * j + 1 < length a" using j a(2) by auto
    then have c: "0 \<le> c0" "c0 < 256" "0 \<le> c1" "c1 < 256" using a(1) by (auto simp: c0_def c1_def list_all_length)
    have "js_shl (Num c1) 8 = Num (c1 * 2 ^ 8)" using c by (intro js_shl_small) auto
    then have step: "block_step a i j ds = ds[j := Num (c0 + 256 * c1)]"
      using jN ds(1) by (simp add: block_step_def Let_def c0_def c1_def mult.commute)
    have "vald (ds[j := Num (c0 + 256 * c1)]) = vald ds + (c0 + 256 * c1) * 65536 ^ j"
      using vald_update [of j ds "Num (c0 + 256 * c1)"] jN ds(1,4) by simp
    also have "(65536 :: int) ^ j = 256 ^ (2 * j)" by (simp add: power_mult)
    also have "vald ds + (c0 + 256 * c1) * 256 ^ (2 * j) = byteval (take (Suc (Suc (2 * j))) (drop i a))"
      using byteval_take_two [of "2 * j" "drop i a"] j a(2) by (simp add: ds(3) c0_def c1_def)
    finally have v: "vald (ds[j := Num (c0 + 256 * c1)]) = byteval (take (2 * Suc j) (drop i a))" by simp
    show "P (Suc j) (block_step a i j ds)"
      using ds c v by (auto simp: P_def step intro!: list_all_update)
  qed
  then show ?thesis by (simp add: P_def block_of_def wf_bi_def new_BigInt_def bival_def)
qed

text \<open>Leading zeros are removed; a text of zeros only is never finished.\<close>

lemma char_eq_0_hex: "lower_hex c \<Longrightarrow> char_eq_0 [c] \<longleftrightarrow> c = 48"
  by (auto simp: char_eq_0_def lower_hex_def)

lemma strip_loop_correct:
  assumes "\<forall>c \<in> set s. lower_hex c" "\<exists>c \<in> set s. c \<noteq> 48"
  shows "strip_loop s = Some (dropWhile (\<lambda>c. c = 48) s)"
  using assms
proof (induction s)
  case (Cons c s)
  have "char_eq_0 (charAt (c # s) 0) \<longleftrightarrow> c = 48" using Cons.prems char_eq_0_hex by (simp add: charAt_def)
  then show ?case using Cons by (subst strip_loop.simps) auto
qed simp

lemma strip_loop_zeros:
  assumes "strip_loop s = Some t"
  shows "\<exists>c \<in> set s. c \<noteq> 48"
proof (rule strip_loop.raw_induct [where P = "\<lambda>s t. \<exists>c \<in> set s. c \<noteq> 48", OF _ assms])
  fix f s t
  assume IH: "\<And>s t. f s = Some t \<Longrightarrow> \<exists>c \<in> set s. c \<noteq> 48"
    and step: "(if char_eq_0 (charAt s 0) then f (drop 1 s) else Some s) = Some t"
  show "\<exists>c \<in> set s. c \<noteq> 48"
  proof (cases "char_eq_0 (charAt s 0)")
    case True
    then have "\<exists>c \<in> set (drop 1 s). c \<noteq> 48" using IH step by simp
    then show ?thesis by (meson in_set_dropD)
  next
    case False
    then obtain c s' where "s = c # s'" by (cases s) (auto simp: charAt_def char_eq_0_def)
    with False show ?thesis by (auto simp: charAt_def char_eq_0_def)
  qed
qed

lemma hexval_dropWhile: "hexval (dropWhile (\<lambda>c. c = 48) s) = hexval s"
  by (induction s) (auto simp: numval_Cons charToHex_def)

lemma hexval_zeros: "(\<forall>c \<in> set s. c = 48) \<Longrightarrow> hexval s = 0"
  by (induction s) (auto simp: numval_Cons charToHex_def)

section \<open>A key\<close>

lemma biCopy_same: "biCopy x = x"
  by (simp add: biCopy_def)

definition key_ok :: "nat \<Rightarrow> rsa_key \<Rightarrow> bool" where
  "key_ok N key \<longleftrightarrow>
     mu_ok N (key_barrett key) \<and> modulus (key_barrett key) = key_m key \<and> key_radix key = 16 \<and>
     chunkSize key = 2 * (bk (key_barrett key) - 1) \<and> 1 < bk (key_barrett key) \<and>
     wf_bi N (key_e key) \<and> \<not> isNeg (key_e key) \<and> wf_bi N (key_d key) \<and> \<not> isNeg (key_d key)"

lemma key_okD:
  assumes "key_ok N key"
  obtains h where "chunkSize key = 2 * h" "0 < h" "2 * h + 4 \<le> N" "65536 ^ h < bival (key_m key)"
    "bival (key_m key) < 65536 ^ Suc h" "mu_ok N (key_barrett key)" "modulus (key_barrett key) = key_m key"
proof -
  let ?h = "bk (key_barrett key) - 1"
  have "Suc ?h = bk (key_barrett key)" using assms by (simp add: key_ok_def)
  then show thesis using assms by (intro that [of ?h]) (auto simp: key_ok_def mu_ok_def Let_def)
qed

theorem RSAKeyPair_correct:
  assumes hex: "\<forall>c \<in> set ee. is_hex c" "\<forall>c \<in> set dd. is_hex c" "\<forall>c \<in> set mm. is_hex c"
    and len: "length ee \<le> 4 * N" "length dd \<le> 4 * N" "length mm \<le> 4 * N"
    and m: "65536 ^ h < hexval mm" "hexval mm < 65536 ^ Suc h" "0 < h" "2 * h + 4 \<le> N"
  shows "\<exists>key. RSAKeyPair N ee dd mm = Some key \<and> key_ok N key \<and> chunkSize key = 2 * h \<and>
    bival (key_e key) = hexval ee \<and> bival (key_d key) = hexval dd \<and> bival (key_m key) = hexval mm"
proof -
  let ?m = "biFromHex N mm"
  note e = biFromHex_correct [OF hex(1) len(1)] and d = biFromHex_correct [OF hex(2) len(2)]
    and b = biFromHex_correct [OF hex(3) len(3)]
  have N: "0 < N" using m(4) by simp
  have pos: "0 \<le> hexval mm" by (rule numval_nonneg) simp
  have "biHighIndex ?m \<le> h" using biHighIndex_le [OF b(1) N, of h] m(2) pos by (simp add: b(2))
  moreover have "h \<le> biHighIndex ?m" using biHighIndex_ge [OF b(1) N, of h] m(1) pos by (simp add: b(2))
  ultimately have hi: "biHighIndex ?m = h" by simp
  obtain br where br: "BarrettMu N ?m = Some br" "mu_ok N br" "modulus br = ?m" "bk br = Suc h"
  proof -
    obtain br where br: "BarrettMu N ?m = Some br" "mu_ok N br" "modulus br = ?m"
      using BarrettMu_correct [OF b(1,3)] m(1,4) by (auto simp: hi b(2))
    moreover have "bk br = Suc h"
      using br(1) by (auto simp: BarrettMu_def Let_def biCopy_same hi split: Option.bind_splits)
    ultimately show thesis by (rule that)
  qed
  then show ?thesis using e d b m(3) by (auto simp: RSAKeyPair_def Let_def key_ok_def hi)
qed


section \<open>Encryption\<close>

text \<open>The specification: blocks of \<open>cs\<close> bytes, each raised to the public exponent.\<close>

fun chunks :: "nat \<Rightarrow> nat list \<Rightarrow> nat list list" where
  "chunks cs a = (if cs = 0 \<or> a = [] then [] else take cs a # chunks cs (drop cs a))"

declare chunks.simps [simp del]

definition cipher :: "rsa_key \<Rightarrow> int \<Rightarrow> int" where
  "cipher key x = x ^ nat (bival (key_e key)) mod bival (key_m key)"

definition decipher :: "rsa_key \<Rightarrow> int \<Rightarrow> int" where
  "decipher key x = x ^ nat (bival (key_d key)) mod bival (key_m key)"

definition cipher_word :: "nat \<Rightarrow> jsstr \<Rightarrow> bool" where
  "cipher_word N t \<longleftrightarrow> t \<noteq> [] \<and> hd t \<noteq> 48 \<and> length t \<le> 4 * N \<and> (\<forall>c \<in> set t. lower_hex c)"

lemma key_barrett_ok:
  assumes "key_ok N key" "wf_bi N x" "\<not> isNeg x" "bival x < bival (key_m key)"
  shows "barrett_ok N (key_barrett key) x"
  using assms by (auto simp: key_ok_def barrett_ok_def)

lemma key_m_gt_1:
  assumes "key_ok N key"
  shows "1 < bival (key_m key)"
proof -
  obtain h where "65536 ^ h < bival (key_m key)" using key_okD [OF assms] by metis
  moreover have "(1 :: int) \<le> 65536 ^ h" by (rule one_le_power) simp
  ultimately show ?thesis by linarith
qed

lemma cipher_correct:
  assumes k: "key_ok N key" and x: "wf_bi N x" "\<not> isNeg x" "bival x < bival (key_m key)"
  shows "\<exists>c. BarrettMu_powMod N (key_barrett key) x (key_e key) = Some c \<and> wf_bi N c \<and> \<not> isNeg c \<and>
    bival c = cipher key (bival x)"
    "\<exists>c. BarrettMu_powMod N (key_barrett key) x (key_d key) = Some c \<and> wf_bi N c \<and> \<not> isNeg c \<and>
    bival c = decipher key (bival x)"
  using BarrettMu_powMod_correct [OF key_barrett_ok [OF k x]] key_m_gt_1 [OF k] k
  by (auto simp: key_ok_def barrett_ok_def cipher_def decipher_def)

lemma crypt_text_correct:
  assumes k: "key_ok N key" and x: "wf_bi N x" "\<not> isNeg x" "bival x < bival (key_m key)"
    and nz: "cipher key (bival x) \<noteq> 0"
  shows "\<exists>t. crypt_text N key x = Some t \<and> cipher_word N t \<and> hexval t = cipher key (bival x)"
proof -
  obtain c where c: "BarrettMu_powMod N (key_barrett key) x (key_e key) = Some c" "wf_bi N c" "\<not> isNeg c"
    "bival c = cipher key (bival x)" using cipher_correct(1) [OF k x] by blast
  have N: "0 < N" using k by (auto simp: key_ok_def mu_ok_def Let_def)
  note h = biToHex_correct [OF c(2) N]
  have v: "hexval (biToHex c) = cipher key (bival x)" using h(1) c(3,4) bival_nonneg [OF c(3,2)] by simp
  have ex: "\<exists>d \<in> set (biToHex c). d \<noteq> 48" using hexval_zeros v nz by fastforce
  let ?t = "dropWhile (\<lambda>c. c = 48) (biToHex c)"
  have "length ?t \<le> 4 * N"
    using length_dropWhile_le [of "\<lambda>c. c = 48" "biToHex c"] h(2) biHighIndex_less [OF c(2) N] by simp
  moreover have "?t \<noteq> []" "hd ?t \<noteq> 48"
    using ex hd_dropWhile [of "\<lambda>c. c = 48" "biToHex c"] by (auto simp: dropWhile_eq_Nil_conv)
  moreover have "crypt_text N key x = Some ?t"
    using c(1) k strip_loop_correct [OF h(3) ex] by (simp add: crypt_text_def key_ok_def)
  ultimately show ?thesis
    using v h(3) by (intro exI [of _ ?t]) (auto simp: cipher_word_def hexval_dropWhile dest: set_dropWhileD)
qed

text \<open>A block whose power is 0 is never finished: its text is all zeros.\<close>

lemma crypt_text_hangs:
  assumes k: "key_ok N key" and x: "wf_bi N x" "\<not> isNeg x" "bival x < bival (key_m key)"
    and z: "cipher key (bival x) = 0"
  shows "crypt_text N key x = None"
proof -
  obtain c where c: "BarrettMu_powMod N (key_barrett key) x (key_e key) = Some c" "wf_bi N c" "\<not> isNeg c"
    "bival c = cipher key (bival x)" using cipher_correct(1) [OF k x] by blast
  have N: "0 < N" using k by (auto simp: key_ok_def mu_ok_def Let_def)
  have v0: "vald (digits c) = 0" using c(3,4) z by (simp add: bival_def)
  have "hexval (biToHex c) = 0" using biToHex_correct(1) [OF c(2) N] c(4) z by simp
  have "\<forall>d \<in> set (biToHex c). d = 48"
  proof
    fix d assume d: "d \<in> set (biToHex c)"
    then obtain u w where uw: "biToHex c = u @ d # w" by (meson split_list)
    have "0 = hexval u * 16 ^ Suc (length w) + charToHex d * 16 ^ length w + hexval w"
      using \<open>hexval (biToHex c) = 0\<close> unfolding uw by (simp add: numval_append numval_Cons algebra_simps)
    moreover have "0 \<le> hexval u * 16 ^ Suc (length w)" "0 \<le> hexval w" "0 \<le> charToHex d * 16 ^ length w"
      using charToHex_bounds(1) [of d] by (auto simp: numval_nonneg)
    ultimately have "charToHex d * 16 ^ length w = 0" by linarith
    then have "charToHex d = 0" by simp
    then show "d = 48" using biToHex_correct(3) [OF c(2) N] d by (auto simp: lower_hex_def charToHex_def split: if_splits)
  qed
  then have "strip_loop (biToHex c) = None" using strip_loop_zeros by (cases "strip_loop (biToHex c)") fastforce+
  then show ?thesis using c(1) k by (simp add: crypt_text_def key_ok_def)
qed

lemma block_bound:
  assumes "bytes w" "length w = 2 * h" "65536 ^ h < m"
  shows "byteval w < (m :: int)"
proof -
  have "byteval w < 256 ^ (2 * h)" using byteval_less [OF assms(1)] assms(2) by simp
  also have "(256 :: int) ^ (2 * h) = 65536 ^ h" by (simp add: power_mult)
  finally show ?thesis using assms(3) by simp
qed

lemma encrypt_loop_correct:
  assumes k: "key_ok N key" and a: "bytes a" and i: "i \<le> length a" "(length a - i) mod chunkSize key = 0"
    and nz: "\<forall>w \<in> set (chunks (chunkSize key) (drop i a)). cipher key (byteval w) \<noteq> 0"
  shows "\<exists>ts. encrypt_loop N key a i result = Some (result @ concat (map (\<lambda>t. t @ [32]) ts)) \<and>
    map hexval ts = map (\<lambda>w. cipher key (byteval w)) (chunks (chunkSize key) (drop i a)) \<and>
    (\<forall>t \<in> set ts. cipher_word N t)"
  using i nz
proof (induction "length a - i" arbitrary: i result rule: less_induct)
  case less
  obtain h where h: "chunkSize key = 2 * h" "0 < h" "2 * h + 4 \<le> N" "65536 ^ h < bival (key_m key)"
    using key_okD [OF k] by metis
  show ?case
  proof (cases "i < length a")
    case False
    then have "drop i a = []" by simp
    then show ?thesis using False by (intro exI [of _ "[]"]) (subst encrypt_loop.simps, simp add: chunks.simps)
  next
    case True
    have fits: "i + 2 * h \<le> length a"
    proof (rule ccontr)
      assume "\<not> ?thesis"
      then have "(length a - i) mod (2 * h) = length a - i" using True by (intro mod_less) linarith
      with True less.prems(2) h(1) show False by simp
    qed
    have hN: "h \<le> N" using h(3) by simp
    let ?w = "take (2 * h) (drop i a)" and ?x = "block_of N (2 * h) a i"
    have ch: "chunks (2 * h) (drop i a) = ?w # chunks (2 * h) (drop (i + 2 * h) a)"
      using True h(2) by (subst chunks.simps) (simp add: add.commute)
    note x = block_of_correct [OF a fits hN]
    have w: "bytes ?w" "length ?w = 2 * h"
      using a fits by (auto simp: list_all_iff dest!: in_set_takeD in_set_dropD)
    have "bival ?x < bival (key_m key)" using x block_bound [OF w h(4)] by simp
    moreover have "cipher key (bival ?x) \<noteq> 0" using less.prems(3) x by (simp add: h(1) ch)
    ultimately obtain t where t: "crypt_text N key ?x = Some t" "cipher_word N t" "hexval t = cipher key (bival ?x)"
      using crypt_text_correct [OF k] x by blast
    have "length a - i = (length a - (i + 2 * h)) + 2 * h" using fits by simp
    then have md: "(length a - (i + 2 * h)) mod chunkSize key = 0" using less.prems(2) h(1) by simp
    have "length a - (i + 2 * h) < length a - i" using True h(2) by simp
    moreover have "\<forall>w \<in> set (chunks (chunkSize key) (drop (i + 2 * h) a)). cipher key (byteval w) \<noteq> 0"
      using less.prems(3) by (simp add: h(1) ch)
    ultimately obtain ts where ts: "encrypt_loop N key a (i + 2 * h) (result @ t @ [32]) =
        Some ((result @ t @ [32]) @ concat (map (\<lambda>t. t @ [32]) ts))"
      "map hexval ts = map (\<lambda>w. cipher key (byteval w)) (chunks (chunkSize key) (drop (i + 2 * h) a))"
      "\<forall>t \<in> set ts. cipher_word N t"
      using less.hyps [OF _ fits md, of "result @ t @ [32]"] by blast
    have "encrypt_loop N key a i result = Some (result @ concat (map (\<lambda>t. t @ [32]) (t # ts)))"
      using True t(1) ts(1) h(1) by (subst encrypt_loop.simps) simp
    then show ?thesis
      using ts(2,3) t(2,3) x by (intro exI [of _ "t # ts"]) (simp add: h(1) ch)
  qed
qed


text \<open>The bytes of a password and their blocks, as the code forms them.\<close>

definition padding :: "nat \<Rightarrow> nat \<Rightarrow> nat" where
  "padding cs n = (cs - n mod cs) mod cs"

definition blocks :: "rsa_key \<Rightarrow> jsstr \<Rightarrow> nat list list" where
  "blocks key s = chunks (chunkSize key) (rev s @ replicate (padding (chunkSize key) (length s)) 0)"

lemma padding_unique:
  assumes "0 < cs" "z < cs" "(n + z) mod cs = 0"
  shows "z = padding cs n"
proof (cases "n mod cs = 0")
  case True
  then have "z mod cs = 0" using assms(3) by (metis add_0 mod_add_left_eq)
  with assms(1,2) True show ?thesis by (simp add: padding_def)
next
  case False
  have r: "n mod cs < cs" using assms(1) by simp
  have m: "(n mod cs + z) mod cs = 0" using assms(3) by (metis mod_add_left_eq)
  have "cs \<le> n mod cs + z"
  proof (rule ccontr)
    assume "\<not> cs \<le> n mod cs + z"
    then have "(n mod cs + z) mod cs = n mod cs + z" by simp
    with m False show False by simp
  qed
  moreover have "(n mod cs + z - cs) mod cs = 0" using m calculation by (metis le_mod_geq)
  moreover have "n mod cs + z - cs < cs" using r assms(2) by linarith
  ultimately have "n mod cs + z = cs" by simp
  then have e: "z = cs - n mod cs" by linarith
  have "cs - n mod cs < cs" using False r by linarith
  then show ?thesis unfolding padding_def e by (simp only: mod_less)
qed

lemma pad_loop_padding:
  assumes "0 < cs"
  shows "pad_loop cs a = Some (a @ replicate (padding cs (length a)) 0)"
    "padding cs (length a) < cs" "(length a + padding cs (length a)) mod cs = 0"
proof -
  obtain z where z: "pad_loop cs a = Some (a @ replicate z 0)" "z < cs" "(length a + z) mod cs = 0"
    using pad_loop_correct [OF assms, of a] by (elim exE conjE)
  have zp: "padding cs (length a) = z" using padding_unique [OF assms z(2,3)] by (rule sym)
  show "pad_loop cs a = Some (a @ replicate (padding cs (length a)) 0)"
    "padding cs (length a) < cs" "(length a + padding cs (length a)) mod cs = 0"
    unfolding zp by (fact z)+
qed

lemma join_words:
  assumes "ts \<noteq> []"
  shows "concat (map (\<lambda>t. t @ [c]) ts) = join_with [c] ts @ [c]"
  using assms
proof (induction ts)
  case (Cons t ts)
  then show ?case by (cases "ts = []") (auto simp: join_with_Cons)
qed simp

lemma substring_butlast: "substring (s @ [c]) 0 (int (length (s @ [c])) - 1) = s"
  by (simp add: substring_def)

lemma cipher_word_no_space: "cipher_word N t \<Longrightarrow> 32 \<notin> set t"
  by (auto simp: cipher_word_def lower_hex_def)

theorem encryptedString_words:
  assumes k: "key_ok N key" and s: "bytes s"
    and nz: "\<forall>w \<in> set (blocks key s). cipher key (byteval w) \<noteq> 0"
  shows "\<exists>ts. encryptedString N key s = Some (join_with [32] ts) \<and>
    map hexval ts = map (\<lambda>w. cipher key (byteval w)) (blocks key s) \<and> (\<forall>t \<in> set ts. cipher_word N t)"
proof -
  let ?cs = "chunkSize key" and ?a = "rev s @ replicate (padding (chunkSize key) (length s)) 0"
  have cs: "0 < ?cs" using k by (auto simp: key_ok_def)
  have pad: "pad_loop ?cs (rev s) = Some ?a" "length ?a mod ?cs = 0"
    using pad_loop_padding [OF cs, of "rev s"] by simp_all
  have "bytes ?a" using s by (auto simp: list_all_iff)
  then obtain ts where ts: "encrypt_loop N key ?a 0 [] = Some (concat (map (\<lambda>t. t @ [32]) ts))"
    "map hexval ts = map (\<lambda>w. cipher key (byteval w)) (blocks key s)" "\<forall>t \<in> set ts. cipher_word N t"
    using encrypt_loop_correct [OF k, of ?a 0 "[]"] pad(2) nz by (auto simp: blocks_def)
  have "encryptedString N key s = Some (join_with [32] ts)"
  proof (cases "ts = []")
    case True
    then show ?thesis using pad(1) ts(1) by (simp add: encryptedString_def substring_def)
  next
    case False
    then show ?thesis
      using pad(1) ts(1) by (simp add: encryptedString_def join_words substring_butlast del: length_append)
  qed
  with ts show ?thesis by blast
qed

section \<open>Decryption\<close>

lemma fromCharCode_digit:
  assumes "0 \<le> v" "v < 65536"
  shows "fromCharCode (js_and (Num v) (Num 255)) = nat (v mod 256)"
    "fromCharCode (js_shr (Num v) 8) = nat (v div 256)"
proof -
  have "js_and (Num v) (Num 255) = Num (v mod 256)" using js_and_low [of 8 v] by simp
  then show "fromCharCode (js_and (Num v) (Num 255)) = nat (v mod 256)" by (simp add: fromCharCode_def)
  have "v div 256 < 256" "0 \<le> v div 256" using assms by auto
  then show "fromCharCode (js_shr (Num v) 8) = nat (v div 256)"
    using assms by (simp add: js_shr_def to_int32_id fromCharCode_def)
qed

lemma block_chars_correct:
  assumes x: "wf_bi N x" "\<not> isNeg x" "0 < N"
  shows "bytes (block_chars x)" "length (block_chars x) = 2 * Suc (biHighIndex x)"
    "byteval (block_chars x) = bival x"
proof -
  let ?n = "Suc (biHighIndex x)"
  have d: "all_digits (digits x)" "?n \<le> length (digits x)" using biHighIndex_less [OF x(1,3)] x(1) by auto
  define P where "P = (\<lambda>j r. bytes r \<and> length r = 2 * j \<and> byteval r = vald (take j (digits x)))"
  have "P ?n (block_chars x)"
    unfolding block_chars_def
  proof (rule for_invariant [where P = P])
    show "P 0 []" by (simp add: P_def)
    fix j r assume j: "j < ?n" and r: "P j r"
    have jl: "j < length (digits x)" using j d(2) by simp
    obtain v where v: "digits x ! j = Num v" "0 \<le> v" "v < 65536" using digit_obtain [OF d(1) jl] .
    have b: "nat (v mod 256) < 256" "nat (v div 256) < 256" "0 \<le> v mod 256" "0 \<le> v div 256" using v by auto
    have "byteval [nat (v mod 256), nat (v div 256)] = v" using b(3,4) by simp
    moreover have "(256 :: int) ^ (2 * j) = 65536 ^ j" by (simp add: power_mult)
    ultimately have "byteval (r @ [nat (v mod 256), nat (v div 256)]) = vald (take (Suc j) (digits x))"
      using r vald_take_Suc [OF jl] v(1) by (simp only: byteval_append P_def dval.simps mult.commute [of v])
    then show "P (Suc j) (r @ [fromCharCode (js_and (rd (digits x) (int j)) (Num 255)),
        fromCharCode (js_shr (rd (digits x) (int j)) 8)])"
      using r b by (simp add: P_def rd_nth [OF jl] v(1) fromCharCode_digit [OF v(2,3)])
  qed
  then show "bytes (block_chars x)" "length (block_chars x) = 2 * ?n" "byteval (block_chars x) = bival x"
    using vald_take_high [OF x(1,3)] x(2) by (simp_all add: P_def bival_def)
qed

text \<open>
  A block of bytes \<open>u\<close> that do not end in 0, followed by padding, comes back as \<open>u\<close> filled up to
  an even length.
\<close>

lemma block_chars_word:
  assumes x: "wf_bi N x" "\<not> isNeg x" "0 < N" and u: "bytes u" "u \<noteq> []" "last u \<noteq> 0" "bival x = byteval u"
  shows "block_chars x = u @ (if odd (length u) then [0] else [])"
proof -
  define n where "n = (length u + 1) div 2"
  have n: "0 < n" "2 * n = length u + (if odd (length u) then 1 else 0)"
    using u(2) by (cases u; auto simp: n_def elim!: oddE evenE)+
  have "bival x < 256 ^ length u" using byteval_less [OF u(1)] u(4) by simp
  also have "(256 :: int) ^ length u \<le> 256 ^ (2 * n)" using n(2) by (intro power_increasing) auto
  also have "\<dots> = 65536 ^ Suc (n - 1)" using n(1) by (simp add: power_mult)
  finally have "biHighIndex x \<le> n - 1" using biHighIndex_le [OF x(1,3)] bival_nonneg [OF x(2,1)] by simp
  moreover have "n - 1 \<le> biHighIndex x"
  proof -
    have "2 * (n - 1) \<le> length u - 1" using n by (auto split: if_splits)
    then have "(256 :: int) ^ (2 * (n - 1)) \<le> 256 ^ (length u - 1)" by (intro power_increasing) auto
    also have "\<dots> \<le> bival x" using byteval_ge [OF u(2,3)] u(4) by simp
    finally show ?thesis using biHighIndex_ge [OF x(1,3)] by (simp add: power_mult)
  qed
  ultimately have h: "Suc (biHighIndex x) = n" using n(1) by simp
  note b = block_chars_correct [OF x]
  show ?thesis
    by (rule byteval_inj) (use b u h n in \<open>auto simp: byteval_append\<close>)
qed


section \<open>Decryption undoes encryption\<close>

text \<open>The contract between the two exponents of a key.\<close>

definition key_pair :: "rsa_key \<Rightarrow> bool" where
  "key_pair key \<longleftrightarrow> (\<forall>x. 0 \<le> x \<and> x < bival (key_m key) \<longrightarrow> decipher key (cipher key x) = x)"

lemma cipher_nonzero:
  assumes "key_pair key" "0 < x" "x < bival (key_m key)"
  shows "cipher key x \<noteq> 0"
proof
  assume z: "cipher key x = 0"
  have d: "decipher key (cipher key 0) = 0" "decipher key (cipher key x) = x"
    using assms by (auto simp: key_pair_def)
  show False
  proof (cases "nat (bival (key_e key)) = 0")
    case True
    then have "cipher key x = 1 mod bival (key_m key)" by (simp add: cipher_def)
    also have "\<dots> = 1" using assms(2,3) by (intro mod_pos_pos_trivial) auto
    finally show False using z by simp
  next
    case False
    then have "cipher key 0 = 0" by (simp add: cipher_def zero_power)
    with z d assms(2) show False by simp
  qed
qed

lemma cipher_range:
  assumes "0 < bival (key_m key)"
  shows "0 \<le> cipher key x" "cipher key x < bival (key_m key)"
  using assms by (auto simp: cipher_def)

lemma read_word:
  assumes k: "key_ok N key" "key_pair key" and t: "cipher_word N t" "hexval t = cipher key x"
    and x: "0 \<le> x" "x < bival (key_m key)"
  shows "\<exists>b. BarrettMu_powMod N (key_barrett key) (biFromHex N t) (key_d key) = Some b \<and>
    wf_bi N b \<and> \<not> isNeg b \<and> bival b = x"
proof -
  have h: "\<forall>c \<in> set t. is_hex c" "length t \<le> 4 * N"
    using t(1) lower_hex_is_hex by (auto simp: cipher_word_def)
  note b = biFromHex_correct [OF h]
  have "bival (biFromHex N t) < bival (key_m key)"
    using b(2) t(2) cipher_range(2) x by simp
  from cipher_correct(2) [OF k(1) b(1,3) this] show ?thesis
    using b(2) t(2) k(2) x by (auto simp: key_pair_def)
qed

lemma decrypt_step:
  assumes k: "key_ok N key" "key_pair key" and t: "cipher_word N t" "hexval t = cipher key (byteval (u @ replicate z 0))"
    and u: "bytes u" "u \<noteq> []" "last u \<noteq> 0" "length u \<le> chunkSize key"
  shows "decrypt_loop N key (t # ts) result =
    decrypt_loop N key ts (result @ u @ (if odd (length u) then [0] else []))"
proof -
  obtain h where h: "chunkSize key = 2 * h" "0 < h" "2 * h + 4 \<le> N" "65536 ^ h < bival (key_m key)"
    using key_okD [OF k(1)] by metis
  have v: "byteval (u @ replicate z 0) = byteval u" by (simp add: byteval_append)
  have "byteval u < 256 ^ length u" by (rule byteval_less [OF u(1)])
  also have "(256 :: int) ^ length u \<le> 256 ^ (2 * h)" using u(4) h(1) by (intro power_increasing) auto
  also have "(256 :: int) ^ (2 * h) = 65536 ^ h" by (simp add: power_mult)
  finally have "byteval u < bival (key_m key)" using h(4) by simp
  then obtain b where b: "BarrettMu_powMod N (key_barrett key) (biFromHex N t) (key_d key) = Some b"
    "wf_bi N b" "\<not> isNeg b" "bival b = byteval u"
    using read_word [OF k t(1), of "byteval u"] t(2) byteval_nonneg [of u] v by auto
  have N: "0 < N" using h(3) by simp
  have "block_chars b = u @ (if odd (length u) then [0] else [])"
    by (rule block_chars_word [OF b(2,3) N u(1-3) b(4)])
  then show ?thesis using b(1) k(1) by (simp add: key_ok_def Let_def)
qed

lemma decrypt_loop_correct:
  assumes k: "key_ok N key" "key_pair key"
    and r: "r \<noteq> []" "\<forall>c \<in> set r. 0 < c \<and> c < 256" and z: "z < chunkSize key" "(length r + z) mod chunkSize key = 0"
    and ts: "\<forall>t \<in> set ts. cipher_word N t"
      "map hexval ts = map (\<lambda>w. cipher key (byteval w)) (chunks (chunkSize key) (r @ replicate z 0))"
  shows "decrypt_loop N key ts result = Some (result @ r @ (if odd (length r) then [0] else []))"
  using r z ts
proof (induction "length r" arbitrary: r ts result rule: less_induct)
  case less
  obtain h where h: "chunkSize key = 2 * h" "0 < h" using key_okD [OF k(1)] by metis
  have ch: "chunks (2 * h) (r @ replicate z 0) =
    take (2 * h) (r @ replicate z 0) # chunks (2 * h) (drop (2 * h) (r @ replicate z 0))"
    using less.prems(1) h(2) by (subst chunks.simps) simp
  obtain t ts' where t: "ts = t # ts'" "hexval t = cipher key (byteval (take (2 * h) (r @ replicate z 0)))"
    "map hexval ts' = map (\<lambda>w. cipher key (byteval w)) (chunks (2 * h) (drop (2 * h) (r @ replicate z 0)))"
    using less.prems(6) by (cases ts) (simp_all add: h(1) ch)
  have tw: "cipher_word N t" "\<forall>t \<in> set ts'. cipher_word N t" using less.prems(5) t(1) by auto
  show ?case
  proof (cases "length r \<le> 2 * h")
    case True
    have "length r + z = 2 * h"
    proof -
      have "0 < length r + z" "length r + z < 2 * (2 * h)" using True less.prems(1,3) h by auto
      moreover obtain q where "length r + z = 2 * h * q" using less.prems(4) h(1) by auto
      ultimately have "q = 1" by (cases q rule: nat.exhaust; cases "q - 1") auto
      with \<open>length r + z = 2 * h * q\<close> show ?thesis by simp
    qed
    then have full: "take (2 * h) (r @ replicate z 0) = r @ replicate z 0" "drop (2 * h) (r @ replicate z 0) = []"
      by auto
    have n: "ts' = []" using t(3) unfolding full by (simp add: chunks.simps)
    have "bytes r" "last r \<noteq> 0" using less.prems(1,2) last_in_set [of r] by (auto simp: list_all_iff)
    then have "decrypt_loop N key (t # ts') result =
        decrypt_loop N key ts' (result @ r @ (if odd (length r) then [0] else []))"
      using t(2) less.prems(1) True h(1) unfolding full(1) by (intro decrypt_step [OF k tw(1)]) auto
    then show ?thesis unfolding t(1) n decrypt_loop.simps(1) .
  next
    case False
    let ?u = "take (2 * h) r" and ?r = "drop (2 * h) r"
    have tk: "take (2 * h) (r @ replicate z 0) = ?u" "drop (2 * h) (r @ replicate z 0) = ?r @ replicate z 0"
      using False by auto
    have u: "bytes ?u" "?u \<noteq> []" "last ?u \<noteq> 0" "length ?u = 2 * h"
    proof -
      show "bytes ?u" using less.prems(2) by (auto simp: list_all_iff dest: in_set_takeD)
      show ne: "?u \<noteq> []" "length ?u = 2 * h" using False h(2) by auto
      have "last ?u \<in> set r" using last_in_set [OF ne(1)] by (rule in_set_takeD)
      then show "last ?u \<noteq> 0" using less.prems(2) by auto
    qed
    have rest: "length ?r < length r" "?r \<noteq> []" "\<forall>c \<in> set ?r. 0 < c \<and> c < 256"
      using False h(2) less.prems(2) by (auto dest: in_set_dropD)
    have "length r + z = (length ?r + z) + 2 * h" using False by simp
    then have md: "(length ?r + z) mod chunkSize key = 0" using less.prems(4) h(1) by (metis mod_add_self2)
    have "decrypt_loop N key ts result = decrypt_loop N key ts' (result @ ?u)"
      using decrypt_step [OF k tw(1), of ?u 0 ts' result] t(2) u h(1) by (simp add: t(1) tk)
    also have "\<dots> = Some ((result @ ?u) @ ?r @ (if odd (length ?r) then [0] else []))"
      by (rule less.hyps [OF rest(1-3) less.prems(3) md tw(2)]) (simp only: h(1) t(3) tk(2))
    also have "odd (length ?r) = odd (length r)" using False by simp
    finally show ?thesis by simp
  qed
qed

lemma chunks_length:
  assumes "length a mod cs = 0" "w \<in> set (chunks cs a)"
  shows "length w = cs \<and> set w \<subseteq> set a"
  using assms
proof (induction cs a rule: chunks.induct)
  case (1 cs a)
  show ?case
  proof (cases "cs = 0 \<or> a = []")
    case True
    then show ?thesis using 1(3) by (simp add: chunks.simps)
  next
    case False
    have len: "cs \<le> length a"
    proof (rule ccontr)
      assume "\<not> cs \<le> length a"
      then have "length a mod cs = length a" by simp
      with False 1(2) show False by simp
    qed
    then have md: "length (drop cs a) mod cs = 0" using 1(2) by (metis le_mod_geq length_drop)
    have "w = take cs a \<or> w \<in> set (chunks cs (drop cs a))" using 1(3) False by (subst (asm) chunks.simps) simp
    then show ?thesis using 1(1) [OF False md] len by (auto dest: in_set_takeD in_set_dropD)
  qed
qed

lemma chunks_nonzero:
  assumes "\<forall>c \<in> set r. 0 < c" "z < cs" "(length r + z) mod cs = 0" "w \<in> set (chunks cs (r @ replicate z 0))"
  shows "0 < byteval w"
  using assms
proof (induction "length r" arbitrary: r rule: less_induct)
  case less
  show ?case
  proof (cases r)
    case Nil
    then show ?thesis using less.prems by (simp add: chunks.simps)
  next
    case (Cons c r')
    have cs: "0 < cs" using less.prems(2) by simp
    then obtain k where k: "cs = Suc k" by (cases cs) auto
    have "byteval (take cs (r @ replicate z 0)) = int c + 256 * byteval (take k (r' @ replicate z 0))"
      by (simp add: Cons k)
    then have first: "0 < byteval (take cs (r @ replicate z 0))"
      using less.prems(1) byteval_nonneg [of "take k (r' @ replicate z 0)"] Cons by simp
    have mem: "w = take cs (r @ replicate z 0) \<or> w \<in> set (chunks cs (drop cs (r @ replicate z 0)))"
      using less.prems(4) cs Cons by (subst (asm) chunks.simps) simp
    show ?thesis
    proof (cases "length r + z = cs")
      case True
      then show ?thesis using mem first by (auto simp: chunks.simps)
    next
      case False
      have "cs \<le> length r"
      proof (rule ccontr)
        assume l: "\<not> cs \<le> length r"
        have "length r + z \<noteq> 0" "length r + z < 2 * cs" using Cons l less.prems(2) by auto
        moreover obtain q where q: "length r + z = cs * q" using less.prems(3) by auto
        ultimately have "0 < q" "q < 2" by auto
        then have "q = 1" by simp
        with q False show False by simp
      qed
      then have d: "drop cs (r @ replicate z 0) = drop cs r @ replicate z 0" by simp
      have l: "length (drop cs r) < length r" using cs Cons by simp
      have pos: "\<forall>c \<in> set (drop cs r). 0 < c" using less.prems(1) by (auto dest: in_set_dropD)
      have "length r + z = length (drop cs r) + z + cs" using \<open>cs \<le> length r\<close> by simp
      then have md: "(length (drop cs r) + z) mod cs = 0" using less.prems(3) by (metis mod_add_self2)
      show ?thesis using mem first less.hyps [OF l pos less.prems(2) md] d by auto
    qed
  qed
qed

lemma blocks_bound:
  assumes k: "key_ok N key" and s: "bytes s" and w: "w \<in> set (blocks key s)"
  shows "byteval w < bival (key_m key)"
proof -
  obtain h where h: "chunkSize key = 2 * h" "0 < h" "65536 ^ h < bival (key_m key)" using key_okD [OF k] by metis
  have cs: "0 < chunkSize key" using h by simp
  have "length (rev s @ replicate (padding (chunkSize key) (length s)) 0) mod chunkSize key = 0"
    using pad_loop_padding(3) [OF cs, of s] by simp
  from chunks_length [OF this] w have "length w = 2 * h \<and> set w \<subseteq> set s \<union> {0}"
    by (fastforce simp: blocks_def h(1))
  then have "bytes w" "length w = 2 * h" using s by (auto simp: list_all_iff)
  from block_bound [OF this h(3)] show ?thesis .
qed

text \<open>Every password of characters 1 to 255 is decrypted to itself.\<close>

theorem decrypt_encrypt:
  assumes k: "key_ok N key" "key_pair key" and s: "s \<noteq> []" "\<forall>c \<in> set s. 0 < c \<and> c < 256"
  shows "\<exists>c. encryptedString N key s = Some c \<and> decryptedString N key c = Some s"
proof -
  let ?cs = "chunkSize key" and ?z = "padding (chunkSize key) (length s)"
  have cs: "0 < ?cs" using k by (auto simp: key_ok_def)
  have b: "bytes s" using s by (auto simp: list_all_iff)
  have z: "?z < ?cs" "(length (rev s) + ?z) mod ?cs = 0" using pad_loop_padding(2,3) [OF cs, of s] by simp_all
  have r: "rev s \<noteq> []" "\<forall>c \<in> set (rev s). 0 < c \<and> c < 256" "\<forall>c \<in> set (rev s). 0 < c" using s by auto
  have "\<forall>w \<in> set (blocks key s). cipher key (byteval w) \<noteq> 0"
  proof
    fix w assume w: "w \<in> set (blocks key s)"
    have "0 < byteval w" using chunks_nonzero [OF r(3) z] w by (simp add: blocks_def)
    then show "cipher key (byteval w) \<noteq> 0" using cipher_nonzero [OF k(2) _ blocks_bound [OF k(1) b w]] by simp
  qed
  from encryptedString_words [OF k(1) b this] obtain ts where
    ts: "encryptedString N key s = Some (join_with [32] ts)"
      "map hexval ts = map (\<lambda>w. cipher key (byteval w)) (blocks key s)" "\<forall>t \<in> set ts. cipher_word N t" by blast
  have "blocks key s \<noteq> []" using s(1) cs by (simp add: blocks_def chunks.simps)
  then have ne: "ts \<noteq> []" using ts(2) by auto
  have sp: "split_on 32 (join_with [32] ts) = ts"
    using ts(3) cipher_word_no_space by (intro split_on_join ne) blast
  have dl: "decrypt_loop N key ts [] = Some (rev s @ (if odd (length s) then [0] else []))"
    using decrypt_loop_correct [OF k r(1,2) z ts(3)] ts(2) by (simp add: blocks_def)
  have l: "last (rev s) \<noteq> 0" using r by (metis last_in_set less_irrefl)
  have "decryptedString N key (join_with [32] ts) = Some s"
  proof (cases "odd (length s)")
    case True
    then show ?thesis
      using dl sp substring_butlast [of "rev s" 0] by (simp add: decryptedString_def Let_def)
  next
    case False
    then show ?thesis using dl sp l s(1) by (simp add: decryptedString_def Let_def)
  qed
  with ts(1) show ?thesis by blast
qed

text \<open>Keys made from two primes satisfy the contract.\<close>

lemma rsa_key_pair:
  assumes m: "bival (key_m key) = int (p * q)"
    and ed: "rsa_exponents p q (nat (bival (key_e key))) (nat (bival (key_d key)))"
  shows "key_pair key"
  unfolding key_pair_def
proof (intro allI impI, elim conjE)
  fix x assume x: "0 \<le> x" "x < bival (key_m key)"
  define n where "n = nat x"
  have n1: "x = int n" using x(1) by (simp add: n_def)
  then have "int n < int (p * q)" using x(2) m by simp
  then have n: "x = int n" "n < p * q" using n1 by (simp_all only: of_nat_less_iff)
  have "decipher key (cipher key x) =
      (x ^ nat (bival (key_e key))) ^ nat (bival (key_d key)) mod bival (key_m key)"
    by (simp add: decipher_def cipher_def power_mod)
  also have "\<dots> = int ((n ^ nat (bival (key_e key))) ^ nat (bival (key_d key)) mod (p * q))"
    unfolding n(1) m by (simp only: of_nat_power of_nat_mod)
  also have "\<dots> = x" using rsa_inverse [OF ed, of n] n by simp
  finally show "decipher key (cipher key x) = x" .
qed

end
