(* ===== verification/Rsa_Limits.thy ===== *)
theory Rsa_Limits
  imports Rsa
begin

text \<open>
  What the RSA code does outside the range the correctness theorems cover: passwords with
  characters above 255, keys of one digit, texts that never finish, division of negative numbers
  and by zero, numbers from \<open>2 ^ 31\<close>.
\<close>

section \<open>Characters above 255\<close>

text \<open>
  The two characters of a digit are added as \<open>a[k] + (a[k + 1] << 8)\<close>, so a character above 255
  carries into its neighbour.
\<close>

lemma block_step_cong:
  assumes "\<And>k. k = i + 2 * j \<or> k = i + 2 * j + 1 \<Longrightarrow> a ! k = b ! k"
  shows "block_step a i j ds = block_step b i j ds"
  using assms by (simp add: block_step_def Let_def)

lemma carry_collision:
  assumes h: "0 < h" "h \<le> N" and c: "c < 65280" "d < 65535"
  shows "block_of N (2 * h) ((c + 256) # d # zs) 0 = block_of N (2 * h) (c # Suc d # zs) 0"
proof -
  let ?a = "(c + 256) # d # zs" and ?b = "c # Suc d # zs"
  obtain h' where h': "h = Suc h'" using h(1) by (cases h) auto
  have "js_shl (Num (int d)) 8 = Num (int d * 2 ^ 8)" "js_shl (Num (int (Suc d))) 8 = Num (int (Suc d) * 2 ^ 8)"
    using c by (intro js_shl_small; simp)+
  then have first: "block_step ?a 0 0 (ZERO_ARRAY N) = block_step ?b 0 0 (ZERO_ARRAY N)"
    using h(2) h' wr_update [of 0 "ZERO_ARRAY N"] wr_update [of 0 "(ZERO_ARRAY N)[0 := v]" for v] rd_nth [of 0 "(ZERO_ARRAY N)[0 := v]" for v]
    by (simp add: block_step_def Let_def add.assoc)
  have rest: "fold (block_step ?a 0) [1..<h] ds = fold (block_step ?b 0) [1..<h] ds" for ds
  proof (rule fold_cong [OF refl refl])
    fix j ds assume "j \<in> set [1..<h]"
    then have "0 < j" by simp
    then show "block_step ?a 0 j = block_step ?b 0 j"
      by (intro ext block_step_cong) (auto simp: nth_Cons split: nat.splits)
  qed
  have "[0..<h] = 0 # [1..<h]" using h(1) by (simp add: upt_conv_Cons)
  then have "fold (block_step ?a 0) [0..<h] (ZERO_ARRAY N) = fold (block_step ?b 0) [0..<h] (ZERO_ARRAY N)"
    using first rest by simp
  then show ?thesis by (simp add: block_of_def)
qed

lemma encrypt_collision:
  assumes k: "chunkSize key = 2 * h" "0 < h" "h \<le> N" and c: "c < 65280" "d < 65535"
  shows "encryptedString N key [d, c + 256] = encryptedString N key [Suc d, c]"
proof -
  let ?z = "replicate (padding (2 * h) 2) 0"
  have cs: "0 < 2 * h" using k(2) by simp
  have p: "pad_loop (2 * h) [x, y] = Some (x # y # ?z)" for x y
    using pad_loop_padding(1) [OF cs, of "[x, y]"] by (simp add: numeral_2_eq_2)
  have len: "length (x # y # ?z) = 2 * h" for x y :: nat
  proof (cases "h = 1")
    case False
    then have "2 mod (2 * h) = 2" "(2 * h - 2) mod (2 * h) = 2 * h - 2" using k(2) by auto
    then show ?thesis using k(2) False by (simp add: padding_def)
  qed (simp add: padding_def)
  have "encrypt_loop N key ((c + 256) # d # ?z) 0 [] = encrypt_loop N key (c # Suc d # ?z) 0 []"
  proof -
    have stop: "encrypt_loop N key a (2 * h) r = Some r" if "length a = 2 * h" for a r
      using that by (subst encrypt_loop.simps) simp
    have one: "encrypt_loop N key a 0 [] = Option.bind (crypt_text N key (block_of N (2 * h) a 0)) (\<lambda>t. Some (t @ js '' ''))"
      if "length a = 2 * h" for a
      using that cs by (subst encrypt_loop.simps) (simp add: k(1) stop)
    show ?thesis unfolding one [OF len] carry_collision [OF k(2,3) c] ..
  qed
  then show ?thesis by (simp add: encryptedString_def k(1) p)
qed

section \<open>Loops that do not end\<close>

text \<open>A modulus of one digit has chunk size 0, and then the padding loop never ends.\<close>

lemma pad_loop_zero: "pad_loop 0 a = None"
proof -
  have "(0 :: nat) \<noteq> 0" if "pad_loop 0 a = Some r" for r
  proof (rule pad_loop.raw_induct [where P = "\<lambda>cs a r. cs \<noteq> 0", OF _ that])
    fix f cs a r
    assume "\<And>cs a r. f cs a = Some r \<Longrightarrow> cs \<noteq> 0"
      "(if cs = 0 \<or> length a mod cs \<noteq> 0 then f cs (a @ [0]) else Some a) = Some r"
    then show "cs \<noteq> 0" by (cases "cs = 0") auto
  qed
  then show ?thesis by (cases "pad_loop 0 a") auto
qed

lemma encrypt_chunkSize_zero: "chunkSize key = 0 \<Longrightarrow> encryptedString N key s = None"
  by (simp add: encryptedString_def pad_loop_zero)

text \<open>A block whose power is 0 is never finished.\<close>

lemma encrypt_loop_hangs:
  assumes k: "key_ok N key" and a: "bytes a" and i: "i \<le> length a" "(length a - i) mod chunkSize key = 0"
    and z: "\<exists>w \<in> set (chunks (chunkSize key) (drop i a)). cipher key (byteval w) = 0"
  shows "encrypt_loop N key a i result = None"
  using i z
proof (induction "length a - i" arbitrary: i result rule: less_induct)
  case less
  obtain h where h: "chunkSize key = 2 * h" "0 < h" "2 * h + 4 \<le> N" "65536 ^ h < bival (key_m key)"
    using key_okD [OF k] by metis
  have True: "i < length a" using less.prems by (cases "i < length a") (auto simp: chunks.simps)
  have fits: "i + 2 * h \<le> length a"
  proof (rule ccontr)
    assume "\<not> ?thesis"
    then have "(length a - i) mod (2 * h) = length a - i" using True by (intro mod_less) linarith
    with True less.prems(2) h(1) show False by simp
  qed
  have hN: "h \<le> N" using h(3) by simp
  let ?w = "take (2 * h) (drop i a)" and ?x = "block_of N (2 * h) a i"
  have ch: "chunks (2 * h) (drop i a) = ?w # chunks (2 * h) (drop (i + 2 * h) a)"
    using True h(2) by (subst chunks.simps) (simp add: add.commute)
  note x = block_of_correct [OF a fits hN]
  have w: "bytes ?w" "length ?w = 2 * h"
    using a fits by (auto simp: list_all_iff dest!: in_set_takeD in_set_dropD)
  have lt: "bival ?x < bival (key_m key)" using x block_bound [OF w h(4)] by simp
  show ?case
  proof (cases "cipher key (byteval ?w) = 0")
    case True
    then have "crypt_text N key ?x = None" using crypt_text_hangs [OF k] x lt by simp
    then show ?thesis using \<open>i < length a\<close> h(1) by (subst encrypt_loop.simps) simp
  next
    case False
    have "length a - i = (length a - (i + 2 * h)) + 2 * h" using fits by simp
    then have md: "(length a - (i + 2 * h)) mod chunkSize key = 0" using less.prems(2) h(1) by simp
    have "length a - (i + 2 * h) < length a - i" using \<open>i < length a\<close> h(2) by simp
    moreover have "\<exists>w \<in> set (chunks (chunkSize key) (drop (i + 2 * h) a)). cipher key (byteval w) = 0"
      using less.prems(3) False by (simp add: h(1) ch)
    ultimately have "encrypt_loop N key a (i + 2 * h) r = None" for r
      using less.hyps [OF _ fits md] by blast
    then show ?thesis using \<open>i < length a\<close> h(1) by (subst encrypt_loop.simps) (simp add: bind_eq_None_conv)
  qed
qed

lemma encrypt_hangs:
  assumes k: "key_ok N key" and s: "bytes s" and z: "\<exists>w \<in> set (blocks key s). cipher key (byteval w) = 0"
  shows "encryptedString N key s = None"
proof -
  let ?cs = "chunkSize key" and ?a = "rev s @ replicate (padding (chunkSize key) (length s)) 0"
  have cs: "0 < ?cs" using k by (auto simp: key_ok_def)
  have pad: "pad_loop ?cs (rev s) = Some ?a" "length ?a mod ?cs = 0"
    using pad_loop_padding [OF cs, of "rev s"] by simp_all
  have "bytes ?a" using s by (auto simp: list_all_iff)
  then have "encrypt_loop N key ?a 0 [] = None"
    using encrypt_loop_hangs [OF k, of ?a 0] pad(2) z by (auto simp: blocks_def)
  then show ?thesis using pad(1) by (simp add: encryptedString_def)
qed

text \<open>The empty password is sent as the empty text, which is decrypted to one NUL character.\<close>

lemma decrypt_empty:
  assumes k: "key_ok N key" and d: "0 < bival (key_d key)"
  shows "encryptedString N key [] = Some []" "decryptedString N key [] = Some [0]"
proof -
  have cs: "0 < chunkSize key" using k by (auto simp: key_ok_def)
  have "pad_loop (chunkSize key) [] = Some []"
    using pad_loop_padding(1) [OF cs, of "[]"] by (simp add: padding_def)
  moreover have "encrypt_loop N key [] 0 [] = Some []" by (subst encrypt_loop.simps) simp
  ultimately show "encryptedString N key [] = Some []"
    by (simp add: encryptedString_def substring_def)
  have N: "0 < N" using k by (auto simp: key_ok_def mu_ok_def Let_def)
  have b: "wf_bi N (biFromHex N [])" "bival (biFromHex N []) = 0" "\<not> isNeg (biFromHex N [])"
    using biFromHex_correct [of "[]" N] by auto
  obtain c where c: "BarrettMu_powMod N (key_barrett key) (biFromHex N []) (key_d key) = Some c"
    "wf_bi N c" "\<not> isNeg c" "bival c = decipher key 0"
    using cipher_correct(2) [OF k b(1,3)] b(2) key_m_gt_1 [OF k] by auto
  have z: "bival c = 0" using c(4) d by (simp add: decipher_def zero_power)
  have "biHighIndex c = 0" using biHighIndex_le [OF c(2) N, of 0] z by simp
  moreover have "byteval (replicate (length (block_chars c)) 0) = byteval (block_chars c)"
    using block_chars_correct(3) [OF c(2,3) N] z by simp
  ultimately have "block_chars c = [0, 0]"
    using byteval_inj [of "block_chars c" "[0, 0]"] block_chars_correct [OF c(2,3) N] z by simp
  then show "decryptedString N key [] = Some [0]"
    using c(1) k by (simp add: decryptedString_def key_ok_def substring_def)
qed

section \<open>Division outside its range\<close>

text \<open>Dividing by zero never ends: the divisor is subtracted for ever.\<close>

lemma bi_first_digit_zero:
  assumes "bi_first_digit N b k r qs = Some res" "wf_bi N b" "\<not> isNeg b" "bival b = 0" "wf_bi N r" "\<not> isNeg r"
  shows False
proof -
  have "\<not> (wf_bi N b \<and> \<not> isNeg b \<and> bival b = 0 \<and> wf_bi N r \<and> \<not> isNeg r)"
  proof (rule bi_first_digit.raw_induct [where P = "\<lambda>N b k r qs res.
      \<not> (wf_bi N b \<and> \<not> isNeg b \<and> bival b = 0 \<and> wf_bi N r \<and> \<not> isNeg r)", OF _ assms(1)], intro notI)
    fix f N b k r qs res
    assume IH: "\<And>N b k r qs res. f N b k r qs = Some res \<Longrightarrow>
        \<not> (wf_bi N b \<and> \<not> isNeg b \<and> bival b = 0 \<and> wf_bi N r \<and> \<not> isNeg r)"
      and step: "(if biCompare r b \<noteq> - 1 then f N b k (biSubtract N r b) (wr qs (int k) (js_add (rd qs (int k)) (Num 1)))
          else Some (r, qs)) = Some res"
      and h: "wf_bi N b \<and> \<not> isNeg b \<and> bival b = 0 \<and> wf_bi N r \<and> \<not> isNeg r"
    have "0 \<le> bival r" using h bival_nonneg by blast
    then have "biCompare r b \<noteq> - 1" using biCompare_correct [of N r b] h by simp
    moreover have "wf_bi N (biSubtract N r b) \<and> \<not> isNeg (biSubtract N r b)"
      using biSubtract_nonneg [of N r b] h \<open>0 \<le> bival r\<close> by auto
    moreover from calculation(1) step
    have "f N b k (biSubtract N r b) (wr qs (int k) (js_add (rd qs (int k)) (Num 1))) = Some res" by simp
    ultimately show False using IH h by blast
  qed
  with assms show False by blast
qed

lemma biDivideModulo_zero:
  assumes x: "wf_bi N x" "\<not> isNeg x" and y: "wf_bi N y" "\<not> isNeg y" "bival y = 0" and N: "0 < N"
  shows "biDivideModulo N x y = None"
proof -
  have nb: "biNumBits y = 0" using biNumBits_correct(1) [OF y(1) N] y(2,3) by (simp add: bival_def)
  have "rd (digits y) (top_index 0) = Undef" by (simp add: top_index_def)
  then have norm: "bi_normalize N y 0 0 = Some (y, 0, 0)" by (subst bi_normalize.simps) simp
  let ?r = "biShiftLeft N x 0" and ?b = "\<lambda>k. biMultiplyByRadixPower N y k"
  have r: "wf_bi N ?r" "\<not> isNeg ?r" using biShiftLeft_correct [OF x(1) N, of 0] x(2) by auto
  have b: "wf_bi N (?b k)" "bival (?b k) = 0" "\<not> isNeg (?b k)" for k
    using biMultiplyByRadixPower_correct [OF y(1,2), of k] y(3) by auto
  have "bi_first_digit N (?b k) k ?r qs = None" for k qs
    using bi_first_digit_zero [OF _ b(1,3,2) r] by (cases "bi_first_digit N (?b k) k ?r qs") auto
  then show ?thesis by (simp add: biDivideModulo_def nb norm Let_def)
qed

text \<open>
  A negative dividend that is not smaller than the divisor: the loops for a remainder that is not
  negative are entered with a negative one, and \<open>-7\<close> divided by \<open>2\<close> is \<open>-3\<close> remainder \<open>13\<close>.
\<close>

lemma biDivideModulo_negative:
  "map_option (\<lambda>(q, r). (bival q, bival r)) (biDivideModulo 2 (biFromNumber 2 (-7)) (biFromNumber 2 2)) = Some (-3, 13)"
  by code_simp

text \<open>And one that is smaller is returned with the quotient \<open>-1\<close>, which \<open>biToDecimal\<close> prints as \<open>-3\<close>.\<close>

lemma biToDecimal_negative: "biToDecimal 2 (biFromNumber 2 (-7)) = Some (js ''-3'')"
  by code_simp

end
