(* ===== verification/Js_Float.thy ===== *)
theory Js_Float
  imports Complex_Main Js_Text
begin

text \<open>
  Numbers of the language with a fraction: \<open>NaN\<close>, the infinities and the finite doubles, held as
  the rational they are (the two zeros are one). \<open>round64\<close> is the rounding of every operation,
  to nearest, ties to even. \<open>StringToNumber\<close>, \<open>parseFloat\<close>, \<open>String(x)\<close> and \<open>toFixed\<close> are those
  of the language.
\<close>

datatype jsf = FNaN | FInf bool | Fin rat

section \<open>Rounding\<close>

fun bit_len :: "nat \<Rightarrow> nat" where
  "bit_len n = (if n = 0 then 0 else Suc (bit_len (n div 2)))"

declare bit_len.simps [simp del]

definition pow2 :: "int \<Rightarrow> rat" where
  "pow2 k = (if 0 \<le> k then 2 ^ nat k else 1 / 2 ^ nat (- k))"

text \<open>The exponent \<open>e\<close> with \<open>2 ^ e \<le> x < 2 ^ (e + 1)\<close>.\<close>

definition exponent2 :: "rat \<Rightarrow> int" where
  "exponent2 x =
     (let (a, b) = quotient_of x; e = int (bit_len (nat a)) - int (bit_len (nat b))
      in if pow2 e \<le> x then e else e - 1)"

definition round_even :: "rat \<Rightarrow> int" where
  "round_even q =
     (let n = \<lfloor>q\<rfloor>; d = q - of_int n
      in if d < 1 / 2 then n else if 1 / 2 < d then n + 1 else if even n then n else n + 1)"

definition round_pos :: "rat \<Rightarrow> rat" where
  "round_pos x = (let u = pow2 (max (exponent2 x) (- 1022) - 52) in of_int (round_even (x / u)) * u)"

definition round64 :: "rat \<Rightarrow> jsf" where
  "round64 x =
     (if x = 0 then Fin 0
      else let r = round_pos \<bar>x\<bar> in
        if 2 ^ 1024 \<le> r then FInf (x < 0) else Fin (if x < 0 then - r else r))"

section \<open>Exact integers\<close>

lemma pow2_pos [simp]: "0 < pow2 k"
  by (simp add: pow2_def)

lemma pow2_nat: "pow2 (int n) = 2 ^ n"
  by (simp add: pow2_def)

lemma pow2_add: "pow2 (a + b) = pow2 a * pow2 b"
proof -
  have "pow2 k = 2 powi k" for k
    by (simp add: pow2_def power_int_def power_one_over)
  then show ?thesis by (simp add: power_int_add)
qed

lemma pow2_mono: "a \<le> b \<Longrightarrow> pow2 a \<le> pow2 b"
proof -
  assume "a \<le> b"
  then have e: "pow2 b = pow2 a * 2 ^ nat (b - a)"
    using pow2_add [of a "b - a"] by (simp add: pow2_def)
  have "(1 :: rat) \<le> 2 ^ nat (b - a)" by (rule one_le_power) simp
  then have "pow2 a * 1 \<le> pow2 a * 2 ^ nat (b - a)" by (intro mult_left_mono) (simp_all add: less_imp_le)
  with e show ?thesis by simp
qed

lemma bit_len_bounds: "0 < n \<Longrightarrow> 2 ^ (bit_len n - 1) \<le> n \<and> n < 2 ^ bit_len n \<and> 0 < bit_len n"
proof (induction n rule: bit_len.induct)
  case (1 n)
  show ?case
  proof (cases "n = 1")
    case True
    then show ?thesis by (simp add: bit_len.simps)
  next
    case False
    with 1 have IH: "2 ^ (bit_len (n div 2) - 1) \<le> n div 2" "n div 2 < 2 ^ bit_len (n div 2)" "0 < bit_len (n div 2)"
      by auto
    have e: "bit_len n = Suc (bit_len (n div 2))" using 1(2) by (simp add: bit_len.simps)
    obtain k where k: "bit_len (n div 2) = Suc k" using IH(3) by (cases "bit_len (n div 2)") auto
    have "2 ^ Suc k \<le> n" "n < 2 ^ Suc (Suc k)" using IH(1,2) unfolding k by simp_all
    then show ?thesis unfolding e k by simp
  qed
qed

lemma exponent2_correct:
  assumes "0 < x"
  shows "pow2 (exponent2 x) \<le> x" "x < pow2 (exponent2 x + 1)"
proof -
  obtain a b where q: "quotient_of x = (a, b)" by (cases "quotient_of x")
  have b: "0 < b" and x: "x = of_int a / of_int b" using q quotient_of_denom_pos quotient_of_div by auto
  have a: "0 < a" using assms b by (simp add: x zero_less_divide_iff)
  define m n where "m = bit_len (nat a)" and "n = bit_len (nat b)"
  define e where "e = int m - int n"
  have am: "2 ^ (m - 1) \<le> nat a" "nat a < 2 ^ m" "0 < m" using bit_len_bounds [of "nat a"] a by (auto simp: m_def)
  have bn: "2 ^ (n - 1) \<le> nat b" "nat b < 2 ^ n" "0 < n" using bit_len_bounds [of "nat b"] b by (auto simp: n_def)
  have ra: "pow2 (int m - 1) \<le> of_int a" "of_int a < pow2 (int m)"
  proof -
    have "(of_nat (2 ^ (m - 1)) :: rat) \<le> of_nat (nat a)" using am(1) of_nat_le_iff by blast
    then have le: "2 ^ (m - 1) \<le> (of_int a :: rat)" using a by simp
    have e: "int m - 1 = int (m - 1)" using am(3) by simp
    show "pow2 (int m - 1) \<le> of_int a" unfolding e pow2_nat by (rule le)
    have "(of_nat (nat a) :: rat) < of_nat (2 ^ m)" using am(2) of_nat_less_iff by blast
    then show "of_int a < pow2 (int m)" using a by (simp add: pow2_nat)
  qed
  have rb: "pow2 (int n - 1) \<le> of_int b" "of_int b < pow2 (int n)"
  proof -
    have "(of_nat (2 ^ (n - 1)) :: rat) \<le> of_nat (nat b)" using bn(1) of_nat_le_iff by blast
    then have le: "2 ^ (n - 1) \<le> (of_int b :: rat)" using b by simp
    have e: "int n - 1 = int (n - 1)" using bn(3) by simp
    show "pow2 (int n - 1) \<le> of_int b" unfolding e pow2_nat by (rule le)
    have "(of_nat (nat b) :: rat) < of_nat (2 ^ n)" using bn(2) of_nat_less_iff by blast
    then show "of_int b < pow2 (int n)" using b by (simp add: pow2_nat)
  qed
  have b0: "(0 :: rat) < of_int b" using b by simp
  have lower: "pow2 (e - 1) \<le> x"
  proof -
    have "pow2 (e - 1) * of_int b \<le> pow2 (e - 1) * pow2 (int n)"
      using rb(2) by (intro mult_left_mono less_imp_le) auto
    also have "\<dots> = pow2 (int m - 1)"
    proof -
      have "e - 1 + int n = int m - 1" by (simp add: e_def)
      then show ?thesis unfolding pow2_add [symmetric] by (rule arg_cong)
    qed
    also have "\<dots> \<le> of_int a" by (rule ra(1))
    finally show ?thesis using b0 by (simp add: x pos_le_divide_eq)
  qed
  have upper: "x < pow2 (e + 1)"
  proof -
    have "of_int a < pow2 (int m)" by (rule ra(2))
    also have "\<dots> = pow2 (e + 1) * pow2 (int n - 1)"
    proof -
      have "int m = e + 1 + (int n - 1)" by (simp add: e_def)
      then show ?thesis unfolding pow2_add [symmetric] by (rule arg_cong)
    qed
    also have "\<dots> \<le> pow2 (e + 1) * of_int b" using rb(1) by (intro mult_left_mono) (simp_all add: less_imp_le)
    finally show ?thesis using b0 by (simp add: x pos_divide_less_eq)
  qed
  have ex: "exponent2 x = (if pow2 e \<le> x then e else e - 1)"
    by (simp add: exponent2_def q e_def m_def n_def Let_def)
  show "pow2 (exponent2 x) \<le> x" "x < pow2 (exponent2 x + 1)"
    using lower upper unfolding ex by (auto split: if_splits)
qed

lemma round_even_int [simp]: "round_even (of_int n) = n"
  by (simp add: round_even_def)

lemma round_even_near: "\<bar>of_int (round_even q) - q\<bar> \<le> 1 / 2"
proof -
  define n where "n = \<lfloor>q\<rfloor>"
  have "of_int n \<le> q" "q < of_int n + 1" unfolding n_def by linarith+
  then show ?thesis unfolding round_even_def Let_def n_def [symmetric] by (auto simp: abs_if)
qed


lemma round_pos_near:
  assumes "0 < x"
  shows "\<bar>round_pos x - x\<bar> \<le> pow2 (max (exponent2 x) (- 1022) - 53)"
proof -
  define u where "u = pow2 (max (exponent2 x) (- 1022) - 52)"
  have u: "0 < u" by (simp add: u_def)
  have half: "u / 2 = pow2 (max (exponent2 x) (- 1022) - 53)"
    using pow2_add [of "max (exponent2 x) (- 1022) - 53" 1] by (simp add: u_def pow2_def [of 1])
  have "\<bar>(of_int (round_even (x / u)) - x / u) * u\<bar> \<le> 1 / 2 * u"
    unfolding abs_mult using round_even_near [of "x / u"] u by (intro mult_mono) auto
  moreover have "(of_int (round_even (x / u)) - x / u) * u = round_pos x - x"
    using u by (simp add: round_pos_def u_def [symmetric] Let_def left_diff_distrib)
  ultimately show ?thesis using half by simp
qed

lemma round_pos_exact:
  assumes "0 < x" "x / pow2 (max (exponent2 x) (- 1022) - 52) = of_int k"
  shows "round_pos x = x"
proof -
  define u where "u = pow2 (max (exponent2 x) (- 1022) - 52)"
  have u: "u \<noteq> 0" "x / u = of_int k" using assms(2) pow2_pos by (auto simp: u_def less_imp_neq [OF pow2_pos, symmetric])
  then have "of_int k * u = x" by (simp add: field_simps)
  then show ?thesis using u by (simp add: round_pos_def u_def [symmetric] Let_def)
qed

theorem round64_int:
  assumes "\<bar>n\<bar> \<le> 2 ^ 53"
  shows "round64 (of_int n) = Fin (of_int n)"
proof (cases "n = 0")
  case False
  define m where "m = nat \<bar>n\<bar>"
  have m: "0 < m" "m \<le> 2 ^ 53" "\<bar>of_int n :: rat\<bar> = of_nat m" using False assms by (auto simp: m_def)
  define e where "e = exponent2 (of_nat m)"
  have pm: "(0 :: rat) < of_nat m" using m by simp
  note ex = exponent2_correct [OF pm, folded e_def]
  have one: "(1 :: rat) \<le> of_nat m" using m(1) by simp
  have e0: "0 \<le> e"
  proof (rule ccontr)
    assume "\<not> 0 \<le> e"
    then have "pow2 (e + 1) \<le> pow2 0" by (intro pow2_mono) simp
    with ex(2) one show False by (simp add: pow2_def [of 0])
  qed
  have e53: "e \<le> 53"
  proof (rule ccontr)
    assume "\<not> e \<le> 53"
    then have "pow2 54 \<le> pow2 e" by (intro pow2_mono) simp
    moreover have "(of_nat m :: rat) \<le> of_nat (2 ^ 53)" using m(2) of_nat_le_iff by blast
    ultimately show False using ex(1) by (simp add: pow2_def [of 54])
  qed
  have int: "\<exists>k. (of_nat m :: rat) / pow2 (max e (- 1022) - 52) = of_int k"
  proof (cases "e = 53")
    case True
    then have "pow2 53 \<le> of_nat m" using ex(1) by simp
    then have "(of_nat (2 ^ 53) :: rat) \<le> of_nat m" by (simp add: pow2_def)
    then have "2 ^ 53 \<le> m" using of_nat_le_iff by blast
    then have "m = 2 ^ 53" using m(2) by simp
    then show ?thesis using True by (intro exI [of _ "2 ^ 52"]) (simp add: pow2_def)
  next
    case False
    then have "e \<le> 52" using e53 by simp
    then have "pow2 (max e (- 1022) - 52) = 1 / 2 ^ nat (52 - e)"
      using e0 by (auto simp: pow2_def)
    then show ?thesis by (intro exI [of _ "int m * 2 ^ nat (52 - e)"]) simp
  qed
  then have "round_pos (of_nat m) = of_nat m" using round_pos_exact [OF pm] by (auto simp: e_def)
  moreover have "(of_nat m :: rat) < 2 ^ 1024"
  proof -
    have "(of_nat m :: rat) \<le> of_nat (2 ^ 53)" using m(2) of_nat_le_iff by blast
    also have "(of_nat (2 ^ 53) :: rat) = 2 ^ 53" by simp
    also have "(2 :: rat) ^ 53 < 2 ^ 1024" by (rule power_strict_increasing) auto
    finally show ?thesis .
  qed
  ultimately show ?thesis using False m(3) by (auto simp: round64_def Let_def not_le abs_if split: if_splits)
qed (simp add: round64_def)

section \<open>Reading\<close>

definition is_digit10 :: "nat \<Rightarrow> bool" where
  "is_digit10 c \<longleftrightarrow> 48 \<le> c \<and> c \<le> 57"

text \<open>An exponent part, if there is one: its value and the rest of the text.\<close>

definition parse_exponent :: "jsstr \<Rightarrow> int \<times> jsstr" where
  "parse_exponent s =
     (if s \<noteq> [] \<and> hd s \<in> {69, 101} then
        let t = tl s; neg = (t \<noteq> [] \<and> hd t = 45);
            t = (if t \<noteq> [] \<and> hd t \<in> {43, 45} then tl t else t);
            ds = takeWhile is_digit10 t
        in if ds = [] then (0, s)
           else (if neg then - int (digits_value 10 ds) else int (digits_value 10 ds), drop (length ds) t)
      else (0, s))"

definition pow10 :: "int \<Rightarrow> rat" where
  "pow10 k = (if 0 \<le> k then 10 ^ nat k else 1 / 10 ^ nat (- k))"

text \<open>An unsigned decimal literal at the start of the text: its exact value and the rest.\<close>

definition parse_decimal :: "jsstr \<Rightarrow> (rat \<times> jsstr) option" where
  "parse_decimal s =
     (let ip = takeWhile is_digit10 s; r = drop (length ip) s;
          dot = (r \<noteq> [] \<and> hd r = 46);
          fp = (if dot then takeWhile is_digit10 (tl r) else []);
          r = (if dot then drop (length fp) (tl r) else r)
      in if ip = [] \<and> fp = [] then None
         else case parse_exponent r of (e, r) \<Rightarrow>
           Some (of_nat (digits_value 10 (ip @ fp)) * pow10 (e - int (length fp)), r))"

definition js_Infinity :: jsstr where
  "js_Infinity = js ''Infinity''"

fun neg_jsf :: "jsf \<Rightarrow> jsf" where
  "neg_jsf FNaN = FNaN"
| "neg_jsf (FInf b) = FInf (\<not> b)"
| "neg_jsf (Fin x) = Fin (- x)"

text \<open>A signed literal: the value and the rest, as \<open>parseFloat\<close> and \<open>Number\<close> read it.\<close>

definition parse_signed :: "jsstr \<Rightarrow> (jsf \<times> jsstr) option" where
  "parse_signed s =
     (let neg = (s \<noteq> [] \<and> hd s = 45);
          s = (if s \<noteq> [] \<and> hd s \<in> {43, 45} then tl s else s);
          sign = (\<lambda>v. if neg then neg_jsf v else v)
      in if take 8 s = js_Infinity then Some (sign (FInf False), drop 8 s)
         else map_option (\<lambda>(v, r). (sign (round64 v), r)) (parse_decimal s))"

definition native_parseFloat :: "jsstr \<Rightarrow> jsf" where
  "native_parseFloat s =
     (case parse_signed (dropWhile is_space s) of None \<Rightarrow> FNaN | Some (v, _) \<Rightarrow> v)"

text \<open>\<open>Number(s)\<close> of a text: all of it must be a literal; white space alone is 0.\<close>

definition string_to_number :: "jsstr \<Rightarrow> jsf" where
  "string_to_number s =
     (let t = trim s
      in if t = [] then Fin 0
         else if 2 \<le> length t \<and> hd t = 48 \<and> t ! 1 \<in> {120, 88, 111, 79, 98, 66} then
           let b = (if t ! 1 \<in> {120, 88} then 16 else if t ! 1 \<in> {111, 79} then 8 else 2);
               ds = drop 2 t
           in if ds \<noteq> [] \<and> list_all (\<lambda>c. digit_value c < b) ds then round64 (of_nat (digits_value b ds))
              else FNaN
         else case parse_signed t of Some (v, []) \<Rightarrow> v | _ \<Rightarrow> FNaN)"

section \<open>Writing\<close>

text \<open>The exponent \<open>e\<close> with \<open>10 ^ e \<le> x < 10 ^ (e + 1)\<close>; below 1 it is searched down to that of
  the smallest double.\<close>

fun down10 :: "nat \<Rightarrow> rat \<Rightarrow> int \<Rightarrow> int" where
  "down10 0 x e = e"
| "down10 (Suc n) x e = (if pow10 e \<le> x then e else down10 n x (e - 1))"

definition exponent10 :: "rat \<Rightarrow> int" where
  "exponent10 x =
     (if 1 \<le> x then int (length (string_of_nat (nat \<lfloor>x\<rfloor>))) - 1 else down10 330 x (- 1))"

text \<open>
  \<open>String(x)\<close> takes the fewest significant digits that read back as \<open>x\<close>: \<open>k\<close> digits of which
  \<open>s\<close> are before the point, the closer of the two candidates first. 17 digits always suffice.
\<close>

definition candidate :: "rat \<Rightarrow> nat \<Rightarrow> nat option" where
  "candidate x k =
     (let e = exponent10 x + 1 - int k; q = x / pow10 e; lo = \<lfloor>q\<rfloor>; hi = lo + 1;
          back = (\<lambda>n. round64 (of_int n * pow10 e) = Fin x);
          first = (if q - of_int lo \<le> 1 / 2 then lo else hi);
          second = (if q - of_int lo \<le> 1 / 2 then hi else lo)
      in if back first then Some (nat first) else if back second then Some (nat second) else None)"

fun shortest :: "rat \<Rightarrow> nat \<Rightarrow> nat \<Rightarrow> nat \<times> nat" where
  "shortest x 0 k = (case candidate x k of Some n \<Rightarrow> (n, k) | None \<Rightarrow> (0, k))"
| "shortest x (Suc fuel) k =
     (case candidate x k of Some n \<Rightarrow> (n, k) | None \<Rightarrow> shortest x fuel (Suc k))"

definition signed_string :: "int \<Rightarrow> jsstr" where
  "signed_string e = (if e < 0 then 45 # string_of_nat (nat (- e)) else 43 # string_of_nat (nat e))"

definition string_of_pos :: "rat \<Rightarrow> jsstr" where
  "string_of_pos x =
     (let (n, k) = shortest x 16 1; carry = (n = 10 ^ k);
          ds = string_of_nat (if carry then 1 else n); k = length ds;
          s = exponent10 x + 1 + (if carry then 1 else 0)
      in if int k \<le> s \<and> s \<le> 21 then ds @ replicate (nat s - k) 48
         else if 0 < s \<and> s \<le> 21 then take (nat s) ds @ 46 # drop (nat s) ds
         else if - 6 < s \<and> s \<le> 0 then js ''0.'' @ replicate (nat (- s)) 48 @ ds
         else if k = 1 then ds @ 101 # signed_string (s - 1)
         else take 1 ds @ 46 # drop 1 ds @ 101 # signed_string (s - 1))"

definition string_of_float :: "jsf \<Rightarrow> jsstr" where
  "string_of_float x =
     (case x of FNaN \<Rightarrow> js ''NaN''
      | FInf neg \<Rightarrow> (if neg then js ''-'' else []) @ js_Infinity
      | Fin r \<Rightarrow> if r = 0 then js ''0'' else if r < 0 then 45 # string_of_pos (- r) else string_of_pos r)"

text \<open>\<open>x.toFixed(f)\<close>: the multiple of \<open>10 ^ -f\<close> nearest to \<open>x\<close>, the larger of two.\<close>

definition fixed_digits :: "nat \<Rightarrow> nat \<Rightarrow> jsstr" where
  "fixed_digits f n =
     (let m = string_of_nat n;
          m = replicate (Suc f - length m) 48 @ m;
          k = length m - f
      in if f = 0 then m else take k m @ 46 # drop k m)"

definition to_fixed :: "jsf \<Rightarrow> nat \<Rightarrow> jsstr" where
  "to_fixed x f =
     (case x of
        Fin r \<Rightarrow>
          if 10 ^ 21 \<le> \<bar>r\<bar> then string_of_float x
          else (if r < 0 then [45] else []) @ fixed_digits f (nat \<lfloor>\<bar>r\<bar> * 10 ^ f + 1 / 2\<rfloor>)
      | _ \<Rightarrow> string_of_float x)"


section \<open>The text of \<open>toFixed\<close>\<close>

lemma round64_numeral:
  assumes "(numeral k :: int) \<le> 2 ^ 53"
  shows "round64 (numeral k) = Fin (numeral k)"
  using round64_int [of "numeral k"] assms by simp

lemma fixed_digits_correct:
  "\<exists>ip fp. fixed_digits f n = ip @ (if f = 0 then [] else 46 # fp) \<and> length fp = f \<and> ip \<noteq> [] \<and>
     digits_value 10 (ip @ fp) = n \<and> (\<forall>c \<in> set (ip @ fp). is_digit10 c)"
proof -
  define m where "m = replicate (Suc f - length (string_of_nat n)) 48 @ string_of_nat n"
  have len: "Suc f \<le> length m" by (simp add: m_def)
  have val: "digits_value 10 m = n" using string_of_nat_digits [of n] by (simp add: m_def digits_value_zeros)
  have dig: "\<forall>c \<in> set m. is_digit10 c" by (auto simp: m_def is_digit10_def dest: string_of_nat_plain)
  let ?k = "length m - f"
  have "fixed_digits f n = take ?k m @ (if f = 0 then [] else 46 # drop ?k m)"
    unfolding fixed_digits_def Let_def m_def [symmetric] by simp
  moreover have "length (drop ?k m) = f" "take ?k m \<noteq> []" using len by auto
  moreover have "take ?k m @ drop ?k m = m" by simp
  ultimately show ?thesis using val dig by metis
qed

lemma to_fixed_small:
  assumes "\<bar>r\<bar> < 10 ^ 21"
  shows "to_fixed (Fin r) f = (if r < 0 then [45] else []) @ fixed_digits f (nat \<lfloor>\<bar>r\<bar> * 10 ^ f + 1 / 2\<rfloor>)"
  using assms by (simp add: to_fixed_def)

lemma nearest_multiple:
  fixes r :: rat
  assumes "0 \<le> r"
  shows "\<bar>of_nat (nat \<lfloor>r * 10 ^ f + 1 / 2\<rfloor>) / 10 ^ f - r\<bar> \<le> 1 / (2 * 10 ^ f)"
proof -
  let ?p = "(10 :: rat) ^ f"
  have p: "0 < ?p" by simp
  define n where "n = \<lfloor>r * ?p + 1 / 2\<rfloor>"
  have n: "of_int n \<le> r * ?p + 1 / 2" "r * ?p + 1 / 2 < of_int n + 1" unfolding n_def by linarith+
  have "0 \<le> r * ?p + 1 / 2" using assms p by simp
  then have "0 \<le> n" by (simp add: n_def)
  then have c: "(of_nat (nat n) :: rat) = of_int n" by simp
  have "\<bar>of_int n - r * ?p\<bar> \<le> 1 / 2" using n by (simp add: abs_if)
  then have "\<bar>(of_int n - r * ?p) / ?p\<bar> \<le> 1 / 2 / ?p" using p unfolding abs_divide by (simp add: field_simps)
  moreover have "(of_int n - r * ?p) / ?p = of_int n / ?p - r" using p by (simp add: diff_divide_distrib)
  ultimately show ?thesis unfolding n_def [symmetric] c by simp
qed


section \<open>Reading the text of an integer\<close>

lemma takeWhile_digits:
  assumes "\<forall>c \<in> set ds. is_digit10 c" "r = [] \<or> \<not> is_digit10 (hd r)"
  shows "takeWhile is_digit10 (ds @ r) = ds"
  using assms by (cases r) (auto simp: takeWhile_append2 takeWhile_append)

lemma string_of_nat_is_digit10: "\<forall>c \<in> set (string_of_nat n). is_digit10 c"
  using string_of_nat_plain by (auto simp: is_digit10_def)

lemma parse_decimal_nat: "parse_decimal (string_of_nat n) = Some (of_nat n, [])"
proof -
  have tw: "takeWhile is_digit10 (string_of_nat n) = string_of_nat n"
    using takeWhile_digits [OF string_of_nat_is_digit10 [of n], of "[]"] by simp
  show ?thesis
    unfolding parse_decimal_def Let_def tw
    using string_of_nat_digits [of n] by (simp add: parse_exponent_def pow10_def)
qed

definition int_to_jsf :: "int \<Rightarrow> jsf" where
  "int_to_jsf v = (if v < 0 then neg_jsf (round64 (of_int (- v))) else round64 (of_int v))"

lemma parse_signed_int: "parse_signed (string_of_num (Num v)) = Some (int_to_jsf v, [])"
proof -
  define n where "n = nat \<bar>v\<bar>"
  obtain c s where s: "string_of_nat n = c # s" using string_of_nat_not_Nil by (cases "string_of_nat n") auto
  have c: "48 \<le> c" "c \<le> 57" using string_of_nat_plain [of c n] s by auto
  have inf: "take 8 (c # s) \<noteq> js_Infinity" using c by (auto simp: js_Infinity_def)
  have p: "parse_decimal (c # s) = Some (of_nat n, [])" using parse_decimal_nat [of n] s by simp
  have e: "string_of_num (Num v) = (if v < 0 then [45] else []) @ c # s"
    using s by (auto simp: string_of_num_def n_def)
  have r: "(of_nat n :: rat) = (if v < 0 then of_int (- v) else of_int v)" by (simp add: n_def)
  show ?thesis unfolding e parse_signed_def using c inf p by (auto simp: r int_to_jsf_def Let_def)
qed

lemma trim_digits:
  assumes "s \<noteq> []" "\<not> is_space (hd s)" "\<not> is_space (last s)"
  shows "trim s = s"
proof -
  have d: "dropWhile is_space t = t" if "t \<noteq> []" "\<not> is_space (hd t)" for t
    using that by (cases t) auto
  show ?thesis unfolding trim_def using assms d [of s] d [of "rev s"] by (simp add: hd_rev)
qed

theorem string_to_number_int: "string_to_number (string_of_num (Num v)) = int_to_jsf v"
proof -
  define n where "n = nat \<bar>v\<bar>"
  have e: "string_of_num (Num v) = (if v < 0 then [45] else []) @ string_of_nat n"
    by (auto simp: string_of_num_def n_def)
  obtain c s where s: "string_of_nat n = c # s" using string_of_nat_not_Nil by (cases "string_of_nat n") auto
  have c: "48 \<le> c" "c \<le> 57" "\<forall>d \<in> set s. 48 \<le> d \<and> d \<le> 57"
    using string_of_nat_plain [of _ n] s by auto
  let ?t = "string_of_num (Num v)"
  have "last ?t \<in> set (string_of_nat n)" unfolding e by simp
  then have "48 \<le> last ?t" "last ?t \<le> 57" by (simp_all add: string_of_nat_plain)
  then have l: "\<not> is_space (last ?t)" by (auto simp: is_space_def)
  have "\<not> is_space (hd ?t)" unfolding e using c s by (auto simp: is_space_def)
  then have tr: "trim ?t = ?t" using l by (intro trim_digits) (auto simp: e)
  have hx: "\<not> (2 \<le> length ?t \<and> hd ?t = 48 \<and> ?t ! 1 \<in> {120, 88, 111, 79, 98, 66})"
    unfolding e using c s by (cases s) auto
  have ne: "?t \<noteq> []" by (simp add: e)
  have "string_to_number ?t = (case parse_signed ?t of Some (v, []) \<Rightarrow> v | _ \<Rightarrow> FNaN)"
    unfolding string_to_number_def Let_def tr if_not_P [OF hx] if_not_P [OF ne] ..
  then show ?thesis by (simp add: parse_signed_int)
qed

lemma int_to_jsf_small:
  assumes "\<bar>v\<bar> \<le> 2 ^ 53"
  shows "int_to_jsf v = Fin (of_int v)"
  using round64_int [of v] round64_int [of "- v"] assms by (auto simp: int_to_jsf_def)

section \<open>Bounds\<close>

lemma round_even_le: "q \<le> of_int n \<Longrightarrow> round_even q \<le> n"
proof -
  assume a: "q \<le> of_int n"
  show ?thesis
  proof (cases "\<lfloor>q\<rfloor> = n")
    case True
    then have "q = of_int n" using a by (metis dual_order.antisym of_int_floor_le)
    then show ?thesis by simp
  next
    case False
    moreover have "\<lfloor>q\<rfloor> \<le> n" using floor_mono [OF a] by simp
    ultimately have "\<lfloor>q\<rfloor> + 1 \<le> n" by simp
    then show ?thesis by (auto simp: round_even_def Let_def)
  qed
qed

lemma round_even_nonneg: "0 \<le> q \<Longrightarrow> 0 \<le> round_even q"
  by (auto simp: round_even_def Let_def zero_le_floor intro: order.trans [of 0 "\<lfloor>q\<rfloor>"])

text \<open>Rounding does not pass an integer that is a double.\<close>

lemma round64_between:
  assumes "0 \<le> x" and "x \<le> of_nat m" and "m < 2 ^ 53"
  obtains r where "round64 x = Fin r" "0 \<le> r" "r \<le> of_nat m"
proof (cases "x = 0")
  case True
  then show thesis using that [of 0] by (simp add: round64_def)
next
  case False
  then have pos: "0 < x" using assms(1) by simp
  define e where "e = exponent2 x"
  note ex = exponent2_correct [OF pos, folded e_def]
  have m53: "(of_nat m :: rat) < 2 ^ 53" using assms(3) by (metis of_nat_less_iff of_nat_numeral of_nat_power)
  have e: "e \<le> 52"
  proof (rule ccontr)
    assume "\<not> e \<le> 52"
    then have "pow2 53 \<le> pow2 e" by (intro pow2_mono) simp
    then show False using ex(1) assms(2) m53 by (simp add: pow2_def [of 53])
  qed
  define n where "n = nat (52 - max e (- 1022))"
  define u where "u = pow2 (max e (- 1022) - 52)"
  have "int n = 52 - max e (- 1022)" using e by (simp add: n_def)
  then have u: "u = 1 / 2 ^ n"
    using pow2_add [of "int n" "- int n"] e by (auto simp: u_def pow2_def n_def)
  define r where "r = of_int (round_even (x / u)) * u"
  have "x / u \<le> of_int (int m * 2 ^ n)" using assms(2) by (simp add: u)
  then have "round_even (x / u) \<le> int m * 2 ^ n" by (rule round_even_le)
  then have "(of_int (round_even (x / u)) :: rat) \<le> of_int (int m * 2 ^ n)" using of_int_le_iff by blast
  then have le: "r \<le> of_nat m" by (simp add: r_def u field_simps)
  have "0 \<le> round_even (x / u)" using pos by (intro round_even_nonneg) (simp add: u)
  then have ge: "0 \<le> r" by (simp add: r_def u)
  have "(2 :: rat) ^ 53 < 2 ^ 1024" by (rule power_strict_increasing) auto
  then have "\<not> 2 ^ 1024 \<le> r" using le m53 by linarith
  moreover have "round_pos x = r" by (simp add: round_pos_def r_def u_def e_def Let_def)
  ultimately have "round64 x = Fin r" using pos by (simp add: round64_def Let_def)
  then show thesis using ge le by (rule that)
qed

end
