(* ===== verification/Big_Int_Decimal.thy ===== *)
theory Big_Int_Decimal
  imports Barrett Js_Float
begin

text \<open>
  The two operations of \<open>BigInt.js\<close> that the encryption does not use: \<open>biFromDecimal\<close> and \<open>biPow\<close>,
  with what they compute.
\<close>

section \<open>\<open>biFromDecimal\<close>\<close>

text \<open>
  \<open>biFromNumber\<close> of a double: \<open>&\<close> and \<open>>>=\<close> first drop the fraction; \<open>NaN > 0\<close> is false and the
  bits of \<open>Infinity\<close> are 0.
\<close>

definition biFromFloat :: "nat \<Rightarrow> jsf \<Rightarrow> bigint" where
  "biFromFloat N x =
     (case x of
        Fin r \<Rightarrow> (biFromNumber N \<lfloor>\<bar>r\<bar>\<rfloor>)\<lparr>isNeg := r < 0\<rparr>
      | FInf neg \<Rightarrow> (new_BigInt N)\<lparr>isNeg := neg\<rparr>
      | FNaN \<Rightarrow> new_BigInt N)"

text \<open>\<open>lr10\<close> is made when the file is loaded, with 20 digits.\<close>

definition lr10 :: bigint where
  "lr10 = biFromNumber 20 1000000000000000"

function decimal_loop :: "nat \<Rightarrow> jsstr \<Rightarrow> nat \<Rightarrow> bigint \<Rightarrow> bigint" where
  "decimal_loop N s i result =
     (if i < length s
      then decimal_loop N s (i + 15)
             (biAdd N (biMultiply N result lr10) (biFromFloat N (string_to_number (substr s i 15))))
      else result)"
  by pat_completeness auto
termination by (relation "measure (\<lambda>(N, s, i, _). length s - i)") auto

declare decimal_loop.simps [simp del]

text \<open>The length of the first group of digits, which may be shorter.\<close>

definition first_group :: "nat \<Rightarrow> nat" where
  "first_group digitCount = (let fgl = digitCount mod 15 in if fgl = 0 then 15 else fgl)"

definition biFromDecimal :: "nat \<Rightarrow> jsstr \<Rightarrow> bigint" where
  "biFromDecimal N s =
     (let neg = (charAt s 0 = js ''-'');
          i = (if neg then 1 else 0);
          i = i + length (takeWhile (\<lambda>c. c = 48) (drop i s))
      in if i \<ge> length s then new_BigInt N
         else
           let fgl = first_group (length s - i);
               result = biFromFloat N (string_to_number (substr s i fgl))
           in (decimal_loop N s (i + fgl) result)\<lparr>isNeg := neg\<rparr>)"

section \<open>\<open>biPow\<close>\<close>

text \<open>The exponent is a number; \<open>y >>= 1\<close> of a negative one never reaches 0.\<close>

partial_function (option) biPow_loop :: "nat \<Rightarrow> bigint \<Rightarrow> bigint \<Rightarrow> int \<Rightarrow> bigint option" where
  "biPow_loop N result a y =
     (let result = (if js_and (Num y) (Num 1) \<noteq> Num 0 then biMultiply N result a else result);
          y = to_int32 (Num y) div 2
      in if y = 0 then Some result else biPow_loop N result (biMultiply N a a) y)"

declare biPow_loop.simps [code]

definition biPow :: "nat \<Rightarrow> bigint \<Rightarrow> int \<Rightarrow> bigint option" where
  "biPow N x y = biPow_loop N (bigOne N) x y"

section \<open>Small numbers\<close>

lemma biFromNumber_small:
  assumes "0 \<le> v" "v < 2 ^ 31" "2 \<le> N"
  shows "wf_bi N (biFromNumber N v)" "bival (biFromNumber N v) = v" "\<not> isNeg (biFromNumber N v)"
proof -
  define M where "M = N - 2"
  have M: "N = Suc (Suc M)" using assms(3) by (simp add: M_def)
  have t: "to_int32 (Num v) = v" "to_int32 (Num (v div 65536)) = v div 65536"
    using assms(1,2) by (auto intro!: to_int32_small)
  have d: "v div 65536 < 65536" "v div 65536 div 65536 = 0" using assms(1,2) by simp_all
  have "biFromNumber_loop v 0 (ZERO_ARRAY N) = Num (v mod 65536) # Num (v div 65536) # replicate M (Num 0)"
  proof (cases "v = 0")
    case True
    then show ?thesis by (simp add: biFromNumber_loop.simps ZERO_ARRAY_replicate M)
  next
    case False
    then have "biFromNumber_loop v 0 (ZERO_ARRAY N) = biFromNumber_loop (v div 65536) 1 (Num (v mod 65536) # Num 0 # replicate M (Num 0))"
      using assms(1) t(1) by (subst biFromNumber_loop.simps) (simp add: ZERO_ARRAY_replicate M js_and_ffff wr_def)
    also have "\<dots> = Num (v mod 65536) # Num (v div 65536) # replicate M (Num 0)"
    proof (cases "v div 65536 = 0")
      case False
      then have "0 < v div 65536" using assms(1) pos_imp_zdiv_nonneg_iff [of 65536 v] by linarith
      then show ?thesis
        using t(2) d biFromNumber_loop.simps [of 0 2] by (subst biFromNumber_loop.simps) (simp add: js_and_ffff wr_def)
    qed (simp add: biFromNumber_loop.simps)
    finally show ?thesis .
  qed
  then have e: "digits (biFromNumber N v) = Num (v mod 65536) # Num (v div 65536) # replicate M (Num 0)"
    using assms(1) by (simp add: biFromNumber_def)
  show "\<not> isNeg (biFromNumber N v)" using assms(1) by (simp add: biFromNumber_def)
  then show "bival (biFromNumber N v) = v" by (simp add: bival_def e)
  show "wf_bi N (biFromNumber N v)"
    unfolding wf_bi_def e using assms(1) d(1) by (simp add: M list_all_iff pos_imp_zdiv_nonneg_iff)
qed

lemma biFromFloat_small:
  assumes "0 \<le> v" "v < 2 ^ 31" "2 \<le> N"
  shows "biFromFloat N (Fin (of_int v)) = biFromNumber N v"
  using biFromNumber_small(3) [OF assms] assms(1) by (simp add: biFromFloat_def)

lemma lr10_value: "wf_bi 20 lr10" "bival lr10 = 32768" "biHighIndex lr10 = 0" "\<not> isNeg lr10"
  by code_simp+

section \<open>Reading decimals\<close>

lemma digits_number:
  assumes "ds \<noteq> []" "\<forall>c \<in> set ds. is_digit10 c"
  shows "string_to_number ds = round64 (of_nat (digits_value 10 ds))"
proof -
  obtain c s where s: "ds = c # s" using assms(1) by (cases ds) auto
  have c: "48 \<le> d" "d \<le> 57" if "d \<in> set ds" for d using assms(2) that by (auto simp: is_digit10_def)
  have sp: "\<not> is_space d" if "d \<in> set ds" for d using c [OF that] by (auto simp: is_space_def)
  have tr: "trim ds = ds" using assms(1) sp by (intro trim_digits) auto
  have hx: "\<not> (2 \<le> length ds \<and> hd ds = 48 \<and> ds ! 1 \<in> {120, 88, 111, 79, 98, 66})"
  proof
    assume a: "2 \<le> length ds \<and> hd ds = 48 \<and> ds ! 1 \<in> {120, 88, 111, 79, 98, 66}"
    then have "ds ! 1 \<in> set ds" by (intro nth_mem) simp
    then show False using c [of "ds ! 1"] a by auto
  qed
  have tw: "takeWhile is_digit10 ds = ds" using takeWhile_digits [OF assms(2), of "[]"] by simp
  have p: "parse_decimal ds = Some (of_nat (digits_value 10 ds), [])"
    unfolding parse_decimal_def Let_def tw using assms(1) by (simp add: parse_exponent_def pow10_def)
  have "hd ds \<notin> {43, 45}" "take 8 ds \<noteq> js_Infinity" using c [of "hd ds"] s by (auto simp: js_Infinity_def)
  then have "parse_signed ds = Some (round64 (of_nat (digits_value 10 ds)), [])"
    using p by (simp add: parse_signed_def)
  then show ?thesis unfolding string_to_number_def Let_def tr if_not_P [OF hx] if_not_P [OF assms(1)] by simp
qed

lemma digits_chunk:
  assumes "ds \<noteq> []" "\<forall>c \<in> set ds. is_digit10 c" "digits_value 10 ds < 2 ^ 31" "2 \<le> N"
  shows "biFromFloat N (string_to_number ds) = biFromNumber N (int (digits_value 10 ds))"
proof -
  let ?v = "int (digits_value 10 ds)"
  have v: "0 \<le> ?v" "?v < 2 ^ 31" using assms(3) by simp_all
  then have "round64 (of_int ?v) = Fin (of_int ?v)" by (intro round64_int) simp
  then show ?thesis using digits_number [OF assms(1,2)] biFromFloat_small [OF v assms(4)] by simp
qed

lemma first_group: "0 < k \<Longrightarrow> k \<le> 15 \<Longrightarrow> first_group k = k \<and> first_group (k + 15) = k"
  by (cases "k = 15") (auto simp: first_group_def)

text \<open>A text of at most 15 digits is one chunk.\<close>

lemma biFromDecimal_small:
  assumes "ds \<noteq> []" "\<forall>c \<in> set ds. is_digit10 c" "hd ds \<noteq> 48" "length ds \<le> 15" "digits_value 10 ds < 2 ^ 31" "2 \<le> N"
  shows "biFromDecimal N ds = biFromNumber N (int (digits_value 10 ds))"
    "biFromDecimal N (45 # ds) = (biFromNumber N (int (digits_value 10 ds)))\<lparr>isNeg := True\<rparr>"
proof -
  obtain c s where s: "ds = c # s" using assms(1) by (cases ds) auto
  have c: "c \<noteq> 45" using assms(2) s by (auto simp: is_digit10_def)
  have f: "first_group (length ds) = length ds" using first_group [of "length ds"] assms(1,4) by simp
  have stop: "decimal_loop N t (length t) r = r" for t r by (simp add: decimal_loop.simps)
  have neg: "\<not> isNeg (biFromNumber N (int (digits_value 10 ds)))" by (simp add: biFromNumber_def)
  show "biFromDecimal N ds = biFromNumber N (int (digits_value 10 ds))"
    using c assms(3) f s digits_chunk [OF assms(1,2,5,6)] stop [of ds] neg
    by (simp add: biFromDecimal_def charAt_def substr_def Let_def)
  show "biFromDecimal N (45 # ds) = (biFromNumber N (int (digits_value 10 ds)))\<lparr>isNeg := True\<rparr>"
    using assms(3) f s digits_chunk [OF assms(1,2,5,6)] stop [of "45 # ds"]
    by (simp add: biFromDecimal_def charAt_def substr_def Let_def)
qed

text \<open>With a second chunk the first one is multiplied by \<open>lr10\<close>, which is not \<open>10 ^ 15\<close>.\<close>

lemma biFromDecimal_chunks:
  assumes "hs \<noteq> []" "hd hs \<noteq> 48" "length hs \<le> 15" "length ls = 15" "\<forall>c \<in> set (hs @ ls). is_digit10 c"
    and "digits_value 10 hs < 2 ^ 31" "digits_value 10 ls < 2 ^ 31"
  shows "bival (biFromDecimal 20 (hs @ ls)) = int (digits_value 10 hs) * 32768 + int (digits_value 10 ls)"
proof -
  let ?s = "hs @ ls" and ?h = "int (digits_value 10 hs)" and ?l = "int (digits_value 10 ls)"
  obtain c s where s: "hs = c # s" using assms(1) by (cases hs) auto
  have c: "c \<noteq> 45" using assms(5) s by (auto simp: is_digit10_def)
  have f: "first_group (length ?s) = length hs" using first_group [of "length hs"] assms(1,3,4) by simp
  have l0: "ls \<noteq> []" using assms(4) by auto
  have ch: "biFromFloat 20 (string_to_number hs) = biFromNumber 20 ?h" "biFromFloat 20 (string_to_number ls) = biFromNumber 20 ?l"
    using assms l0 by (auto intro!: digits_chunk)
  have h: "wf_bi 20 (biFromNumber 20 ?h)" "bival (biFromNumber 20 ?h) = ?h"
    using biFromNumber_small [of ?h 20] assms(6) by simp_all
  have l: "wf_bi 20 (biFromNumber 20 ?l)" "bival (biFromNumber 20 ?l) = ?l"
    using biFromNumber_small [of ?l 20] assms(7) by simp_all
  have "biHighIndex (biFromNumber 20 ?h) \<le> 1"
    using biHighIndex_le [OF h(1), of 1] h(2) assms(6) by simp
  then have m: "wf_bi 20 (biMultiply 20 (biFromNumber 20 ?h) lr10)" "bival (biMultiply 20 (biFromNumber 20 ?h) lr10) = ?h * 32768"
    using biMultiply_correct [OF h(1) lr10_value(1)] lr10_value h(2) by simp_all
  let ?r = "biAdd 20 (biMultiply 20 (biFromNumber 20 ?h) lr10) (biFromNumber 20 ?l)"
  have small: "?h * 32768 + ?l < 65536 ^ 20" using assms(6,7) by simp
  then have r: "wf_bi 20 ?r" "bival ?r = ?h * 32768 + ?l"
    using biAdd_correct [OF m(1) l(1)] m(2) l(2) by simp_all
  have "decimal_loop 20 ?s (length hs) (biFromNumber 20 ?h) = decimal_loop 20 ?s (length ?s) ?r"
    using assms(4) l0 ch(2) by (subst decimal_loop.simps) (simp add: substr_def)
  also have "\<dots> = ?r" by (simp add: decimal_loop.simps)
  finally have e: "biFromDecimal 20 ?s = ?r\<lparr>isNeg := False\<rparr>"
    using c assms(2) f s ch(1) by (simp add: biFromDecimal_def charAt_def substr_def Let_def)
  have "isNeg ?r \<Longrightarrow> vald (digits ?r) = 0"
    using r vald_nonneg [of "digits ?r"] by (simp add: bival_def wf_bi_def)
  then show ?thesis using r(2) unfolding e by (cases "isNeg ?r") (auto simp: bival_def)
qed

section \<open>Powers\<close>

lemma biPow_unfold:
  assumes "0 \<le> y" "y < 2 ^ 31"
  shows "biPow_loop N r a y =
    (let r = (if odd y then biMultiply N r a else r)
     in if y div 2 = 0 then Some r else biPow_loop N r (biMultiply N a a) (y div 2))"
  using assms by (subst biPow_loop.simps) (simp add: js_and_1 to_int32_small odd_iff_mod_2_eq_one Let_def)

lemma biMultiply_product:
  assumes "wf_bi N x" "wf_bi N y" "0 \<le> bival x" "0 \<le> bival y" "bival x * bival y < 65536 ^ (N - 1)" "1 < N"
    and "0 < bival x" "0 < bival y"
  shows "wf_bi N (biMultiply N x y)" "bival (biMultiply N x y) = bival x * bival y"
proof -
  have N: "0 < N" using assms(6) by simp
  have low: "65536 ^ biHighIndex z \<le> bival z" if "wf_bi N z" "0 < bival z" for z
  proof (cases "biHighIndex z = 0")
    case False
    then have "65536 ^ biHighIndex z \<le> vald (digits z)" using high_le_vald [OF that(1) N] by simp
    then show ?thesis using that by (auto simp: bival_def split: if_splits)
  qed (use that in simp)
  have "65536 ^ biHighIndex x * 65536 ^ biHighIndex y \<le> bival x * bival y"
    using assms by (intro mult_mono low) auto
  then have "(65536 :: int) ^ (biHighIndex x + biHighIndex y) < 65536 ^ (N - 1)"
    using assms(5) unfolding power_add by linarith
  then have "biHighIndex x + biHighIndex y < N - 1" by (rule power_less_imp_less_exp [rotated]) simp
  then show "wf_bi N (biMultiply N x y)" "bival (biMultiply N x y) = bival x * bival y"
    using biMultiply_correct [OF assms(1,2)] by simp_all
qed

lemma biPow_loop_correct:
  assumes "0 \<le> y" "y < 2 ^ 31" "wf_bi N r" "wf_bi N a" "0 < bival r" "0 < bival a" "1 < N"
    and "bival r * bival a ^ nat y < 65536 ^ (N - 1)"
  shows "\<exists>p. biPow_loop N r a y = Some p \<and> wf_bi N p \<and> bival p = bival r * bival a ^ nat y"
  using assms
proof (induction "nat y" arbitrary: y r a rule: less_induct)
  case less
  have pos: "1 \<le> bival r" "1 \<le> bival a" using less.prems by simp_all
  have split: "nat y = nat (y div 2) + nat (y div 2) + (if odd y then 1 else 0)"
    using less.prems(1) by (auto elim!: evenE oddE)
  define h where "h = bival a ^ nat (y div 2)"
  have h: "1 \<le> h" using pos(2) by (simp add: h_def)
  have total: "bival r * bival a ^ nat y = bival r * (if odd y then bival a else 1) * (h * h)"
    unfolding split power_add h_def [symmetric] by auto
  define r1 where "r1 = (if odd y then biMultiply N r a else r)"
  have "bival r * (if odd y then bival a else 1) * 1 \<le> bival r * (if odd y then bival a else 1) * (h * h)"
    using pos h mult_mono [OF h h] by (intro mult_left_mono) auto
  then have fit1: "bival r * (if odd y then bival a else 1) < 65536 ^ (N - 1)"
    using less.prems(8) unfolding total by linarith
  have r1: "wf_bi N r1" "bival r1 = bival r * (if odd y then bival a else 1)" "1 \<le> bival r1"
  proof -
    have "bival r * bival a < 65536 ^ (N - 1)" if "odd y" using fit1 that by simp
    then show w: "wf_bi N r1" "bival r1 = bival r * (if odd y then bival a else 1)"
      using less.prems biMultiply_product [of N r a] by (auto simp: r1_def)
    show "1 \<le> bival r1" unfolding w(2) using pos mult_mono [of 1 "bival r" 1 "bival a"] by auto
  qed
  show ?case
  proof (cases "y div 2 = 0")
    case True
    then have "biPow_loop N r a y = Some r1" using biPow_unfold [OF less.prems(1,2)] by (simp add: r1_def Let_def)
    moreover have "h = 1" using True by (simp add: h_def)
    then have "bival r1 = bival r * bival a ^ nat y" unfolding total r1(2) by simp
    ultimately show ?thesis using r1(1) by blast
  next
    case False
    define k where "k = nat (y div 2) - 1"
    have k: "nat (y div 2) = Suc k" using False less.prems(1) by (simp add: k_def)
    have ha: "h = bival a * bival a ^ k" by (simp add: h_def k)
    have "1 \<le> bival a ^ k" using pos(2) by simp
    then have a_le: "bival a * 1 \<le> h" unfolding ha using pos(2) by (intro mult_left_mono) auto
    have "bival a * bival a \<le> h * h" using a_le pos(2) by (intro mult_mono) auto
    also have "1 * (h * h) \<le> bival r1 * (h * h)" using r1(3) h by (intro mult_right_mono) auto
    then have "h * h \<le> bival r1 * (h * h)" by simp
    finally have sq: "bival a * bival a < 65536 ^ (N - 1)"
      using less.prems(8) unfolding total r1(2) by linarith
    have a2: "wf_bi N (biMultiply N a a)" "bival (biMultiply N a a) = bival a * bival a"
      using biMultiply_product [of N a a] less.prems sq by simp_all
    have next': "biPow_loop N r a y = biPow_loop N r1 (biMultiply N a a) (y div 2)"
      using False biPow_unfold [OF less.prems(1,2)] by (simp add: r1_def Let_def)
    have e: "bival r1 * bival (biMultiply N a a) ^ nat (y div 2) = bival r * bival a ^ nat y"
      unfolding total a2(2) r1(2) power_mult_distrib h_def ..
    have "0 \<le> y div 2" "y div 2 < 2 ^ 31" "nat (y div 2) < nat y" using less.prems(1,2) False by auto
    then have "\<exists>p. biPow_loop N r1 (biMultiply N a a) (y div 2) = Some p \<and> wf_bi N p \<and>
        bival p = bival r1 * bival (biMultiply N a a) ^ nat (y div 2)"
      using less.hyps [of "y div 2" r1 "biMultiply N a a"] r1(1,3) a2 pos less.prems(7,8) e by simp
    then show ?thesis unfolding next' e .
  qed
qed

lemma biPow_negative:
  assumes "- (2 ^ 31) \<le> y" "y < 0"
  shows "biPow N x y = None"
proof -
  have "\<not> (- (2 ^ 31) \<le> y \<and> y < 0)" if "biPow_loop N r a y = Some p" for r a y p
  proof (rule biPow_loop.raw_induct [where P = "\<lambda>N r a y p. \<not> (- (2 ^ 31) \<le> y \<and> y < 0)", OF _ that])
    fix f N r a y p
    assume IH: "\<And>N r a y p. f N r a y = Some p \<Longrightarrow> \<not> (- (2 ^ 31) \<le> y \<and> y < 0)"
      and eq: "(let r = (if js_and (Num y) (Num 1) \<noteq> Num 0 then biMultiply N r a else r); y = to_int32 (Num y) div 2
        in if y = 0 then Some r else f N r (biMultiply N a a) y) = Some p"
    show "\<not> (- (2 ^ 31) \<le> y \<and> y < 0)"
    proof
      assume y: "- (2 ^ 31) \<le> y \<and> y < 0"
      then have t: "to_int32 (Num y) = y" by (intro to_int32_small) auto
      define z where "z = y div 2"
      have z: "- (2 ^ 31) \<le> z" "z < 0" using y unfolding z_def by linarith+
      have "f N (if js_and (Num y) (Num 1) \<noteq> Num 0 then biMultiply N r a else r) (biMultiply N a a) z = Some p"
        using eq z(2) unfolding t Let_def z_def [symmetric] by (simp split: if_splits)
      from IH [OF this] z show False by simp
    qed
  qed
  then show ?thesis using assms unfolding biPow_def by (cases "biPow_loop N (bigOne N) x y") auto
qed

lemma biPow_correct:
  assumes "0 \<le> y" "y < 2 ^ 31" "wf_bi N x" "0 < bival x" "1 < N" "bival x ^ nat y < 65536 ^ (N - 1)"
  shows "\<exists>p. biPow N x y = Some p \<and> wf_bi N p \<and> bival p = bival x ^ nat y"
proof -
  have "wf_bi N (bigOne N)" "bival (bigOne N) = 1" using assms(5) by simp_all
  then show ?thesis
    using biPow_loop_correct [of y N "bigOne N" x] assms unfolding biPow_def by (metis mult_1 zero_less_one)
qed

end
