(* ===== verification/Rsa_Contract.thy ===== *)
theory Rsa_Contract
  imports Rsa_Limits Big_Int_Decimal
begin

text \<open>
  What the pages that encrypt a password may rely on, and the arithmetic below it: the properties
  of \<open>RSA.js\<close>, \<open>Barrett.js\<close> and \<open>BigInt.js\<close>, each with a concrete input at which its hypotheses
  hold.
\<close>

section \<open>Concrete numbers\<close>

lemma is_prime_by_small:
  assumes "1 < p" "p < n * n" "\<forall>d \<in> {2..<n}. \<not> d dvd p"
  shows "is_prime p"
  unfolding is_prime_def
proof (intro conjI ballI notI assms(1))
  fix d assume d: "d \<in> {2..<p}" "d dvd p"
  then obtain e where e: "p = d * e" by auto
  have "2 \<le> e"
  proof (rule ccontr)
    assume "\<not> 2 \<le> e"
    then have "e = 0 \<or> e = 1" by auto
    with e d(1) assms(1) show False by auto
  qed
  have small: "n \<le> k" if "2 \<le> k" "k dvd p" for k
    using assms(3) that by (meson atLeastLessThan_iff not_le)
  have "n \<le> d" "n \<le> e" using d \<open>2 \<le> e\<close> by (auto intro!: small simp: e)
  then have "n * n \<le> d * e" by (rule mult_le_mono)
  with e assms(2) show False by simp
qed

lemma small_divisors: "{2..<17} = {2, 3, 4, 5, 6, 7, 8, 9, 10, 11, 12, 13, 14, 15, 16 :: nat}"
  by (intro set_eqI) (simp, presburger)

lemma primes_257_263: "is_prime 257" "is_prime 263"
proof -
  have "\<forall>d \<in> {2..<17}. \<not> d dvd (257 :: nat)" "\<forall>d \<in> {2..<17}. \<not> d dvd (263 :: nat)"
    unfolding small_divisors by simp_all
  then show "is_prime 257" "is_prime 263" using is_prime_by_small [of 257 17] is_prime_by_small [of 263 17] by simp_all
qed

lemma key_exponents: "rsa_exponents 257 263 5 26829"
  using primes_257_263 by (simp add: rsa_exponents_def)

lemma hexval_key: "hexval (js ''5'') = 5" "hexval (js ''68cd'') = 26829" "hexval (js ''10807'') = 67591"
  and hexval_key_units: "hexval [53] = 5" "hexval [54, 56, 99, 100] = 26829" "hexval [49, 48, 56, 48, 55] = 67591"
  by (simp_all add: numval_def charToHex_def)

text \<open>Numbers of one digit.\<close>

definition small_bi :: "nat \<Rightarrow> int \<Rightarrow> bigint" where
  "small_bi N v = \<lparr>digits = Num v # replicate (N - 1) (Num 0), isNeg = False\<rparr>"

lemma small_bi:
  assumes "0 < N" "0 \<le> v" "v < 65536"
  shows "wf_bi N (small_bi N v)" "\<not> isNeg (small_bi N v)" "bival (small_bi N v) = v"
  using assms by (auto simp: small_bi_def wf_bi_def bival_def list_all_iff)

lemma small_bi_high: "0 < N \<Longrightarrow> 0 \<le> v \<Longrightarrow> v < 65536 \<Longrightarrow> biHighIndex (small_bi N v) = 0"
  using biHighIndex_le [of N "small_bi N v" 0] small_bi [of N v] by simp

section \<open>Passwords\<close>

text \<open>C1. A password of characters 1 to 255 that \<open>encryptedString\<close> encrypts with a key made by
  \<open>RSAKeyPair\<close> from two primes is what \<open>decryptedString\<close> makes of the ciphertext: both loops return, and
  the padding and the reversals cancel.\<close>

theorem password_roundtrip:
  assumes "rsa_exponents p q (nat (hexval ee)) (nat (hexval dd))" "hexval mm = int (p * q)"
    and "\<forall>c \<in> set ee. is_hex c" "\<forall>c \<in> set dd. is_hex c" "\<forall>c \<in> set mm. is_hex c"
    and "length ee \<le> 4 * N" "length dd \<le> 4 * N" "length mm \<le> 4 * N"
    and "65536 ^ h < hexval mm" "hexval mm < 65536 ^ Suc h" "0 < h" "2 * h + 4 \<le> N"
    and "s \<noteq> []" "\<forall>c \<in> set s. 0 < c \<and> c < 256"
  shows "\<exists>key c. RSAKeyPair N ee dd mm = Some key \<and> encryptedString N key s = Some c \<and>
    decryptedString N key c = Some s"
proof -
  obtain key where key: "RSAKeyPair N ee dd mm = Some key" "key_ok N key" "bival (key_e key) = hexval ee"
    "bival (key_d key) = hexval dd" "bival (key_m key) = hexval mm"
    using RSAKeyPair_correct [OF assms(3-12)] by blast
  have "key_pair key" by (rule rsa_key_pair [of key p q]) (simp_all add: key assms(1,2))
  with decrypt_encrypt [OF key(2) _ assms(13,14)] key(1) show ?thesis by blast
qed

lemma password_roundtrip_witness:
  "\<exists>key c. RSAKeyPair 6 (js ''5'') (js ''68cd'') (js ''10807'') = Some key \<and>
     encryptedString 6 key (js ''secret'') = Some c \<and> decryptedString 6 key c = Some (js ''secret'')"
  by (rule password_roundtrip [of 257 263 _ _ _ _ 1])
    (simp_all add: hexval_key_units key_exponents is_hex_def)

lemma example_key:
  obtains key where "RSAKeyPair 6 (js ''5'') (js ''68cd'') (js ''10807'') = Some key" "key_ok 6 key"
    "chunkSize key = 2" "bival (key_e key) = 5" "bival (key_d key) = 26829" "bival (key_m key) = 67591"
    "key_pair key"
proof -
  have "\<exists>key. RSAKeyPair 6 (js ''5'') (js ''68cd'') (js ''10807'') = Some key \<and> key_ok 6 key \<and>
      chunkSize key = 2 * 1 \<and> bival (key_e key) = hexval (js ''5'') \<and> bival (key_d key) = hexval (js ''68cd'') \<and>
      bival (key_m key) = hexval (js ''10807'')"
    by (rule RSAKeyPair_correct) (simp_all add: hexval_key_units is_hex_def)
  then obtain key where key: "RSAKeyPair 6 (js ''5'') (js ''68cd'') (js ''10807'') = Some key" "key_ok 6 key"
    "chunkSize key = 2" "bival (key_e key) = 5" "bival (key_d key) = 26829" "bival (key_m key) = 67591"
    unfolding hexval_key by auto
  have "key_pair key" by (rule rsa_key_pair [of key 257 263]) (simp_all add: key key_exponents)
  with key show thesis by (rule that)
qed

text \<open>The ciphertext is the blocks of the reversed password, filled up with NUL characters, each
  raised to the public exponent modulo the key's modulus and written in hexadecimal without leading
  zeros, separated by one space.\<close>

theorem ciphertext_words:
  assumes "key_ok N key" "bytes s" "s \<noteq> []" "\<forall>w \<in> set (blocks key s). cipher key (byteval w) \<noteq> 0"
  shows "\<exists>c. encryptedString N key s = Some c \<and>
    map hexval (split_on 32 c) = map (\<lambda>w. byteval w ^ nat (bival (key_e key)) mod bival (key_m key)) (blocks key s) \<and>
    (\<forall>t \<in> set (split_on 32 c). cipher_word N t)"
proof -
  obtain ts where ts: "encryptedString N key s = Some (join_with [32] ts)"
    "map hexval ts = map (\<lambda>w. cipher key (byteval w)) (blocks key s)" "\<forall>t \<in> set ts. cipher_word N t"
    using encryptedString_words [OF assms(1,2,4)] by blast
  have "blocks key s \<noteq> []" using assms(1,3) by (simp add: blocks_def chunks.simps key_ok_def)
  then have "ts \<noteq> []" using ts(2) by auto
  then have "split_on 32 (join_with [32] ts) = ts"
    by (rule split_on_join) (use ts(3) cipher_word_no_space in blast)
  then show ?thesis using ts by (auto simp: cipher_def)
qed

lemma ciphertext_words_witness:
  "\<exists>key c. RSAKeyPair 6 (js ''5'') (js ''68cd'') (js ''10807'') = Some key \<and>
     encryptedString 6 key (js ''ab'') = Some c \<and> map hexval (split_on 32 c) = [(98 + 256 * 97) ^ 5 mod 67591]"
proof -
  obtain key where k: "RSAKeyPair 6 (js ''5'') (js ''68cd'') (js ''10807'') = Some key" "key_ok 6 key"
    "chunkSize key = 2" "bival (key_e key) = 5" "bival (key_m key) = 67591" using example_key by metis
  have b: "blocks key (js ''ab'') = [[98, 97]]" "blocks key [97, 98] = [[98, 97]]"
    by (simp_all add: blocks_def k(3) padding_def chunks.simps)
  have "\<exists>c. encryptedString 6 key (js ''ab'') = Some c \<and>
    map hexval (split_on 32 c) = map (\<lambda>w. byteval w ^ nat (bival (key_e key)) mod bival (key_m key)) (blocks key (js ''ab'')) \<and>
    (\<forall>t \<in> set (split_on 32 c). cipher_word 6 t)"
    by (rule ciphertext_words [OF k(2)]) (simp_all add: b cipher_def k(4,5))
  then show ?thesis using k(1) b by (auto simp: k(4,5))
qed

text \<open>C13. With a key that \<open>RSAKeyPair\<close> makes from a modulus of \<open>h + 1\<close> digits, encryption of a password of
  characters below 256 returns exactly when the chunk size is positive, that is the modulus has more than one
  digit, and no block has the power 0 modulo the modulus; otherwise the loop that pads the password, or the
  one that removes leading zeros, never ends.\<close>

theorem encryption_returns_iff:
  assumes "RSAKeyPair N ee dd mm = Some key" "bytes s"
    and "\<forall>c \<in> set ee. is_hex c" "\<forall>c \<in> set dd. is_hex c" "\<forall>c \<in> set mm. is_hex c"
    and "length ee \<le> 4 * N" "length dd \<le> 4 * N" "length mm \<le> 4 * N"
    and "65536 ^ h < hexval mm" "hexval mm < 65536 ^ Suc h" "2 * h + 4 \<le> N"
  shows "((\<exists>c. encryptedString N key s = Some c) \<longleftrightarrow>
      0 < chunkSize key \<and> \<not> (\<exists>w. w \<in> set (blocks key s) \<and> byteval w ^ nat (hexval ee) mod hexval mm = 0)) \<and>
    (0 < chunkSize key \<longleftrightarrow> 0 < h)"
proof (cases "h = 0")
  case True
  note m = biFromHex_correct [OF assms(5,8)]
  have "0 < N" "0 \<le> hexval mm" using assms(11) numval_nonneg by simp_all
  then have "biHighIndex (biFromHex N mm) = 0"
    using biHighIndex_le [OF m(1), of 0] assms(10) True by (simp add: m(2))
  then have "chunkSize key = 0"
    using assms(1) by (auto simp: RSAKeyPair_def Let_def split: Option.bind_splits)
  then show ?thesis using encrypt_chunkSize_zero [of key N s] True by simp
next
  case False
  then obtain key' where "RSAKeyPair N ee dd mm = Some key'" "key_ok N key'" "chunkSize key' = 2 * h"
    "bival (key_e key') = hexval ee" "bival (key_m key') = hexval mm"
    using RSAKeyPair_correct [OF assms(3-10) _ assms(11)] by blast
  with assms(1) have k: "key_ok N key" "chunkSize key = 2 * h" "bival (key_e key) = hexval ee" "bival (key_m key) = hexval mm" by simp_all
  have "(\<exists>c. encryptedString N key s = Some c) \<longleftrightarrow> \<not> (\<exists>w \<in> set (blocks key s). cipher key (byteval w) = 0)"
    using encrypt_hangs [OF k(1) assms(2)] encryptedString_words [OF k(1) assms(2)] by (metis option.distinct(1))
  then show ?thesis using False k(2-4) by (auto simp: cipher_def)
qed

lemma encryption_returns_iff_witness:
  "\<exists>key. RSAKeyPair 6 (js ''5'') (js ''68cd'') (js ''10807'') = Some key \<and> 0 < chunkSize key \<and>
    encryptedString 6 key [0] = None \<and> (\<exists>c. encryptedString 6 key (js ''ab'') = Some c)"
proof -
  obtain key where k: "RSAKeyPair 6 (js ''5'') (js ''68cd'') (js ''10807'') = Some key" "chunkSize key = 2"
    using example_key by metis
  have b: "blocks key [0] = [[0, 0]]" "blocks key (js ''ab'') = [[98, 97]]"
    by (simp_all add: blocks_def k(2) padding_def chunks.simps)
  have iff: "(\<exists>c. encryptedString 6 key s = Some c) \<longleftrightarrow>
      0 < chunkSize key \<and> \<not> (\<exists>w. w \<in> set (blocks key s) \<and> byteval w ^ nat (hexval (js ''5'')) mod hexval (js ''10807'') = 0)"
    if "bytes s" for s
    by (rule conjunct1 [OF encryption_returns_iff [where h = 1, OF k(1) that]]) (simp_all add: hexval_key_units is_hex_def)
  have "\<not> (\<exists>c. encryptedString 6 key [0] = Some c)" using iff [of "[0]"] unfolding b hexval_key by simp
  then have "encryptedString 6 key [0] = None" by (cases "encryptedString 6 key [0]") auto
  moreover have "\<exists>c. encryptedString 6 key (js ''ab'') = Some c"
    using iff [of "js ''ab''"] unfolding b hexval_key k(2) by simp
  ultimately show ?thesis using k by auto
qed

text \<open>C27. Two different passwords with the same ciphertext under every key: a character above 255
  carries into its neighbour when the two are packed into a digit.\<close>

theorem wide_characters_collide:
  assumes "chunkSize key = 2 * h" "0 < h" "h \<le> N" "c < 65280" "d < 65535"
  shows "encryptedString N key [d, c + 256] = encryptedString N key [Suc d, c] \<and> [d, c + 256] \<noteq> [Suc d, c]"
  using encrypt_collision [OF assms] by simp

lemma wide_characters_collide_witness:
  "\<exists>key. RSAKeyPair 6 (js ''5'') (js ''68cd'') (js ''10807'') = Some key \<and>
     encryptedString 6 key [98, 97 + 256] = encryptedString 6 key (js ''ca'')"
proof -
  obtain key where k: "RSAKeyPair 6 (js ''5'') (js ''68cd'') (js ''10807'') = Some key" "chunkSize key = 2 * 1"
    using example_key by (metis mult.right_neutral)
  have "encryptedString 6 key [98, 97 + 256] = encryptedString 6 key [Suc 98, 97] \<and> [98, 97 + 256] \<noteq> [Suc 98, 97 :: nat]"
    by (rule wide_characters_collide [OF k(2)]) simp_all
  then show ?thesis using k(1) by auto
qed

text \<open>With a modulus of one digit (chunk size 0) encryption never returns, and the empty password
  is encrypted to the empty text, whose decryption is one NUL character.\<close>

theorem encryption_edge_cases:
  assumes "chunkSize key = 0" "key_ok N key'" "0 < bival (key_d key')"
  shows "encryptedString N key s = None \<and>
    encryptedString N key' [] = Some [] \<and> decryptedString N key' [] = Some [0]"
  using encrypt_chunkSize_zero [OF assms(1)] decrypt_empty [OF assms(2,3)] by simp

lemma encryption_edge_cases_witness:
  "\<exists>key. RSAKeyPair 6 (js ''5'') (js ''68cd'') (js ''10807'') = Some key \<and>
     encryptedString 6 key [] = Some [] \<and> decryptedString 6 key [] = Some [0] \<and>
     encryptedString 6 (key\<lparr>chunkSize := 0\<rparr>) (js ''a'') = None"
proof -
  obtain key where k: "RSAKeyPair 6 (js ''5'') (js ''68cd'') (js ''10807'') = Some key" "key_ok 6 key"
    "bival (key_d key) = 26829" using example_key by metis
  have "encryptedString 6 (key\<lparr>chunkSize := 0\<rparr>) (js ''a'') = None \<and>
    encryptedString 6 key [] = Some [] \<and> decryptedString 6 key [] = Some [0]"
    by (rule encryption_edge_cases) (simp_all add: k(2,3))
  then show ?thesis using k(1) by auto
qed


section \<open>Arithmetic\<close>

text \<open>C7. Long division: for a dividend that is not negative and leaves a spare digit, and a divisor
  that is not 0, \<open>biDivideModulo\<close> returns the quotient and the remainder.\<close>

theorem division_correct:
  assumes "wf_bi N x" "\<not> isNeg x" "bival x < 65536 ^ (N - 1)" "wf_bi N y" "bival y \<noteq> 0"
  shows "\<exists>q r. biDivideModulo N x y = Some (q, r) \<and> wf_bi N q \<and> wf_bi N r \<and>
    bival x = bival q * bival y + bival r \<and> 0 \<le> bival r \<and> bival r < \<bar>bival y\<bar>"
proof -
  obtain q r where qr: "biDivideModulo N x y = Some (q, r)" "wf_bi N q" "wf_bi N r"
    "bival r = bival x mod \<bar>bival y\<bar>" "bival q = sgn (bival y) * (bival x div \<bar>bival y\<bar>)"
    using biDivideModulo_correct [OF assms] by blast
  have "bival q * bival y = bival x div \<bar>bival y\<bar> * \<bar>bival y\<bar>"
    unfolding qr(5) by (simp add: abs_sgn ac_simps)
  then have "bival x = bival q * bival y + bival r" unfolding qr(4) by (simp only: div_mult_mod_eq)
  moreover have "0 \<le> bival r" "bival r < \<bar>bival y\<bar>" using assms(5) by (simp_all add: qr(4))
  ultimately show ?thesis using qr(1-3) by blast
qed

lemma division_correct_witness:
  "\<exists>q r. biDivideModulo 4 (small_bi 4 50000) (small_bi 4 7) = Some (q, r) \<and> bival q * 7 + bival r = 50000 \<and>
     0 \<le> bival r \<and> bival r < 7"
proof -
  have "\<exists>q r. biDivideModulo 4 (small_bi 4 50000) (small_bi 4 7) = Some (q, r) \<and> wf_bi 4 q \<and> wf_bi 4 r \<and>
    bival (small_bi 4 50000) = bival q * bival (small_bi 4 7) + bival r \<and> 0 \<le> bival r \<and> bival r < \<bar>bival (small_bi 4 7)\<bar>"
    by (rule division_correct) (simp_all add: small_bi)
  then show ?thesis by (auto simp: small_bi)
qed

text \<open>Dividing a number that is not negative by 0 never returns.\<close>

theorem division_by_zero:
  assumes "wf_bi N x" "\<not> isNeg x" "wf_bi N y" "\<not> isNeg y" "bival y = 0" "0 < N"
  shows "biDivideModulo N x y = None"
  using biDivideModulo_zero [OF assms] .

lemma division_by_zero_witness: "biDivideModulo 4 (small_bi 4 1) (small_bi 4 0) = None"
  by (rule division_by_zero) (simp_all add: small_bi)

text \<open>Negative dividends: \<open>-7\<close> divided by \<open>2\<close> is given as quotient \<open>-3\<close> and remainder \<open>13\<close>, and
  \<open>biToDecimal\<close> prints \<open>-7\<close> as \<open>-3\<close>.\<close>

theorem division_of_negative_numbers:
  "map_option (\<lambda>(q, r). (bival q, bival r)) (biDivideModulo 2 (biFromNumber 2 (-7)) (biFromNumber 2 2)) = Some (-3, 13) \<and>
   biToDecimal 2 (biFromNumber 2 (-7)) = Some (js ''-3'')"
  using biDivideModulo_negative biToDecimal_negative by blast

text \<open>C28. Sums, differences and products: whenever the result fits the digits of a number it is the
  result of the signed integers.\<close>

theorem ring_operations:
  assumes "wf_bi N x" "wf_bi N y"
    and "\<bar>bival x + bival y\<bar> < 65536 ^ N" "\<bar>bival x - bival y\<bar> < 65536 ^ N"
    and "biHighIndex x + biHighIndex y + 1 < N"
  shows "bival (biAdd N x y) = bival x + bival y \<and> bival (biSubtract N x y) = bival x - bival y \<and>
    bival (biMultiply N x y) = bival x * bival y \<and>
    wf_bi N (biAdd N x y) \<and> wf_bi N (biSubtract N x y) \<and> wf_bi N (biMultiply N x y)"
  using biAdd_correct [OF assms(1-3)] biSubtract_correct [OF assms(1,2,4)] biMultiply_correct [OF assms(1,2,5)] by simp

lemma ring_operations_witness:
  "bival (biAdd 3 (small_bi 3 60000) (small_bi 3 50000)) = 110000 \<and>
   bival (biSubtract 3 (small_bi 3 50000) (small_bi 3 60000)) = - 10000 \<and>
   bival (biMultiply 3 (small_bi 3 60000) (small_bi 3 50000)) = 3000000000"
  using ring_operations [of 3 "small_bi 3 60000" "small_bi 3 50000"]
    ring_operations [of 3 "small_bi 3 50000" "small_bi 3 60000"]
  by (simp add: small_bi small_bi_high)

text \<open>C38. Shifts: to the left modulo the size of the number, to the right rounding towards 0.\<close>

theorem shifts_correct:
  assumes "wf_bi N x" "0 < N"
  shows "wf_bi N (biShiftLeft N x n) \<and> wf_bi N (biShiftRight N x n) \<and>
    \<bar>bival (biShiftLeft N x n)\<bar> = \<bar>bival x\<bar> * 2 ^ n mod 65536 ^ N \<and>
    \<bar>bival (biShiftRight N x n)\<bar> = \<bar>bival x\<bar> div 2 ^ n \<and>
    isNeg (biShiftLeft N x n) = isNeg x \<and> isNeg (biShiftRight N x n) = isNeg x"
proof -
  have a: "\<bar>bival y\<bar> = vald (digits y)" if "wf_bi N y" for y
    using vald_nonneg [OF wf_biD(2) [OF that]] by (simp add: bival_def)
  show ?thesis
    using biShiftLeft_correct [OF assms, of n] biShiftRight_correct [OF assms, of n] a assms(1) by simp
qed

lemma shifts_correct_witness:
  "\<bar>bival (biShiftLeft 2 (small_bi 2 40000) 5)\<bar> = 1280000 \<and> \<bar>bival (biShiftRight 2 (small_bi 2 40000) 5)\<bar> = 1250"
  using shifts_correct [of 2 "small_bi 2 40000" 5] by (simp add: small_bi)

text \<open>C12. Barrett reduction and \<open>biModulo\<close> give the same number for every input below the square of
  the radix power of the modulus.\<close>

theorem barrett_is_modulo:
  assumes "mu_ok N b" "wf_bi N x" "\<not> isNeg x" "bival x < 65536 ^ (2 * bk b)"
  shows "BarrettMu_modulo N b x = biModulo N x (modulus b) \<and> BarrettMu_modulo N b x \<noteq> None"
proof -
  have m: "wf_bi N (modulus b)" "\<not> isNeg (modulus b)" "65536 ^ (bk b - 1) < bival (modulus b)" "2 * bk b + 2 \<le> N"
    using assms(1) by (auto simp: mu_ok_def Let_def)
  have m0: "0 < bival (modulus b)" using m(3) zero_less_power [of "65536 :: int" "bk b - 1"] by linarith
  have "(65536 :: int) ^ (2 * bk b) \<le> 65536 ^ (N - 1)" using m(4) by (intro power_increasing) auto
  then have "bival x < 65536 ^ (N - 1)" using assms(4) by linarith
  then obtain q r where qr: "biDivideModulo N x (modulus b) = Some (q, r)" "wf_bi N r" "\<not> isNeg r"
    "bival r = bival x mod bival (modulus b)"
    using biDivideModulo_correct [OF assms(2,3) _ m(1)] m0 by auto
  obtain r' where r': "BarrettMu_modulo N b x = Some r'" "wf_bi N r'" "\<not> isNeg r'"
    "bival r' = bival x mod bival (modulus b)"
    using BarrettMu_modulo_correct [OF assms] by blast
  have "r' = r" using qr r' by (intro bigint_eqI [of N]) auto
  then show ?thesis using qr(1) r'(1) by (simp add: biModulo_def)
qed

lemma example_barrett: "\<exists>b. BarrettMu 6 (small_bi 6 50000) = Some b \<and> mu_ok 6 b \<and> modulus b = small_bi 6 50000 \<and> bk b = 1"
proof -
  obtain b where b: "BarrettMu 6 (small_bi 6 50000) = Some b" "mu_ok 6 b" "modulus b = small_bi 6 50000"
    using BarrettMu_correct [of 6 "small_bi 6 50000"] small_bi [of 6 50000] small_bi_high [of 6 50000] by auto
  have "bk b = 1" using b(1) small_bi_high [of 6 50000]
    by (auto simp: BarrettMu_def Let_def biCopy_same split: Option.bind_splits)
  with b show ?thesis by blast
qed

lemma barrett_is_modulo_witness:
  "\<exists>b. BarrettMu 6 (small_bi 6 50000) = Some b \<and> BarrettMu_modulo 6 b (small_bi 6 65000) = biModulo 6 (small_bi 6 65000) (small_bi 6 50000)"
proof -
  obtain b where b: "BarrettMu 6 (small_bi 6 50000) = Some b" "mu_ok 6 b" "modulus b = small_bi 6 50000" "bk b = 1"
    using example_barrett by blast
  have "BarrettMu_modulo 6 b (small_bi 6 65000) = biModulo 6 (small_bi 6 65000) (modulus b) \<and>
      BarrettMu_modulo 6 b (small_bi 6 65000) \<noteq> None"
    by (rule barrett_is_modulo [OF b(2)]) (simp_all add: small_bi b(4))
  then show ?thesis using b(1,3) by auto
qed

text \<open>Modular exponentiation by squaring returns the power, the same through Barrett reduction and
  through long division.\<close>

theorem powers_agree:
  assumes "mu_ok N b" "wf_bi N x" "\<not> isNeg x" "bival x < bival (modulus b)" "wf_bi N y" "\<not> isNeg y"
    and "2 * biHighIndex (modulus b) + 2 < N" "1 < bival (modulus b)"
  shows "\<exists>r. BarrettMu_powMod N b x y = Some r \<and> biPowMod N x y (modulus b) = Some r \<and>
    bival r = bival x ^ nat (bival y) mod bival (modulus b)"
proof -
  obtain r where r: "BarrettMu_powMod N b x y = Some r" "barrett_ok N b r"
    "bival r = bival x ^ nat (bival y) mod bival (modulus b)"
    using BarrettMu_powMod_correct [OF _ assms(8,5,6), of x] assms(1-4) by (auto simp: barrett_ok_def)
  have "mod_ok N (modulus b) x" using assms by (auto simp: mod_ok_def mu_ok_def Let_def)
  then obtain s where s: "biPowMod N x y (modulus b) = Some s" "mod_ok N (modulus b) s"
    "bival s = bival x ^ nat (bival y) mod bival (modulus b)"
    using biPowMod_correct assms(5,6,8) by blast
  have "s = r" using r(2,3) s(2,3) by (intro bigint_eqI [of N]) (auto simp: barrett_ok_def mod_ok_def)
  with r(1,3) s(1) show ?thesis by blast
qed

lemma powers_agree_witness:
  "\<exists>b r. BarrettMu 6 (small_bi 6 50000) = Some b \<and> BarrettMu_powMod 6 b (small_bi 6 3) (small_bi 6 11) = Some r \<and>
     biPowMod 6 (small_bi 6 3) (small_bi 6 11) (small_bi 6 50000) = Some r \<and> bival r = 27147"
proof -
  obtain b where b: "BarrettMu 6 (small_bi 6 50000) = Some b" "mu_ok 6 b" "modulus b = small_bi 6 50000"
    using example_barrett by blast
  have "\<exists>r. BarrettMu_powMod 6 b (small_bi 6 3) (small_bi 6 11) = Some r \<and>
      biPowMod 6 (small_bi 6 3) (small_bi 6 11) (modulus b) = Some r \<and>
      bival r = bival (small_bi 6 3) ^ nat (bival (small_bi 6 11)) mod bival (modulus b)"
    by (rule powers_agree [OF b(2)]) (simp_all add: small_bi b(3) small_bi_high)
  then show ?thesis using b(1) by (auto simp: small_bi b(3))
qed

section \<open>Text\<close>

text \<open>C29. Writing a number that is not negative in hexadecimal or in a radix from 2 to 36 and reading it
  back gives the same digits array.\<close>

theorem number_text_roundtrip:
  assumes "2 \<le> N" "wf_bi N x" "\<not> isNeg x" "bival x * r < 65536 ^ (N - 1)" "2 \<le> r" "r \<le> 36"
  shows "biFromHex N (biToHex x) = x \<and> (\<exists>s. biToString N x r = Some s \<and> biFromString N s r = x)"
proof -
  have N: "0 < N" using assms(1) by simp
  note w = biToHex_correct [OF assms(2) N]
  have "\<forall>c \<in> set (biToHex x). is_hex c" "length (biToHex x) \<le> 4 * N"
    using w(2,3) lower_hex_is_hex biHighIndex_less [OF assms(2) N] by auto
  note f = biFromHex_correct [OF this]
  have "bival (biFromHex N (biToHex x)) = bival x"
    using f(2) w(1) bival_nonneg [OF assms(3,2)] by simp
  then have "biFromHex N (biToHex x) = x" using f assms(2,3) by (intro bigint_eqI [of N]) auto
  with biFromString_biToString [OF assms(1,5,6,2,3,4)] show ?thesis by simp
qed

lemma number_text_roundtrip_witness:
  "biFromHex 3 (biToHex (small_bi 3 48879)) = small_bi 3 48879 \<and>
   (\<exists>s. biToString 3 (small_bi 3 48879) 7 = Some s \<and> biFromString 3 s 7 = small_bi 3 48879)"
  by (rule number_text_roundtrip) (simp_all add: small_bi)

text \<open>\<open>biFromDecimal\<close> is wrong for texts of more than 15 digits: the first groups of digits should be
  multiplied by \<open>10 ^ 15\<close>, but the constant \<open>lr10\<close> is made with a 32-bit shift and holds 32768.\<close>

theorem decimal_text_wrong:
  assumes "hs \<noteq> []" "hd hs \<noteq> 48" "length hs \<le> 15" "length ls = 15" "\<forall>c \<in> set (hs @ ls). is_digit10 c"
    and "digits_value 10 hs < 2 ^ 31" "digits_value 10 ls < 2 ^ 31"
  shows "bival (biFromDecimal 20 (hs @ ls)) = int (digits_value 10 hs) * 32768 + int (digits_value 10 ls) \<and>
    bival (biFromDecimal 20 (hs @ ls)) < int (digits_value 10 (hs @ ls))"
proof -
  let ?h = "int (digits_value 10 hs)" and ?l = "int (digits_value 10 ls)"
  obtain c s where s: "hs = c # s" using assms(1) by (cases hs) auto
  then have "0 < digit_value c" using assms(2,5) by (auto simp: is_digit10_def digit_value_def)
  then have "0 < digit_value c * 10 ^ length s + digits_value 10 s" by simp
  moreover have "digits_value 10 hs = digit_value c * 10 ^ length s + digits_value 10 s"
    using digits_value_append [of 10 "[c]" s] s by (simp add: digits_value_def)
  ultimately have "0 < ?h" by (simp only: of_nat_0_less_iff)
  moreover have "int (digits_value 10 (hs @ ls)) = ?h * 10 ^ 15 + ?l"
    using digits_value_append [of 10 hs ls] assms(4) by simp
  ultimately show ?thesis using biFromDecimal_chunks [OF assms] by simp
qed

lemma decimal_text_wrong_witness: "bival (biFromDecimal 20 (js ''1000000000000000'')) = 32768"
  using decimal_text_wrong [of "js ''1''" "js ''000000000000000''"]
  by (simp add: is_digit10_def digits_value_def digit_value_def)

text \<open>\<open>biPow\<close> returns the power when it fits the digits of a number, and never returns for a negative
  exponent, which the shift takes to \<open>-1\<close> and not to 0.\<close>

theorem power_returns_iff:
  assumes "wf_bi N x" "0 < bival x" "1 < N" "- (2 ^ 31) \<le> y" "y < 2 ^ 31"
    and "y < 0 \<or> bival x ^ nat y < 65536 ^ (N - 1)"
  shows "(biPow N x y \<noteq> None \<longleftrightarrow> 0 \<le> y) \<and> (\<forall>p. biPow N x y = Some p \<longrightarrow> bival p = bival x ^ nat y)"
proof (cases "0 \<le> y")
  case True
  then show ?thesis using biPow_correct [OF True assms(5,1-3)] assms(6) by auto
next
  case False
  then show ?thesis using biPow_negative [OF assms(4)] by simp
qed

lemma power_returns_iff_witness: "biPow 4 (small_bi 4 7) (- 1) = None \<and> biPow 4 (small_bi 4 7) 5 \<noteq> None"
proof -
  have x: "wf_bi 4 (small_bi 4 7)" "bival (small_bi 4 7) = 7" by (simp_all add: small_bi)
  have "biPow 4 (small_bi 4 7) (- 1) = None" using power_returns_iff [OF x(1), of "- 1"] x(2) by simp
  moreover have "biPow 4 (small_bi 4 7) 5 \<noteq> None" using power_returns_iff [OF x(1), of 5] x(2) by simp
  ultimately show ?thesis ..
qed

end
