(* ===== verification/Ecma_Plus.thy ===== *)
theory Ecma_Plus
  imports Js_Float
begin

text \<open>
  \<open>assets/libs/ecma.script.plus.js\<close>, loaded by every page: the replacements of \<open>parseFloat\<close> and
  \<open>parseInt\<close>, the number formats, and the methods added to arrays and strings. The functions
  take any value; \<open>jsarg\<close> has the ones the pages pass.
\<close>

datatype jsarg = A_undefined | A_null | A_str jsstr | A_num jsf

section \<open>Parsing\<close>

fun to_str :: "jsarg \<Rightarrow> jsstr" where
  "to_str A_undefined = js ''undefined''"
| "to_str A_null = js ''null''"
| "to_str (A_str s) = s"
| "to_str (A_num x) = string_of_float x"

fun to_num :: "jsarg \<Rightarrow> jsf" where
  "to_num A_undefined = FNaN"
| "to_num A_null = Fin 0"
| "to_num (A_str s) = string_to_number s"
| "to_num (A_num x) = x"

text \<open>\<open>s === null || s === undefined || s === ""\<close>\<close>

definition absent :: "jsarg \<Rightarrow> bool" where
  "absent s \<longleftrightarrow> s = A_null \<or> s = A_undefined \<or> s = A_str []"

text \<open>\<open>s.replace(/[^\d\.-]/g, "")\<close>\<close>

definition keep_number :: "jsstr \<Rightarrow> jsstr" where
  "keep_number s = filter (\<lambda>c. is_digit10 c \<or> c = 46 \<or> c = 45) s"

text \<open>\<open>s == Infinity || s == -Infinity\<close>: a text is converted to a number first.\<close>

definition is_infinite :: "jsarg \<Rightarrow> bool" where
  "is_infinite s \<longleftrightarrow> (case to_num s of FInf _ \<Rightarrow> True | _ \<Rightarrow> False)"

definition parseFloat :: "jsarg \<Rightarrow> jsarg" where
  "parseFloat s =
     (if absent s then A_num FNaN
      else if is_infinite s then s
      else A_num (native_parseFloat (keep_number (to_str s))))"

definition num_to_jsf :: "jsnum \<Rightarrow> jsf" where
  "num_to_jsf n = (case n of Num v \<Rightarrow> round64 (of_int v) | _ \<Rightarrow> FNaN)"

definition parseInt :: "jsarg \<Rightarrow> nat \<Rightarrow> jsarg" where
  "parseInt s radix =
     (if absent s then A_num FNaN
      else if is_infinite s then s
      else A_num (num_to_jsf (native_parseInt (keep_number (to_str s)) radix)))"

section \<open>Number formats\<close>

text \<open>The loop that puts commas; \<open>l\<close> is the reversed text before the point.\<close>

definition group_loop :: "jsstr \<Rightarrow> jsstr" where
  "group_loop l =
     fold (\<lambda>i t. t @ [l ! i] @ (if (i + 1) mod 3 = 0 \<and> i + 1 \<noteq> length l then [44] else []))
       [0..<length l] []"

text \<open>\<open>n >= 0 && n <= 20 ? n : 2\<close>, with \<open>None\<close> for \<open>undefined\<close>.\<close>

definition format_digits :: "int option \<Rightarrow> nat" where
  "format_digits n = (case n of Some k \<Rightarrow> if 0 \<le> k \<and> k \<le> 20 then nat k else 2 | None \<Rightarrow> 2)"

definition formatFloat :: "jsarg \<Rightarrow> int option \<Rightarrow> jsstr" where
  "formatFloat s n =
     (if absent s \<or> to_num s = FNaN then []
      else
        let n = format_digits n;
            s = to_fixed (native_parseFloat (keep_number (to_str s))) n;
            parts = split_on 46 s;
            l = rev (hd parts);
            r = (if 1 < length parts then parts ! 1 else js ''undefined'')
        in rev (group_loop l) @ (if n = 0 then [] else 46 # r))"

definition formatInt :: "jsarg \<Rightarrow> jsstr" where
  "formatInt s = formatFloat s (Some 0)"

text \<open>The unit formats take numbers; the quotient is rounded to a double.\<close>

definition scaled :: "rat \<Rightarrow> rat \<Rightarrow> jsstr" where
  "scaled x u = to_fixed (round64 (x / u)) 2"

definition formatFileSize :: "jsarg \<Rightarrow> jsstr" where
  "formatFileSize bytes =
     (case bytes of
        A_num (Fin x) \<Rightarrow>
          if x \<ge> 1000000000 then scaled x 1000000000 @ js '' GB''
          else if x \<ge> 1000000 then scaled x 1000000 @ js '' MB''
          else scaled x 1000 @ js '' KB''
      | A_num (FInf neg) \<Rightarrow> (if neg then js ''-Infinity KB'' else js ''Infinity GB'')
      | A_num FNaN \<Rightarrow> js ''NaN KB''
      | _ \<Rightarrow> [])"

definition formatBitrate :: "jsarg \<Rightarrow> jsstr" where
  "formatBitrate bits =
     (case bits of
        A_num (Fin x) \<Rightarrow>
          if x \<ge> 1000000000 then scaled x 1000000000 @ js '' Gbit/s''
          else if x \<ge> 1000000 then scaled x 1000000 @ js '' Mbit/s''
          else if x \<ge> 1000 then scaled x 1000 @ js '' kbit/s''
          else to_fixed (Fin x) 2 @ js '' bit/s''
      | A_num (FInf neg) \<Rightarrow> (if neg then js ''-Infinity bit/s'' else js ''Infinity Gbit/s'')
      | A_num FNaN \<Rightarrow> js ''NaN bit/s''
      | _ \<Rightarrow> [])"

text \<open>\<open>s.slice(-2)\<close>\<close>

definition last_two :: "jsstr \<Rightarrow> jsstr" where
  "last_two s = drop (length s - 2) s"

text \<open>A whole number of seconds, whose date and UTC hours, minutes and seconds follow from it.\<close>

definition formatTime :: "int \<Rightarrow> jsstr" where
  "formatTime seconds =
     (let days = seconds div 86400;
          two = (\<lambda>v. last_two (48 # string_of_num (Num v)))
      in (if days \<noteq> 0 then string_of_num (Num days) @ js ''d '' else []) @
         two (seconds div 3600 mod 24) @ js '':'' @ two (seconds div 60 mod 60) @ js '':'' @ two (seconds mod 60))"

definition formatPercentage :: "rat \<Rightarrow> jsstr" where
  "formatPercentage floatValue = to_fixed (round64 (floatValue * 100)) 2 @ js '' %''"

section \<open>Arrays and strings\<close>

text \<open>\<open>for (var i = this.length; i-- && this[i] !== v;);\<close> with \<open>===\<close> as equality of the values.\<close>

fun indexOf_loop :: "'a list \<Rightarrow> 'a \<Rightarrow> nat \<Rightarrow> int" where
  "indexOf_loop a v 0 = -1"
| "indexOf_loop a v (Suc i) = (if a ! i \<noteq> v then indexOf_loop a v i else int i)"

definition array_indexOf :: "'a list \<Rightarrow> 'a \<Rightarrow> int" where
  "array_indexOf a v = indexOf_loop a v (length a)"

definition array_remove :: "'a list \<Rightarrow> 'a \<Rightarrow> 'a list \<times> bool" where
  "array_remove arr b =
     (let a = array_indexOf arr b
      in if a \<ge> 0 then (take (nat a) arr @ drop (Suc (nat a)) arr, True) else (arr, False))"

text \<open>
  \<open>/[^\x00-\xff]/ig\<close>: characters above 255. The flag \<open>i\<close> also excludes the three of them whose
  upper case is that of a character below 256 (\<open>0xFF\<close>, \<open>0xB5\<close>).
\<close>

definition wide_char :: "nat \<Rightarrow> bool" where
  "wide_char c \<longleftrightarrow> 255 < c \<and> c \<notin> {0x178, 0x39C, 0x3BC}"

definition getBytes :: "jsstr \<Rightarrow> nat" where
  "getBytes s = length s + length (filter wide_char s)"


section \<open>Parsing: correctness\<close>

lemma keep_number_int: "keep_number (string_of_num (Num v)) = string_of_num (Num v)"
proof -
  have "\<forall>c \<in> set (string_of_num (Num v)). is_digit10 c \<or> c = 45"
    using string_of_nat_is_digit10 by (auto simp: string_of_num_def)
  then show ?thesis unfolding keep_number_def by (intro filter_True) auto
qed

lemma string_of_num_not_Nil [simp]: "string_of_num (Num v) \<noteq> []"
  by (simp add: string_of_num_def)

theorem parseInt_text:
  assumes "\<bar>v\<bar> \<le> 2 ^ 53"
  shows "parseInt (A_str (string_of_num (Num v))) 0 = A_num (Fin (of_int v))"
proof -
  have "to_num (A_str (string_of_num (Num v))) = Fin (of_int v)"
    using assms by (simp add: string_to_number_int int_to_jsf_small)
  then have "\<not> is_infinite (A_str (string_of_num (Num v)))" by (simp add: is_infinite_def)
  then show ?thesis
    using assms by (simp add: parseInt_def absent_def keep_number_int native_parseInt_string_of_num num_to_jsf_def round64_int)
qed

lemma int_text_num: "\<bar>v\<bar> \<le> 2 ^ 53 \<Longrightarrow> to_num (A_str (string_of_num (Num v))) = Fin (of_int v)"
  by (simp add: string_to_number_int int_to_jsf_small)

lemma int_text_not_NaN: "\<bar>v\<bar> \<le> 2 ^ 53 \<Longrightarrow> to_num (A_str (string_of_num (Num v))) \<noteq> FNaN"
  by (subst int_text_num) simp_all

lemma int_text_float:
  assumes "\<bar>v\<bar> \<le> 2 ^ 53"
  shows "native_parseFloat (keep_number (string_of_num (Num v))) = Fin (of_int v)"
proof -
  let ?t = "string_of_num (Num v)"
  have "hd ?t = 45 \<or> is_digit10 (hd ?t)"
    using string_of_nat_is_digit10 [of "nat \<bar>v\<bar>"] string_of_nat_not_Nil [of "nat \<bar>v\<bar>"]
    by (auto simp: string_of_num_def dest: hd_in_set)
  then have "\<not> is_space (hd ?t)" by (auto simp: is_space_def is_digit10_def)
  then have "dropWhile is_space ?t = ?t" by (cases ?t) auto
  then show ?thesis
    using assms by (simp add: keep_number_int native_parseFloat_def parse_signed_int int_to_jsf_small)
qed

lemma parseFloat_int_text:
  assumes "\<bar>v\<bar> \<le> 2 ^ 53"
  shows "to_num (parseFloat (A_str (string_of_num (Num v)))) = Fin (of_int v)"
  using int_text_num [OF assms] int_text_float [OF assms]
  by (simp add: parseFloat_def is_infinite_def absent_def)

section \<open>Thousands\<close>

text \<open>Groups of three from the right.\<close>

function thousands :: "jsstr \<Rightarrow> jsstr" where
  "thousands s =
     (if length s \<le> 3 then s else thousands (take (length s - 3) s) @ 44 # drop (length s - 3) s)"
  by pat_completeness auto
termination by (relation "measure length") auto

declare thousands.simps [simp del]

function group_spec :: "jsstr \<Rightarrow> jsstr" where
  "group_spec l = (if length l \<le> 3 then l else take 3 l @ 44 # group_spec (drop 3 l))"
  by pat_completeness auto
termination by (relation "measure length") auto

declare group_spec.simps [simp del]

lemma group_loop_concat:
  "group_loop l = concat (map (\<lambda>i. l ! i # (if (i + 1) mod 3 = 0 \<and> i + 1 \<noteq> length l then [44] else [])) [0..<length l])"
  using fold_collect [of "\<lambda>i. l ! i # (if (i + 1) mod 3 = 0 \<and> i + 1 \<noteq> length l then [44] else [])" "[0..<length l]" "[]"]
  by (simp add: group_loop_def)

lemma group_loop_spec: "group_loop l = group_spec l"
proof (induction l rule: group_spec.induct)
  case (1 l)
  show ?case
  proof (cases "length l \<le> 3")
    case True
    then have "l = [] \<or> (\<exists>a. l = [a]) \<or> (\<exists>a b. l = [a, b]) \<or> (\<exists>a b c. l = [a, b, c])"
      by (cases l; cases "tl l"; cases "tl (tl l)"; cases "tl (tl (tl l))") auto
    moreover have "group_loop [] = []" "group_loop [a] = [a]" "group_loop [a, b] = [a, b]"
      "group_loop [a, b, c] = [a, b, c]" for a b c
      by (simp_all add: group_loop_def upt_rec)
    moreover have "group_spec l = l" using True by (simp add: group_spec.simps)
    ultimately show ?thesis by auto
  next
    case False
    then obtain a b c t where l: "l = a # b # c # t" and t: "t \<noteq> []"
      by (cases l; cases "tl l"; cases "tl (tl l)"; cases "tl (tl (tl l))") auto
    have idx: "[0..<length l] = [0, 1, 2] @ map (\<lambda>i. i + 3) [0..<length t]"
    proof -
      have "length l = length t + 3" by (simp add: l)
      then have "map (\<lambda>i. i + 3) [0..<length t] = [3..<length l]" using map_add_upt [of 3 "length t"] by (simp only:)
      moreover have "[0..<length l] = [0, 1, 2] @ [3..<length l]"
        by (simp add: l upt_conv_Cons numeral_3_eq_3 numeral_2_eq_2 del: upt_Suc)
      ultimately show ?thesis by simp
    qed
    have "group_loop l = [a, b, c, 44] @ concat (map (\<lambda>i. t ! i # (if (i + 1) mod 3 = 0 \<and> i + 1 \<noteq> length t then [44] else [])) [0..<length t])"
    proof -
      have "(4 + x) mod 3 = Suc x mod 3" for x :: nat by presburger
      with idx show ?thesis using t unfolding group_loop_concat by (simp add: l comp_def)
    qed
    also have "\<dots> = take 3 l @ 44 # group_spec (drop 3 l)"
    proof -
      have "group_loop t = group_spec t" using 1 False by (simp add: l)
      then show ?thesis using group_loop_concat [of t] by (simp add: l)
    qed
    finally show ?thesis using False by (simp add: group_spec.simps [of l])
  qed
qed

lemma group_thousands: "rev (group_loop (rev s)) = thousands s"
  unfolding group_loop_spec
proof (induction s rule: thousands.induct)
  case (1 s)
  show ?case
  proof (cases "length s \<le> 3")
    case True
    then show ?thesis by (simp add: group_spec.simps [of "rev s"] thousands.simps [of s])
  next
    case False
    then show ?thesis
      using 1 by (simp add: group_spec.simps [of "rev s"] thousands.simps [of s] take_rev drop_rev)
  qed
qed

lemma filter_thousands: "filter (\<lambda>c. c \<noteq> 44) (thousands s) = filter (\<lambda>c. c \<noteq> 44) s"
proof (induction s rule: thousands.induct)
  case (1 s)
  show ?case
  proof (cases "length s \<le> 3")
    case False
    then have "filter (\<lambda>c. c \<noteq> 44) (thousands s) =
        filter (\<lambda>c. c \<noteq> 44) (take (length s - 3) s @ drop (length s - 3) s)"
      using 1 by (simp add: thousands.simps [of s] del: append_take_drop_id)
    then show ?thesis by simp
  qed (simp add: thousands.simps)
qed

lemma keep_number_thousands: "keep_number (thousands s) = keep_number s"
proof -
  have "keep_number t = keep_number (filter (\<lambda>c. c \<noteq> 44) t)" for t
    by (auto simp: keep_number_def is_digit10_def intro: filter_cong)
  then show ?thesis using filter_thousands by metis
qed


section \<open>Formats: correctness\<close>

definition sign_text :: "rat \<Rightarrow> jsstr" where
  "sign_text r = (if r < 0 then [45] else [])"

lemma formatFloat_text:
  assumes "s \<noteq> []" "to_num (A_str s) \<noteq> FNaN" "native_parseFloat (keep_number s) = Fin r" "\<bar>r\<bar> < 10 ^ 21"
  shows "\<exists>ip fp. formatFloat (A_str s) n = thousands (sign_text r @ ip) @ (if format_digits n = 0 then [] else 46 # fp) \<and>
    to_fixed (Fin r) (format_digits n) = sign_text r @ ip @ (if format_digits n = 0 then [] else 46 # fp) \<and>
    length fp = format_digits n \<and> ip \<noteq> [] \<and> (\<forall>c \<in> set (ip @ fp). is_digit10 c) \<and>
    digits_value 10 (ip @ fp) = nat \<lfloor>\<bar>r\<bar> * 10 ^ format_digits n + 1 / 2\<rfloor>"
proof -
  let ?f = "format_digits n" and ?k = "nat \<lfloor>\<bar>r\<bar> * 10 ^ format_digits n + 1 / 2\<rfloor>"
  obtain ip fp where d: "fixed_digits ?f ?k = ip @ (if ?f = 0 then [] else 46 # fp)" "length fp = ?f" "ip \<noteq> []"
    "digits_value 10 (ip @ fp) = ?k" "\<forall>c \<in> set (ip @ fp). is_digit10 c"
    using fixed_digits_correct by blast
  have t: "to_fixed (Fin r) ?f = sign_text r @ ip @ (if ?f = 0 then [] else 46 # fp)"
    using to_fixed_small [OF assms(4), of ?f] d(1) by (simp add: sign_text_def)
  have "\<not> is_digit10 46" by (simp add: is_digit10_def)
  then have "46 \<notin> set (ip @ fp)" using d(5) by blast
  then have no: "46 \<notin> set (sign_text r @ ip)" "46 \<notin> set fp" by (simp_all add: sign_text_def)
  have sp: "split_on 46 (to_fixed (Fin r) ?f) = (if ?f = 0 then [sign_text r @ ip] else [sign_text r @ ip, fp])"
    using no split_on_append [OF no(1), of fp] unfolding t by (simp add: split_on_no_sep)
  have "formatFloat (A_str s) n = thousands (sign_text r @ ip) @ (if ?f = 0 then [] else 46 # fp)"
    using assms(1-3) group_thousands [of "sign_text r @ ip"] sp
    by (simp add: formatFloat_def absent_def Let_def)
  with t d show ?thesis by blast
qed

lemma scaled_close:
  assumes "1 \<le> x" "x < 10 ^ 20" "1 \<le> u" "u \<le> 10 ^ 9"
  shows "\<exists>n. scaled x u = fixed_digits 2 n \<and> \<bar>of_nat n / 100 - x / u\<bar> \<le> 1 / 200 + x / u * pow2 (- 53)"
proof -
  define y where "y = x / u"
  have u: "0 < u" using assms(3) by linarith
  have "x * 1 \<le> x * u" using assms(1,3) by (intro mult_left_mono) auto
  then have y: "0 < y" "y \<le> x" using assms u by (simp_all add: y_def pos_divide_le_eq)
  have "(1 / 10 ^ 9) * u \<le> x" using assms(1,4) by simp
  then have "1 / 10 ^ 9 \<le> y" using u by (simp add: y_def pos_le_divide_eq)
  moreover have "pow2 (- 30) \<le> 1 / 10 ^ 9" by (simp add: pow2_def)
  moreover have "pow2 (- 1022) \<le> pow2 (- 30)" by (rule pow2_mono) simp
  ultimately have low: "pow2 (- 1022) \<le> y" by linarith
  define r where "r = round_pos y"
  note ex = exponent2_correct [OF y(1)]
  have "- 1022 \<le> exponent2 y"
  proof (rule ccontr)
    assume "\<not> - 1022 \<le> exponent2 y"
    then have "pow2 (exponent2 y + 1) \<le> pow2 (- 1022)" by (intro pow2_mono) simp
    with ex(2) low show False by linarith
  qed
  then have e: "max (exponent2 y) (- 1022) - 53 = exponent2 y + (- 53)" by simp
  have "\<bar>r - y\<bar> \<le> pow2 (exponent2 y) * pow2 (- 53)"
    using round_pos_near [OF y(1)] unfolding r_def e pow2_add .
  also have "\<dots> \<le> y * pow2 (- 53)" using ex(1) by (intro mult_right_mono) (simp_all add: less_imp_le)
  finally have near: "\<bar>r - y\<bar> \<le> y * pow2 (- 53)" .
  have "pow2 (- 53) \<le> 1" using pow2_mono [of "- 53" 0] by (simp add: pow2_def [of 0])
  then have "y * pow2 (- 53) \<le> y * 1" using y(1) by (intro mult_left_mono) auto
  then have r: "0 \<le> r" "r \<le> 2 * y" using near by (auto simp: abs_if split: if_splits)
  have "2 * (10 :: rat) ^ 20 \<le> 10 ^ 21" by simp
  then have big: "r < 10 ^ 21" using r(2) y(2) assms(2) by linarith
  have "(10 :: rat) ^ 21 \<le> (2 ^ 4) ^ 21" by (intro power_mono) auto
  also have "((2 :: rat) ^ 4) ^ 21 = 2 ^ 84" by (simp flip: power_mult)
  also have "(2 :: rat) ^ 84 \<le> 2 ^ 1024" by (intro power_increasing) auto
  finally have "r < 2 ^ 1024" using big by (rule less_le_trans [rotated])
  then have rd: "round64 y = Fin r" using y(1) by (simp add: round64_def r_def Let_def)
  let ?n = "nat \<lfloor>r * 10 ^ 2 + 1 / 2\<rfloor>"
  have "scaled x u = fixed_digits 2 ?n"
    using to_fixed_small [of r 2] big r(1) rd by (simp add: scaled_def y_def)
  moreover have "\<bar>of_nat ?n / 10 ^ 2 - r\<bar> \<le> 1 / (2 * 10 ^ 2)" using nearest_multiple [OF r(1), of 2] .
  then have "\<bar>of_nat ?n / 100 - r\<bar> \<le> 1 / 200" by simp
  then have "\<bar>of_nat ?n / 100 - y\<bar> \<le> 1 / 200 + y * pow2 (- 53)" using near by linarith
  ultimately show ?thesis unfolding y_def by blast
qed

lemma two_digits:
  assumes "0 \<le> v" "v < 100"
  shows "last_two (48 # string_of_num (Num v)) = [48 + nat (v div 10), 48 + nat (v mod 10)]"
proof (cases "v < 10")
  case True
  then have "v div 10 = 0" "v mod 10 = v" using assms by auto
  then show ?thesis
    using True assms(1) by (simp add: last_two_def string_of_num_def string_of_nat.simps nat_less_iff)
next
  case False
  have n: "\<not> nat v < 10" "nat v div 10 < 10" using False assms by auto
  have "string_of_nat (nat v) = [48 + nat v div 10, 48 + nat v mod 10]"
    using n string_of_nat.simps [of "nat v div 10"] by (simp add: string_of_nat.simps [of "nat v"])
  then show ?thesis using assms False by (simp add: last_two_def string_of_num_def nat_div_distrib nat_mod_distrib)
qed

lemma time_parts:
  fixes s :: int
  shows "s = s div 86400 * 86400 + (s div 3600 mod 24) * 3600 + (s div 60 mod 60) * 60 + s mod 60"
proof -
  have a: "s = s div 60 * 60 + s mod 60" "s div 60 = s div 60 div 60 * 60 + s div 60 mod 60"
    "s div 3600 = s div 3600 div 24 * 24 + s div 3600 mod 24" by (rule div_mult_mod_eq [symmetric])+
  have b: "s div 60 div 60 = s div 3600" "s div 3600 div 24 = s div 86400"
    using zdiv_zmult2_eq [of 60 s 60] zdiv_zmult2_eq [of 24 s 3600] by simp_all
  define A B C D where "A = s div 86400" and "B = s div 3600 mod 24" and "C = s div 60 mod 60" and "D = s mod 60"
  have "s div 3600 = A * 24 + B" "s div 60 = s div 3600 * 60 + C" "s = s div 60 * 60 + D"
    using a b by (simp_all only: A_def B_def C_def D_def)
  then have "s = ((A * 24 + B) * 60 + C) * 60 + D" by (simp only:)
  then show ?thesis unfolding A_def [symmetric] B_def [symmetric] C_def [symmetric] D_def [symmetric] by simp
qed

section \<open>Arrays: correctness\<close>

lemma indexOf_loop:
  assumes "k \<le> length a"
  shows "indexOf_loop a v k = (if v \<in> set (take k a) then int (GREATEST i. i < k \<and> a ! i = v) else -1)"
  using assms
proof (induction k)
  case (Suc k)
  show ?case
  proof (cases "a ! k = v")
    case True
    have "(GREATEST i. i < Suc k \<and> a ! i = v) = k"
      by (rule Greatest_equality) (use True in auto)
    then show ?thesis using True Suc.prems by (simp add: take_Suc_snoc)
  next
    case False
    then have "(\<lambda>i. i < Suc k \<and> a ! i = v) = (\<lambda>i. i < k \<and> a ! i = v)" by (auto simp: less_Suc_eq)
    then show ?thesis using False Suc by (simp add: take_Suc_snoc)
  qed
qed simp

lemma array_indexOf_snoc:
  "array_indexOf (a @ [x]) v = (if x = v then int (length a) else array_indexOf a v)"
proof -
  have "indexOf_loop (a @ [x]) v k = indexOf_loop a v k" if "k \<le> length a" for k
    using that by (induction k) (auto simp: nth_append)
  then show ?thesis by (simp add: array_indexOf_def)
qed

lemma array_indexOf_range: "array_indexOf a v < int (length a)" "- 1 \<le> array_indexOf a v"
  by (induction a rule: rev_induct) (auto simp: array_indexOf_snoc, simp_all add: array_indexOf_def)

lemma array_indexOf_neg: "array_indexOf a v < 0 \<longleftrightarrow> v \<notin> set a"
  by (induction a rule: rev_induct) (auto simp: array_indexOf_snoc, simp_all add: array_indexOf_def)

text \<open>The last occurrence is the one that is removed.\<close>

lemma array_remove_last:
  "array_remove a v = (rev (remove1 v (rev a)), v \<in> set a)"
proof (induction a rule: rev_induct)
  case Nil
  then show ?case by (simp add: array_remove_def array_indexOf_def)
next
  case (snoc x a)
  show ?case
  proof (cases "x = v")
    case True
    then show ?thesis by (simp add: array_remove_def array_indexOf_snoc Let_def)
  next
    case False
    have "nat (array_indexOf a v) < length a" if "0 \<le> array_indexOf a v"
      using that array_indexOf_range(1) [of a v] by linarith
    then show ?thesis
      using snoc False by (auto simp: array_remove_def array_indexOf_snoc Let_def split: if_splits)
  qed
qed

end
