(* ===== verification/Table.thy ===== *)
theory Table
  imports Ecma_Plus
begin

text \<open>
  \<open>assets/plugins/jquery.table.js\<close>: the paged table of the list pages. The state is the part of the
  document the plugin reads and writes: the rows of the body, the items of the pager, the page
  size field and the total count field. The markup of a pager item is its page number, its role
  and whether it is the active one. jQuery's list operations (\<open>append\<close>, \<open>prepend\<close>, \<open>eq\<close>,
  \<open>after\<close>, \<open>find\<close>) are the corresponding list functions.
\<close>

section \<open>State\<close>

text \<open>A page number as the pager holds it; \<open>n / 0\<close> is infinite.\<close>

datatype page_number = Pages int | Infinite

datatype nav_kind = NavFirst | NavPrev | NavPage bool | NavNext | NavLast

record nav_item =
  item_kind :: nav_kind
  item_page :: page_number

record td =
  td_content :: jsstr
  td_align :: jsstr
  td_width :: jsstr

record 'row tr =
  tr_data :: 'row
  tr_cells :: "td list"

record 'row in_column =
  in_formatter :: "('row \<Rightarrow> jsstr) option"
  in_align :: "jsstr option"
  in_width :: "jsstr option"

record 'v out_column =
  out_name :: "jsstr option"
  out_extractor :: "(td list \<Rightarrow> 'v) option"

datatype size_field = Select_Field "jsstr list" "jsstr option" | Text_Field jsstr

datatype table_event = Turn_Event page_number jsarg | Size_Event page_number "jsstr option"

record ('row, 'v) table =
  in_model :: "'row in_column list"
  out_model :: "'v out_column list"
  tbody :: "'row tr list"
  pager :: "nav_item list"
  size_field :: "size_field option"
  total_field :: "jsstr option"
  fired :: "table_event list"

section \<open>Paging\<close>

text \<open>\<open>Math.ceil(totalCount / pageSize) || 1\<close>\<close>

definition total_page :: "nat \<Rightarrow> nat \<Rightarrow> page_number" where
  "total_page totalCount pageSize =
     (if pageSize = 0 then if totalCount = 0 then Pages 1 else Infinite
      else let n = (totalCount + pageSize - 1) div pageSize in Pages (if n = 0 then 1 else int n))"

fun page_le :: "int \<Rightarrow> page_number \<Rightarrow> bool" where
  "page_le p (Pages n) = (p \<le> n)"
| "page_le p Infinite = True"

definition mid_page :: "int \<Rightarrow> page_number \<Rightarrow> int" where
  "mid_page pageNo totalPage =
     (if pageNo < 3 then 3
      else case totalPage of Pages n \<Rightarrow> if pageNo > n - 2 then n - 2 else pageNo | Infinite \<Rightarrow> pageNo)"

definition page_links :: "int \<Rightarrow> page_number \<Rightarrow> nav_item list" where
  "page_links pageNo totalPage =
     (let m = mid_page pageNo totalPage
      in map (\<lambda>p. \<lparr>item_kind = NavPage (p = pageNo), item_page = Pages p\<rparr>)
           (filter (\<lambda>p. p \<ge> 1 \<and> page_le p totalPage) [m - 2, m - 1, m, m + 1, m + 2]))"

definition pager_items :: "int \<Rightarrow> page_number \<Rightarrow> nav_item list" where
  "pager_items pageNo totalPage =
     (if pageNo \<noteq> 1
      then [\<lparr>item_kind = NavFirst, item_page = Pages 1\<rparr>,
            \<lparr>item_kind = NavPrev, item_page = Pages (pageNo - 1)\<rparr>] else [])
     @ page_links pageNo totalPage
     @ (if Pages pageNo \<noteq> totalPage
        then [\<lparr>item_kind = NavNext, item_page = Pages (pageNo + 1)\<rparr>,
              \<lparr>item_kind = NavLast, item_page = totalPage\<rparr>] else [])"

text \<open>\<open>val(v)\<close> of a select keeps only a value that is one of its options.\<close>

definition set_size_field :: "size_field \<Rightarrow> jsstr \<Rightarrow> size_field" where
  "set_size_field f v =
     (case f of
        Select_Field opts _ \<Rightarrow> Select_Field opts (if v \<in> set opts then Some v else None)
      | Text_Field _ \<Rightarrow> Text_Field v)"

definition paginate :: "('row, 'v) table \<Rightarrow> nat \<Rightarrow> int \<Rightarrow> nat \<Rightarrow> ('row, 'v) table" where
  "paginate t totalCount pageNo pageSize =
     t\<lparr>pager := pager_items pageNo (total_page totalCount pageSize),
       size_field := map_option (\<lambda>f. set_size_field f (string_of_num (Num (int pageSize)))) (size_field t),
       total_field := map_option (\<lambda>_. string_of_num (Num (int totalCount))) (total_field t)\<rparr>"

definition active_item :: "('row, 'v) table \<Rightarrow> nav_item option" where
  "active_item t = List.find (\<lambda>i. item_kind i = NavPage True) (pager t)"

text \<open>\<open>x || d\<close> for a number or a text: \<open>NaN\<close>, 0 and the empty text are false.\<close>

definition arg_or_else :: "jsarg \<Rightarrow> jsarg \<Rightarrow> jsarg" where
  "arg_or_else x d = (if absent x \<or> x = A_num FNaN \<or> x = A_num (Fin 0) then d else x)"

definition table_pageNo :: "('row, 'v) table \<Rightarrow> page_number" where
  "table_pageNo t =
     (case active_item t of None \<Rightarrow> Pages 1
      | Some i \<Rightarrow> if item_page i = Pages 0 then Pages 1 else item_page i)"

definition size_value :: "size_field \<Rightarrow> jsstr option" where
  "size_value f = (case f of Select_Field _ v \<Rightarrow> v | Text_Field s \<Rightarrow> Some s)"

text \<open>
  \<open>parseInt\<close> is the one of \<open>ecma.script.plus.js\<close>; a select without a selected option gives \<open>null\<close>,
  no element an empty text, which it treats alike.
\<close>

definition parse_field :: "jsstr option \<Rightarrow> jsarg" where
  "parse_field v = parseInt (case v of None \<Rightarrow> A_null | Some s \<Rightarrow> A_str s) 0"

definition row_count :: "('row, 'v) table \<Rightarrow> jsarg" where
  "row_count t = A_num (Fin (of_nat (length (tbody t))))"

definition table_pageSize :: "('row, 'v) table \<Rightarrow> jsarg" where
  "table_pageSize t = arg_or_else (parse_field (Option.bind (size_field t) size_value)) (row_count t)"

definition table_totalCount :: "('row, 'v) table \<Rightarrow> jsarg" where
  "table_totalCount t = arg_or_else (parse_field (total_field t)) (row_count t)"

section \<open>Rows\<close>

text \<open>\<open>x || d\<close> for a string: the empty string is false.\<close>

definition str_or_else :: "jsstr option \<Rightarrow> jsstr \<Rightarrow> jsstr" where
  "str_or_else s d = (case s of None \<Rightarrow> d | Some s \<Rightarrow> if s = [] then d else s)"

definition make_cell :: "'row in_column \<Rightarrow> 'row \<Rightarrow> td" where
  "make_cell model row =
     \<lparr>td_content = (case in_formatter model of Some f \<Rightarrow> f row | None \<Rightarrow> js ''&nbsp;''),
      td_align = str_or_else (in_align model) (js ''left''),
      td_width = str_or_else (in_width model) []\<rparr>"

definition make_row :: "'row in_column list \<Rightarrow> 'row \<Rightarrow> 'row tr" where
  "make_row inModel row = \<lparr>tr_data = row, tr_cells = map (\<lambda>m. make_cell m row) inModel\<rparr>"

text \<open>\<open>$trs.eq(i).after($tr)\<close>: nothing is inserted when there is no row \<open>i\<close>.\<close>

definition insert_after :: "nat \<Rightarrow> 'a \<Rightarrow> 'a list \<Rightarrow> 'a list" where
  "insert_after i x xs = (if i < length xs then take (Suc i) xs @ x # drop (Suc i) xs else xs)"

definition insertRow :: "int \<Rightarrow> 'row \<Rightarrow> ('row, 'v) table \<Rightarrow> ('row, 'v) table" where
  "insertRow i row t =
     (let tr = make_row (in_model t) row; trs = tbody t
      in t\<lparr>tbody := if i < 0 then tr # trs
                    else if i > int (length trs) then trs @ [tr]
                    else insert_after (nat i) tr trs\<rparr>)"

definition setData :: "'row list \<Rightarrow> int option \<Rightarrow> ('row, 'v) table \<Rightarrow> ('row, 'v) table" where
  "setData rows index t =
     (let fresh = (case index of None \<Rightarrow> True | Some i \<Rightarrow> i < 0);
          t = (if fresh then t\<lparr>tbody := []\<rparr> else t);
          index = (if fresh then -1 else the index)
      in fold (\<lambda>i. insertRow (index + int i) (rows ! i)) [0..<length rows] t)"

text \<open>
  A row read back: an object, or an array once a column without a name has been read (which
  replaces the object); \<open>null\<close> is the value of a column without an extractor.
\<close>

datatype 'v out_row = Obj "(jsstr \<times> 'v option) list" | Arr "'v option list" "(jsstr \<times> 'v option) list"

definition put_prop :: "jsstr \<Rightarrow> 'a \<Rightarrow> (jsstr \<times> 'a) list \<Rightarrow> (jsstr \<times> 'a) list" where
  "put_prop k v ps =
     (if k \<in> fst ` set ps then map (\<lambda>(k', v'). if k' = k then (k, v) else (k', v')) ps
      else ps @ [(k, v)])"

definition read_column :: "td list \<Rightarrow> 'v out_column \<Rightarrow> 'v out_row \<Rightarrow> 'v out_row" where
  "read_column tds model row =
     (let value = map_option (\<lambda>f. f tds) (out_extractor model)
      in case out_name model of
           Some name \<Rightarrow>
             if name \<noteq> [] then
               (case row of Obj ps \<Rightarrow> Obj (put_prop name value ps) | Arr vs ps \<Rightarrow> Arr vs (put_prop name value ps))
             else (case row of Obj _ \<Rightarrow> Arr [value] [] | Arr vs ps \<Rightarrow> Arr (vs @ [value]) ps)
         | None \<Rightarrow> (case row of Obj _ \<Rightarrow> Arr [value] [] | Arr vs ps \<Rightarrow> Arr (vs @ [value]) ps))"

definition getData :: "('row, 'v) table \<Rightarrow> 'v out_row list" where
  "getData t = map (\<lambda>tr. fold (read_column (tr_cells tr)) (out_model t) (Obj [])) (tbody t)"

definition setPage :: "'row list \<Rightarrow> nat \<Rightarrow> int \<Rightarrow> nat \<Rightarrow> ('row, 'v) table \<Rightarrow> ('row, 'v) table" where
  "setPage rows totalCount pageNo pageSize t =
     paginate (setData rows None t) totalCount pageNo pageSize"

section \<open>Events\<close>

text \<open>
  \<open>turnPage\<close> of a pager item. Without one (\<open>reload\<close> when no item is active) the table it belongs
  to is not found either and no event is triggered.
\<close>

definition turnPage :: "nav_item option \<Rightarrow> ('row, 'v) table \<Rightarrow> ('row, 'v) table" where
  "turnPage item t =
     (case item of None \<Rightarrow> t
      | Some i \<Rightarrow> t\<lparr>fired := fired t @ [Turn_Event (item_page i) (table_pageSize t)]\<rparr>)"

definition reload_table :: "('row, 'v) table \<Rightarrow> ('row, 'v) table" where
  "reload_table t = turnPage (active_item t) t"

definition changeSize :: "('row, 'v) table \<Rightarrow> ('row, 'v) table" where
  "changeSize t =
     (case size_field t of None \<Rightarrow> t
      | Some f \<Rightarrow> t\<lparr>fired := fired t @ [Size_Event (table_pageNo t) (size_value f)]\<rparr>)"

section \<open>Method calls\<close>

datatype 'v table_ret =
  Undefined | Page_No_Ret page_number | Number_Ret jsarg | Rows_Ret "'v out_row list"
  | Page_Ret jsarg jsarg page_number "'v out_row list"

text \<open>
  A call of a method by name, with the arguments the method takes. \<open>C_other\<close> is a name that is no
  method; the private methods are named like \<open>_setData\<close>.
\<close>

datatype 'row table_call =
  C_paginate nat int nat
| C_data "('row list \<times> int option) option"
| C_page "('row list \<times> nat \<times> int \<times> nat) option"
| C_pageNo | C_pageSize | C_totalCount | C_reload
| C_turnPage nav_item | C_changeSize
| C_setData "'row list" "int option" | C_insertRow int 'row | C_getData
| C_setPage "'row list" nat int nat
| C_other jsstr

fun call_name :: "'row table_call \<Rightarrow> jsstr" where
  "call_name (C_paginate _ _ _) = js ''paginate''"
| "call_name (C_data _) = js ''data''"
| "call_name (C_page _) = js ''page''"
| "call_name C_pageNo = js ''pageNo''"
| "call_name C_pageSize = js ''pageSize''"
| "call_name C_totalCount = js ''totalCount''"
| "call_name C_reload = js ''reload''"
| "call_name (C_turnPage _) = js ''turnPage''"
| "call_name C_changeSize = js ''changeSize''"
| "call_name (C_setData _ _) = js ''_setData''"
| "call_name (C_insertRow _ _) = js ''_insertRow''"
| "call_name C_getData = js ''_getData''"
| "call_name (C_setPage _ _ _ _) = js ''_setPage''"
| "call_name (C_other name) = name"

fun is_method :: "'row table_call \<Rightarrow> bool" where
  "is_method (C_other _) = False"
| "is_method _ = True"

text \<open>\<open>data[option].apply(data, args)\<close>\<close>

fun apply_method :: "'row table_call \<Rightarrow> ('row, 'v) table \<Rightarrow> ('row, 'v) table \<times> 'v table_ret" where
  "apply_method (C_paginate n p s) t = (paginate t n p s, Undefined)"
| "apply_method (C_data (Some (rows, i))) t = (setData rows i t, Undefined)"
| "apply_method (C_data None) t = (t, Rows_Ret (getData t))"
| "apply_method (C_page (Some (rows, n, p, s))) t = (setPage rows n p s t, Undefined)"
| "apply_method (C_page None) t =
     (t, Page_Ret (table_totalCount t) (table_pageSize t) (table_pageNo t) (getData t))"
| "apply_method C_pageNo t = (t, Page_No_Ret (table_pageNo t))"
| "apply_method C_pageSize t = (t, Number_Ret (table_pageSize t))"
| "apply_method C_totalCount t = (t, Number_Ret (table_totalCount t))"
| "apply_method C_reload t = (reload_table t, Undefined)"
| "apply_method (C_turnPage i) t = (turnPage (Some i) t, Undefined)"
| "apply_method C_changeSize t = (changeSize t, Undefined)"
| "apply_method (C_setData rows i) t = (setData rows i t, Undefined)"
| "apply_method (C_insertRow i row) t = (insertRow i row t, Undefined)"
| "apply_method C_getData t = (t, Rows_Ret (getData t))"
| "apply_method (C_setPage rows n p s) t = (setPage rows n p s t, Undefined)"
| "apply_method (C_other _) t = (t, Undefined)"

text \<open>
  \<open>Plugin(option)\<close> on the matched elements. An element has its table or none yet, and then the
  one \<open>init\<close> makes for it from the options; a name starting with \<open>_\<close> or of no method throws; the
  first element whose method returns a value ends the loop, and that value is the result.
  Otherwise the result is the jQuery object (\<open>Inl True\<close>); \<open>Inl False\<close> is the exception.
\<close>

fun table_plugin :: "(nat \<Rightarrow> ('row, 'v) table) \<Rightarrow> 'row table_call option \<Rightarrow> nat \<Rightarrow>
    ('row, 'v) table option list \<Rightarrow> ('row, 'v) table option list \<times> (bool + 'v table_ret)" where
  "table_plugin init m k [] = ([], Inl True)"
| "table_plugin init m k (e # es) =
     (let t = (case e of Some t \<Rightarrow> t | None \<Rightarrow> init k)
      in case m of
           None \<Rightarrow> (case table_plugin init m (Suc k) es of (es', r) \<Rightarrow> (Some t # es', r))
         | Some c \<Rightarrow>
             if \<not> is_method c \<or> charAt (call_name c) 0 = js ''_'' then (Some t # es, Inl False)
             else case apply_method c t of
                 (t', Undefined) \<Rightarrow>
                   (case table_plugin init m (Suc k) es of (es', r) \<Rightarrow> (Some t' # es', r))
               | (t', v) \<Rightarrow> (Some t' # es, Inr v))"

section \<open>Paging: correctness\<close>

text \<open>The number of pages: the least number whose pages hold all the rows, and at least 1.\<close>

lemma total_page_correct:
  assumes "0 < pageSize"
  shows "\<exists>n. total_page totalCount pageSize = Pages (int n) \<and> 1 \<le> n \<and> totalCount \<le> n * pageSize \<and>
    (n = 1 \<or> (n - 1) * pageSize < totalCount)"
proof -
  define n where "n = (totalCount + pageSize - 1) div pageSize"
  have split: "totalCount + pageSize - 1 = n * pageSize + (totalCount + pageSize - 1) mod pageSize"
    unfolding n_def by (rule div_mult_mod_eq [symmetric])
  have r: "(totalCount + pageSize - 1) mod pageSize \<le> pageSize - 1"
    using mod_less_divisor [OF assms, of "totalCount + pageSize - 1"] by linarith
  have hi: "totalCount \<le> n * pageSize" using split r assms by linarith
  have lo: "n * pageSize < totalCount + pageSize" using split assms by linarith
  show ?thesis
  proof (cases "n = 0")
    case True
    then show ?thesis
      using hi assms unfolding total_page_def n_def [symmetric] Let_def by (intro exI [of _ 1]) simp
  next
    case False
    then have "n * pageSize = (n - 1) * pageSize + pageSize" by (cases n) auto
    then have "(n - 1) * pageSize < totalCount" using lo by linarith
    then show ?thesis
      using False hi assms unfolding total_page_def n_def [symmetric] Let_def by (intro exI [of _ n]) simp
  qed
qed

text \<open>
  On a page that exists the links are the pages of a window of five (or all, when there are
  fewer) around it; exactly the link of the current page is active.
\<close>

definition window_start :: "int \<Rightarrow> int \<Rightarrow> int" where
  "window_start p n = max 1 (min (p - 2) (n - 4))"

lemma filter_window:
  "filter (\<lambda>p. 1 \<le> p \<and> p \<le> n) [m - 2, m - 1, m, m + 1, m + 2] = [max 1 (m - 2)..min n (m + 2)]"
proof -
  have list: "[m - 2, m - 1, m, m + 1, m + 2] = [m - 2..m + 2]"
    by (simp add: upto_rec1)
  have "filter (\<lambda>p. 1 \<le> p \<and> p \<le> n) [a..b] = [max 1 a..min n b]" for a b
  proof (rule sorted_distinct_set_unique)
    show "sorted (filter (\<lambda>p. 1 \<le> p \<and> p \<le> n) [a..b])" by (rule sorted_wrt_filter) simp
  qed auto
  then show ?thesis unfolding list .
qed

lemma page_links_window:
  assumes p: "1 \<le> p" "p \<le> n"
  shows "page_links p (Pages n) =
    map (\<lambda>q. \<lparr>item_kind = NavPage (q = p), item_page = Pages q\<rparr>)
      [window_start p n..min n (window_start p n + 4)]"
proof -
  let ?m = "mid_page p (Pages n)"
  have "max 1 (?m - 2) = window_start p n" "min n (?m + 2) = min n (window_start p n + 4)"
    using p by (auto simp: mid_page_def window_start_def)
  then show ?thesis
    using filter_window [of n ?m] by (simp add: page_links_def Let_def)
qed


lemma window:
  assumes "1 \<le> p" "p \<le> n"
  shows "1 \<le> window_start p n" "window_start p n \<le> p" "p \<le> window_start p n + 4"
    "min n (window_start p n + 4) - window_start p n + 1 = min n 5"
  using assms by (auto simp: window_start_def)

lemma active_link:
  assumes "1 \<le> p" "p \<le> n"
  shows "List.find (\<lambda>i. item_kind i = NavPage True) (pager_items p (Pages n)) =
    Some \<lparr>item_kind = NavPage True, item_page = Pages p\<rparr>"
proof -
  let ?f = "\<lambda>q. \<lparr>item_kind = NavPage (q = p), item_page = Pages q\<rparr>"
    and ?b = "min n (window_start p n + 4)"
  have e: "[window_start p n..?b] = [window_start p n..p - 1] @ p # [p + 1..?b]"
    using window [OF assms] assms upto_split1 [of "window_start p n" p ?b] by (simp add: upto_rec1 [of p])
  have none: "List.find (\<lambda>i. item_kind i = NavPage True) (map ?f [window_start p n..p - 1]) = None"
    by (auto simp: find_None_iff)
  have "List.find (\<lambda>i. item_kind i = NavPage True) (page_links p (Pages n)) = Some \<lparr>item_kind = NavPage True, item_page = Pages p\<rparr>"
    unfolding page_links_window [OF assms] e map_append find_append none by simp
  then show ?thesis by (cases "p = 1") (auto simp: pager_items_def find_append)
qed

lemma page_links_pages:
  assumes "i \<in> set (pager_items p (Pages n))" "1 \<le> p" "p \<le> n"
  shows "\<exists>q. item_page i = Pages q \<and> 1 \<le> q \<and> q \<le> n"
  using assms window [OF assms(2,3)]
  by (auto simp: pager_items_def page_links_window split: if_splits)

text \<open>A page number behind the last page: links of the last five pages, and none is active.\<close>

lemma page_links_beyond:
  assumes "3 \<le> n" "n < p"
  shows "List.find (\<lambda>i. item_kind i = NavPage True) (pager_items p (Pages n)) = None"
    "\<lparr>item_kind = NavNext, item_page = Pages (p + 1)\<rparr> \<in> set (pager_items p (Pages n))"
  using assms by (auto simp: pager_items_def find_None_iff page_links_def Let_def mid_page_def)

section \<open>Rows: correctness\<close>

lemma insertRow_body:
  "tbody (insertRow i row t) =
     (let tr = make_row (in_model t) row; trs = tbody t
      in if i < 0 then tr # trs else if i > int (length trs) then trs @ [tr] else insert_after (nat i) tr trs)"
  "in_model (insertRow i row t) = in_model t" "out_model (insertRow i row t) = out_model t"
  by (simp_all add: insertRow_def Let_def)

text \<open>
  Rows inserted behind row \<open>i\<close>: the k-th of them goes behind row \<open>i + k\<close>, the one before it.
\<close>

lemma insert_rows:
  fixes t :: "('row, 'v) table"
  assumes "i < length (tbody t)" "n \<le> length rows"
  defines "t' \<equiv> fold (\<lambda>k. insertRow (int i + int k) (rows ! k)) [0..<n] t"
  shows "tbody t' = take (Suc i) (tbody t) @ map (make_row (in_model t)) (take n rows) @ drop (Suc i) (tbody t) \<and>
    in_model t' = in_model t"
  using assms(2) unfolding t'_def
proof (induction n)
  case (Suc n)
  let ?t = "fold (\<lambda>k. insertRow (int i + int k) (rows ! k)) [0..<n] t"
  let ?new = "map (make_row (in_model t)) (take n rows)"
  have IH: "tbody ?t = take (Suc i) (tbody t) @ ?new @ drop (Suc i) (tbody t)" "in_model ?t = in_model t"
    using Suc by auto
  have l: "length (tbody ?t) = length (tbody t) + n" using Suc.prems assms(1) by (simp add: IH(1))
  have tk: "take (Suc (i + n)) (tbody ?t) = take (Suc i) (tbody t) @ ?new"
    "drop (Suc (i + n)) (tbody ?t) = drop (Suc i) (tbody t)"
    using Suc.prems assms(1) by (simp_all add: IH(1) min_absorb2)
  have "tbody (insertRow (int i + int n) (rows ! n) ?t) =
      take (Suc i) (tbody t) @ map (make_row (in_model t)) (take (Suc n) rows) @ drop (Suc i) (tbody t)"
    using assms(1) l tk Suc.prems
    by (simp add: insertRow_body Let_def insert_after_def nat_int_add IH(2) take_Suc_snoc)
  then show ?case using IH(2) by (simp add: insertRow_body)
qed simp

lemma append_rows:
  fixes t :: "('row, 'v) table"
  assumes "length (tbody t) < i" "n \<le> length rows"
  defines "t' \<equiv> fold (\<lambda>k. insertRow (int i + int k) (rows ! k)) [0..<n] t"
  shows "tbody t' = tbody t @ map (make_row (in_model t)) (take n rows) \<and> in_model t' = in_model t"
  using assms(2) unfolding t'_def
proof (induction n)
  case (Suc n)
  then show ?case using assms(1) by (simp add: insertRow_body Let_def take_Suc_snoc)
qed simp

lemma fold_shift: "fold (\<lambda>k. f (Suc k)) [0..<n] s = fold f [1..<Suc n] s"
  by (induction n) auto

theorem setData_fresh:
  assumes "case index of None \<Rightarrow> True | Some i \<Rightarrow> i < 0"
  shows "tbody (setData rows index t) = map (make_row (in_model t)) rows"
proof (cases rows)
  case Nil
  then show ?thesis using assms by (simp add: setData_def split: option.splits)
next
  case (Cons r rs)
  let ?t = "t\<lparr>tbody := []\<rparr>" and ?step = "\<lambda>i. insertRow (- 1 + int i) (rows ! i)"
  have e: "setData rows index t = fold ?step [0..<length rows] ?t"
    using assms by (simp add: setData_def split: option.splits)
  have idx: "[0..<length rows] = 0 # [1..<Suc (length rs)]"
    by (simp add: Cons upt_conv_Cons del: upt_Suc)
  let ?t1 = "insertRow (- 1) r ?t"
  have t1: "tbody ?t1 = [make_row (in_model t) r]" "in_model ?t1 = in_model t"
    by (simp_all add: insertRow_body Let_def)
  have "fold ?step [0..<length rows] ?t = fold ?step [1..<Suc (length rs)] ?t1"
    unfolding idx by (simp add: Cons del: upt_Suc)
  also have "\<dots> = fold (\<lambda>k. insertRow (int 0 + int k) (rs ! k)) [0..<length rs] ?t1"
    unfolding fold_shift [symmetric] by (simp add: Cons)
  finally have "setData rows index t = fold (\<lambda>k. insertRow (int 0 + int k) (rs ! k)) [0..<length rs] ?t1"
    unfolding e .
  then show ?thesis
    using insert_rows [of 0 ?t1 "length rs" rs] t1 by (simp add: Cons)
qed

theorem setData_insert:
  assumes "i < length (tbody t)"
  shows "tbody (setData rows (Some (int i)) t) =
    take (Suc i) (tbody t) @ map (make_row (in_model t)) rows @ drop (Suc i) (tbody t)"
  using insert_rows [OF assms, of "length rows" rows] by (simp add: setData_def Let_def)

theorem setData_append:
  assumes "length (tbody t) < i"
  shows "tbody (setData rows (Some (int i)) t) = tbody t @ map (make_row (in_model t)) rows"
  using append_rows [OF assms, of "length rows" rows] by (simp add: setData_def Let_def)

text \<open>Inserting at the index that is the number of rows loses the first row.\<close>

theorem setData_at_end:
  "tbody (setData (r # rs) (Some (int (length (tbody t)))) t) = tbody t @ map (make_row (in_model t)) rs"
proof -
  let ?n = "length (tbody t)"
  have idx: "[0..<length (r # rs)] = 0 # [1..<Suc (length rs)]" by (simp add: upt_conv_Cons del: upt_Suc)
  have skip: "insertRow (int ?n) r t = t"
    by (simp add: insertRow_def Let_def insert_after_def)
  have "setData (r # rs) (Some (int ?n)) t =
      fold (\<lambda>k. insertRow (int ?n + int k) ((r # rs) ! k)) [1..<Suc (length rs)] t"
    unfolding setData_def Let_def idx using skip by (simp del: upt_Suc)
  also have "\<dots> = fold (\<lambda>k. insertRow (int (Suc ?n) + int k) (rs ! k)) [0..<length rs] t"
    unfolding fold_shift [symmetric] by (simp add: ac_simps)
  finally show ?thesis using append_rows [of t "Suc ?n" "length rs" rs] by simp
qed


section \<open>Reading back\<close>

lemma insertRow_frame [simp]:
  "pager (insertRow i row t) = pager t" "size_field (insertRow i row t) = size_field t"
  "total_field (insertRow i row t) = total_field t" "fired (insertRow i row t) = fired t"
  by (simp_all add: insertRow_def Let_def)

lemma setData_frame [simp]:
  "size_field (setData rows i t) = size_field t" "total_field (setData rows i t) = total_field t"
  "out_model (setData rows i t) = out_model t"
proof -
  have "size_field (fold (\<lambda>i. insertRow (a + int i) (rows ! i)) xs u) = size_field u \<and>
      out_model (fold (\<lambda>i. insertRow (a + int i) (rows ! i)) xs u) = out_model u \<and>
      total_field (fold (\<lambda>i. insertRow (a + int i) (rows ! i)) xs u) = total_field u" for a xs and u :: "('a, 'b) table"
    by (induction xs arbitrary: u) (auto simp: insertRow_body)
  then show "size_field (setData rows i t) = size_field t" "total_field (setData rows i t) = total_field t"
    "out_model (setData rows i t) = out_model t"
    by (simp_all add: setData_def Let_def split: option.splits)
qed

lemma tr_data_make_row [simp]: "tr_data (make_row m row) = row"
  by (simp add: make_row_def)

lemma setPage_pageNo:
  assumes "1 \<le> pageNo" "page_le pageNo (total_page totalCount pageSize)" "0 < pageSize"
  shows "table_pageNo (setPage rows totalCount pageNo pageSize t) = Pages pageNo"
proof -
  obtain n where n: "total_page totalCount pageSize = Pages n"
    using total_page_correct [OF assms(3)] by blast
  then have "active_item (setPage rows totalCount pageNo pageSize t) = Some \<lparr>item_kind = NavPage True, item_page = Pages pageNo\<rparr>"
    using active_link [of pageNo n] assms(1,2) by (simp add: active_item_def setPage_def paginate_def)
  then show ?thesis using assms(1) by (simp add: table_pageNo_def)
qed

lemma parse_field_text:
  assumes "n \<le> 2 ^ 53"
  shows "parse_field (Some (string_of_num (Num (int n)))) = A_num (Fin (of_nat n))"
  using assms parseInt_text [of "int n"] by (simp add: parse_field_def)

lemma setPage_totalCount:
  assumes "total_field t \<noteq> None" "totalCount \<le> 2 ^ 53"
  shows "table_totalCount (setPage rows totalCount pageNo pageSize t) =
    A_num (Fin (of_nat (if totalCount = 0 then length rows else totalCount)))"
proof -
  have b: "tbody (setPage rows totalCount pageNo pageSize t) = map (make_row (in_model t)) rows"
    using setData_fresh [where index = None and t = t and rows = rows] by (simp add: setPage_def paginate_def)
  have "total_field (setPage rows totalCount pageNo pageSize t) = Some (string_of_num (Num (int totalCount)))"
    using assms by (auto simp: setPage_def paginate_def)
  then have "table_totalCount (setPage rows totalCount pageNo pageSize t) =
      arg_or_else (A_num (Fin (of_nat totalCount))) (A_num (Fin (of_nat (length rows))))"
    by (simp only: table_totalCount_def parse_field_text [OF assms(2)] row_count_def b length_map)
  then show ?thesis by (simp add: arg_or_else_def absent_def)
qed

text \<open>The page size field keeps the size unless it is a select without that option.\<close>

definition accepts_size :: "size_field option \<Rightarrow> nat \<Rightarrow> bool" where
  "accepts_size f n =
     (case f of None \<Rightarrow> False
      | Some (Text_Field _) \<Rightarrow> True
      | Some (Select_Field opts _) \<Rightarrow> string_of_num (Num (int n)) \<in> set opts)"

lemma setPage_pageSize:
  assumes "accepts_size (size_field t) pageSize" "0 < pageSize" "pageSize \<le> 2 ^ 53"
  shows "table_pageSize (setPage rows totalCount pageNo pageSize t) = A_num (Fin (of_nat pageSize))"
proof -
  obtain f where f: "size_field t = Some f" using assms(1) by (auto simp: accepts_size_def split: option.splits)
  have "size_value (set_size_field f (string_of_num (Num (int pageSize)))) = Some (string_of_num (Num (int pageSize)))"
    using assms(1) f by (cases f) (auto simp: accepts_size_def set_size_field_def size_value_def)
  then show ?thesis
    using assms(2) f parse_field_text [OF assms(3)]
    by (simp add: table_pageSize_def setPage_def paginate_def arg_or_else_def absent_def)
qed

text \<open>Columns that all have a name give an object, columns without a name an array.\<close>

definition column_value :: "td list \<Rightarrow> 'v out_column \<Rightarrow> 'v option" where
  "column_value tds m = map_option (\<lambda>f. f tds) (out_extractor m)"

definition column_key :: "'v out_column \<Rightarrow> jsstr" where
  "column_key m = (case out_name m of None \<Rightarrow> [] | Some n \<Rightarrow> n)"

lemma read_column_cases:
  "read_column tds m (Obj ps) =
     (if column_key m \<noteq> [] then Obj (put_prop (column_key m) (column_value tds m) ps)
      else Arr [column_value tds m] [])"
  "read_column tds m (Arr vs ps) =
     (if column_key m \<noteq> [] then Arr vs (put_prop (column_key m) (column_value tds m) ps)
      else Arr (vs @ [column_value tds m]) ps)"
  by (auto simp: read_column_def Let_def column_key_def column_value_def split: option.splits)

lemma read_named:
  assumes "\<forall>m \<in> set ms. column_key m \<noteq> []" "distinct (map fst ps @ map column_key ms)"
  shows "fold (read_column tds) ms (Obj ps) = Obj (ps @ map (\<lambda>m. (column_key m, column_value tds m)) ms)"
  using assms
proof (induction ms arbitrary: ps)
  case (Cons m ms)
  have "put_prop (column_key m) (column_value tds m) ps = ps @ [(column_key m, column_value tds m)]"
    using Cons.prems(2) by (auto simp: put_prop_def)
  then show ?case using Cons by (auto simp: read_column_cases)
qed simp

lemma read_unnamed:
  assumes "\<forall>m \<in> set ms. column_key m = []"
  shows "fold (read_column tds) ms (Arr vs ps) = Arr (vs @ map (column_value tds) ms) ps"
  using assms by (induction ms arbitrary: vs) (auto simp: read_column_cases)

lemma read_unnamed_first:
  assumes "\<forall>m \<in> set ms. column_key m = []" "ms \<noteq> []"
  shows "fold (read_column tds) ms (Obj ps) = Arr (map (column_value tds) ms) []"
  using assms by (cases ms) (auto simp: read_column_cases read_unnamed)

text \<open>A column without a name after named ones drops what they had read.\<close>

lemma read_mixed:
  assumes "\<forall>m \<in> set ms. column_key m \<noteq> []" "column_key m = []"
  shows "fold (read_column tds) (ms @ [m]) (Obj []) = Arr [column_value tds m] []"
proof -
  have "\<exists>ps. fold (read_column tds) ms (Obj qs) = Obj ps" for qs
    using assms(1) by (induction ms arbitrary: qs) (auto simp: read_column_cases)
  then obtain ps where "fold (read_column tds) ms (Obj []) = Obj ps" by blast
  then show ?thesis using assms(2) by (simp add: read_column_cases)
qed

section \<open>Method calls: correctness\<close>

definition public_call :: "'row table_call \<Rightarrow> bool" where
  "public_call c \<longleftrightarrow> is_method c \<and> charAt (call_name c) 0 \<noteq> js ''_''"

lemma public_call_simps [simp]:
  "public_call (C_paginate n p s)" "public_call (C_data d)" "public_call (C_page q)"
  "public_call C_pageNo" "public_call C_pageSize" "public_call C_totalCount" "public_call C_reload"
  "public_call (C_turnPage i)" "public_call C_changeSize"
  "\<not> public_call (C_setData rows i')" "\<not> public_call (C_insertRow k row)" "\<not> public_call C_getData"
  "\<not> public_call (C_setPage rows n p s)" "\<not> public_call (C_other name)"
  by (simp_all add: public_call_def charAt_def)

text \<open>A method without a value runs on every element; one with a value only on the first.\<close>

lemma table_plugin_all:
  fixes init :: "nat \<Rightarrow> ('row, 'v) table"
  assumes "public_call c" "\<And>t :: ('row, 'v) table. snd (apply_method c t) = Undefined"
  shows "table_plugin init (Some c) k es =
    (map (\<lambda>(i, e). Some (fst (apply_method c (case e of Some t \<Rightarrow> t | None \<Rightarrow> init i)))) (zip [k..<k + length es] es),
     Inl True)"
proof (induction es arbitrary: k)
  case (Cons e es)
  define t where "t = (case e of Some t \<Rightarrow> t | None \<Rightarrow> init k)"
  obtain t' where t': "apply_method c t = (t', Undefined)" using assms(2) [of t] by (cases "apply_method c t") auto
  have "[k..<k + length (e # es)] = k # [Suc k..<Suc k + length es]" by (simp add: upt_conv_Cons del: upt_Suc)
  then show ?case
    using assms(1) t' Cons.IH [of "Suc k"] by (simp add: public_call_def t_def [symmetric] Let_def del: upt_Suc)
qed simp

lemma table_plugin_value:
  assumes "public_call c" "apply_method c t = (t', v)" "v \<noteq> Undefined"
  shows "table_plugin init (Some c) k (Some t # es) = (Some t' # es, Inr v)"
  using assms by (cases v) (auto simp: public_call_def Let_def)

lemma table_plugin_private:
  assumes "\<not> public_call c"
  shows "table_plugin init (Some c) k (Some t # es) = (Some t # es, Inl False)"
  using assms by (auto simp: public_call_def Let_def)

end
