(* ===== verification/Table_Contract.thy ===== *)
theory Table_Contract
  imports Table
begin

text \<open>
  What a list page may rely on when it fills, pages and reads its table: the properties of
  \<open>jquery.table.js\<close>, each with a concrete input at which its hypotheses hold.
\<close>

definition demo_table :: "(nat, jsstr) table" where
  "demo_table = \<lparr>in_model = [\<lparr>in_formatter = Some (\<lambda>n. string_of_num (Num (int n))), in_align = None, in_width = None\<rparr>],
     out_model = [\<lparr>out_name = Some (js ''id''), out_extractor = Some (\<lambda>tds. td_content (hd tds))\<rparr>],
     tbody = [], pager = [], size_field = Some (Text_Field []), total_field = Some [], fired = []\<rparr>"

section \<open>Pager\<close>

text \<open>C14. On a page that exists the pager offers the pages of a window of five around it (all of them
  when there are fewer), of which exactly the current one is active; the arrows before the window are
  there unless the page is the first, those behind it unless it is the last, and every link leads to
  a page that exists.\<close>

theorem pager_window:
  assumes "1 \<le> p" "p \<le> n"
  shows "pager_items p (Pages n) =
      (if p = 1 then [] else [\<lparr>item_kind = NavFirst, item_page = Pages 1\<rparr>, \<lparr>item_kind = NavPrev, item_page = Pages (p - 1)\<rparr>])
      @ map (\<lambda>q. \<lparr>item_kind = NavPage (q = p), item_page = Pages q\<rparr>)
          [window_start p n..min n (window_start p n + 4)]
      @ (if p = n then [] else [\<lparr>item_kind = NavNext, item_page = Pages (p + 1)\<rparr>, \<lparr>item_kind = NavLast, item_page = Pages n\<rparr>])
    \<and> window_start p n \<le> p \<and> p \<le> min n (window_start p n + 4)
    \<and> length [window_start p n..min n (window_start p n + 4)] = nat (min n 5)
    \<and> (\<forall>i \<in> set (pager_items p (Pages n)). \<exists>q. item_page i = Pages q \<and> 1 \<le> q \<and> q \<le> n)"
proof (intro conjI ballI)
  show "length [window_start p n..min n (window_start p n + 4)] = nat (min n 5)"
    using window(4) [OF assms] by simp
  show "\<exists>q. item_page i = Pages q \<and> 1 \<le> q \<and> q \<le> n" if "i \<in> set (pager_items p (Pages n))" for i
    using page_links_pages [OF that assms] .
qed (use window [OF assms] assms in \<open>auto simp: pager_items_def page_links_window\<close>)

lemma pager_window_witness: "map item_page (pager_items 9 (Pages 12)) = map Pages [1, 8, 7, 8, 9, 10, 11, 10, 12]"
proof -
  have "[7..11] = [7, 8, 9, 10, 11 :: int]" by (simp add: upto_rec1)
  then show ?thesis using pager_window [of 9 12] by (simp add: window_start_def)
qed

text \<open>Behind the last page the pager shows the last pages but no active one, and its \<open>next\<close> arrow
  leads further out of the range: \<open>reload\<close> then triggers no event and \<open>pageNo\<close> is 1.\<close>

theorem pager_beyond_last:
  assumes "0 < pageSize" "total_page totalCount pageSize = Pages n" "3 \<le> n" "n < pageNo"
  shows "active_item (paginate t totalCount pageNo pageSize) = None \<and>
    reload_table (paginate t totalCount pageNo pageSize) = paginate t totalCount pageNo pageSize \<and>
    table_pageNo (paginate t totalCount pageNo pageSize) = Pages 1 \<and>
    \<lparr>item_kind = NavNext, item_page = Pages (pageNo + 1)\<rparr> \<in> set (pager (paginate t totalCount pageNo pageSize))"
proof -
  have a: "active_item (paginate t totalCount pageNo pageSize) = None"
    using page_links_beyond(1) [OF assms(3,4)] assms(2) by (simp add: active_item_def paginate_def)
  moreover have "\<lparr>item_kind = NavNext, item_page = Pages (pageNo + 1)\<rparr> \<in> set (pager (paginate t totalCount pageNo pageSize))"
    using page_links_beyond(2) [OF assms(3,4)] assms(2) by (simp add: paginate_def)
  ultimately show ?thesis by (simp add: reload_table_def turnPage_def table_pageNo_def)
qed

lemma pager_beyond_last_witness: "table_pageNo (paginate demo_table 30 5 10) = Pages 1"
proof -
  have "total_page 30 10 = Pages 3" by (simp add: total_page_def)
  then show ?thesis using pager_beyond_last [of 10 30 3 5 demo_table] by simp
qed

section \<open>Rows\<close>

text \<open>Setting a page and reading it back gives the page number, the page size and the number of
  rows that were set, and one row of cells per row of data: when the page exists, the page size is
  one the page size field can show, and there is a total count element. A total of 0 is read back as
  the number of rows shown.\<close>

theorem page_roundtrip:
  assumes "1 \<le> pageNo" "page_le pageNo (total_page totalCount pageSize)"
    and "0 < pageSize" "pageSize \<le> 2 ^ 53" "totalCount \<le> 2 ^ 53"
    and "accepts_size (size_field t) pageSize" "total_field t \<noteq> None"
  shows "apply_method (C_page None) (fst (apply_method (C_page (Some (rows, totalCount, pageNo, pageSize))) t)) =
    (setPage rows totalCount pageNo pageSize t,
     Page_Ret (A_num (Fin (of_nat (if totalCount = 0 then length rows else totalCount))))
       (A_num (Fin (of_nat pageSize))) (Pages pageNo)
       (map (\<lambda>row. fold (read_column (map (\<lambda>m. make_cell m row) (in_model t))) (out_model t) (Obj [])) rows))"
proof -
  have "tbody (setPage rows totalCount pageNo pageSize t) = map (make_row (in_model t)) rows"
    "out_model (setPage rows totalCount pageNo pageSize t) = out_model t"
    using setData_fresh [where index = None and t = t and rows = rows] by (simp_all add: setPage_def paginate_def)
  then have "getData (setPage rows totalCount pageNo pageSize t) =
      map (\<lambda>row. fold (read_column (map (\<lambda>m. make_cell m row) (in_model t))) (out_model t) (Obj [])) rows"
    by (simp add: getData_def make_row_def)
  then show ?thesis
    using setPage_totalCount [OF assms(7,5), of rows pageNo pageSize] setPage_pageSize [OF assms(6,3,4), of rows totalCount pageNo]
      setPage_pageNo [OF assms(1-3), of rows t] by simp
qed

lemma page_roundtrip_witness:
  "snd (apply_method (C_page None) (fst (apply_method (C_page (Some ([7, 8], 12, 2, 10))) demo_table))) =
     Page_Ret (A_num (Fin 12)) (A_num (Fin 10)) (Pages 2)
       [Obj [(js ''id'', Some (js ''7''))], Obj [(js ''id'', Some (js ''8''))]]"
  using page_roundtrip [of 2 12 10 demo_table "[7, 8]"]
  by (simp add: demo_table_def total_page_def accepts_size_def make_cell_def read_column_def put_prop_def
      string_of_num_def string_of_nat.simps)

text \<open>\<open>data(rows, i)\<close> replaces the rows when \<open>i\<close> is missing or negative, puts the new ones behind
  row \<open>i\<close> when there is one and at the end when \<open>i\<close> is beyond; at exactly the number of rows it drops
  the first of the new ones, since \<open>eq(i)\<close> finds no row to insert behind.\<close>

theorem rows_inserted:
  "tbody (setData rows index t) =
     (let new = map (make_row (in_model t)) rows; old = tbody t
      in case index of
           None \<Rightarrow> new
         | Some i \<Rightarrow>
             if i < 0 then new
             else if nat i < length old then take (Suc (nat i)) old @ new @ drop (Suc (nat i)) old
             else if nat i = length old then old @ tl new
             else old @ new)"
proof (cases index)
  case None
  then show ?thesis using setData_fresh [where index = index and rows = rows and t = t] by simp
next
  case (Some i)
  show ?thesis
  proof (cases "i < 0")
    case True
    then show ?thesis using Some setData_fresh [where index = index and rows = rows and t = t] by simp
  next
    case False
    then obtain k where k: "i = int k" by (metis nat_0_le not_less)
    have "tbody (setData [] (Some (int k)) t) = tbody t" by (simp add: setData_def Let_def)
    then have "tbody (setData rows (Some (int k)) t) = tbody t @ tl (map (make_row (in_model t)) rows)" if "k = length (tbody t)"
      using that setData_at_end [of _ _ t] by (cases rows) auto
    then show ?thesis
      using Some k setData_insert [of k t rows] setData_append [of t k rows] by (auto simp: Let_def)
  qed
qed

text \<open>A row is read back as an object when every column has a name (the names distinct) and as an
  array when none has; a column without a name behind named ones discards what they had read.\<close>

theorem rows_read:
  "((\<forall>m \<in> set ms. column_key m \<noteq> []) \<and> distinct (map column_key ms) \<longrightarrow>
     fold (read_column tds) ms (Obj []) = Obj (map (\<lambda>m. (column_key m, column_value tds m)) ms)) \<and>
   ((\<forall>m \<in> set ms. column_key m = []) \<and> ms \<noteq> [] \<longrightarrow>
     fold (read_column tds) ms (Obj []) = Arr (map (column_value tds) ms) []) \<and>
   ((\<forall>m \<in> set ms. column_key m \<noteq> []) \<and> column_key u = [] \<longrightarrow>
     fold (read_column tds) (ms @ [u]) (Obj []) = Arr [column_value tds u] [])"
  using read_named [of ms "[]" tds] read_unnamed_first [of ms tds] read_mixed [of ms u tds] by simp

lemma rows_read_witness:
  "fold (read_column []) [\<lparr>out_name = Some (js ''a''), out_extractor = Some (\<lambda>_. 1 :: nat)\<rparr>] (Obj []) =
     Obj [(js ''a'', Some 1)]"
  using rows_read [of "[\<lparr>out_name = Some (js ''a''), out_extractor = Some (\<lambda>_. 1 :: nat)\<rparr>]" "[]"
      "\<lparr>out_name = None, out_extractor = None\<rparr>"]
  by (simp add: column_key_def column_value_def)

section \<open>Method calls\<close>

text \<open>A call by name changes a table only through a public method: a private or unknown name
  throws and leaves every table as it was (those after the first are not even created); a method without a
  value runs once on each matched table, one with a value only on the first.\<close>

theorem plugin_calls:
  fixes init :: "nat \<Rightarrow> ('row, 'v) table"
  shows "(\<not> public_call c \<longrightarrow> table_plugin init (Some c) k (Some t # es) = (Some t # es, Inl False)) \<and>
    (public_call c \<and> snd (apply_method c t) \<noteq> Undefined \<longrightarrow>
      table_plugin init (Some c) k (Some t # es) = (Some (fst (apply_method c t)) # es, Inr (snd (apply_method c t)))) \<and>
    (public_call c \<and> (\<forall>t :: ('row, 'v) table. snd (apply_method c t) = Undefined) \<longrightarrow>
      table_plugin init (Some c) k (map Some ts) = (map (\<lambda>t. Some (fst (apply_method c t))) ts, Inl True))"
proof (intro conjI impI; (elim conjE)?)
  show "table_plugin init (Some c) k (Some t # es) = (Some t # es, Inl False)" if "\<not> public_call c"
    by (rule table_plugin_private [OF that])
  show "table_plugin init (Some c) k (Some t # es) = (Some (fst (apply_method c t)) # es, Inr (snd (apply_method c t)))"
    if "public_call c" "snd (apply_method c t) \<noteq> Undefined"
    by (rule table_plugin_value) (use that in simp_all)
  show "table_plugin init (Some c) k (map Some ts) = (map (\<lambda>t. Some (fst (apply_method c t))) ts, Inl True)"
    if c: "public_call c" "\<forall>t :: ('row, 'v) table. snd (apply_method c t) = Undefined"
  proof -
    have "map (\<lambda>(i, e). Some (fst (apply_method c (case e of Some t \<Rightarrow> t | None \<Rightarrow> init i)))) (zip is (map Some ts)) =
        map (\<lambda>t. Some (fst (apply_method c t))) ts" if "length is = length ts" for "is"
      using that by (induction "is" ts rule: list_induct2) auto
    then show ?thesis using table_plugin_all [of c init k "map Some ts"] c by simp
  qed
qed

lemma plugin_calls_witness:
  "table_plugin (\<lambda>_. demo_table) (Some (C_insertRow 0 5)) 0 [Some demo_table] = ([Some demo_table], Inl False)"
  using plugin_calls [of "C_insertRow 0 5" "\<lambda>_. demo_table" 0 demo_table "[]" "[]"] by simp

end
