(* ===== verification/Format_Contract.thy ===== *)
theory Format_Contract
  imports Ecma_Plus
begin

text \<open>
  What the pages may rely on when they show numbers, sizes and times with the functions of
  \<open>ecma.script.plus.js\<close>: the properties of \<open>Ecma_Plus\<close>, each with a concrete input at which its
  hypotheses hold.
\<close>

section \<open>Signs and commas\<close>

lemma thousands_cons:
  assumes "length s mod 3 = 0" "s \<noteq> []"
  shows "thousands (c # s) = c # 44 # thousands s"
  using assms
proof (induction s rule: thousands.induct)
  case (1 s)
  show ?case
  proof (cases "length s \<le> 3")
    case True
    then have "length s = 3" using 1(2,3) by (cases s) (auto, presburger)
    then show ?thesis by (simp add: thousands.simps [of "c # s"] thousands.simps [of s] thousands.simps [of "[c]"])
  next
    case False
    define u where "u = take (length s - 3) s"
    have "length s = 3 + length u" using False by (simp add: u_def)
    then have "length u mod 3 = 0" "u \<noteq> []" using 1(2) False by (auto simp: mod_add_self1)
    then have "thousands (c # u) = c # 44 # thousands u" unfolding u_def by (rule 1(1) [OF False])
    moreover have "Suc (length s) - 3 = Suc (length s - 3)" using False by simp
    ultimately show ?thesis using False by (simp add: thousands.simps [of "c # s"] thousands.simps [of s] u_def)
  qed
qed

section \<open>Numbers\<close>

text \<open>C37. \<open>formatFloat\<close> of a text that holds a number at least 0 and below 10 to the 21 writes the
  multiple of \<open>10 ^ -n\<close> nearest to it, with \<open>n\<close> digits after the point (2 when \<open>n\<close> is missing or not
  between 0 and 20) and a comma between groups of three digits before it.\<close>

theorem format_groups:
  assumes "s \<noteq> []" "to_num (A_str s) \<noteq> FNaN" "native_parseFloat (keep_number s) = Fin r" "0 \<le> r" "r < 10 ^ 21"
  shows "\<exists>ip fp. formatFloat (A_str s) n = thousands ip @ (if format_digits n = 0 then [] else 46 # fp) \<and>
    length fp = format_digits n \<and> ip \<noteq> [] \<and> (\<forall>c \<in> set (ip @ fp). is_digit10 c) \<and>
    \<bar>of_nat (digits_value 10 (ip @ fp)) / 10 ^ format_digits n - r\<bar> \<le> 1 / (2 * 10 ^ format_digits n)"
proof -
  have a: "\<bar>r\<bar> < 10 ^ 21" using assms(4,5) by simp
  show ?thesis
    using formatFloat_text [OF assms(1-3) a, of n] nearest_multiple [OF assms(4), of "format_digits n"] assms(4)
    by (fastforce simp: sign_text_def)
qed

lemma format_groups_witness:
  "\<exists>ip fp. formatFloat (A_str (string_of_num (Num 1234567))) (Some 0) =
      thousands ip @ (if format_digits (Some 0) = 0 then [] else 46 # fp) \<and>
    length fp = format_digits (Some 0) \<and> ip \<noteq> [] \<and> (\<forall>c \<in> set (ip @ fp). is_digit10 c) \<and>
    \<bar>of_nat (digits_value 10 (ip @ fp)) / 10 ^ format_digits (Some 0) - (1234567 :: rat)\<bar>
      \<le> 1 / (2 * 10 ^ format_digits (Some 0))"
proof (rule format_groups)
  show "to_num (A_str (string_of_num (Num 1234567))) \<noteq> FNaN" by (rule int_text_not_NaN) simp
  have "native_parseFloat (keep_number (string_of_num (Num 1234567))) = Fin (of_int 1234567)"
    by (rule int_text_float) simp
  then show "native_parseFloat (keep_number (string_of_num (Num 1234567))) = Fin 1234567"
    unfolding of_int_numeral .
qed simp_all

text \<open>A negative number with a multiple of three digits before the point gets a comma right
  after its sign, as the sign is counted with the digits: \<open>-123456\<close> is written \<open>-,123,456\<close>.\<close>

theorem format_negative_comma:
  assumes "s \<noteq> []" "to_num (A_str s) \<noteq> FNaN" "native_parseFloat (keep_number s) = Fin r" "r < 0" "- r < 10 ^ 21"
  shows "\<exists>ip fp. formatFloat (A_str s) n =
      (if length ip mod 3 = 0 then [45, 44] @ thousands ip else thousands (45 # ip)) @
      (if format_digits n = 0 then [] else 46 # fp) \<and>
    to_fixed (Fin r) (format_digits n) = [45] @ ip @ (if format_digits n = 0 then [] else 46 # fp) \<and>
    length fp = format_digits n \<and> (\<forall>c \<in> set (ip @ fp). is_digit10 c)"
proof -
  have a: "\<bar>r\<bar> < 10 ^ 21" using assms(4,5) by simp
  obtain ip fp where d: "formatFloat (A_str s) n = thousands (45 # ip) @ (if format_digits n = 0 then [] else 46 # fp)"
    "to_fixed (Fin r) (format_digits n) = [45] @ ip @ (if format_digits n = 0 then [] else 46 # fp)"
    "length fp = format_digits n" "ip \<noteq> []" "\<forall>c \<in> set (ip @ fp). is_digit10 c"
    using formatFloat_text [OF assms(1-3) a, of n] assms(4) by (auto simp: sign_text_def)
  have c: "(if length ip mod 3 = 0 then [45, 44] @ thousands ip else thousands (45 # ip)) = thousands (45 # ip)"
    using thousands_cons [of ip 45] d(4) by simp
  show ?thesis
    by (intro exI [of _ ip] exI [of _ fp] conjI; (unfold c)?) (rule d)+
qed

lemma format_negative_comma_witness:
  "\<exists>ip fp. formatFloat (A_str (string_of_num (Num (- 123456)))) (Some 0) =
      (if length ip mod 3 = 0 then [45, 44] @ thousands ip else thousands (45 # ip)) @
      (if format_digits (Some 0) = 0 then [] else 46 # fp) \<and>
    to_fixed (Fin (- 123456)) (format_digits (Some 0)) = [45] @ ip @ (if format_digits (Some 0) = 0 then [] else 46 # fp) \<and>
    length fp = format_digits (Some 0) \<and> (\<forall>c \<in> set (ip @ fp). is_digit10 c)"
  by (rule format_negative_comma [OF string_of_num_not_Nil int_text_not_NaN int_text_float [where v = "- 123456", simplified]]) simp_all

lemma keep_number_commas: "keep_number s = keep_number (filter (\<lambda>c. c \<noteq> 44) s)"
  by (auto simp: keep_number_def is_digit10_def intro: filter_cong)

text \<open>\<open>parseInt\<close> of \<open>ecma.script.plus.js\<close> reads back a whole number that a double holds exactly,
  wherever its text has commas.\<close>

theorem parse_int_commas:
  assumes "\<bar>v\<bar> \<le> 2 ^ 53" "filter (\<lambda>c. c \<noteq> 44) s = string_of_num (Num v)" "\<not> is_infinite (A_str s)"
  shows "parseInt (A_str s) 0 = A_num (Fin (of_int v))"
proof -
  have "s \<noteq> []" using assms(2) by (metis filter.simps(1) string_of_num_not_Nil)
  moreover have "keep_number s = string_of_num (Num v)"
    using keep_number_commas [of s] assms(2) keep_number_int by simp
  ultimately show ?thesis
    using assms(1,3) by (simp add: parseInt_def absent_def native_parseInt_string_of_num num_to_jsf_def round64_int)
qed

lemma parse_int_commas_witness: "parseInt (A_str (js ''12,3'')) 0 = A_num (Fin 123)"
proof -
  have "string_of_nat 123 = [49, 50, 51]" by (simp add: string_of_nat.simps)
  then have "filter (\<lambda>c. c \<noteq> 44) (js ''12,3'') = string_of_num (Num 123)" by (simp add: string_of_num_def)
  moreover have "\<not> is_infinite (A_str (js ''12,3''))"
    by (simp add: is_infinite_def string_to_number_def trim_def is_space_def parse_signed_def js_Infinity_def
        parse_decimal_def is_digit10_def parse_exponent_def)
  ultimately show ?thesis using parse_int_commas [of 123 "js ''12,3''"] by simp
qed

section \<open>Sizes and times\<close>

text \<open>The text of a file size is within half a hundredth of a unit of the size, up to the rounding
  of the quotient to a double; the unit is the largest of kB, MB and GB that is at most the size
  (kB for less than a kB).\<close>

theorem file_size_close:
  assumes "1 \<le> x" "x < 10 ^ 20"
  shows "\<exists>n u unit. formatFileSize (A_num (Fin x)) = fixed_digits 2 n @ unit \<and>
    (u, unit) \<in> {(1000, js '' KB''), (1000000, js '' MB''), (1000000000, js '' GB'')} \<and>
    (u \<le> x \<or> u = 1000) \<and> (x < 1000 * u \<or> u = 1000000000) \<and>
    \<bar>of_nat n / 100 - x / u\<bar> \<le> 1 / 200 + x / u * pow2 (- 53)"
proof -
  define p where "p = (if x \<ge> 1000000000 then (1000000000, js '' GB'')
    else if x \<ge> 1000000 then (1000000, js '' MB'') else (1000 :: rat, js '' KB''))"
  obtain u unit where u: "p = (u, unit)" by (cases p)
  then have r: "1 \<le> u" "u \<le> 10 ^ 9" by (auto simp: p_def split: if_splits)
  obtain n where n: "scaled x u = fixed_digits 2 n" "\<bar>of_nat n / 100 - x / u\<bar> \<le> 1 / 200 + x / u * pow2 (- 53)"
    using scaled_close [OF assms r] by blast
  have "formatFileSize (A_num (Fin x)) = scaled x u @ unit"
    using u by (auto simp: formatFileSize_def p_def split: if_splits)
  then show ?thesis
    using n u by (intro exI [of _ n] exI [of _ u] exI [of _ unit]) (auto simp: p_def split: if_splits)
qed

lemma file_size_close_witness:
  "\<exists>n u unit. formatFileSize (A_num (Fin 999999999)) = fixed_digits 2 n @ unit \<and>
    (u, unit) \<in> {(1000, js '' KB''), (1000000, js '' MB''), (1000000000, js '' GB'')} \<and>
    (u \<le> 999999999 \<or> u = 1000) \<and> (999999999 < 1000 * u \<or> u = 1000000000) \<and>
    \<bar>of_nat n / 100 - 999999999 / u\<bar> \<le> 1 / 200 + 999999999 / u * pow2 (- 53)"
  by (rule file_size_close) simp_all

text \<open>The text of a number of seconds is a clock: days (left out when they are 0), and hours,
  minutes and seconds of two digits each, that add up to it; negative numbers count back from a
  negative number of days.\<close>

theorem time_is_clock:
  "\<exists>d h m k. formatTime s =
      (if d \<noteq> 0 then string_of_num (Num d) @ js ''d '' else []) @
      [48 + h div 10, 48 + h mod 10] @ js '':'' @ [48 + m div 10, 48 + m mod 10] @ js '':'' @ [48 + k div 10, 48 + k mod 10] \<and>
    h < 24 \<and> m < 60 \<and> k < 60 \<and> s = d * 86400 + int h * 3600 + int m * 60 + int k"
proof -
  define h m k where "h = nat (s div 3600 mod 24)" and "m = nat (s div 60 mod 60)" and "k = nat (s mod 60)"
  have two: "last_two (48 # string_of_num (Num (int v))) = [48 + v div 10, 48 + v mod 10]" if "v < 100" for v
    using two_digits [of "int v"] that by (simp add: nat_div_distrib nat_mod_distrib)
  have i: "s div 3600 mod 24 = int h" "s div 60 mod 60 = int m" "s mod 60 = int k"
    by (simp_all add: h_def m_def k_def)
  have b: "h < 24" "m < 60" "k < 60"
    using pos_mod_bound [of 24 "s div 3600"] pos_mod_bound [of 60 "s div 60"] pos_mod_bound [of 60 s]
    unfolding i by simp_all
  have "s = s div 86400 * 86400 + int h * 3600 + int m * 60 + int k" using time_parts [of s] unfolding i .
  moreover have "h < 100" "m < 100" "k < 100" using b by simp_all
  note tw = this [THEN two]
  ultimately show ?thesis
    using b unfolding formatTime_def Let_def i tw by blast
qed

section \<open>Arrays\<close>

text \<open>\<open>remove\<close> takes the last occurrence of the value out of the array and tells whether there was
  one; \<open>indexOf\<close>, which it uses, searches from the end.\<close>

theorem remove_last_occurrence:
  "(v \<notin> set a \<longrightarrow> array_remove a v = (a, False)) \<and>
   (\<forall>l r. a = l @ v # r \<and> v \<notin> set r \<longrightarrow>
     array_remove a v = (l @ r, True) \<and> array_indexOf a v = int (length l))"
proof (intro conjI impI allI)
  show "array_remove a v = (a, False)" if "v \<notin> set a"
    using that array_remove_last [of a v] by (simp add: remove1_idem)
  show "array_remove a v = (l @ r, True)" if "a = l @ v # r \<and> v \<notin> set r" for l r
    using that array_remove_last [of a v] by (simp add: remove1_append)
  show "array_indexOf a v = int (length l)" if "a = l @ v # r \<and> v \<notin> set r" for l r
  proof -
    have "v \<notin> set r \<Longrightarrow> array_indexOf (l @ v # r) v = int (length l)"
    proof (induction r rule: rev_induct)
      case (snoc x r)
      then show ?case using array_indexOf_snoc [of "l @ v # r" x v] by (auto split: if_splits)
    qed (simp add: array_indexOf_snoc)
    then show ?thesis using that by blast
  qed
qed

lemma remove_last_occurrence_witness: "array_remove [1, 2, 1, 3] (1 :: nat) = ([1, 2, 3], True)"
  using remove_last_occurrence [of 1 "[1, 2, 1, 3 :: nat]", THEN conjunct2, rule_format, of "[1, 2]" "[3]"] by simp

end
