(* ===== verification/Regexp.thy ===== *)
theory Regexp
  imports Js_Text
begin

text \<open>
  The regular expressions of the validation rules: classes of characters, sequences, alternatives,
  repetitions, the anchors and look-ahead, on texts of UTF-16 units. \<open>ends\<close> is the matcher that
  \<open>test\<close> runs; \<open>lang\<close> is the set of the texts a pattern without anchors describes, and the lemmas below
  connect the two.
\<close>

section \<open>Patterns\<close>

datatype re =
    Fail
  | Empty
  | Cls bool "(nat \<times> nat) list"
  | Seq re re
  | Alt re re
  | Star re
  | Bol
  | Eol
  | Look re
  | Not_look re

definition in_class :: "bool \<Rightarrow> (nat \<times> nat) list \<Rightarrow> nat \<Rightarrow> bool" where
  "in_class neg rs c \<longleftrightarrow> list_ex (\<lambda>(a, b). a \<le> c \<and> c \<le> b) rs \<noteq> neg"

text \<open>
  \<open>ends n r t\<close>: what can be left of \<open>t\<close> after a match of \<open>r\<close> at its start, where \<open>t\<close> is the rest of a text
  of length \<open>n\<close>. An iteration of a repetition that consumes nothing ends it.
\<close>

function ends :: "nat \<Rightarrow> re \<Rightarrow> jsstr \<Rightarrow> jsstr list" where
  "ends n Fail t = []"
| "ends n Empty t = [t]"
| "ends n (Cls neg rs) t = (case t of [] \<Rightarrow> [] | c # u \<Rightarrow> if in_class neg rs c then [u] else [])"
| "ends n (Seq r s) t = remdups (concat (map (ends n s) (ends n r t)))"
| "ends n (Alt r s) t = remdups (ends n r t @ ends n s t)"
| "ends n (Star r) t =
     remdups (t # concat (map (\<lambda>u. if length u < length t then ends n (Star r) u else []) (ends n r t)))"
| "ends n Bol t = (if length t = n then [t] else [])"
| "ends n Eol t = (if t = [] then [t] else [])"
| "ends n (Look r) t = (if ends n r t = [] then [] else [t])"
| "ends n (Not_look r) t = (if ends n r t = [] then [t] else [])"
  by pat_completeness auto
termination by (relation "measures [\<lambda>(n, r, t). size r, \<lambda>(n, r, t). length t]") auto

declare ends.simps(6) [simp del]

fun tails :: "'a list \<Rightarrow> 'a list list" where
  "tails [] = [[]]"
| "tails (x # xs) = (x # xs) # tails xs"

text \<open>\<open>r.test(s)\<close>, and a pattern between \<open>^\<close> and \<open>$\<close>.\<close>

definition re_test :: "re \<Rightarrow> jsstr \<Rightarrow> bool" where
  "re_test r s = list_ex (\<lambda>t. ends (length s) r t \<noteq> []) (tails s)"

definition whole :: "re \<Rightarrow> re" where
  "whole r = Seq Bol (Seq r Eol)"

section \<open>Abbreviations for patterns\<close>

definition chr :: "char \<Rightarrow> re" where
  "chr c = Cls False [(of_char c, of_char c)]"

definition rng :: "(char \<times> char) list \<Rightarrow> (nat \<times> nat) list" where
  "rng cs = map (\<lambda>(a, b). (of_char a, of_char b)) cs"

definition one_of :: "string \<Rightarrow> (nat \<times> nat) list" where
  "one_of cs = map (\<lambda>c. (of_char c, of_char c)) cs"

definition cls :: "(nat \<times> nat) list \<Rightarrow> re" where
  "cls rs = Cls False rs"

fun lit :: "string \<Rightarrow> re" where
  "lit [] = Empty"
| "lit (c # cs) = Seq (chr c) (lit cs)"

fun rep :: "nat \<Rightarrow> re \<Rightarrow> re" where
  "rep 0 r = Empty"
| "rep (Suc n) r = Seq r (rep n r)"

definition opt :: "re \<Rightarrow> re" where
  "opt r = Alt Empty r"

definition plus :: "re \<Rightarrow> re" where
  "plus r = Seq r (Star r)"

fun upto_rep :: "nat \<Rightarrow> re \<Rightarrow> re" where
  "upto_rep 0 r = Empty"
| "upto_rep (Suc n) r = opt (Seq r (upto_rep n r))"

definition between :: "nat \<Rightarrow> nat \<Rightarrow> re \<Rightarrow> re" where
  "between a b r = Seq (rep a r) (upto_rep (b - a) r)"

fun alts :: "re list \<Rightarrow> re" where
  "alts [] = Fail"
| "alts [r] = r"
| "alts (r # rs) = Alt r (alts rs)"

fun seqs :: "re list \<Rightarrow> re" where
  "seqs [] = Empty"
| "seqs [r] = r"
| "seqs (r # rs) = Seq r (seqs rs)"

text \<open>\<open>\d\<close>, \<open>\w\<close>, \<open>\s\<close>, \<open>\S\<close> and \<open>.\<close>\<close>

definition digits_cls :: "(nat \<times> nat) list" where
  "digits_cls = [(48, 57)]"

definition word_cls :: "(nat \<times> nat) list" where
  "word_cls = [(48, 57), (65, 90), (95, 95), (97, 122)]"

definition space_cls :: "(nat \<times> nat) list" where
  "space_cls = [(9, 13), (32, 32), (160, 160), (5760, 5760), (8192, 8202), (8232, 8233), (8239, 8239),
    (8287, 8287), (12288, 12288), (65279, 65279)]"

abbreviation digit :: re where "digit \<equiv> Cls False digits_cls"
abbreviation word :: re where "word \<equiv> Cls False word_cls"
abbreviation space :: re where "space \<equiv> Cls False space_cls"
abbreviation non_space :: re where "non_space \<equiv> Cls True space_cls"
abbreviation dot :: re where "dot \<equiv> Cls True [(10, 10), (13, 13), (8232, 8233)]"

text \<open>The flag \<open>i\<close> on a class of letters, digits and signs of ASCII, and all or none of the units from 0xA1 on: both cases of its letters.\<close>

definition both_cases :: "(nat \<times> nat) list \<Rightarrow> (nat \<times> nat) list" where
  "both_cases rs = concat (map (\<lambda>(a, b).
     if 65 \<le> a \<and> b \<le> 90 then [(a, b), (a + 32, b + 32)]
     else if 97 \<le> a \<and> b \<le> 122 then [(a, b), (a - 32, b - 32)]
     else [(a, b)]) rs)"

fun ignore_case :: "re \<Rightarrow> re" where
  "ignore_case (Cls neg rs) = Cls neg (both_cases rs)"
| "ignore_case (Seq r s) = Seq (ignore_case r) (ignore_case s)"
| "ignore_case (Alt r s) = Alt (ignore_case r) (ignore_case s)"
| "ignore_case (Star r) = Star (ignore_case r)"
| "ignore_case (Look r) = Look (ignore_case r)"
| "ignore_case (Not_look r) = Not_look (ignore_case r)"
| "ignore_case r = r"

section \<open>Languages\<close>

inductive_set star :: "jsstr set \<Rightarrow> jsstr set" for A where
  star_Nil [intro]: "[] \<in> star A"
| star_app [intro]: "u \<in> A \<Longrightarrow> v \<in> star A \<Longrightarrow> u @ v \<in> star A"

fun lang :: "re \<Rightarrow> jsstr set" where
  "lang Fail = {}"
| "lang Empty = {[]}"
| "lang (Cls neg rs) = {[c] | c. in_class neg rs c}"
| "lang (Seq r s) = {u @ v | u v. u \<in> lang r \<and> v \<in> lang s}"
| "lang (Alt r s) = lang r \<union> lang s"
| "lang (Star r) = star (lang r)"
| "lang _ = {}"

fun plain :: "re \<Rightarrow> bool" where
  "plain (Seq r s) = (plain r \<and> plain s)"
| "plain (Alt r s) = (plain r \<and> plain s)"
| "plain (Star r) = plain r"
| "plain Bol = False"
| "plain Eol = False"
| "plain (Look r) = False"
| "plain (Not_look r) = False"
| "plain _ = True"

lemma star_proper:
  assumes "w \<in> star A" "w \<noteq> []"
  shows "\<exists>u v. w = u @ v \<and> u \<noteq> [] \<and> u \<in> A \<and> v \<in> star A"
  using assms
proof (induction rule: star.induct)
  case (star_app u v)
  then show ?case by (cases "u = []") auto
qed simp

lemma ends_star:
  assumes "\<And>t u. u \<in> set (ends n r t) \<longleftrightarrow> (\<exists>w. t = w @ u \<and> w \<in> A)"
  shows "u \<in> set (ends n (Star r) t) \<longleftrightarrow> (\<exists>w. t = w @ u \<and> w \<in> star A)"
proof (induction "length t" arbitrary: t rule: less_induct)
  case less
  have "u \<in> set (ends n (Star r) t) \<longleftrightarrow>
      u = t \<or> (\<exists>t'. t' \<in> set (ends n r t) \<and> length t' < length t \<and> u \<in> set (ends n (Star r) t'))"
    by (subst ends.simps) auto
  also have "\<dots> \<longleftrightarrow> u = t \<or> (\<exists>t' v w. t = v @ t' \<and> v \<in> A \<and> v \<noteq> [] \<and> t' = w @ u \<and> w \<in> star A)"
  proof -
    have "t' \<in> set (ends n r t) \<and> length t' < length t \<and> u \<in> set (ends n (Star r) t') \<longleftrightarrow>
        (\<exists>v w. t = v @ t' \<and> v \<in> A \<and> v \<noteq> [] \<and> t' = w @ u \<and> w \<in> star A)" for t'
      using less [of t'] by (auto simp: assms)
    then show ?thesis by blast
  qed
  also have "\<dots> \<longleftrightarrow> (\<exists>w. t = w @ u \<and> w \<in> star A)"
  proof
    assume "\<exists>w. t = w @ u \<and> w \<in> star A"
    then obtain w where w: "t = w @ u" "w \<in> star A" by blast
    show "u = t \<or> (\<exists>t' v w. t = v @ t' \<and> v \<in> A \<and> v \<noteq> [] \<and> t' = w @ u \<and> w \<in> star A)"
    proof (cases "w = []")
      case False
      then obtain a b where ab: "w = a @ b" "a \<noteq> []" "a \<in> A" "b \<in> star A" using star_proper [OF w(2)] by blast
      then have "t = a @ (b @ u)" using w(1) by simp
      with ab show ?thesis by blast
    qed (use w in simp)
  qed (auto intro: exI [of _ "[]"])
  finally show ?case .
qed

text \<open>On patterns without anchors the matcher reads the words of the language.\<close>

lemma ends_lang:
  assumes "plain r"
  shows "u \<in> set (ends n r t) \<longleftrightarrow> (\<exists>w. t = w @ u \<and> w \<in> lang r)"
  using assms
proof (induction r arbitrary: t u)
  case (Cls neg rs)
  then show ?case by (cases t) auto
next
  case (Seq r s)
  have "u \<in> set (ends n (Seq r s) t) \<longleftrightarrow> (\<exists>v. v \<in> set (ends n r t) \<and> u \<in> set (ends n s v))" by auto
  also have "\<dots> \<longleftrightarrow> (\<exists>v w w'. t = w @ v \<and> w \<in> lang r \<and> v = w' @ u \<and> w' \<in> lang s)"
    using Seq by auto
  also have "\<dots> \<longleftrightarrow> (\<exists>w. t = w @ u \<and> w \<in> lang (Seq r s))"
    by (simp add: ex_simps(1) [symmetric] del: ex_simps(1)) (metis append_assoc)
  finally show ?case .
next
  case (Star r)
  then have "u \<in> set (ends n r t) \<longleftrightarrow> (\<exists>w. t = w @ u \<and> w \<in> lang r)" for t u by simp
  then show ?case using ends_star by simp
qed auto

lemma in_tails: "t \<in> set (tails s) \<longleftrightarrow> (\<exists>w. s = w @ t)"
  by (induction s) (auto simp: Cons_eq_append_conv)

lemma re_test_iff: "re_test r s \<longleftrightarrow> (\<exists>w t. s = w @ t \<and> ends (length s) r t \<noteq> [])"
  unfolding re_test_def list_ex_iff Bex_def in_tails by blast

theorem whole_iff:
  assumes "plain r"
  shows "re_test (whole r) s \<longleftrightarrow> s \<in> lang r"
proof -
  have "ends n (whole r) t \<noteq> [] \<longleftrightarrow> length t = n \<and> [] \<in> set (ends n r t)" for n t
    by (auto simp: whole_def filter_empty_conv list_ex_iff)
  then have "re_test (whole r) s \<longleftrightarrow> (\<exists>w t. s = w @ t \<and> length t = length s \<and> [] \<in> set (ends (length s) r t))"
    by (simp only: re_test_iff)
  also have "\<dots> \<longleftrightarrow> [] \<in> set (ends (length s) r s)" by auto
  finally show ?thesis using ends_lang [OF assms] by simp
qed

text \<open>A pattern anchored nowhere is looked for in the whole text.\<close>

theorem search_iff:
  assumes "plain r"
  shows "re_test r s \<longleftrightarrow> (\<exists>u w v. s = u @ w @ v \<and> w \<in> lang r)"
proof -
  have "ends n r t \<noteq> [] \<longleftrightarrow> (\<exists>w v. t = w @ v \<and> w \<in> lang r)" for n t
    using ends_lang [OF assms, of _ n t] by (metis empty_iff empty_set last_in_set)
  then show ?thesis by (auto simp: re_test_iff)
qed

section \<open>Reading languages\<close>

named_theorems re_simps \<open>membership in the languages of patterns\<close>

lemma lang_Cls [re_simps]: "w \<in> lang (Cls neg rs) \<longleftrightarrow> (\<exists>c. w = [c] \<and> in_class neg rs c)"
  by auto

lemma lang_Seq_Cls [re_simps]:
  "w \<in> lang (Seq (Cls neg rs) s) \<longleftrightarrow> (\<exists>c v. w = c # v \<and> in_class neg rs c \<and> v \<in> lang s)"
proof
  assume "\<exists>c v. w = c # v \<and> in_class neg rs c \<and> v \<in> lang s"
  then obtain c v where "w = [c] @ v" "in_class neg rs c" "v \<in> lang s" by auto
  then show "w \<in> lang (Seq (Cls neg rs) s)" unfolding lang.simps by blast
qed auto

lemma lang_rep_Cls [re_simps]:
  "w \<in> lang (rep n (Cls neg rs)) \<longleftrightarrow> length w = n \<and> (\<forall>c \<in> set w. in_class neg rs c)"
proof (induction n arbitrary: w)
  case (Suc n)
  then show ?case by (cases w) (auto simp: lang_Seq_Cls simp del: lang.simps)
qed auto

lemma lang_star_Cls [re_simps]: "w \<in> lang (Star (Cls neg rs)) \<longleftrightarrow> (\<forall>c \<in> set w. in_class neg rs c)"
proof
  show "w \<in> lang (Star (Cls neg rs)) \<Longrightarrow> \<forall>c \<in> set w. in_class neg rs c"
    unfolding lang.simps by (induction rule: star.induct) auto
  show "\<forall>c \<in> set w. in_class neg rs c \<Longrightarrow> w \<in> lang (Star (Cls neg rs))"
  proof (induction w)
    case (Cons c w)
    then have "[c] \<in> lang (Cls neg rs)" "w \<in> star (lang (Cls neg rs))" by simp_all
    then show ?case using star_app [of "[c]" "lang (Cls neg rs)" w] by simp
  qed auto
qed

lemma lang_plus_Cls [re_simps]:
  "w \<in> lang (plus (Cls neg rs)) \<longleftrightarrow> w \<noteq> [] \<and> (\<forall>c \<in> set w. in_class neg rs c)"
proof -
  have "w \<in> lang (plus (Cls neg rs)) \<longleftrightarrow> (\<exists>c v. w = c # v \<and> in_class neg rs c \<and> v \<in> lang (Star (Cls neg rs)))"
    unfolding plus_def lang_Seq_Cls by simp
  then show ?thesis by (cases w) (auto simp: lang_star_Cls simp del: lang.simps)
qed

lemma lang_opt [re_simps]: "w \<in> lang (opt r) \<longleftrightarrow> w = [] \<or> w \<in> lang r"
  by (simp add: opt_def)

lemma lang_upto_Cls [re_simps]:
  "w \<in> lang (upto_rep n (Cls neg rs)) \<longleftrightarrow> length w \<le> n \<and> (\<forall>c \<in> set w. in_class neg rs c)"
proof (induction n arbitrary: w)
  case (Suc n)
  have "w \<in> lang (upto_rep (Suc n) (Cls neg rs)) \<longleftrightarrow>
      w = [] \<or> (\<exists>c v. w = c # v \<and> in_class neg rs c \<and> v \<in> lang (upto_rep n (Cls neg rs)))"
    by (simp add: lang_opt lang_Seq_Cls del: lang.simps)
  then show ?case using Suc by (cases w) (auto simp del: lang.simps upto_rep.simps)
qed auto

lemma lang_between_Cls [re_simps]:
  assumes "a \<le> b"
  shows "w \<in> lang (between a b (Cls neg rs)) \<longleftrightarrow> a \<le> length w \<and> length w \<le> b \<and> (\<forall>c \<in> set w. in_class neg rs c)"
proof -
  have "w \<in> lang (between a b (Cls neg rs)) \<longleftrightarrow>
      (\<exists>u v. w = u @ v \<and> (length u = a \<and> (\<forall>c \<in> set u. in_class neg rs c)) \<and> length v \<le> b - a \<and> (\<forall>c \<in> set v. in_class neg rs c))"
    unfolding between_def lang.simps(4) by (auto simp: lang_rep_Cls lang_upto_Cls)
  also have "\<dots> \<longleftrightarrow> a \<le> length w \<and> length w \<le> b \<and> (\<forall>c \<in> set w. in_class neg rs c)" (is "?L \<longleftrightarrow> ?R")
  proof
    assume ?R
    then show ?L using assms by (intro exI [of _ "take a w"] exI [of _ "drop a w"]) (auto dest: in_set_takeD in_set_dropD)
  qed (use assms in auto)
  finally show ?thesis .
qed

lemma plain_rep [simp]: "plain r \<Longrightarrow> plain (rep n r)"
  by (induction n) auto

lemma plain_upto [simp]: "plain r \<Longrightarrow> plain (upto_rep n r)"
  by (induction n) (auto simp: opt_def)

lemma plain_lit [simp]: "plain (lit cs)"
  by (induction cs) (auto simp: chr_def)

lemma plain_more [simp]:
  "plain (chr c)" "plain (cls rs)" "plain (opt r) = plain r" "plain (plus r) = plain r"
  "plain r \<Longrightarrow> plain (between a b r)"
  by (simp_all add: chr_def cls_def opt_def plus_def between_def)

lemma lang_lit [re_simps]: "w \<in> lang (lit cs) \<longleftrightarrow> w = map of_char cs"
  by (induction cs arbitrary: w) (auto simp: chr_def in_class_def)

lemma in_class_digits [simp]: "in_class False digits_cls c \<longleftrightarrow> 48 \<le> c \<and> c \<le> 57"
  by (simp add: in_class_def digits_cls_def)

declare lang.simps(4,6) [simp del]

lemma in_Seq: "w \<in> lang (Seq r s) \<longleftrightarrow> (\<exists>u v. w = u @ v \<and> u \<in> lang r \<and> v \<in> lang s)"
  by (auto simp: lang.simps(4))

text \<open>Sequences are read from the left.\<close>

lemma lang_Seq_norm [re_simps]:
  "w \<in> lang (Seq (Seq a b) c) \<longleftrightarrow> w \<in> lang (Seq a (Seq b c))"
  "w \<in> lang (Seq Empty c) \<longleftrightarrow> w \<in> lang c"
  "w \<in> lang (Seq (Alt a b) c) \<longleftrightarrow> w \<in> lang (Seq a c) \<or> w \<in> lang (Seq b c)"
  "w \<in> lang (Seq (opt a) c) \<longleftrightarrow> w \<in> lang c \<or> w \<in> lang (Seq a c)"
proof -
  show "w \<in> lang (Seq (Seq a b) c) \<longleftrightarrow> w \<in> lang (Seq a (Seq b c))"
  proof
    assume "w \<in> lang (Seq (Seq a b) c)"
    then obtain x y z where "w = x @ y @ z" "x \<in> lang a" "y \<in> lang b" "z \<in> lang c" by (auto simp: in_Seq)
    then show "w \<in> lang (Seq a (Seq b c))" unfolding in_Seq by blast
  next
    assume "w \<in> lang (Seq a (Seq b c))"
    then obtain x y z where "w = (x @ y) @ z" "x \<in> lang a" "y \<in> lang b" "z \<in> lang c" by (auto simp: in_Seq)
    then show "w \<in> lang (Seq (Seq a b) c)" unfolding in_Seq by blast
  qed
qed (auto simp: in_Seq opt_def)

lemma rep_one [simp]: "rep 1 r = Seq r Empty" "rep (Suc 0) r = Seq r Empty"
  by simp_all

lemma lang_Seq_rep [re_simps]:
  "w \<in> lang (Seq (rep n (Cls neg rs)) s) \<longleftrightarrow>
     n \<le> length w \<and> (\<forall>c \<in> set (take n w). in_class neg rs c) \<and> drop n w \<in> lang s"
proof
  assume "w \<in> lang (Seq (rep n (Cls neg rs)) s)"
  then obtain u v where "w = u @ v" "u \<in> lang (rep n (Cls neg rs))" "v \<in> lang s" by (auto simp: in_Seq)
  then show "n \<le> length w \<and> (\<forall>c \<in> set (take n w). in_class neg rs c) \<and> drop n w \<in> lang s"
    by (auto simp: lang_rep_Cls)
next
  assume "n \<le> length w \<and> (\<forall>c \<in> set (take n w). in_class neg rs c) \<and> drop n w \<in> lang s"
  then have "take n w \<in> lang (rep n (Cls neg rs))" "drop n w \<in> lang s" "w = take n w @ drop n w"
    by (simp_all add: lang_rep_Cls)
  then show "w \<in> lang (Seq (rep n (Cls neg rs)) s)" unfolding in_Seq by blast
qed

lemmas re_defs = chr_def cls_def one_of_def in_class_def

end
