(* ===== verification/Check_Digit.thy ===== *)
theory Check_Digit
  imports Prelude Complex_Main
begin

text \<open>
  Weighted check sums: what the checks of identity cards, bank accounts and vehicle numbers have in
  common. A number of a list of values passes when the sum of the values, each times the weight of its
  place, has a given remainder; the locales say which weights make the check notice a wrong value and
  the exchange of two neighbours.
\<close>

definition weighted :: "(nat \<Rightarrow> int) \<Rightarrow> int list \<Rightarrow> int" where
  "weighted w vs = (\<Sum>i<length vs. w i * vs ! i)"

lemma weighted_update:
  assumes "i < length vs"
  shows "weighted w (vs[i := a]) = weighted w vs + w i * (a - vs ! i)"
proof -
  have "{..<length vs} = insert i ({..<length vs} - {i})" using assms by auto
  then have split: "(\<Sum>k<length vs. f k) = f i + (\<Sum>k \<in> {..<length vs} - {i}. f k)" for f :: "nat \<Rightarrow> int"
    using assms by (metis (no_types) finite_lessThan lessThan_iff sum.remove)
  have "(\<Sum>k \<in> {..<length vs} - {i}. w k * vs[i := a] ! k) = (\<Sum>k \<in> {..<length vs} - {i}. w k * vs ! k)"
    by (intro sum.cong) auto
  then show ?thesis
    using assms split [of "\<lambda>k. w k * vs[i := a] ! k"] split [of "\<lambda>k. w k * vs ! k"]
    by (simp add: weighted_def algebra_simps)
qed

lemma weighted_swap:
  assumes "Suc i < length vs"
  shows "weighted w (vs[i := vs ! Suc i, Suc i := vs ! i]) = weighted w vs + (w i - w (Suc i)) * (vs ! Suc i - vs ! i)"
  using weighted_update [of "Suc i" "vs[i := vs ! Suc i]" w "vs ! i"] weighted_update [of i vs w "vs ! Suc i"] assms
  by (simp add: algebra_simps)

lemma cancel_mod:
  fixes u d m :: int
  assumes "coprime u m" "(x + u * d) mod m = x mod m" "\<bar>d\<bar> < m"
  shows "d = 0"
proof -
  have "m dvd u * d" using assms(2) by (metis add_diff_cancel_left' mod_eq_dvd_iff)
  then have "m dvd d" using assms(1) by (simp add: coprime_commute coprime_dvd_mult_right_iff)
  then show ?thesis using assms(3) by (metis abs_of_pos dvd_imp_le_int linorder_not_le abs_ge_zero le_less_trans abs_of_nonneg less_imp_le)
qed

locale weighted_check =
  fixes w :: "nat \<Rightarrow> int" and m :: int and places :: "nat set"
  assumes unit: "i \<in> places \<Longrightarrow> coprime (w i) m"
begin

lemma notices_digit:
  assumes "i \<in> places" "i < length vs" "weighted w (vs[i := a]) mod m = weighted w vs mod m" "\<bar>a - vs ! i\<bar> < m"
  shows "a = vs ! i"
  using cancel_mod [OF unit [OF assms(1)], of "weighted w vs" "a - vs ! i"] assms(2-4)
  by (simp add: weighted_update)

end

locale transposition_check = weighted_check +
  assumes step: "i \<in> places \<Longrightarrow> Suc i \<in> places \<Longrightarrow> coprime (w i - w (Suc i)) m"
begin

lemma notices_swap:
  assumes "i \<in> places" "Suc i \<in> places" "Suc i < length vs" "\<bar>vs ! Suc i - vs ! i\<bar> < m"
    and "weighted w (vs[i := vs ! Suc i, Suc i := vs ! i]) mod m = weighted w vs mod m"
  shows "vs ! i = vs ! Suc i"
  using cancel_mod [OF step [OF assms(1,2)], of "weighted w vs" "vs ! Suc i - vs ! i"] assms(3-5)
  by (simp add: weighted_swap)

end

text \<open>Residues prime to 11 and to 97.\<close>

lemma coprime_by_inverse: "a * b mod m = 1 \<Longrightarrow> coprime a (m :: int)"
proof (rule coprimeI)
  fix c assume c: "c dvd a" "c dvd m" and e: "a * b mod m = 1"
  have "c dvd a * b mod m" using c by (intro dvd_mod dvd_mult2)
  then show "c dvd 1" unfolding e .
qed

lemma coprime_11:
  fixes a :: int
  assumes "a mod 11 \<noteq> 0"
  shows "coprime a 11"
proof -
  define r where "r = a mod 11"
  have "0 \<le> r" "r < 11" "r \<noteq> 0" using assms by (simp_all add: r_def)
  then have "r = 1 \<or> r = 2 \<or> r = 3 \<or> r = 4 \<or> r = 5 \<or> r = 6 \<or> r = 7 \<or> r = 8 \<or> r = 9 \<or> r = 10" by presburger
  then have "\<exists>b. r * b mod 11 = 1"
    by (elim disjE)
      (auto intro: exI [of _ 1] exI [of _ 6] exI [of _ 4] exI [of _ 3] exI [of _ 9] exI [of _ 2] exI [of _ 8]
        exI [of _ 7] exI [of _ 5] exI [of _ 10])
  then obtain b where "a * b mod 11 = 1" by (auto simp: r_def mod_mult_left_eq)
  then show ?thesis by (rule coprime_by_inverse)
qed

end
