(* ===== verification/Validate_Util.thy ===== *)
theory Validate_Util
  imports Regexp Ecma_Plus Check_Digit
begin

text \<open>
  \<open>assets/plugins/jquery.validation.js\<close> (\<open>$.ValidateUtil\<close>): the checks of the pages' form fields, and
  the rule \<open>mobile\<close> of \<open>jquery.validate.custom.js\<close>. A value is a text, or \<open>None\<close> for \<open>null\<close> and
  \<open>undefined\<close>; the pattern of each check is the one in the code, with the anchors \<open>^\<close> and \<open>$\<close> written
  \<open>Bol\<close> and \<open>Eol\<close>.
\<close>

section \<open>Texts\<close>

definition isLegalValue :: "jsstr option \<Rightarrow> re \<Rightarrow> bool" where
  "isLegalValue value reg =
     (case value of None \<Rightarrow> False
      | Some s \<Rightarrow> if s \<noteq> [] then (if \<not> re_test reg s then False else True) else False)"

definition isEmpty :: "jsstr option \<Rightarrow> bool" where
  "isEmpty value = (case value of None \<Rightarrow> True | Some s \<Rightarrow> s = [])"

definition isBlank :: "jsstr option \<Rightarrow> bool" where
  "isBlank value = (if isEmpty value then True else isLegalValue value (whole (Star space)))"

definition isPhone :: "jsstr option \<Rightarrow> bool" where
  "isPhone value = isLegalValue value (alts [
     whole (seqs [chr (CHR ''1''), rep 1 (cls (one_of ''3|5|8'')), rep 9 digit]),
     whole (seqs [chr (CHR ''0''), between 10 11 digit]),
     whole (seqs [rep 1 (cls [(49, 57)]), between 6 7 digit])])"

definition isMobile :: "jsstr option \<Rightarrow> bool" where
  "isMobile value = isLegalValue value (whole (seqs [chr (CHR ''1''), rep 1 (cls (one_of ''3|5|8'')), rep 9 digit]))"

definition alnum_cls :: "(nat \<times> nat) list" where
  "alnum_cls = [(65, 90), (97, 122), (48, 57)]"

definition isEmail :: "jsstr option \<Rightarrow> bool" where
  "isEmail value = isLegalValue value (whole (seqs [plus word,
     Star (Alt (Seq (chr (CHR ''-'')) (plus word)) (Seq (chr (CHR ''.'')) (plus word))),
     chr (CHR ''@''), plus (cls alnum_cls),
     Star (Seq (Alt (chr (CHR ''.'')) (chr (CHR ''-''))) (plus (cls alnum_cls))),
     chr (CHR ''.''), plus (cls alnum_cls)]))"

text \<open>The characters of the class after the domain, and the ones excluded at the end, as codes.\<close>

definition isURL :: "jsstr option \<Rightarrow> bool" where
  "isURL value = isLegalValue value (whole (seqs [lit ''http://'', plus (cls alnum_cls), chr (CHR ''.''),
     plus (cls alnum_cls), Star (cls (one_of ''/=?%-&_~@[]:+!'' @ [(96, 96), (39, 39)])),
     Star (Cls True [(60, 60), (62, 62), (34, 34)])]))"

definition ip_byte_re :: re where
  "ip_byte_re = alts [between 1 2 digit, seqs [chr (CHR ''1''), digit, digit],
     seqs [chr (CHR ''2''), cls [(48, 52)], digit], seqs [lit ''25'', cls [(48, 53)]]]"

definition isIP :: "jsstr option \<Rightarrow> bool" where
  "isIP value = isLegalValue value (whole (Seq ip_byte_re (rep 3 (Seq (chr (CHR ''.'')) ip_byte_re))))"

definition isCurrency :: "jsstr option \<Rightarrow> bool" where
  "isCurrency value = isLegalValue value (whole (Seq (plus digit) (opt (Seq (chr (CHR ''.'')) (plus digit)))))"

definition isPostcode :: "jsstr option \<Rightarrow> bool" where
  "isPostcode value = isLegalValue value (whole (Seq (cls [(49, 57)]) (rep 5 digit)))"

text \<open>The signs of a password; quotes and the backslash as codes.\<close>

definition sign_cls :: "(nat \<times> nat) list" where
  "sign_cls = one_of ''-_~!@#$%^&*.()[]{}<>?/'' @ [(92, 92), (39, 39), (34, 34)]"

definition isPassword :: "jsstr option \<Rightarrow> bool" where
  "isPassword value = isLegalValue value (Alt
     (whole (Alt (alts [Star (cls [(65, 90)]), Star (cls [(97, 122)]), Star digit, Star (cls sign_cls)])
              (upto_rep 5 dot)))
     space)"

text \<open>
  \<open>isValidFile\<close> builds its pattern from the list of extensions, which are letters and digits here. In the
  text of the pattern the backslash before the point is lost, so the point stands for any character.
\<close>

definition split_commas :: "jsstr \<Rightarrow> jsstr list" where
  "split_commas s =
     (let ps = split_on 44 s; n = length ps
      in map (\<lambda>i. let p = ps ! i; p = (if i = 0 then p else dropWhile is_space p)
                   in if Suc i = n then p else rev (dropWhile is_space (rev p))) [0..<n])"

definition text_re :: "jsstr \<Rightarrow> re" where
  "text_re s = seqs (map (\<lambda>c. cls [(c, c)]) s)"

definition isValidFile :: "jsstr option \<Rightarrow> jsstr \<Rightarrow> bool" where
  "isValidFile value filter' =
     (let ext = alts (map text_re (split_commas filter'))
      in isLegalValue value (ignore_case (whole (seqs [plus dot, dot, Look ext, ext]))))"

definition isEnglish :: "jsstr option \<Rightarrow> bool" where
  "isEnglish value = isLegalValue value (whole (plus (cls [(65, 90), (97, 122)])))"

definition isChinese :: "jsstr option \<Rightarrow> bool" where
  "isChinese value = isLegalValue value (whole (plus (cls [(0x0391, 0xFFE5)])))"

definition isUsername :: "jsstr option \<Rightarrow> bool" where
  "isUsername value = isLegalValue value (ignore_case (whole (seqs [cls [(97, 122)], rep 3 word, Star word])))"

text \<open>The rule \<open>mobile\<close>, with \<open>optional\<close> as \<open>this.optional(element)\<close>.\<close>

definition rule_mobile :: "bool \<Rightarrow> jsstr \<Rightarrow> bool" where
  "rule_mobile optional value =
     (optional \<or> re_test (whole (seqs [chr (CHR ''1''), rep 1 (cls (one_of ''3|5|7|8'')), rep 9 digit])) value)"

section \<open>Identity cards\<close>

definition verify_chars :: jsstr where
  "verify_chars = js ''10x98765432''"

definition card_weights :: "nat list" where
  "card_weights = [7, 9, 10, 5, 8, 4, 2, 1, 6, 3, 7, 9, 10, 5, 8, 4, 2]"

text \<open>The names of the areas by number, as their characters' codes.\<close>

definition card_area :: "jsstr list" where
  "card_area = [
    [], [], [], [], [], [], [], [], [], [], [], [21271, 20140], [22825, 27941], [27827, 21271],
    [23665, 35199], [20869, 33945, 21476], [], [], [], [], [], [36797, 23425], [21513, 26519],
    [40657, 40857, 27743], [], [], [], [], [], [], [], [19978, 28023], [27743, 33487], [27993, 27743],
    [23433, 24494], [31119, 24314], [27743, 35199], [23665, 19996], [], [], [], [27827, 21335],
    [28246, 21271], [28246, 21335], [24191, 19996], [24191, 35199], [28023, 21335], [], [], [],
    [37325, 24198], [22235, 24029], [36149, 24030], [20113, 21335], [35199, 34255], [], [], [], [], [], [],
    [38485, 35199], [29976, 32899], [38738, 28023], [23425, 22799], [26032, 30086], [], [], [], [], [],
    [21488, 28286], [], [], [], [], [], [], [], [], [], [39321, 28207], [28595, 38376], [], [], [], [], [],
    [], [], [], [22269, 22806]]"

text \<open>
  \<open>area[re[1]]\<close>: the text of two digits is the name of a property, which an array has only when the text has
  no leading zero; a missing one is \<open>undefined\<close>, which differs from the empty text.
\<close>

definition area_missing :: "jsstr \<Rightarrow> bool" where
  "area_missing code =
     (digits_value 10 code \<ge> length card_area \<or>
      hd code \<noteq> 48 \<and> card_area ! digits_value 10 code = [])"

definition isIdCard :: "jsstr \<Rightarrow> bool" where
  "isIdCard number =
     (if \<not> re_test (whole (Seq (rep 6 digit)
            (Alt (rep 9 digit) (Seq (rep 11 digit) (Cls False [(120, 120), (88, 88), (48, 57)]))))) number
      then False
      else if area_missing (substr number 0 2) then False
      else
        let long = (length (drop 6 number) = 12);
            mm = digits_value 10 (if long then substr number 10 2 else substr number 8 2);
            dd = digits_value 10 (if long then substr number 12 2 else substr number 10 2)
        in if mm < 1 \<and> mm > 12 then False
           else if dd < 1 \<and> dd > 31 then False
           else
             let ai = (if long then substr number 0 17 else substr number 0 6 @ js ''19'' @ drop 6 number);
                 sum = (\<Sum>i \<leftarrow> [0..<17]. digit_value (ai ! i) * card_weights ! i);
                 ai = ai @ charAt verify_chars (sum mod 11)
             in if \<not> (length number = 15 \<or> length number = 18 \<and> number = ai) then False else True)"

section \<open>Numbers\<close>

definition isInteger :: "jsstr option \<Rightarrow> bool" where
  "isInteger value = isLegalValue value (whole (Seq (opt (cls (one_of ''-+''))) (plus digit)))"

definition isPositiveInteger :: "jsstr option \<Rightarrow> bool" where
  "isPositiveInteger value = isLegalValue value (whole (Seq (opt (cls (one_of ''+''))) (plus digit)))"

definition isNegativeInteger :: "jsstr option \<Rightarrow> bool" where
  "isNegativeInteger value = isLegalValue value (whole (Seq (rep 1 (cls (one_of ''-''))) (plus digit)))"

definition fraction_re :: re where
  "fraction_re = opt (Seq (chr (CHR ''.'')) (plus digit))"

definition isFloat :: "jsstr option \<Rightarrow> bool" where
  "isFloat value =
     (isInteger value \<or> isLegalValue value (whole (seqs [opt (cls (one_of ''-+'')), plus digit, fraction_re])))"

definition isPositiveFloat :: "jsstr option \<Rightarrow> bool" where
  "isPositiveFloat value =
     (isPositiveInteger value \<or> isLegalValue value (whole (seqs [opt (cls (one_of ''+'')), plus digit, fraction_re])))"

definition isNegativeFloat :: "jsstr option \<Rightarrow> bool" where
  "isNegativeFloat value =
     (isNegativeInteger value \<or> isLegalValue value (whole (seqs [plus (cls (one_of ''-'')), plus digit, fraction_re])))"

text \<open>
  \<open>parseFloat(value) | Number.POSITIVE_INFINITY\<close>: the operator converts both to 32-bit integers, the
  infinities and \<open>NaN\<close> to 0.
\<close>

definition float_bits :: "jsf \<Rightarrow> int" where
  "float_bits x = (case x of Fin r \<Rightarrow> to_int32 (Num (if r < 0 then - \<lfloor>- r\<rfloor> else \<lfloor>r\<rfloor>)) | _ \<Rightarrow> 0)"

definition number_bits :: "jsarg \<Rightarrow> jsf \<Rightarrow> int" where
  "number_bits value bound = (let v = float_bits (to_num (parseFloat value)) in v OR float_bits bound)"

definition isLessThan :: "jsarg \<Rightarrow> rat \<Rightarrow> bool" where
  "isLessThan value maxValue = (if of_int (number_bits value (FInf False)) < maxValue then True else False)"

definition isLessThanEq :: "jsarg \<Rightarrow> rat \<Rightarrow> bool" where
  "isLessThanEq value maxValue = (if of_int (number_bits value (FInf False)) \<le> maxValue then True else False)"

definition isGreaterThan :: "jsarg \<Rightarrow> rat \<Rightarrow> bool" where
  "isGreaterThan value minValue = (if of_int (number_bits value (FInf True)) > minValue then True else False)"

definition isGreaterThanEq :: "jsarg \<Rightarrow> rat \<Rightarrow> bool" where
  "isGreaterThanEq value minValue = (if of_int (number_bits value (FInf True)) \<ge> minValue then True else False)"

definition isBetween :: "jsarg \<Rightarrow> rat \<Rightarrow> rat \<Rightarrow> bool" where
  "isBetween value minValue maxValue =
     (if minValue > of_int (number_bits value (FInf False)) \<or> of_int (number_bits value (FInf True)) > maxValue
      then False else True)"

section \<open>Patterns: correctness\<close>

lemma legal_whole: "plain r \<Longrightarrow> isLegalValue (Some s) (whole r) \<longleftrightarrow> s \<noteq> [] \<and> s \<in> lang r"
  using whole_iff by (simp add: isLegalValue_def)

lemma legal_None [simp]: "isLegalValue None r = False"
  by (simp add: isLegalValue_def)

lemma isMobile_iff:
  "isMobile (Some s) \<longleftrightarrow>
     (\<exists>c w. s = 49 # c # w \<and> c \<in> {51, 53, 56, 124} \<and> length w = 9 \<and> (\<forall>d \<in> set w. is_digit10 d))"
  unfolding isMobile_def
  by (subst legal_whole) (auto simp: re_defs re_simps digits_cls_def is_digit10_def)

section \<open>Identity cards: correctness\<close>

text \<open>The check sum over the first 17 digits.\<close>

definition card_values :: "jsstr \<Rightarrow> int list" where
  "card_values s = map (\<lambda>c. int (digit_value c)) (take 17 s)"

definition card_weight :: "nat \<Rightarrow> int" where
  "card_weight i = int (card_weights ! i)"

definition card_check :: "jsstr \<Rightarrow> nat" where
  "card_check s = verify_chars ! nat (weighted card_weight (card_values s) mod 11)"

interpretation card: transposition_check card_weight 11 "{..<17}"
proof
  have "list_all (\<lambda>i. card_weight i mod 11 \<noteq> 0 \<and> (card_weight i - card_weight (Suc i)) mod 11 \<noteq> 0) [0..<16]"
    by (simp add: upt_rec card_weight_def card_weights_def)
  then have all: "card_weight i mod 11 \<noteq> 0 \<and> (card_weight i - card_weight (Suc i)) mod 11 \<noteq> 0" if "i \<in> set [0..<16]" for i
    unfolding list_all_iff by (rule bspec) (rule that)
  have last: "card_weight 16 mod 11 \<noteq> 0"
    by (simp add: card_weight_def card_weights_def)
  show "coprime (card_weight i) 11" if "i \<in> {..<17}" for i
  proof (rule coprime_11, cases "i = 16")
    case True
    show "card_weight i mod 11 \<noteq> 0" unfolding True by (rule last)
  next
    case False
    with that have "i \<in> set [0..<16]" by auto
    then show "card_weight i mod 11 \<noteq> 0" by (rule all [THEN conjunct1])
  qed
  show "coprime (card_weight i - card_weight (Suc i)) 11" if "i \<in> {..<17}" "Suc i \<in> {..<17}" for i
  proof (rule coprime_11)
    have "i \<in> set [0..<16]" using that by auto
    then show "(card_weight i - card_weight (Suc i)) mod 11 \<noteq> 0" by (rule all [THEN conjunct2])
  qed
qed

lemma card_pattern:
  "re_test (whole (Seq (rep 6 digit) (Alt (rep 9 digit) (Seq (rep 11 digit) (Cls False [(120, 120), (88, 88), (48, 57)]))))) s \<longleftrightarrow>
     length s = 15 \<and> (\<forall>c \<in> set s. is_digit10 c) \<or>
     length s = 18 \<and> (\<forall>c \<in> set (take 17 s). is_digit10 c) \<and> (is_digit10 (s ! 17) \<or> s ! 17 = 120 \<or> s ! 17 = 88)"
proof -
  have d: "in_class False digits_cls = is_digit10" by (auto simp: is_digit10_def fun_eq_iff)
  have c: "in_class False [(120, 120), (88, 88), (48, 57)] c \<longleftrightarrow> is_digit10 c \<or> c = 120 \<or> c = 88" for c
    by (auto simp: in_class_def is_digit10_def)
  have split: "(\<forall>c \<in> set (take m s). P c) \<longleftrightarrow> (\<forall>c \<in> set (take n s). P c) \<and> (\<forall>c \<in> set (take (m - n) (drop n s)). P c)"
    if "n \<le> m" for m n P
    using that by (metis le_add_diff_inverse set_append take_add Un_iff)
  have all: "(\<forall>c \<in> set s. P c) \<longleftrightarrow> (\<forall>c \<in> set (take 6 s). P c) \<and> (\<forall>c \<in> set (drop 6 s). P c)" for P
    by (metis append_take_drop_id set_append Un_iff)
  have one: "(\<exists>c. drop 17 s = [c] \<and> P c) \<longleftrightarrow> length s = 18 \<and> P (s ! 17)" for P
  proof
    assume "\<exists>c. drop 17 s = [c] \<and> P c"
    then obtain c where c: "drop 17 s = [c]" "P c" by blast
    then have "length s - 17 = 1" using length_drop [of 17 s] by simp
    then have "length s = 18" by simp
    moreover have "s ! 17 = c" using nth_drop [of 17 s 0] c(1) \<open>length s = 18\<close> by simp
    ultimately show "length s = 18 \<and> P (s ! 17)" using c(2) by simp
  next
    assume "length s = 18 \<and> P (s ! 17)"
    then show "\<exists>c. drop 17 s = [c] \<and> P c" using Cons_nth_drop_Suc [of 17 s, symmetric] by auto
  qed
  have "s \<in> lang (Seq (rep 6 digit) (Alt (rep 9 digit) (Seq (rep 11 digit) (Cls False [(120, 120), (88, 88), (48, 57)])))) \<longleftrightarrow>
      6 \<le> length s \<and> (\<forall>c \<in> set (take 6 s). is_digit10 c) \<and>
      (length s = 15 \<and> (\<forall>c \<in> set (drop 6 s). is_digit10 c) \<or>
       11 \<le> length s - 6 \<and> (\<forall>c \<in> set (take 11 (drop 6 s)). is_digit10 c) \<and>
       (\<exists>c. drop 17 s = [c] \<and> (is_digit10 c \<or> c = 120 \<or> c = 88)))"
    unfolding lang_Seq_rep lang.simps(5) Un_iff lang_rep_Cls lang_Cls d c drop_drop length_drop
    by (simp add: eq_diff_iff) auto
  also have "\<dots> \<longleftrightarrow> length s = 15 \<and> (\<forall>c \<in> set s. is_digit10 c) \<or>
     length s = 18 \<and> (\<forall>c \<in> set (take 17 s). is_digit10 c) \<and> (is_digit10 (s ! 17) \<or> s ! 17 = 120 \<or> s ! 17 = 88)"
    unfolding one all [of is_digit10] using split [of 6 17 is_digit10] by auto
  finally show ?thesis by (simp add: whole_iff)
qed

lemma card_sum:
  assumes "17 \<le> length s"
  shows "int (\<Sum>i \<leftarrow> [0..<17]. digit_value (take 17 s ! i) * card_weights ! i) = weighted card_weight (card_values s)"
proof -
  have "(\<Sum>i \<leftarrow> [0..<17]. digit_value (take 17 s ! i) * card_weights ! i) = (\<Sum>i<17. digit_value (take 17 s ! i) * card_weights ! i)"
    by (simp add: interv_sum_list_conv_sum_set_nat atLeast0LessThan)
  also have "int \<dots> = (\<Sum>i<17. int (digit_value (take 17 s ! i) * card_weights ! i))" by (rule of_nat_sum)
  also have "\<dots> = weighted card_weight (card_values s)"
    using assms by (auto simp: weighted_def card_values_def card_weight_def min_def intro!: sum.cong)
  finally show ?thesis .
qed

theorem isIdCard_iff:
  "isIdCard s \<longleftrightarrow>
     \<not> area_missing (take 2 s) \<and>
     (length s = 15 \<and> (\<forall>c \<in> set s. is_digit10 c) \<or>
      length s = 18 \<and> (\<forall>c \<in> set (take 17 s). is_digit10 c) \<and> s ! 17 = card_check s)"
proof (cases "length s = 15 \<or> length s = 18")
  case False
  then have "\<not> isIdCard s" unfolding isIdCard_def card_pattern by simp
  then show ?thesis using False by simp
next
  case True
  let ?sum = "\<Sum>i \<leftarrow> [0..<17]. digit_value (take 17 s ! i) * card_weights ! i"
  have chars: "verify_chars ! k = 120 \<or> is_digit10 (verify_chars ! k)" if "k < 11" for k
  proof -
    have "list_all (\<lambda>c. c = 120 \<or> is_digit10 c) verify_chars" by (simp add: verify_chars_def is_digit10_def)
    moreover have "length verify_chars = 11" by (simp add: verify_chars_def)
    ultimately show ?thesis using that by (simp add: list_all_length)
  qed
  have "s = take 17 s @ charAt verify_chars (?sum mod 11) \<longleftrightarrow> s ! 17 = card_check s" if l: "length s = 18"
  proof -
    have "int (?sum mod 11) = weighted card_weight (card_values s) mod 11"
      using card_sum [of s] l by (simp add: zmod_int)
    then have k: "?sum mod 11 = nat (weighted card_weight (card_values s) mod 11)" by linarith
    have len: "length verify_chars = 11" by (simp add: verify_chars_def)
    have "charAt verify_chars (?sum mod 11) = [card_check s]"
      unfolding k card_check_def using len by (simp add: charAt_def nat_less_iff)
    moreover have "s = take 17 s @ [s ! 17]" using l by (simp add: take_Suc_conv_app_nth [symmetric])
    ultimately show ?thesis by (metis append_same_eq list.inject same_append_eq)
  qed
  moreover have "nat (weighted card_weight (card_values s) mod 11) < 11" by (simp add: nat_less_iff)
  then have "card_check s = 120 \<or> is_digit10 (card_check s)" unfolding card_check_def by (rule chars)
  ultimately show ?thesis
    using True unfolding isIdCard_def card_pattern by (auto simp: Let_def substr_def)
qed

end
