(* ===== verification/Validation_Rules.thy ===== *)
theory Validation_Rules
  imports Regexp Js_Float
begin

text \<open>
  The rules of \<open>assets/plugins/jquery-validation/additional-methods.js\<close>. A rule gets the value of the
  field and whether the field is optional and empty (\<open>this.optional(element)\<close>), which it then reports
  as a mismatch of its dependency instead of a verdict; some rules do not ask.
\<close>

datatype verdict = Valid | Invalid | Mismatch | Pending | Throws

definition of_check :: "bool \<Rightarrow> verdict" where
  "of_check b = (if b then Valid else Invalid)"

text \<open>\<open>this.optional(element) || b\<close>\<close>

definition unless_optional :: "bool \<Rightarrow> bool \<Rightarrow> verdict" where
  "unless_optional optional b = (if optional then Mismatch else of_check b)"

section \<open>Texts\<close>

text \<open>
  \<open>toUpperCase\<close>, with the characters whose upper case is made of letters of ASCII; other characters
  beyond ASCII have upper cases that no rule accepts, and are kept.
\<close>

definition upper_char :: "nat \<Rightarrow> jsstr" where
  "upper_char c =
     (if 97 \<le> c \<and> c \<le> 122 then [c - 32]
      else if c = 0xDF then js ''SS''
      else if c = 0x131 then js ''I''
      else if c = 0x17F then js ''S''
      else if c = 0xFB00 then js ''FF''
      else if c = 0xFB01 then js ''FI''
      else if c = 0xFB02 then js ''FL''
      else if c = 0xFB03 then js ''FFI''
      else if c = 0xFB04 then js ''FFL''
      else if c = 0xFB05 \<or> c = 0xFB06 then js ''ST''
      else [c])"

definition to_upper :: "jsstr \<Rightarrow> jsstr" where
  "to_upper s = concat (map upper_char s)"

definition remove_chars :: "(nat \<Rightarrow> bool) \<Rightarrow> jsstr \<Rightarrow> jsstr" where
  "remove_chars p s = filter (\<lambda>c. \<not> p c) s"

text \<open>\<open>parseInt\<close> of one character: \<open>None\<close> is \<open>NaN\<close>.\<close>

definition char_digit :: "jsstr \<Rightarrow> int option" where
  "char_digit s = (case s of [c] \<Rightarrow> if is_digit10 c then Some (int (digit_value c)) else None | _ \<Rightarrow> None)"

definition opt_add :: "int option \<Rightarrow> int option \<Rightarrow> int option" where
  "opt_add a b = (case (a, b) of (Some x, Some y) \<Rightarrow> Some (x + y) | _ \<Rightarrow> None)"

section \<open>Words\<close>

text \<open>
  \<open>/<.[^<>]*?>/g\<close>: a \<open><\<close> and one more character that does not end the line, then characters other than
  \<open><\<close> and \<open>>\<close> up to the first \<open>>\<close>.
\<close>

function strip_tags :: "jsstr \<Rightarrow> jsstr" where
  "strip_tags s =
     (case s of
        [] \<Rightarrow> []
      | [c] \<Rightarrow> [c]
      | c # d # t \<Rightarrow>
          let r = dropWhile (\<lambda>e. e \<noteq> 60 \<and> e \<noteq> 62) t
          in if c = 60 \<and> d \<notin> {10, 13, 8232, 8233} \<and> r \<noteq> [] \<and> hd r = 62
             then 32 # strip_tags (tl r) else c # strip_tags (d # t))"
  by pat_completeness auto
termination
proof (relation "measure length", goal_cases)
  case (2 s c x d t r)
  then show ?case using length_dropWhile_le [of "\<lambda>e. e \<noteq> 60 \<and> e \<noteq> 62" t] by simp
qed auto

declare strip_tags.simps [simp del]

text \<open>\<open>/&nbsp;|&#160;/gi\<close>\<close>

definition lower_ascii :: "nat \<Rightarrow> nat" where
  "lower_ascii c = (if 65 \<le> c \<and> c \<le> 90 then c + 32 else c)"

function strip_spaces :: "jsstr \<Rightarrow> jsstr" where
  "strip_spaces s =
     (case s of
        [] \<Rightarrow> []
      | c # t \<Rightarrow>
          if map lower_ascii (take 6 s) \<in> {js ''&nbsp;'', js ''&#160;''} then 32 # strip_spaces (drop 6 s)
          else c # strip_spaces t)"
  by pat_completeness auto
termination by (relation "measure length") auto

declare strip_spaces.simps [simp del]

text \<open>The signs that are removed; quotes and the characters beyond ASCII by code.\<close>

definition punctuation :: "nat \<Rightarrow> bool" where
  "punctuation c \<longleftrightarrow> c \<in> set (js ''.(),;:!?%#$_+=/-'') \<union> {39, 34, 8220, 8221, 8217}"

definition stripHtml :: "jsstr \<Rightarrow> jsstr" where
  "stripHtml value = remove_chars punctuation (strip_spaces (strip_tags value))"

text \<open>\<open>match(/\b\w+\b/g).length\<close>; without a match the result is \<open>null\<close>, which has no length.\<close>

fun word_runs :: "bool \<Rightarrow> jsstr \<Rightarrow> nat" where
  "word_runs inside [] = 0"
| "word_runs inside (c # s) =
     (if in_class False word_cls c then (if inside then 0 else 1) + word_runs True s else word_runs False s)"

definition count_words :: "jsstr \<Rightarrow> nat option" where
  "count_words value = (let n = word_runs False (stripHtml value) in if n = 0 then None else Some n)"

definition rule_maxWords :: "bool \<Rightarrow> jsstr \<Rightarrow> nat \<Rightarrow> verdict" where
  "rule_maxWords optional value params =
     (if optional then Mismatch
      else case count_words value of None \<Rightarrow> Throws | Some n \<Rightarrow> of_check (n \<le> params))"

definition rule_minWords :: "bool \<Rightarrow> jsstr \<Rightarrow> nat \<Rightarrow> verdict" where
  "rule_minWords optional value params =
     (if optional then Mismatch
      else case count_words value of None \<Rightarrow> Throws | Some n \<Rightarrow> of_check (n \<ge> params))"

definition rule_rangeWords :: "bool \<Rightarrow> jsstr \<Rightarrow> nat \<times> nat \<Rightarrow> verdict" where
  "rule_rangeWords optional value params =
     (if optional then Mismatch
      else case count_words value of None \<Rightarrow> Throws | Some n \<Rightarrow> of_check (n \<ge> fst params \<and> n \<le> snd params))"

section \<open>Files\<close>

text \<open>
  The pattern of \<open>accept\<close>: the list of types with white space removed, its signs other than \<open>*\<close> taken
  literally, \<open>,\<close> as alternative, and the first \<open>/*\<close> as any text after a slash. A later \<open>*\<close> repeats
  the character before it; at the start of a type it is an error of the pattern (\<open>None\<close>).
\<close>

fun type_re :: "bool \<Rightarrow> re option \<Rightarrow> jsstr \<Rightarrow> (re \<times> bool) option" where
  "type_re first prev [] = Some (case prev of None \<Rightarrow> Empty | Some p \<Rightarrow> p, first)"
| "type_re first prev (c # s) =
     (if c = 42 then
        (case prev of None \<Rightarrow> None | Some p \<Rightarrow>
           (if s \<noteq> [] \<and> hd s = 42 then None else type_re first (Some (Star p)) s))
      else
        let p = (case prev of None \<Rightarrow> Empty | Some p \<Rightarrow> p)
        in if c = 47 \<and> first \<and> s \<noteq> [] \<and> hd s = 42
           then map_option (\<lambda>(r, f). (Seq p (Seq (cls [(47, 47)]) (Seq (Star dot) r)), f)) (type_re False None (tl s))
           else map_option (\<lambda>(r, f). (Seq p r, f)) (type_re first (Some (cls [(c, c)])) s))"

fun types_re :: "bool \<Rightarrow> jsstr list \<Rightarrow> re option" where
  "types_re first [] = Some Fail"
| "types_re first (t # ts) =
     (case type_re first None t of None \<Rightarrow> None
      | Some (r, f) \<Rightarrow> map_option (\<lambda>r'. Alt r r') (types_re f ts))"

definition rule_accept :: "bool \<Rightarrow> bool \<Rightarrow> jsstr list option \<Rightarrow> jsstr option \<Rightarrow> verdict" where
  "rule_accept optional is_file files param =
     (let typeParam = (case param of Some p \<Rightarrow> remove_chars is_space p | None \<Rightarrow> js ''image/*'')
      in if optional then Mismatch
         else if is_file then
           (case files of
              None \<Rightarrow> Valid
            | Some fs \<Rightarrow>
                if fs = [] then Valid
                else case types_re True (split_on 44 typeParam) of
                    None \<Rightarrow> Throws
                  | Some r \<Rightarrow> of_check (list_all (\<lambda>file. re_test (ignore_case (Seq (opt dot) (Seq r Eol))) file) fs))
         else Valid)"

text \<open>The extensions of the parameter are letters and digits; the default has the pattern \<open>jpe?g\<close>.\<close>

definition rule_extension :: "bool \<Rightarrow> jsstr \<Rightarrow> jsstr option \<Rightarrow> verdict" where
  "rule_extension optional value param =
     (let ext = (case param of
                   Some p \<Rightarrow> alts (map (\<lambda>s. seqs (map (\<lambda>c. cls [(c, c)]) s)) (split_on 44 p))
                 | None \<Rightarrow> alts [lit ''png'', seqs [lit ''jp'', opt (chr (CHR ''e'')), chr (CHR ''g'')], lit ''gif''])
      in unless_optional optional (re_test (ignore_case (seqs [chr (CHR ''.''), ext, Eol])) value))"

section \<open>Patterns\<close>

definition rule_alphanumeric :: "bool \<Rightarrow> jsstr \<Rightarrow> verdict" where
  "rule_alphanumeric optional value = unless_optional optional (re_test (ignore_case (whole (plus word))) value)"

definition rule_bic :: "bool \<Rightarrow> jsstr \<Rightarrow> verdict" where
  "rule_bic optional value = unless_optional optional (re_test (whole (Seq
     (seqs [rep 6 (cls [(65, 90)]), cls [(65, 90), (50, 57)], cls [(65, 78), (80, 90), (49, 57)]])
     (Alt Empty (Alt (rep 3 (chr (CHR ''X'')))
        (Seq (cls [(65, 87), (89, 90), (48, 57)]) (rep 2 (cls [(65, 90), (48, 57)]))))))) (to_upper value))"

text \<open>The symbols are characters that have no meaning in a class.\<close>

definition rule_currency :: "bool \<Rightarrow> jsstr \<Rightarrow> jsstr \<times> bool \<Rightarrow> verdict" where
  "rule_currency optional value param =
     (let symbol = remove_chars (\<lambda>c. c = 44) (fst param);
          sym = cls (map (\<lambda>c. (c, c)) symbol);
          point = chr (CHR ''.'');
          cents = opt (Seq point (upto_rep 2 digit));
          non_zero = cls [(49, 57)]
      in unless_optional optional (re_test (whole (Seq (if snd param then sym else opt sym) (alts [
           seqs [rep 1 non_zero, upto_rep 2 digit, Star (Seq (chr (CHR '','')) (rep 3 digit)), cents],
           seqs [rep 1 non_zero, Star digit, cents],
           Seq (chr (CHR ''0'')) cents,
           opt (Seq point (between 1 2 digit))]))) value))"

definition rule_dateFA :: "bool \<Rightarrow> jsstr \<Rightarrow> verdict" where
  "rule_dateFA optional value =
     (let zero = opt (chr (CHR ''0'')); slash = chr (CHR ''/'');
          low = Seq zero (cls [(49, 57)]); mid = Seq (cls [(49, 50)]) digit
      in unless_optional optional (re_test (whole (seqs [cls [(49, 52)], rep 3 digit, slash,
           Alt (seqs [zero, cls [(49, 54)], slash, alts [Seq (chr (CHR ''3'')) (cls [(48, 49)]), mid, low]])
               (seqs [Alt (Seq (chr (CHR ''1'')) (cls [(48, 50)])) (Seq zero (cls [(55, 57)])), slash,
                      alts [lit ''30'', mid, low]])])) value))"

definition rule_dateNL :: "bool \<Rightarrow> jsstr \<Rightarrow> verdict" where
  "rule_dateNL optional value =
     (let zero = opt (chr (CHR ''0'')); sep = cls (one_of ''./-'')
      in unless_optional optional (re_test (whole (seqs [
           alts [Seq zero (cls [(49, 57)]), Seq (cls (one_of ''12'')) digit, Seq (chr (CHR ''3'')) (cls (one_of ''01''))],
           sep, Alt (Seq zero (cls [(49, 57)])) (Seq (chr (CHR ''1'')) (cls (one_of ''012''))), sep,
           opt (Seq (cls (one_of ''12'')) digit), Seq digit digit])) value))"

definition rule_giroaccountNL :: "bool \<Rightarrow> jsstr \<Rightarrow> verdict" where
  "rule_giroaccountNL optional value = unless_optional optional (re_test (whole (between 1 7 digit)) value)"

definition rule_integer :: "bool \<Rightarrow> jsstr \<Rightarrow> verdict" where
  "rule_integer optional value = unless_optional optional (re_test (whole (Seq (opt (chr (CHR ''-''))) (plus digit))) value)"

definition ipv4_byte :: re where
  "ipv4_byte = alts [Seq (lit ''25'') (cls [(48, 53)]), seqs [chr (CHR ''2''), cls [(48, 52)], digit],
     seqs [opt (cls [(48, 49)]), digit, opt digit]]"

definition rule_ipv4 :: "bool \<Rightarrow> jsstr \<Rightarrow> verdict" where
  "rule_ipv4 optional value =
     (let point = chr (CHR ''.'')
      in unless_optional optional (re_test (whole (seqs [ipv4_byte, point, ipv4_byte, point, ipv4_byte, point, ipv4_byte])) value))"

definition rule_lettersonly :: "bool \<Rightarrow> jsstr \<Rightarrow> verdict" where
  "rule_lettersonly optional value = unless_optional optional (re_test (ignore_case (whole (plus (cls [(97, 122)])))) value)"

definition rule_letterswithbasicpunc :: "bool \<Rightarrow> jsstr \<Rightarrow> verdict" where
  "rule_letterswithbasicpunc optional value = unless_optional optional (re_test (ignore_case (whole (plus
     (cls ([(97, 122), (39, 39), (34, 34)] @ one_of ''-.,()'' @ space_cls))))) value)"

text \<open>The Dutch telephone numbers share the prefix and the last eight digits.\<close>

definition nl_gap :: re where
  "nl_gap = opt (Alt space (seqs [opt space, chr (CHR ''-''), opt space]))"

definition nl_prefix :: re where
  "nl_prefix = Alt (seqs [Alt (chr (CHR ''+'')) (Seq (lit ''00'') nl_gap), lit ''31'', nl_gap,
     opt (Seq (lit ''(0)'') (opt (cls ((45, 45) # space_cls))))]) (chr (CHR ''0''))"

definition rule_mobileNL :: "bool \<Rightarrow> jsstr \<Rightarrow> verdict" where
  "rule_mobileNL optional value = unless_optional optional
     (re_test (whole (seqs [nl_prefix, chr (CHR ''6''), rep 8 (Seq nl_gap digit)])) value)"

definition rule_phoneNL :: "bool \<Rightarrow> jsstr \<Rightarrow> verdict" where
  "rule_phoneNL optional value = unless_optional optional
     (re_test (whole (seqs [nl_prefix, cls [(49, 57)], rep 8 (Seq nl_gap digit)])) value)"

text \<open>\<open>replace(/\(|\)|\s+|-/g, "")\<close>\<close>

definition strip_phone :: "jsstr \<Rightarrow> jsstr" where
  "strip_phone s = remove_chars (\<lambda>c. c = 40 \<or> c = 41 \<or> c = 45 \<or> is_space c) s"

definition uk_prefix :: re where
  "uk_prefix = Alt (seqs [Alt (Seq (lit ''00'') (opt space)) (chr (CHR ''+'')), lit ''44'', opt space]) (chr (CHR ''0''))"

definition rule_mobileUK :: "bool \<Rightarrow> jsstr \<Rightarrow> verdict" where
  "rule_mobileUK optional value =
     (let p = strip_phone value
      in unless_optional optional (length p > 9 \<and> re_test (whole (seqs [uk_prefix, chr (CHR ''7''),
           Alt (Seq (cls (one_of ''1345789'')) (rep 2 digit)) (lit ''624''), opt space, rep 3 digit, opt space, rep 3 digit])) p))"

definition rule_phoneUK :: "bool \<Rightarrow> jsstr \<Rightarrow> verdict" where
  "rule_phoneUK optional value =
     (let p = strip_phone value; close = opt (chr (CHR '')'')); sp = opt space
      in unless_optional optional (length p > 9 \<and> re_test (whole (Seq
           (Alt (seqs [Alt (Seq (lit ''00'') sp) (chr (CHR ''+'')), lit ''44'', sp]) (Seq (opt (chr (CHR ''(''))) (chr (CHR ''0''))))
           (alts [seqs [rep 2 digit, close, sp, rep 4 digit, sp, rep 4 digit],
                  seqs [rep 3 digit, close, sp, rep 3 digit, sp, between 3 4 digit],
                  seqs [rep 4 digit, close, sp, Alt (rep 5 digit) (seqs [rep 3 digit, sp, rep 3 digit])],
                  seqs [rep 5 digit, close, sp, between 4 5 digit]]))) p))"

definition rule_phonesUK :: "bool \<Rightarrow> jsstr \<Rightarrow> verdict" where
  "rule_phonesUK optional value =
     (let p = strip_phone value
      in unless_optional optional (length p > 9 \<and> re_test (whole (Seq uk_prefix (alts [
           Seq (chr (CHR ''1'')) (between 8 9 digit), Seq (cls (one_of ''23'')) (rep 9 digit),
           Seq (chr (CHR ''7'')) (Alt (Seq (cls (one_of ''1345789'')) (rep 8 digit)) (Seq (lit ''624'') (rep 6 digit)))]))) p))"

definition us_area :: re where
  "us_area = Seq (cls [(50, 57)]) (Alt (Seq (cls [(48, 48), (50, 57)]) digit) (Seq (chr (CHR ''1'')) (cls [(48, 48), (50, 57)])))"

definition rule_phoneUS :: "bool \<Rightarrow> jsstr \<Rightarrow> verdict" where
  "rule_phoneUS optional value =
     (let p = remove_chars is_space value; dash = opt (chr (CHR ''-''))
      in unless_optional optional (length p > 9 \<and> re_test (whole (seqs [
           opt (seqs [opt (chr (CHR ''+'')), chr (CHR ''1''), dash]),
           Alt (seqs [chr (CHR ''(''), us_area, chr (CHR '')'')]) us_area, dash, us_area, dash, rep 4 digit])) p))"

definition rule_nowhitespace :: "bool \<Rightarrow> jsstr \<Rightarrow> verdict" where
  "rule_nowhitespace optional value = unless_optional optional (re_test (whole (plus non_space)) value)"

text \<open>The parameter of \<open>pattern\<close> is a pattern, or the text of one, which is anchored.\<close>

definition rule_pattern :: "bool \<Rightarrow> jsstr \<Rightarrow> re + re \<Rightarrow> verdict" where
  "rule_pattern optional value param =
     (if optional then Mismatch
      else of_check (re_test (case param of Inl text \<Rightarrow> whole text | Inr r \<Rightarrow> r) value))"

definition rule_postalCodeCA :: "bool \<Rightarrow> jsstr \<Rightarrow> verdict" where
  "rule_postalCodeCA optional value =
     (let letter = cls (one_of ''ABCEGHJKLMNPRSTVWXYZ'')
      in unless_optional optional (re_test (ignore_case (whole (seqs [cls (one_of ''ABCEGHJKLMNPRSTVXY''), digit, letter,
           Star (chr (CHR '' '')), digit, letter, digit]))) value))"

definition rule_postalcodeBR :: "bool \<Rightarrow> jsstr \<Rightarrow> verdict" where
  "rule_postalcodeBR optional value =
     (let dash = chr (CHR ''-'')
      in unless_optional optional (re_test (Alt
           (whole (seqs [rep 2 digit, dot, rep 3 digit, dash, rep 3 digit]))
           (whole (seqs [rep 5 digit, opt dash, rep 3 digit]))) value))"

definition rule_postalcodeIT :: "bool \<Rightarrow> jsstr \<Rightarrow> verdict" where
  "rule_postalcodeIT optional value = unless_optional optional (re_test (whole (rep 5 digit)) value)"

definition rule_postalcodeNL :: "bool \<Rightarrow> jsstr \<Rightarrow> verdict" where
  "rule_postalcodeNL optional value = unless_optional optional (re_test (whole (seqs [cls [(49, 57)], rep 3 digit, opt space,
     rep 2 (cls [(97, 122), (65, 90)])])) value)"

definition rule_postcodeUK :: "bool \<Rightarrow> jsstr \<Rightarrow> verdict" where
  "rule_postcodeUK optional value =
     (let a = cls [(65, 80), (82, 85), (87, 87), (89, 90)]; b = cls [(65, 72), (75, 89)]
      in unless_optional optional (re_test (ignore_case (whole (Alt
           (seqs [alts [Seq a digit, seqs [a, digit, digit], seqs [a, b, digit], seqs [a, b, digit, digit],
                        seqs [a, digit, cls ([(65, 72)] @ one_of ''JKSTUW'')],
                        seqs [a, b, digit, cls (one_of ''ABEHMNPRVWXY'')]],
                  opt space, digit, rep 2 (cls ([(65, 66)] @ [(68, 72), (74, 74), (76, 76), (78, 78), (80, 85), (87, 90)]))])
           (seqs [lit ''GIR'', opt space, lit ''0AA''])))) value))"

definition rule_time :: "bool \<Rightarrow> jsstr \<Rightarrow> verdict" where
  "rule_time optional value = unless_optional optional (re_test (whole (Seq
     (alts [Seq (cls (one_of ''01'')) digit, Seq (chr (CHR ''2'')) (cls [(48, 51)]), digit])
     (between 1 2 (seqs [chr (CHR '':''), cls [(48, 53)], digit])))) value)"

definition rule_time12h :: "bool \<Rightarrow> jsstr \<Rightarrow> verdict" where
  "rule_time12h optional value = unless_optional optional (re_test (ignore_case (whole (seqs [
     Alt (Seq (opt (chr (CHR ''0''))) (cls [(49, 57)])) (Seq (chr (CHR ''1'')) (cls (one_of ''012''))),
     between 1 2 (seqs [chr (CHR '':''), cls [(48, 53)], digit]),
     opt (chr (CHR '' '')), cls (one_of ''AP''), chr (CHR ''M'')]))) value)"

definition rule_zipcodeUS :: "bool \<Rightarrow> jsstr \<Rightarrow> verdict" where
  "rule_zipcodeUS optional value =
     unless_optional optional (re_test (whole (Seq (rep 5 digit) (opt (Seq (chr (CHR ''-'')) (rep 4 digit))))) value)"

text \<open>The braces of \<open>\d\{2\}\<close> are escaped, and stand for themselves.\<close>

definition rule_ziprange :: "bool \<Rightarrow> jsstr \<Rightarrow> verdict" where
  "rule_ziprange optional value = unless_optional optional (re_test (whole (seqs [lit ''90'', cls [(50, 53)], digit,
     lit ''{2}'', chr (CHR ''-''), rep 4 digit])) value)"

definition states :: "(char \<times> string) list \<Rightarrow> re" where
  "states ss = alts (map (\<lambda>(c, cs). Seq (chr c) (cls (one_of cs))) ss)"

definition rule_stateUS :: "bool \<Rightarrow> jsstr \<Rightarrow> (bool option \<times> bool option \<times> bool option) option \<Rightarrow> verdict" where
  "rule_stateUS optional value options =
     (let flag = (\<lambda>f. case options of None \<Rightarrow> False | Some p \<Rightarrow> (case f p of None \<Rightarrow> False | Some b \<Rightarrow> b));
          caseSensitive = flag fst;
          includeTerritories = flag (\<lambda>p. fst (snd p));
          includeMilitary = flag (\<lambda>p. snd (snd p));
          common = [(CHR ''C'', ''AOT''), (CHR ''D'', ''CE''), (CHR ''F'', ''L''), (CHR ''H'', ''I''), (CHR ''I'', ''ADLN''),
            (CHR ''K'', ''SY''), (CHR ''L'', ''A''), (CHR ''N'', ''CDEHJMVY''), (CHR ''O'', ''HKR''), (CHR ''R'', ''I''),
            (CHR ''S'', ''CD''), (CHR ''T'', ''NX''), (CHR ''U'', ''T''), (CHR ''W'', ''AIVY'')];
          regex =
            (if \<not> includeTerritories \<and> \<not> includeMilitary then
               states ([(CHR ''A'', ''KLRZ''), (CHR ''G'', ''A''), (CHR ''M'', ''ADEINOST''), (CHR ''P'', ''A''), (CHR ''V'', ''AT'')] @ common)
             else if includeTerritories \<and> includeMilitary then
               states ([(CHR ''A'', ''AEKLPRSZ''), (CHR ''G'', ''AU''), (CHR ''M'', ''ADEINOPST''), (CHR ''P'', ''AR''), (CHR ''V'', ''AIT'')] @ common)
             else if includeTerritories then
               states ([(CHR ''A'', ''KLRSZ''), (CHR ''G'', ''AU''), (CHR ''M'', ''ADEINOPST''), (CHR ''P'', ''AR''), (CHR ''V'', ''AIT'')] @ common)
             else
               states ([(CHR ''A'', ''AEKLPRZ''), (CHR ''G'', ''A''), (CHR ''M'', ''ADEINOST''), (CHR ''P'', ''A''), (CHR ''V'', ''AT'')] @ common));
          regex = (if caseSensitive then whole regex else ignore_case (whole regex))
      in unless_optional optional (re_test regex value))"

end
