(* ===== verification/Checksum_Rules.thy ===== *)
theory Checksum_Rules
  imports Validation_Rules Check_Digit
begin

unbundle bit_operations_syntax

text \<open>
  The rules of \<open>additional-methods.js\<close> that compute: check sums of bank accounts, tax numbers, credit
  cards and vehicles, and the Italian date. Characters that are no digits make the sums \<open>NaN\<close>, here \<open>None\<close>.
\<close>

section \<open>Bank accounts\<close>

text \<open>\<open>factor * digit\<close> with a text of one character: white space is 0.\<close>

definition char_number :: "nat \<Rightarrow> int option" where
  "char_number c =
     (if is_digit10 c then Some (int (digit_value c)) else if is_space c then Some 0 else None)"

definition bank_sum :: "jsstr \<Rightarrow> int option" where
  "bank_sum account =
     fold (\<lambda>pos acc. opt_add acc (map_option (\<lambda>digit. int (length account - pos) * digit) (char_number (account ! pos))))
       [0..<length account] (Some 0)"

definition rule_bankaccountNL :: "bool \<Rightarrow> jsstr \<Rightarrow> verdict" where
  "rule_bankaccountNL optional value =
     (if optional then Valid
      else if \<not> re_test (Alt (Seq Bol (rep 9 digit))
                 (seqs [rep 3 (Seq (rep 2 digit) (chr (CHR '' ''))), rep 3 digit, Eol])) value
      then Invalid
      else of_check (case bank_sum (remove_chars (\<lambda>c. c = 32) value) of None \<Rightarrow> False | Some acc \<Rightarrow> acc mod 11 = 0))"

definition truthy :: "verdict \<Rightarrow> bool" where
  "truthy v \<longleftrightarrow> v = Valid \<or> v = Mismatch \<or> v = Pending"

definition rule_bankorgiroaccountNL :: "bool \<Rightarrow> jsstr \<Rightarrow> verdict" where
  "rule_bankorgiroaccountNL optional value =
     (if optional then Mismatch
      else let v = rule_bankaccountNL optional value
           in if truthy v then v else rule_giroaccountNL optional value)"

datatype bban = D | L | X

definition bban_re :: "bban \<times> nat \<Rightarrow> re" where
  "bban_re p = rep (snd p) (case fst p of D \<Rightarrow> digit | L \<Rightarrow> cls [(65, 90)] | X \<Rightarrow> cls [(48, 57), (65, 90)])"

text \<open>The formats of the countries: \<open>\d\<close>, \<open>[A-Z]\<close> and \<open>[\dA-Z]\<close>, each with its number.\<close>

definition bban_patterns :: "(string \<times> (bban \<times> nat) list) list" where
  "bban_patterns = [
     (''AL'', [(D, 8), (X, 16)]), (''AD'', [(D, 8), (X, 12)]), (''AT'', [(D, 16)]),
     (''AZ'', [(X, 4), (D, 20)]), (''BE'', [(D, 12)]), (''BH'', [(L, 4), (X, 14)]), (''BA'', [(D, 16)]),
     (''BR'', [(D, 23), (L, 1), (X, 1)]), (''BG'', [(L, 4), (D, 6), (X, 8)]), (''CR'', [(D, 17)]),
     (''HR'', [(D, 17)]), (''CY'', [(D, 8), (X, 16)]), (''CZ'', [(D, 20)]), (''DK'', [(D, 14)]),
     (''DO'', [(L, 4), (D, 20)]), (''EE'', [(D, 16)]), (''FO'', [(D, 14)]), (''FI'', [(D, 14)]),
     (''FR'', [(D, 10), (X, 11), (D, 2)]), (''GE'', [(X, 2), (D, 16)]), (''DE'', [(D, 18)]),
     (''GI'', [(L, 4), (X, 15)]), (''GR'', [(D, 7), (X, 16)]), (''GL'', [(D, 14)]),
     (''GT'', [(X, 4), (X, 20)]), (''HU'', [(D, 24)]), (''IS'', [(D, 22)]), (''IE'', [(X, 4), (D, 14)]),
     (''IL'', [(D, 19)]), (''IT'', [(L, 1), (D, 10), (X, 12)]), (''KZ'', [(D, 3), (X, 13)]),
     (''KW'', [(L, 4), (X, 22)]), (''LV'', [(L, 4), (X, 13)]), (''LB'', [(D, 4), (X, 20)]),
     (''LI'', [(D, 5), (X, 12)]), (''LT'', [(D, 16)]), (''LU'', [(D, 3), (X, 13)]),
     (''MK'', [(D, 3), (X, 10), (D, 2)]), (''MT'', [(L, 4), (D, 5), (X, 18)]), (''MR'', [(D, 23)]),
     (''MU'', [(L, 4), (D, 19), (L, 3)]), (''MC'', [(D, 10), (X, 11), (D, 2)]),
     (''MD'', [(X, 2), (D, 18)]), (''ME'', [(D, 18)]), (''NL'', [(L, 4), (D, 10)]), (''NO'', [(D, 11)]),
     (''PK'', [(X, 4), (D, 16)]), (''PS'', [(X, 4), (D, 21)]), (''PL'', [(D, 24)]), (''PT'', [(D, 21)]),
     (''RO'', [(L, 4), (X, 16)]), (''SM'', [(L, 1), (D, 10), (X, 12)]), (''SA'', [(D, 2), (X, 18)]),
     (''RS'', [(D, 18)]), (''SK'', [(D, 20)]), (''SI'', [(D, 15)]), (''ES'', [(D, 20)]),
     (''SE'', [(D, 20)]), (''CH'', [(D, 5), (X, 12)]), (''TN'', [(D, 20)]), (''TR'', [(D, 5), (X, 17)]),
     (''AE'', [(D, 3), (D, 16)]), (''GB'', [(L, 4), (D, 14)]), (''VG'', [(X, 4), (D, 16)])]"

text \<open>\<open>"0123456789ABCDEFGHIJKLMNOPQRSTUVWXYZ".indexOf(charAt)\<close> as a text.\<close>

definition iban_index :: "nat \<Rightarrow> jsstr" where
  "iban_index c =
     (if is_digit10 c then string_of_nat (c - 48)
      else if 65 \<le> c \<and> c \<le> 90 then string_of_nat (c - 55) else js ''-1'')"

definition iban_digits :: "jsstr \<Rightarrow> jsstr" where
  "iban_digits s =
     fst (fold (\<lambda>c (ds, leading). let leading = (leading \<and> c = 48)
                                  in (if leading then ds else ds @ iban_index c, leading)) s ([], True))"

text \<open>\<open>("" + cRest + cChar) % 97\<close>; the empty text at the start counts as 0, a sign makes \<open>NaN\<close>.\<close>

definition iban_step :: "nat \<Rightarrow> int option \<Rightarrow> int option" where
  "iban_step c rest =
     (case rest of None \<Rightarrow> None
      | Some r \<Rightarrow> if is_digit10 c then Some ((10 * r + int (digit_value c)) mod 97) else None)"

text \<open>Only the formats of the countries in the list are checked.\<close>

definition iban_format :: "jsstr \<Rightarrow> bool" where
  "iban_format iban =
     (let countrycode = take 2 iban
      in case find (\<lambda>(c, _). js c = countrycode) bban_patterns of
           None \<Rightarrow> True
         | Some (_, p) \<Rightarrow> re_test (whole (seqs ([rep 2 (cls [(65, 90)]), rep 2 digit] @ map bban_re p))) iban)"

definition rule_iban :: "bool \<Rightarrow> jsstr \<Rightarrow> verdict" where
  "rule_iban optional value =
     (if optional then Valid
      else
        let iban = to_upper (remove_chars (\<lambda>c. c = 32) value)
        in if \<not> iban_format iban then Invalid
           else
             let ibancheck = drop 4 iban @ take 4 iban;
                 cRest = fold iban_step (iban_digits ibancheck) (Some 0)
             in of_check (cRest = Some 1))"

section \<open>Tax numbers\<close>

definition es_format :: re where
  "es_format = Alt (Alt
     (whole (seqs [rep 1 (cls [(65, 90)]), rep 7 digit, rep 1 (cls [(65, 90), (48, 57)])]))
     (whole (Seq (rep 1 (chr (CHR ''T''))) (rep 8 (cls [(65, 90), (48, 57)])))))
     (whole (Seq (rep 8 digit) (rep 1 (cls [(65, 90)]))))"

text \<open>The doubled digits at the odd places, the sum of their digits; \<open>None\<close> is \<open>NaN\<close>.\<close>

definition double_digits :: "int option \<Rightarrow> int option" where
  "double_digits d = map_option (\<lambda>d. 2 * d div 10 + 2 * d mod 10) d"

definition cif_sum :: "(nat \<Rightarrow> int option) \<Rightarrow> int option" where
  "cif_sum num =
     fold (\<lambda>count acc. opt_add acc (double_digits (num count))) [1, 3, 5, 7]
       (opt_add (opt_add (num 2) (num 4)) (num 6))"

definition rule_cifES :: "jsstr \<Rightarrow> verdict" where
  "rule_cifES value =
     (let value = to_upper value
      in if \<not> re_test es_format value then Invalid
         else
           let num = (\<lambda>i. char_digit (charAt value i))
           in if re_test (Seq Bol (cls (one_of ''ABCDEFGHJNPQRSUVW''))) value then
                of_check (case (cif_sum num, num 8) of
                  (Some acc, Some d) \<Rightarrow>
                    let controlDigit = 10 - acc mod 10; text = string_of_num (Num controlDigit)
                    in string_of_num (Num d) = [64 + nat controlDigit] \<or> string_of_num (Num d) = [last text]
                | _ \<Rightarrow> False)
              else Invalid)"

definition nif_letters :: jsstr where
  "nif_letters = js ''TRWAGMYFPDXBNJZSQVHLCKE''"

fun replace_first :: "nat \<Rightarrow> nat \<Rightarrow> jsstr \<Rightarrow> jsstr" where
  "replace_first a b [] = []"
| "replace_first a b (c # s) = (if c = a then b # s else c # replace_first a b s)"

text \<open>\<open>charAt(t % 23)\<close> of a text of digits; another text gives \<open>NaN\<close> and the character at 0.\<close>

definition nif_letter :: "jsstr \<Rightarrow> jsstr" where
  "nif_letter t =
     charAt nif_letters (if t \<noteq> [] \<and> list_all is_digit10 t then digits_value 10 t mod 23 else 0)"

text \<open>In the first branch a character is compared with a truth value.\<close>

definition rule_nieES :: "jsstr \<Rightarrow> verdict" where
  "rule_nieES value =
     (let value = to_upper value
      in if \<not> re_test es_format value then Invalid
         else if re_test (Seq Bol (chr (CHR ''T''))) value then Invalid
         else if re_test (Seq Bol (cls (one_of ''XYZ''))) value then
           of_check (charAt value 8 =
             nif_letter (take 8 (replace_first 90 50 (replace_first 89 49 (replace_first 88 48 value)))))
         else Invalid)"

definition rule_nifES :: "jsstr \<Rightarrow> verdict" where
  "rule_nifES value =
     (let value = to_upper value
      in if \<not> re_test es_format value then Invalid
         else if re_test (whole (Seq (rep 8 digit) (rep 1 (cls [(65, 90)])))) value then
           of_check (nif_letter (substring value 8 0) = charAt value 8)
         else if re_test (Seq Bol (cls (one_of ''KLM''))) value then of_check (charAt value 8 = [64])
         else Invalid)"

definition cpf_sign :: "nat \<Rightarrow> bool" where
  "cpf_sign c \<longleftrightarrow> c \<in> set (js ''~!@#$%^&*()_+={}[]-|:;<>,./? '') \<union> {96, 92, 39}"

definition cpf_sum :: "jsstr \<Rightarrow> nat \<Rightarrow> int \<Rightarrow> int option" where
  "cpf_sum value n w =
     fold (\<lambda>i acc. opt_add acc (map_option (\<lambda>d. d * (w - int i)) (char_digit (charAt value (i - 1))))) [1..<Suc n] (Some 0)"

definition cpf_check :: "int option \<Rightarrow> int option \<Rightarrow> bool" where
  "cpf_check acc cn =
     (case (acc, cn) of
        (Some s, Some c) \<Rightarrow>
          let result = s * 10 mod 11; result = (if result = 10 \<or> result = 11 then 0 else result) in result = c
      | _ \<Rightarrow> False)"

definition rule_cpfBR :: "jsstr \<Rightarrow> verdict" where
  "rule_cpfBR value =
     (let value = remove_chars cpf_sign value
      in if length value \<noteq> 11 then Invalid
         else
           let firstCN = char_digit (charAt value 9);
               secondCN = char_digit (charAt value 10)
           in if value = [] \<or> (\<exists>d \<in> set [48..<58]. value = replicate 11 d) then Invalid
              else if cpf_check (cpf_sum value 9 11) firstCN
              then of_check (cpf_check (cpf_sum value 10 12) secondCN)
              else Invalid)"

section \<open>Credit cards\<close>

definition luhn_step :: "jsstr \<Rightarrow> nat \<Rightarrow> nat \<times> bool \<Rightarrow> nat \<times> bool" where
  "luhn_step value n = (\<lambda>(nCheck, bEven).
     let nDigit = digit_value (value ! n);
         nDigit = (if bEven then if nDigit * 2 > 9 then nDigit * 2 - 9 else nDigit * 2 else nDigit)
     in (nCheck + nDigit, \<not> bEven))"

definition luhn_sum :: "jsstr \<Rightarrow> nat" where
  "luhn_sum value = fst (fold (luhn_step value) (rev [0..<length value]) (0, False))"

definition rule_creditcard :: "bool \<Rightarrow> jsstr \<Rightarrow> verdict" where
  "rule_creditcard optional value =
     (if optional then Mismatch
      else if re_test (plus (Cls True [(48, 57), (32, 32), (45, 45)])) value then Invalid
      else
        let value = remove_chars (\<lambda>c. \<not> is_digit10 c) value
        in if length value < 13 \<or> length value > 19 then Invalid
           else of_check (luhn_sum value mod 10 = 0))"

record card_types =
  mastercard :: bool
  visa :: bool
  amex :: bool
  dinersclub :: bool
  enroute :: bool
  discover :: bool
  jcb :: bool
  unknown :: bool
  all_types :: bool

definition type_bits :: "card_types \<Rightarrow> int" where
  "type_bits param =
     (let v = 0;
          v = (if mastercard param then v OR 0x01 else v);
          v = (if visa param then v OR 0x02 else v);
          v = (if amex param then v OR 0x04 else v);
          v = (if dinersclub param then v OR 0x08 else v);
          v = (if enroute param then v OR 0x10 else v);
          v = (if discover param then v OR 0x20 else v);
          v = (if jcb param then v OR 0x40 else v);
          v = (if unknown param then v OR 0x80 else v)
      in if all_types param then 0x01 OR 0x02 OR 0x04 OR 0x08 OR 0x10 OR 0x20 OR 0x40 OR 0x80 else v)"

definition starts :: "re \<Rightarrow> jsstr \<Rightarrow> bool" where
  "starts r s = re_test (Seq Bol r) s"

definition rule_creditcardtypes :: "jsstr \<Rightarrow> card_types \<Rightarrow> verdict" where
  "rule_creditcardtypes value param =
     (if re_test (plus (Cls True [(48, 57), (45, 45)])) value then Invalid
      else
        let value = remove_chars (\<lambda>c. \<not> is_digit10 c) value; v = type_bits param; n = length value
        in if v AND 0x01 \<noteq> 0 \<and> starts (Seq (chr (CHR ''5'')) (cls (one_of ''12345''))) value then of_check (n = 16)
           else if v AND 0x02 \<noteq> 0 \<and> starts (chr (CHR ''4'')) value then of_check (n = 16)
           else if v AND 0x04 \<noteq> 0 \<and> starts (Seq (chr (CHR ''3'')) (cls (one_of ''47''))) value then of_check (n = 15)
           else if v AND 0x08 \<noteq> 0 \<and> starts (Seq (chr (CHR ''3''))
               (Alt (Seq (chr (CHR ''0'')) (cls (one_of ''012345''))) (cls (one_of ''68'')))) value then of_check (n = 14)
           else if v AND 0x10 \<noteq> 0 \<and> starts (Seq (chr (CHR ''2'')) (Alt (lit ''014'') (lit ''149''))) value then of_check (n = 15)
           else if v AND 0x20 \<noteq> 0 \<and> starts (lit ''6011'') value then of_check (n = 16)
           else if v AND 0x40 \<noteq> 0 \<and> starts (chr (CHR ''3'')) value then of_check (n = 16)
           else if v AND 0x40 \<noteq> 0 \<and> starts (Alt (lit ''2131'') (lit ''1800'')) value then of_check (n = 15)
           else if v AND 0x80 \<noteq> 0 then Valid
           else Invalid)"

section \<open>Dates\<close>

definition leap :: "int \<Rightarrow> bool" where
  "leap y \<longleftrightarrow> y mod 4 = 0 \<and> (y mod 100 \<noteq> 0 \<or> y mod 400 = 0)"

definition month_days :: "int \<Rightarrow> int \<Rightarrow> int" where
  "month_days y m = (if m = 1 then if leap y then 29 else 28 else if m \<in> {3, 5, 8, 10} then 30 else 31)"

lemma month_days_bounds: "28 \<le> month_days y m" "month_days y m \<le> 31"
  by (auto simp: month_days_def)

text \<open>
  The year, month and day of \<open>Date.UTC(y, m, d)\<close> for \<open>m\<close> from -1 and \<open>d\<close> from 0 to 99: years up to 99 are
  those of the twentieth century, and days that a month does not have move on to the next ones.
\<close>

function utc_days :: "int \<Rightarrow> int \<Rightarrow> int \<Rightarrow> int \<times> int \<times> int" where
  "utc_days y m d =
     (if m \<ge> 0 \<and> m \<le> 11 \<and> d > month_days y m
      then if m = 11 then utc_days (y + 1) 0 (d - month_days y m) else utc_days y (m + 1) (d - month_days y m)
      else (y, m, d))"
  by pat_completeness auto
termination
proof (relation "measure (\<lambda>(y, m, d). nat d)", goal_cases)
  case (2 y m d)
  then show ?case using month_days_bounds(1) [of y m] by simp
next
  case (3 y m d)
  then show ?case using month_days_bounds(1) [of y m] by simp
qed simp

declare utc_days.simps [simp del]

definition date_utc :: "int \<Rightarrow> int \<Rightarrow> int \<Rightarrow> int \<times> int \<times> int" where
  "date_utc y m d =
     (let y = (if 0 \<le> y \<and> y \<le> 99 then 1900 + y else y);
          y = y + m div 12; m = m mod 12
      in if d = 0 then if m = 0 then (y - 1, 11, 31) else (y, m - 1, month_days y (m - 1))
         else utc_days y m d)"

definition rule_dateITA :: "bool \<Rightarrow> jsstr \<Rightarrow> verdict" where
  "rule_dateITA optional value =
     (let slash = chr (CHR ''/'');
          check =
            (if re_test (whole (seqs [between 1 2 digit, slash, between 1 2 digit, slash, rep 4 digit])) value then
               let adata = split_on 47 value;
                   gg = int (digits_value 10 (adata ! 0));
                   mm = int (digits_value 10 (adata ! 1));
                   aaaa = int (digits_value 10 (adata ! 2))
               in date_utc aaaa (mm - 1) gg = (aaaa, mm - 1, gg)
             else False)
      in unless_optional optional check)"

section \<open>Vehicles\<close>

definition vin_letters :: jsstr where
  "vin_letters = js ''ABCDEFGHJKLMNPRSTUVWXYZ''"

definition vin_values :: "int list" where
  "vin_values = [1, 2, 3, 4, 5, 6, 7, 8, 1, 2, 3, 4, 5, 7, 9, 2, 3, 4, 5, 6, 7, 8, 9]"

definition vin_weights :: "int list" where
  "vin_weights = [8, 7, 6, 5, 4, 3, 2, 10, 0, 9, 8, 7, 6, 5, 4, 3, 2]"

text \<open>
  \<open>rs\<close> is a number until a character that is neither a digit nor a letter of the list is added to it:
  then it is a text. \<open>cdv\<close> is the character at place 8; a \<open>J\<close> found while \<open>cdv\<close> is no number replaces it.
\<close>

datatype vin_sum = Vnum int | Vtext jsstr

fun vin_add :: "vin_sum \<Rightarrow> vin_sum \<Rightarrow> vin_sum" where
  "vin_add (Vnum a) (Vnum b) = Vnum (a + b)"
| "vin_add (Vnum a) (Vtext t) = Vtext (string_of_num (Num a) @ t)"
| "vin_add (Vtext s) (Vnum b) = Vtext (s @ string_of_num (Num b))"
| "vin_add (Vtext s) (Vtext t) = Vtext (s @ t)"

fun vin_index :: "jsstr \<Rightarrow> jsstr \<Rightarrow> nat \<Rightarrow> nat option" where
  "vin_index d [] n = None"
| "vin_index d (c # cs) n = (if d = [c] then Some n else vin_index d cs (Suc n))"

definition vin_step :: "jsstr \<Rightarrow> nat \<Rightarrow> vin_sum \<times> jsstr option \<Rightarrow> vin_sum \<times> jsstr option" where
  "vin_step v i = (\<lambda>(rs, cdv).
     let f = vin_weights ! i;
         c = v ! i;
         cdv = (if i = 8 then Some [c] else cdv);
         cdv_nan = (case cdv of None \<Rightarrow> True | Some t \<Rightarrow> string_to_number t = FNaN)
     in case char_number c of
          Some k \<Rightarrow> (vin_add rs (Vnum (k * f)), cdv)
        | None \<Rightarrow>
            (case vin_index (upper_char c) vin_letters 0 of
               None \<Rightarrow> (vin_add rs (Vtext [c]), cdv)
             | Some n \<Rightarrow>
                 (vin_add rs (Vnum (vin_values ! n * f)),
                  if cdv_nan \<and> n = 8 then Some [vin_letters ! n] else cdv)))"

text \<open>The remainder is 10 and becomes \<open>"X"\<close>, or it is a number, which no text is identical to.\<close>

definition vin_remainder_10 :: "vin_sum \<Rightarrow> bool" where
  "vin_remainder_10 rs =
     (case rs of
        Vnum a \<Rightarrow> a mod 11 = 10
      | Vtext s \<Rightarrow> (case string_to_number s of
            Fin r \<Rightarrow> r - 11 * of_int \<lfloor>r / 11\<rfloor> = 10 \<and> 0 \<le> r
          | _ \<Rightarrow> False))"

definition rule_vinUS :: "jsstr \<Rightarrow> verdict" where
  "rule_vinUS v =
     (if length v \<noteq> 17 then Invalid
      else case fold (vin_step v) [0..<17] (Vnum 0, None) of
        (rs, cdv) \<Rightarrow> of_check (vin_remainder_10 rs \<and> cdv = Some [88]))"

end
