(* ===== verification/Checksum_Correct.thy ===== *)
theory Checksum_Correct
  imports Checksum_Rules
begin

text \<open>
  What the computing rules of \<open>additional-methods.js\<close> notice: the IBAN check is the remainder of the whole
  number by 97, the Dutch account check and the check of credit cards notice every wrong digit, the
  Italian date is a date of the calendar, and vehicles pass only with the check character \<open>X\<close>.
\<close>

section \<open>IBAN\<close>

lemma iban_step_fold:
  assumes "list_all is_digit10 ds"
  shows "fold iban_step ds (Some (r mod 97)) = Some ((r * 10 ^ length ds + int (digits_value 10 ds)) mod 97)"
  using assms
proof (induction ds arbitrary: r)
  case (Cons c ds)
  have "fold iban_step (c # ds) (Some (r mod 97)) = fold iban_step ds (Some ((10 * r + int (digit_value c)) mod 97))"
    using Cons.prems by (simp add: iban_step_def mod_add_left_eq mod_mult_right_eq) (metis mod_add_left_eq mod_mult_right_eq)
  moreover have "digits_value 10 (c # ds) = digit_value c * 10 ^ length ds + digits_value 10 ds"
    using digits_value_append [of 10 "[c]" ds] by (simp add: digits_value_def)
  ultimately show ?case using Cons by (simp add: algebra_simps)
qed (simp add: digits_value_def)

definition iban_text :: "jsstr \<Rightarrow> jsstr" where
  "iban_text s = concat (map iban_index s)"

definition iban_chars :: "jsstr \<Rightarrow> bool" where
  "iban_chars s \<longleftrightarrow> list_all (\<lambda>c. is_digit10 c \<or> 65 \<le> c \<and> c \<le> 90) s"

lemma iban_digits_suffix: "\<exists>n. iban_text s = replicate n 48 @ iban_digits s"
proof -
  let ?f = "\<lambda>c (ds, leading). let leading = (leading \<and> c = 48) in (if leading then ds else ds @ iban_index c, leading)"
  have zero: "iban_index 48 = [48]" by (simp add: iban_index_def is_digit10_def string_of_nat.simps)
  have run: "fold ?f t (ds, False) = (ds @ iban_text t, False)" for t ds
    by (induction t arbitrary: ds) (simp_all add: iban_text_def Let_def)
  have "\<exists>n. iban_text s = replicate n 48 @ fst (fold ?f s ([], True))"
  proof (induction s)
    case (Cons c s)
    show ?case
    proof (cases "c = 48")
      case True
      then have step: "fold ?f (c # s) ([], True) = fold ?f s ([], True)" by simp
      obtain n where n: "iban_text s = replicate n 48 @ fst (fold ?f s ([], True))" using Cons.IH by blast
      have "iban_text (c # s) = replicate (Suc n) 48 @ fst (fold ?f (c # s) ([], True))"
        unfolding step using True n zero by (simp add: iban_text_def)
      then show ?thesis by blast
    next
      case False
      then have "fold ?f (c # s) ([], True) = fold ?f s (iban_index c, False)" by simp
      then have "fst (fold ?f (c # s) ([], True)) = iban_index c @ iban_text s" by (simp only: run fst_conv)
      then show ?thesis by (intro exI [of _ 0]) (simp add: iban_text_def)
    qed
  qed (simp add: iban_text_def)
  then show ?thesis unfolding iban_digits_def .
qed

lemma iban_text_digits:
  assumes "iban_chars s"
  shows "list_all is_digit10 (iban_text s)"
proof -
  have "\<forall>d \<in> set (iban_index c). is_digit10 d" if "is_digit10 c \<or> 65 \<le> c \<and> c \<le> 90" for c
    using that by (auto simp: iban_index_def string_of_nat_is_digit10 simp del: string_of_nat.simps)
  then show ?thesis using assms by (auto simp: iban_text_def iban_chars_def list_all_iff)
qed

theorem iban_remainder:
  assumes "iban_chars s"
  shows "fold iban_step (iban_digits s) (Some 0) = Some (int (digits_value 10 (iban_text s)) mod 97)"
proof -
  obtain n where n: "iban_text s = replicate n 48 @ iban_digits s" using iban_digits_suffix by blast
  then have "list_all is_digit10 (iban_digits s)" using iban_text_digits [OF assms] by simp
  then show ?thesis
    using iban_step_fold [of "iban_digits s" 0] digits_value_zeros [of 10 n "iban_digits s"] n by simp
qed

section \<open>Dutch bank accounts\<close>

definition bank_weight :: "nat \<Rightarrow> int" where
  "bank_weight i = 9 - int i"

definition bank_values :: "jsstr \<Rightarrow> int list" where
  "bank_values s = map (\<lambda>c. int (digit_value c)) s"

interpretation bank: transposition_check bank_weight 11 "{..<9}"
proof
  show "coprime (bank_weight i) 11" if "i \<in> {..<9}" for i
  proof (rule coprime_11)
    have "0 < bank_weight i" "bank_weight i < 11" using that by (auto simp: bank_weight_def)
    then show "bank_weight i mod 11 \<noteq> 0" by simp
  qed
  show "coprime (bank_weight i - bank_weight (Suc i)) 11" for i
    by (simp add: bank_weight_def)
qed

lemma bank_sum_weighted:
  assumes "list_all is_digit10 s" "length s = 9"
  shows "bank_sum s = Some (weighted bank_weight (bank_values s))"
proof -
  have "fold (\<lambda>pos acc. opt_add acc (map_option (\<lambda>digit. int (length s - pos) * digit) (char_number (s ! pos)))) [0..<n] (Some 0) =
      Some (\<Sum>i<n. bank_weight i * bank_values s ! i)" if "n \<le> 9" for n
    using that
  proof (induction n)
    case (Suc n)
    have "is_digit10 (s ! n)" using assms Suc.prems by (simp add: list_all_length)
    then have "char_number (s ! n) = Some (bank_values s ! n)"
      using assms(2) Suc.prems by (simp add: char_number_def bank_values_def)
    moreover have "int (9 - n) = bank_weight n" using Suc.prems by (simp add: bank_weight_def)
    ultimately show ?case using Suc assms(2) by (simp add: opt_add_def)
  qed simp
  from this [of 9] show ?thesis using assms(2) by (simp add: bank_sum_def weighted_def bank_values_def)
qed

lemma rule_bank_digits:
  assumes "list_all is_digit10 s" "length s = 9"
  shows "rule_bankaccountNL False s = of_check (weighted bank_weight (bank_values s) mod 11 = 0)"
proof -
  have "s \<in> lang (rep 9 digit)" using assms by (simp add: lang_rep_Cls list_all_iff is_digit10_def)
  then have "[] \<in> set (ends 9 (rep 9 digit) s)" using ends_lang [of "rep 9 digit" "[]" 9 s] by simp
  then have "ends 9 (Alt (Seq Bol (rep 9 digit)) (seqs [rep 3 (Seq (rep 2 digit) (chr (CHR '' ''))), rep 3 digit, Eol])) s \<noteq> []"
    using assms(2) by (auto simp: filter_empty_conv)
  then have t: "re_test (Alt (Seq Bol (rep 9 digit)) (seqs [rep 3 (Seq (rep 2 digit) (chr (CHR '' ''))), rep 3 digit, Eol])) s"
    using assms(2) re_test_iff [of _ s] by (metis append_Nil)
  have "remove_chars (\<lambda>c. c = 32) s = s"
    using assms(1) by (auto simp: remove_chars_def list_all_iff is_digit10_def intro!: filter_True)
  then show ?thesis using t bank_sum_weighted [OF assms] by (simp add: rule_bankaccountNL_def)
qed

section \<open>Credit cards\<close>

definition luhn_digit :: "bool \<Rightarrow> nat \<Rightarrow> nat" where
  "luhn_digit doubled d = (if doubled then if d * 2 > 9 then d * 2 - 9 else d * 2 else d)"

text \<open>The digits from the right, every second one doubled.\<close>

lemma luhn_fold:
  "fst (fold (luhn_step s) (rev [0..<k]) (n, b)) =
     n + (\<Sum>i<k. luhn_digit (b \<noteq> odd (k - 1 - i)) (digit_value (s ! i)))"
proof (induction k arbitrary: n b)
  case (Suc k)
  have "luhn_step s k (n, b) = (n + luhn_digit b (digit_value (s ! k)), \<not> b)"
    by (simp add: luhn_step_def luhn_digit_def Let_def)
  then have "fst (fold (luhn_step s) (rev [0..<Suc k]) (n, b)) =
      n + luhn_digit b (digit_value (s ! k)) + (\<Sum>i<k. luhn_digit ((\<not> b) \<noteq> odd (k - 1 - i)) (digit_value (s ! i)))"
    using Suc by simp
  also have "(\<Sum>i<k. luhn_digit ((\<not> b) \<noteq> odd (k - 1 - i)) (digit_value (s ! i))) =
      (\<Sum>i<k. luhn_digit (b \<noteq> odd (Suc k - 1 - i)) (digit_value (s ! i)))"
  proof (rule sum.cong [OF refl])
    fix i assume "i \<in> {..<k}"
    then have e: "Suc k - 1 - i = Suc (k - 1 - i)" by auto
    have "((\<not> b) \<noteq> odd (k - 1 - i)) = (b \<noteq> odd (Suc k - 1 - i))" unfolding e even_Suc by blast
    then show "luhn_digit ((\<not> b) \<noteq> odd (k - 1 - i)) (digit_value (s ! i)) = luhn_digit (b \<noteq> odd (Suc k - 1 - i)) (digit_value (s ! i))"
      by (simp only:)
  qed
  finally show ?case by simp
qed simp

lemma luhn_sum_eq: "luhn_sum s = (\<Sum>i<length s. luhn_digit (odd (length s - 1 - i)) (digit_value (s ! i)))"
  using luhn_fold [of s "length s" 0 False] by (simp add: luhn_sum_def)

lemma luhn_digit_less: "d < 10 \<Longrightarrow> luhn_digit b d < 10"
  by (auto simp: luhn_digit_def)

lemma luhn_digit_inj:
  assumes "luhn_digit b d mod 10 = luhn_digit b e mod 10" "d < 10" "e < 10"
  shows "d = e"
proof -
  have "luhn_digit b d = luhn_digit b e" using assms luhn_digit_less [of d b] luhn_digit_less [of e b] by simp
  then show ?thesis using assms(2,3) by (auto simp: luhn_digit_def split: if_splits) presburger+
qed

lemma luhn_update:
  assumes "i < length s"
  shows "luhn_sum (s[i := c]) + luhn_digit (odd (length s - 1 - i)) (digit_value (s ! i)) =
    luhn_sum s + luhn_digit (odd (length s - 1 - i)) (digit_value c)"
proof -
  let ?f = "\<lambda>t k. luhn_digit (odd (length s - 1 - k)) (digit_value (t ! k))"
  have split: "(\<Sum>k<length s. g k) = g i + (\<Sum>k \<in> {..<length s} - {i}. g k)" for g :: "nat \<Rightarrow> nat"
    using assms by (simp add: sum.remove)
  have "(\<Sum>k \<in> {..<length s} - {i}. ?f (s[i := c]) k) = (\<Sum>k \<in> {..<length s} - {i}. ?f s k)"
    by (intro sum.cong) auto
  then show ?thesis
    using assms split [of "?f (s[i := c])"] split [of "?f s"] by (simp add: luhn_sum_eq)
qed

lemma luhn_notices:
  assumes "i < length s" "is_digit10 (s ! i)" "is_digit10 c" "luhn_sum s mod 10 = 0" "luhn_sum (s[i := c]) mod 10 = 0"
  shows "c = s ! i"
proof -
  let ?b = "odd (length s - 1 - i)"
  have "(luhn_sum (s[i := c]) + luhn_digit ?b (digit_value (s ! i))) mod 10 = luhn_digit ?b (digit_value (s ! i)) mod 10"
    using assms(5) by (simp add: mod_add_left_eq [symmetric])
  moreover have "(luhn_sum s + luhn_digit ?b (digit_value c)) mod 10 = luhn_digit ?b (digit_value c) mod 10"
    using assms(4) by (simp add: mod_add_left_eq [symmetric])
  ultimately have "luhn_digit ?b (digit_value (s ! i)) mod 10 = luhn_digit ?b (digit_value c) mod 10"
    using luhn_update [OF assms(1), of c] by simp
  then have "digit_value (s ! i) = digit_value c"
    by (rule luhn_digit_inj) (use assms(2,3) in \<open>auto simp: digit_value_def is_digit10_def\<close>)
  then show ?thesis using assms(2,3) by (auto simp: digit_value_def is_digit10_def)
qed

section \<open>Dates\<close>

lemma utc_days_later:
  assumes "utc_days y m d = (y', m', d')" "0 \<le> m" "m \<le> 11"
  shows "12 * y + m + (if d > month_days y m then 1 else 0) \<le> 12 * y' + m' \<and> 0 \<le> m' \<and> m' \<le> 11"
  using assms
proof (induction y m d rule: utc_days.induct)
  case (1 y m d)
  show ?case
  proof (cases "d > month_days y m")
    case True
    then show ?thesis
      using 1 utc_days.simps [of y m d] by (cases "m = 11") (auto split: if_splits)
  next
    case False
    then show ?thesis using 1(3-5) utc_days.simps [of y m d] by simp
  qed
qed

lemma date_utc_same:
  assumes "0 \<le> y" "- 1 \<le> m" "0 \<le> d" "m \<le> 98"
  shows "date_utc y m d = (y, m, d) \<longleftrightarrow> 100 \<le> y \<and> 0 \<le> m \<and> m \<le> 11 \<and> 1 \<le> d \<and> d \<le> month_days y m"
proof
  assume eq: "date_utc y m d = (y, m, d)"
  define z where "z = (if y \<le> 99 then 1900 + y else y)"
  have z: "(if 0 \<le> y \<and> y \<le> 99 then 1900 + y else y) = z" using assms(1) by (simp add: z_def)
  have e: "(if d = 0 then if m mod 12 = 0 then (z + m div 12 - 1, 11, 31) else (z + m div 12, m mod 12 - 1, month_days (z + m div 12) (m mod 12 - 1))
      else utc_days (z + m div 12) (m mod 12) d) = (y, m, d)"
    using eq unfolding date_utc_def Let_def z .
  have d: "d \<noteq> 0"
  proof
    assume "d = 0"
    then show False using e month_days_bounds(1) [of "z + m div 12" "m mod 12 - 1"] by (auto split: if_splits)
  qed
  then have u: "utc_days (z + m div 12) (m mod 12) d = (y, m, d)" using e by simp
  have "0 \<le> m mod 12" "m mod 12 \<le> 11" by simp_all
  note l = utc_days_later [OF u this]
  have "z = y" "m div 12 = 0"
  proof -
    have m: "m = 12 * (m div 12) + m mod 12" by simp
    have "0 \<le> m" using l by simp
    then have "m div 12 = 0" using l by simp
    then show "m div 12 = 0" .
    have "12 * z + m mod 12 \<le> 12 * y + m" using l \<open>m div 12 = 0\<close> by (auto split: if_splits)
    then have "z \<le> y" using m \<open>m div 12 = 0\<close> by simp
    then show "z = y" by (simp add: z_def split: if_splits)
  qed
  then have "100 \<le> y" "m mod 12 = m" using l by (auto simp: z_def split: if_splits)
  then show "100 \<le> y \<and> 0 \<le> m \<and> m \<le> 11 \<and> 1 \<le> d \<and> d \<le> month_days y m"
    using l d assms(3) \<open>z = y\<close> \<open>m div 12 = 0\<close> by (auto split: if_splits)
next
  assume "100 \<le> y \<and> 0 \<le> m \<and> m \<le> 11 \<and> 1 \<le> d \<and> d \<le> month_days y m"
  then show "date_utc y m d = (y, m, d)"
    by (simp add: date_utc_def Let_def utc_days.simps)
qed

section \<open>Vehicles\<close>

text \<open>The check character that is compared is the one at place 8, or a \<open>J\<close>.\<close>

lemma vin_check_char:
  assumes "snd (fold (vin_step v) [0..<17] (Vnum 0, None)) = Some [88]"
  shows "v ! 8 = 88"
proof -
  have J: "vin_letters ! 8 = 74" by (simp add: vin_letters_def)
  have "snd (fold (vin_step v) [0..<n] (Vnum 0, None)) \<in>
      (if n \<le> 8 then {None, Some [74]} else {Some [v ! 8], Some [74]})" for n
  proof (induction n)
    case (Suc n)
    obtain rs cdv where st: "fold (vin_step v) [0..<n] (Vnum 0, None) = (rs, cdv)" by fastforce
    have "snd (vin_step v n (rs, cdv)) \<in> (if n = 8 then {Some [v ! 8], Some [74]} else {cdv, Some [74]})"
      by (auto simp: vin_step_def Let_def J split: option.splits)
    then show ?case using Suc st by (auto split: if_splits)
  qed simp
  from this [of 17] assms show ?thesis by simp
qed

end
