(* ===== verification/Validate_Contract.thy ===== *)
theory Validate_Contract
  imports Validate_Util Checksum_Correct
begin

text \<open>
  What the form checks accept and notice: the properties of \<open>jquery.validation.js\<close> and of the computing
  rules of \<open>additional-methods.js\<close>, each with a concrete input at which its hypotheses hold.
\<close>

section \<open>Identity cards\<close>

lemma card_check_inj:
  assumes "card_check s = card_check t"
  shows "weighted card_weight (card_values s) mod 11 = weighted card_weight (card_values t) mod 11"
proof -
  have d: "distinct verify_chars" "length verify_chars = 11" by (simp_all add: verify_chars_def)
  define a b where "a = nat (weighted card_weight (card_values s) mod 11)" and "b = nat (weighted card_weight (card_values t) mod 11)"
  have "a < 11" "b < 11" by (simp_all add: a_def b_def nat_less_iff)
  moreover have "verify_chars ! a = verify_chars ! b" using assms by (simp add: card_check_def a_def b_def)
  ultimately have "a = b" using nth_eq_iff_index_eq [OF d(1)] d(2) by auto
  then show ?thesis by (simp add: a_def b_def)
qed

lemma card_values_update:
  "i < 17 \<Longrightarrow> card_values (s[i := c]) = (card_values s)[i := int (digit_value c)]"
  by (simp add: card_values_def take_update_swap map_update)

lemma card_diff:
  assumes "length s = 18" "\<forall>c \<in> set (take 17 s). is_digit10 c" "i < 17" "is_digit10 c"
  shows "\<bar>int (digit_value c) - card_values s ! i\<bar> < 11" "card_values s ! i = int (digit_value (s ! i))" "is_digit10 (s ! i)"
proof -
  have "take 17 s ! i \<in> set (take 17 s)" using assms by (intro nth_mem) simp
  then have "s ! i \<in> set (take 17 s)" using assms(3) by simp
  then show d: "is_digit10 (s ! i)" using assms(2) by blast
  show v: "card_values s ! i = int (digit_value (s ! i))" using assms by (simp add: card_values_def)
  show "\<bar>int (digit_value c) - card_values s ! i\<bar> < 11"
    unfolding v using d assms(4) by (auto simp: digit_value_def is_digit10_def)
qed

text \<open>C21. The check of an identity card of 18 places notices every wrong digit among the first 17 and every
  exchange of two different neighbours among them.\<close>

theorem card_notices_errors:
  assumes "isIdCard s" "length s = 18"
  shows "(\<forall>i c. i < 17 \<and> is_digit10 c \<and> c \<noteq> s ! i \<longrightarrow> \<not> isIdCard (s[i := c])) \<and>
    (\<forall>i. Suc i < 17 \<and> s ! i \<noteq> s ! Suc i \<longrightarrow> \<not> isIdCard (s[i := s ! Suc i, Suc i := s ! i]))"
proof -
  have s: "\<forall>c \<in> set (take 17 s). is_digit10 c" "s ! 17 = card_check s"
    using assms by (auto simp: isIdCard_iff)
  have same: "weighted card_weight (card_values t) mod 11 = weighted card_weight (card_values s) mod 11"
    if "isIdCard t" "length t = 18" "t ! 17 = s ! 17" for t
    using that s(2) card_check_inj [of t s] by (auto simp: isIdCard_iff)
  have len: "length (card_values s) = 17" using assms(2) by (simp add: card_values_def)
  have digit: "is_digit10 c \<Longrightarrow> is_digit10 d \<Longrightarrow> digit_value c = digit_value d \<Longrightarrow> c = d" for c d
    by (auto simp: digit_value_def is_digit10_def)
  show ?thesis
  proof (intro conjI allI impI notI)
    fix i c assume i: "i < 17 \<and> is_digit10 c \<and> c \<noteq> s ! i" and "isIdCard (s[i := c])"
    then have "weighted card_weight ((card_values s)[i := int (digit_value c)]) mod 11 = weighted card_weight (card_values s) mod 11"
      using same [of "s[i := c]"] assms(2) by (simp add: card_values_update)
    then have "int (digit_value c) = card_values s ! i"
      by (intro card.notices_digit) (use i len card_diff(1) [OF assms(2) s(1)] in auto)
    then show False using i digit card_diff [OF assms(2) s(1), of i c] by auto
  next
    fix i assume i: "Suc i < 17 \<and> s ! i \<noteq> s ! Suc i" and c: "isIdCard (s[i := s ! Suc i, Suc i := s ! i])"
    note d = card_diff [OF assms(2) s(1), of i "s ! Suc i"] card_diff [OF assms(2) s(1), of "Suc i" "s ! i"]
    have e: "is_digit10 (s ! i)" "is_digit10 (s ! Suc i)"
      using card_diff(3) [OF assms(2) s(1), of _ 48] i by (auto simp: is_digit10_def)
    have "card_values (s[i := s ! Suc i, Suc i := s ! i]) = (card_values s)[i := card_values s ! Suc i, Suc i := card_values s ! i]"
      using i d e by (simp add: card_values_update)
    then have "weighted card_weight ((card_values s)[i := card_values s ! Suc i, Suc i := card_values s ! i]) mod 11 =
        weighted card_weight (card_values s) mod 11"
      using same [OF c] assms(2) i by simp
    then have "card_values s ! i = card_values s ! Suc i"
      by (intro card.notices_swap) (use i len d e in auto)
    then show False using i d e digit by auto
  qed
qed

lemma card_check_sum:
  assumes "17 \<le> length s"
  shows "card_check s = verify_chars ! ((\<Sum>i \<leftarrow> [0..<17]. digit_value (take 17 s ! i) * card_weights ! i) mod 11)"
proof -
  have "weighted card_weight (card_values s) mod 11 = int ((\<Sum>i \<leftarrow> [0..<17]. digit_value (take 17 s ! i) * card_weights ! i) mod 11)"
    unfolding card_sum [OF assms, symmetric] by (simp only: zmod_int of_nat_numeral)
  then show ?thesis unfolding card_check_def by (simp only: nat_int)
qed

lemma upt_17: "[0..<17] = [0, 1, 2, 3, 4, 5, 6, 7, 8, 9, 10, 11, 12, 13, 14, 15, 16]"
  by code_simp

lemma card_example: "isIdCard (js ''11010519491231002x'')"
proof -
  let ?s = "js ''11010519491231002x''"
  have "card_check ?s = 120"
    by (subst card_check_sum) (simp_all add: upt_17 digit_value_def card_weights_def verify_chars_def)
  moreover have "\<not> area_missing (take 2 ?s)" by (simp add: area_missing_def digits_value_def digit_value_def card_area_def)
  ultimately show ?thesis by (simp add: isIdCard_iff is_digit10_def)
qed

lemma card_notices_errors_witness:
  "\<not> isIdCard (js ''11010519491231082x'') \<and> \<not> isIdCard (js ''11010591491231002x'')"
  using card_notices_errors [OF card_example, THEN conjunct1, rule_format, of 15 56]
    card_notices_errors [OF card_example, THEN conjunct2, rule_format, of 6]
  by (simp add: is_digit10_def)

lemma card_area_length: "length card_area = 92"
  by (simp add: card_area_def)

text \<open>What the check of identity cards lets through: every number of 15 digits whose area starts with 0,
  whatever its date (the tests of month and day can never fail); and what it refuses: the check character
  \<open>X\<close> in upper case, which its pattern allows.\<close>

theorem card_gaps:
  "(length s = 15 \<and> list_all is_digit10 s \<and> s ! 0 = 48 \<longrightarrow> isIdCard s) \<and>
   (isIdCard t \<and> length t = 18 \<and> t ! 17 = 120 \<longrightarrow> \<not> isIdCard (t[17 := 88]))"
proof (intro conjI impI; (elim conjE)?)
  assume s: "length s = 15" "list_all is_digit10 s" "s ! 0 = 48"
  obtain b u where bu: "s = 48 # b # u" using s(1,3) by (cases s; cases "tl s") auto
  have "is_digit10 b" using s(2) unfolding bu by simp
  then have "\<not> area_missing (take 2 s)"
    unfolding bu by (auto simp: area_missing_def card_area_length digits_value_def digit_value_def is_digit10_def)
  then show "isIdCard s" using s by (simp add: isIdCard_iff list_all_iff)
next
  assume t: "isIdCard t" "length t = 18" "t ! 17 = 120"
  have "card_check (t[17 := 88]) = card_check t" by (simp add: card_check_def card_values_def)
  moreover have "card_check t = 120" using t by (simp add: isIdCard_iff)
  ultimately show "\<not> isIdCard (t[17 := 88])" using t(2) by (simp add: isIdCard_iff)
qed

lemma card_gaps_witness: "isIdCard (js ''009999999999999'') \<and> \<not> isIdCard (js ''11010519491231002X'')"
  using card_gaps [of "js ''009999999999999''" "js ''11010519491231002x''"] card_example by (simp add: is_digit10_def)

section \<open>Patterns\<close>

text \<open>\<open>isMobile\<close> accepts a 1, then 3, 5, 8 or a bar (which the class takes literally), then nine digits.\<close>

theorem mobile_numbers:
  "isMobile (Some s) \<longleftrightarrow>
     length s = 11 \<and> s ! 0 = 49 \<and> s ! 1 \<in> {51, 53, 56, 124} \<and> list_all is_digit10 (drop 2 s)"
proof
  assume "isMobile (Some s)"
  then obtain c w where s: "s = 49 # c # w" "c \<in> {51, 53, 56, 124}" "length w = 9" "\<forall>d \<in> set w. is_digit10 d"
    unfolding isMobile_iff by blast
  then show "length s = 11 \<and> s ! 0 = 49 \<and> s ! 1 \<in> {51, 53, 56, 124} \<and> list_all is_digit10 (drop 2 s)"
    by (simp add: list_all_iff)
next
  assume s: "length s = 11 \<and> s ! 0 = 49 \<and> s ! 1 \<in> {51, 53, 56, 124} \<and> list_all is_digit10 (drop 2 s)"
  then obtain c w where "s = 49 # c # w" by (cases s; cases "tl s") auto
  with s show "isMobile (Some s)" by (simp add: isMobile_iff list_all_iff)
qed

lemma re_test_Alt: "re_test (Alt r s) t \<longleftrightarrow> re_test r t \<or> re_test s t"
  by (auto simp: re_test_def list_ex_iff)

lemma space_is_space: "in_class False space_cls c = is_space c"
proof -
  have "9 \<le> c \<and> c \<le> 13 \<longleftrightarrow> c = 9 \<or> c = 10 \<or> c = 11 \<or> c = 12 \<or> c = 13"
    "8232 \<le> c \<and> c \<le> 8233 \<longleftrightarrow> c = 8232 \<or> c = 8233" by presburger+
  moreover have "a \<le> c \<and> c \<le> a \<longleftrightarrow> c = a" for a by auto
  ultimately show ?thesis by (simp add: in_class_def space_cls_def is_space_def) blast
qed

lemma legal_password:
  "isPassword (Some s) \<longleftrightarrow> s \<noteq> [] \<and> (
     (\<forall>c \<in> set s. 65 \<le> c \<and> c \<le> 90) \<or> (\<forall>c \<in> set s. 97 \<le> c \<and> c \<le> 122) \<or> (\<forall>c \<in> set s. is_digit10 c) \<or>
     (\<forall>c \<in> set s. in_class False sign_cls c) \<or>
     length s \<le> 5 \<and> (\<forall>c \<in> set s. c \<notin> {10, 13, 8232, 8233}) \<or> (\<exists>c \<in> set s. is_space c))"
proof -
  have sp: "re_test space s \<longleftrightarrow> (\<exists>c \<in> set s. is_space c)"
  proof -
    have "re_test space s \<longleftrightarrow> (\<exists>u c v. s = u @ c # v \<and> is_space c)"
      by (simp only: search_iff plain.simps lang_Cls space_is_space) (metis append_Cons append_Nil)
    also have "\<dots> \<longleftrightarrow> (\<exists>c \<in> set s. is_space c)" by (meson in_set_conv_decomp)
    finally show ?thesis .
  qed
  have dot: "in_class True [(10, 10), (13, 13), (8232, 8233)] c \<longleftrightarrow> c \<notin> {10, 13, 8232, 8233}" for c
    by (auto simp: in_class_def)
  show ?thesis
    unfolding isPassword_def isLegalValue_def option.case re_test_Alt sp
    by (subst whole_iff) (auto simp: cls_def re_simps lang.simps(5) dot in_class_def [of _ "[(65, 90)]"]
        in_class_def [of _ "[(97, 122)]"] is_digit10_def)
qed

text \<open>\<open>isPassword\<close> recognises the weak passwords: one of six and more characters without white space is
  accepted exactly when all its characters are of one kind, so that what its comment asks for is refused.\<close>

theorem password_is_weak:
  assumes "6 \<le> length s" "list_all (\<lambda>c. \<not> is_space c) s"
  shows "isPassword (Some s) \<longleftrightarrow>
    list_all (\<lambda>c. 65 \<le> c \<and> c \<le> 90) s \<or> list_all (\<lambda>c. 97 \<le> c \<and> c \<le> 122) s \<or> list_all is_digit10 s \<or>
    list_all (in_class False sign_cls) s"
  using assms by (auto simp: legal_password list_all_iff)

lemma password_is_weak_witness: "\<not> isPassword (Some (js ''Abc123!'')) \<and> isPassword (Some (js ''secret''))"
  using password_is_weak [of "js ''Abc123!''"] password_is_weak [of "js ''secret''"]
  by (simp add: is_space_def is_digit10_def in_class_def sign_cls_def one_of_def)

section \<open>Comparisons\<close>

text \<open>The comparisons of \<open>$.ValidateUtil\<close> compare the whole part of the number, as \<open>|\<close> converts it to an
  integer: a value just above the bound passes \<open>isLessThanEq\<close>, one just below it \<open>isGreaterThan\<close> not.\<close>

theorem comparisons_of_whole_parts:
  assumes "to_num (parseFloat value) = Fin r" "0 \<le> r" "r < 2 ^ 31"
  shows "(isLessThan value b \<longleftrightarrow> of_int \<lfloor>r\<rfloor> < b) \<and> (isLessThanEq value b \<longleftrightarrow> of_int \<lfloor>r\<rfloor> \<le> b) \<and>
    (isGreaterThan value b \<longleftrightarrow> b < of_int \<lfloor>r\<rfloor>) \<and> (isGreaterThanEq value b \<longleftrightarrow> b \<le> of_int \<lfloor>r\<rfloor>) \<and>
    (isBetween value a b \<longleftrightarrow> a \<le> of_int \<lfloor>r\<rfloor> \<and> of_int \<lfloor>r\<rfloor> \<le> b)"
proof -
  have f: "0 \<le> \<lfloor>r\<rfloor>" "\<lfloor>r\<rfloor> < 2 ^ 31" using assms(2,3) by (simp_all add: floor_less_iff)
  then have "float_bits (Fin r) = \<lfloor>r\<rfloor>" using assms(2) by (simp add: float_bits_def to_int32_small)
  then have "number_bits value (FInf n) = \<lfloor>r\<rfloor>" for n
    using assms(1) by (simp add: number_bits_def float_bits_def)
  then show ?thesis
    by (simp add: isLessThan_def isLessThanEq_def isGreaterThan_def isGreaterThanEq_def isBetween_def not_less)
qed

lemma comparisons_of_whole_parts_witness: "isBetween (A_str (string_of_num (Num 7))) 5 7"
proof -
  have "to_num (parseFloat (A_str (string_of_num (Num 7)))) = Fin (of_int 7)"
    by (rule parseFloat_int_text) simp
  from comparisons_of_whole_parts [OF this, of 7 5] show ?thesis by simp
qed

section \<open>Check sums\<close>

lemma of_check_Valid [simp]: "of_check b = Valid \<longleftrightarrow> b" "of_check b = Invalid \<longleftrightarrow> \<not> b"
  by (simp_all add: of_check_def)

text \<open>C20. An IBAN in the format of its country is valid exactly when the number it stands for, its first four
  characters moved to the end and each letter read as a number from 10 to 35, leaves 1 by 97: the check
  that the code does digit by digit, without the leading zeros, is the check of the whole number.\<close>

theorem iban_is_mod_97:
  assumes "iban_format (to_upper (remove_chars (\<lambda>c. c = 32) value))"
    and "iban = to_upper (remove_chars (\<lambda>c. c = 32) value)" "iban_chars iban"
  shows "rule_iban False value = Valid \<longleftrightarrow>
    int (digits_value 10 (concat (map iban_index (drop 4 iban @ take 4 iban)))) mod 97 = 1"
proof -
  have "iban_chars (drop 4 iban @ take 4 iban)"
    using assms(3) by (auto simp: iban_chars_def list_all_iff dest: in_set_takeD in_set_dropD)
  then show ?thesis
    using assms(1) unfolding assms(2) [symmetric]
    by (simp add: rule_iban_def Let_def assms(2) [symmetric] iban_remainder iban_text_def)
qed

text \<open>The check of Dutch bank accounts notices every wrong digit and every exchange of two different
  neighbours in a valid number of nine digits.\<close>

theorem bank_notices_errors:
  assumes "rule_bankaccountNL False s = Valid" "list_all is_digit10 s" "length s = 9"
  shows "(\<forall>i c. i < 9 \<and> is_digit10 c \<and> c \<noteq> s ! i \<longrightarrow> rule_bankaccountNL False (s[i := c]) = Invalid) \<and>
    (\<forall>i. Suc i < 9 \<and> s ! i \<noteq> s ! Suc i \<longrightarrow> rule_bankaccountNL False (s[i := s ! Suc i, Suc i := s ! i]) = Invalid)"
proof -
  have d: "i < 9 \<Longrightarrow> is_digit10 (s ! i)" for i using assms(2,3) by (simp add: list_all_length)
  have inj: "is_digit10 c \<Longrightarrow> is_digit10 e \<Longrightarrow> digit_value c = digit_value e \<Longrightarrow> c = e" for c e
    by (auto simp: digit_value_def is_digit10_def)
  have near: "is_digit10 c \<Longrightarrow> is_digit10 e \<Longrightarrow> \<bar>int (digit_value c) - int (digit_value e)\<bar> < 11" for c e
    by (auto simp: digit_value_def is_digit10_def)
  have zero: "weighted bank_weight (bank_values s) mod 11 = 0"
    using assms rule_bank_digits [of s] by simp
  have val: "i < 9 \<Longrightarrow> bank_values s ! i = int (digit_value (s ! i))" for i
    using assms(3) by (simp add: bank_values_def)
  have upd: "bank_values (s[i := c]) = (bank_values s)[i := int (digit_value c)]" for i c and s :: jsstr
    by (simp add: bank_values_def map_update)
  have len: "length (bank_values s) = 9" using assms(3) by (simp add: bank_values_def)
  have digits: "list_all is_digit10 (s[i := c])" if "is_digit10 c" "list_all is_digit10 s" for i c and s :: jsstr
    using that set_update_subset_insert [of s i c] by (auto simp: list_all_iff)
  show ?thesis
  proof (intro conjI allI impI)
    fix i c assume i: "i < 9 \<and> is_digit10 c \<and> c \<noteq> s ! i"
    have "weighted bank_weight ((bank_values s)[i := int (digit_value c)]) mod 11 \<noteq> weighted bank_weight (bank_values s) mod 11"
    proof
      assume "weighted bank_weight ((bank_values s)[i := int (digit_value c)]) mod 11 = weighted bank_weight (bank_values s) mod 11"
      then have "int (digit_value c) = bank_values s ! i"
        by (intro bank.notices_digit) (use i len d near val in auto)
      then show False using i d val inj by auto
    qed
    then show "rule_bankaccountNL False (s[i := c]) = Invalid"
      using i zero assms digits [of c s i] rule_bank_digits [of "s[i := c]"] by (simp add: upd)
  next
    fix i assume i: "Suc i < 9 \<and> s ! i \<noteq> s ! Suc i"
    let ?vs = "(bank_values s)[i := bank_values s ! Suc i, Suc i := bank_values s ! i]"
    have "weighted bank_weight ?vs mod 11 \<noteq> weighted bank_weight (bank_values s) mod 11"
    proof
      assume "weighted bank_weight ?vs mod 11 = weighted bank_weight (bank_values s) mod 11"
      then have "bank_values s ! i = bank_values s ! Suc i"
        by (intro bank.notices_swap) (use i len d near val in auto)
      then show False using i d val inj by auto
    qed
    then show "rule_bankaccountNL False (s[i := s ! Suc i, Suc i := s ! i]) = Invalid"
      using i zero assms d val digits rule_bank_digits [of "s[i := s ! Suc i, Suc i := s ! i]"] by (simp add: upd)
  qed
qed

text \<open>The check of credit card numbers notices every wrong digit of a valid number.\<close>

theorem luhn_notices_digit:
  assumes "rule_creditcard False s = Valid" "list_all is_digit10 s" "i < length s" "is_digit10 c" "c \<noteq> s ! i"
  shows "rule_creditcard False (s[i := c]) = Invalid"
proof -
  have keep: "remove_chars (\<lambda>c. \<not> is_digit10 c) t = t" if "list_all is_digit10 t" for t
    using that by (auto simp: remove_chars_def list_all_iff intro!: filter_True)
  have "list_all is_digit10 (s[i := c])"
    using assms(2,4) set_update_subset_insert [of s i c] by (auto simp: list_all_iff)
  then have "rule_creditcard False (s[i := c]) = Valid \<Longrightarrow> luhn_sum (s[i := c]) mod 10 = 0"
    and v: "rule_creditcard False (s[i := c]) \<in> {Valid, Invalid}"
    by (auto simp: rule_creditcard_def keep Let_def of_check_def split: if_splits)
  moreover have "luhn_sum s mod 10 = 0"
    using assms(1,2) by (auto simp: rule_creditcard_def keep Let_def split: if_splits)
  moreover have "is_digit10 (s ! i)" using assms(2,3) by (simp add: list_all_length)
  ultimately show ?thesis using luhn_notices [of i s c] assms(3-5) by auto
qed

lemma iban_is_mod_97_witness: "rule_iban False (js ''GB82 WEST 1234 5698 7654 32'') = Valid"
proof -
  let ?iban = "js ''GB82WEST12345698765432''"
  have t: "to_upper (remove_chars (\<lambda>c. c = 32) (js ''GB82 WEST 1234 5698 7654 32'')) = ?iban"
    by (simp add: to_upper_def upper_char_def remove_chars_def)
  have f: "iban_format ?iban" by code_simp
  have "iban_chars ?iban" by code_simp
  moreover have d: "concat (map iban_index (drop 4 ?iban @ take 4 ?iban)) = js ''3214282912345698765432161182''" by code_simp
  have "int (digits_value 10 (concat (map iban_index (drop 4 ?iban @ take 4 ?iban)))) mod 97 = 1"
    unfolding d by (simp add: digits_value_def digit_value_def)
  ultimately show ?thesis
    using iban_is_mod_97 [of "js ''GB82 WEST 1234 5698 7654 32''" ?iban] unfolding t using f by blast
qed

lemma bank_notices_errors_witness: "rule_bankaccountNL False (js ''123456788'') = Invalid"
proof -
  have "rule_bankaccountNL False (js ''123456789'') = Valid" by code_simp
  from bank_notices_errors [OF this, THEN conjunct1, rule_format, of 8 56] show ?thesis
    by (simp add: is_digit10_def)
qed

lemma luhn_notices_digit_witness: "rule_creditcard False (js ''4111111111111112'') = Invalid"
proof -
  have "rule_creditcard False (js ''4111111111111111'') = Valid" by code_simp
  from luhn_notices_digit [OF this, of 15 50] show ?thesis by (simp add: is_digit10_def)
qed

text \<open>\<open>dateITA\<close> accepts a day, month and year written \<open>d/m/yyyy\<close> exactly when they are a date of
  the calendar, from the year 100 on: \<open>Date.UTC\<close> moves every other one.\<close>

theorem date_ita_calendar:
  assumes "list_all is_digit10 (g @ m @ y)" "length g \<in> {1, 2}" "length m \<in> {1, 2}" "length y = 4"
  shows "rule_dateITA False (g @ 47 # m @ 47 # y) = Valid \<longleftrightarrow>
    100 \<le> digits_value 10 y \<and> 1 \<le> digits_value 10 m \<and> digits_value 10 m \<le> 12 \<and> 1 \<le> digits_value 10 g \<and>
    int (digits_value 10 g) \<le> month_days (int (digits_value 10 y)) (int (digits_value 10 m) - 1)"
proof -
  let ?d = "between 1 2 digit" and ?s = "chr (CHR ''/'')"
  have c: "list_all is_digit10 g" "list_all is_digit10 m" "list_all is_digit10 y" using assms(1) by simp_all
  have no: "47 \<notin> set g" "47 \<notin> set m" "47 \<notin> set y" using c by (auto simp: list_all_iff is_digit10_def)
  have "g \<in> lang ?d" "m \<in> lang ?d" "y \<in> lang (rep 4 digit)"
    using c assms(2-4) by (auto simp: lang_between_Cls lang_rep_Cls list_all_iff is_digit10_def)
  moreover have "[47] \<in> lang ?s" by (simp add: chr_def in_class_def)
  ultimately have "g @ [47] @ m @ [47] @ y \<in> lang (seqs [?d, ?s, ?d, ?s, rep 4 digit])"
    unfolding seqs.simps in_Seq by blast
  then have "re_test (whole (seqs [?d, ?s, ?d, ?s, rep 4 digit])) (g @ 47 # m @ 47 # y)"
    by (simp add: whole_iff)
  moreover have "split_on 47 (g @ 47 # m @ 47 # y) = [g, m, y]"
    using no by (simp add: split_on_append split_on_no_sep)
  moreover have "digits_value 10 m \<le> 99"
    using c(2) assms(3) by (auto simp: digits_value_def digit_value_def is_digit10_def length_Suc_conv numeral_2_eq_2)
  ultimately show ?thesis
    using date_utc_same [of "int (digits_value 10 y)" "int (digits_value 10 m) - 1" "int (digits_value 10 g)"]
    by (auto simp: rule_dateITA_def unless_optional_def Let_def)
qed

lemma date_ita_calendar_witness:
  "rule_dateITA False (js ''29/02/2000'') = Valid \<and> rule_dateITA False (js ''29/2/1900'') \<noteq> Valid"
  using date_ita_calendar [of "js ''29''" "js ''02''" "js ''2000''"] date_ita_calendar [of "js ''29''" "js ''2''" "js ''1900''"]
  by (simp add: is_digit10_def digits_value_def digit_value_def month_days_def leap_def)

text \<open>Two rules refuse what they are made for: \<open>vinUS\<close> accepts only numbers with the check character
  \<open>X\<close>, as it compares a character with a number otherwise, and \<open>ziprange\<close> accepts no text without a
  brace.\<close>

theorem rules_refuse:
  "(rule_vinUS v = Valid \<longrightarrow> length v = 17 \<and> v ! 8 = 88) \<and>
   (list_all (\<lambda>c. c \<noteq> 123) s \<longrightarrow> rule_ziprange False s = Invalid)"
proof (intro conjI impI)
  assume v: "rule_vinUS v = Valid"
  then show l: "length v = 17" by (auto simp: rule_vinUS_def split: if_splits)
  then have "snd (fold (vin_step v) [0..<17] (Vnum 0, None)) = Some [88]"
    using v by (auto simp: rule_vinUS_def split: prod.splits)
  then show "v ! 8 = 88" by (rule vin_check_char)
next
  assume s: "list_all (\<lambda>c. c \<noteq> 123) s"
  have "s \<notin> lang (seqs [lit ''90'', cls [(50, 53)], digit, lit ''{2}'', chr (CHR ''-''), rep 4 digit])"
  proof
    assume "s \<in> lang (seqs [lit ''90'', cls [(50, 53)], digit, lit ''{2}'', chr (CHR ''-''), rep 4 digit])"
    then have "123 \<in> set s" by (auto simp: in_Seq lang_lit simp del: lit.simps)
    then show False using s by (auto simp: list_all_iff)
  qed
  then show "rule_ziprange False s = Invalid"
    by (simp add: rule_ziprange_def unless_optional_def whole_iff)
qed

lemma rules_refuse_witness:
  "rule_vinUS (js ''11111111111111111'') \<noteq> Valid \<and> rule_ziprange False (js ''90210-1234'') = Invalid"
  using rules_refuse [of "js ''11111111111111111''" "js ''90210-1234''"] by auto

end
