(* ===== verification/Page_Form.thy ===== *)
theory Page_Form
  imports Ecma_Plus
begin

text \<open>
  \<open>assets/plugins/jquery.form.js\<close>: reading a form into an object, writing an object into a form,
  clearing a form, and the filters that let only some characters be typed. The document is the list of
  its elements in order, \<open>form\<close> says which of them stand inside the element the method is called on,
  and the events that the methods raise on elements are logged. Handlers of the page are not modelled:
  a click has only the effect the browser gives it.
\<close>

section \<open>Elements and values\<close>

text \<open>The values the pages pass: those of JSON. An object is the list of its properties in their order.\<close>

datatype jval =
    J_null
  | J_bool bool
  | J_num jsf
  | J_str jsstr
  | J_arr "jval list"
  | J_obj "(jsstr \<times> jval) list"

record dom_el =
  el_tag :: string
  el_type :: string
  el_id :: jsstr
  el_name :: jsstr
  el_value :: jsstr
  el_checked :: bool
  el_src :: jsstr
  el_html :: jsstr
  el_multiple :: bool
  el_options :: "(jsstr \<times> bool) list"

type_synonym document = "dom_el list"

datatype page_event = Clicked nat | Changed nat | Asked_value nat

fun js_truthy :: "jval \<Rightarrow> bool" where
  "js_truthy J_null = False"
| "js_truthy (J_bool b) = b"
| "js_truthy (J_num x) = (x \<noteq> FNaN \<and> x \<noteq> Fin 0)"
| "js_truthy (J_str s) = (s \<noteq> [])"
| "js_truthy (J_arr xs) = True"
| "js_truthy (J_obj ps) = True"

text \<open>\<open>String(v)\<close>; the elements of an array are joined by commas.\<close>

fun to_text :: "jval \<Rightarrow> jsstr" where
  "to_text J_null = js ''null''"
| "to_text (J_bool b) = (if b then js ''true'' else js ''false'')"
| "to_text (J_num x) = string_of_float x"
| "to_text (J_str s) = s"
| "to_text (J_arr xs) = join_with [44] (map (\<lambda>x. if x = J_null then [] else to_text x) xs)"
| "to_text (J_obj ps) = js ''[object Object]''"

text \<open>\<open>$.makeArray\<close> of the values that are no objects.\<close>

fun make_array :: "jval \<Rightarrow> jval list" where
  "make_array J_null = []"
| "make_array (J_arr xs) = xs"
| "make_array v = [v]"

text \<open>An object of properties: writing keeps the place of one that is there.\<close>

fun set_prop :: "jsstr \<Rightarrow> jval \<Rightarrow> (jsstr \<times> jval) list \<Rightarrow> (jsstr \<times> jval) list" where
  "set_prop k v [] = [(k, v)]"
| "set_prop k v (p # ps) = (if fst p = k then (k, v) # ps else p # set_prop k v ps)"

text \<open>
  \<open>$(el).val()\<close>: of a select list the values of the selected options, as they are; of any other element
  \<open>ret.replace(rreturn, "")\<close>, the value without carriage returns.
\<close>

definition select_val :: "dom_el \<Rightarrow> jval" where
  "select_val e =
     (let sel = map fst (filter snd (el_options e))
      in if el_multiple e then if sel = [] then J_null else J_arr (map J_str sel)
         else (case sel of [] \<Rightarrow> J_null | s # _ \<Rightarrow> J_str s))"

definition val_text :: "dom_el \<Rightarrow> jsstr" where
  "val_text e = filter (\<lambda>c. c \<noteq> 13) (el_value e)"

definition jq_val :: "dom_el \<Rightarrow> jval" where
  "jq_val e = (if el_tag e = ''SELECT'' then select_val e else J_str (val_text e))"

text \<open>
  What an element holds after \<open>el.value = s\<close>, by the standard: a field of one line drops the line breaks,
  one for an address also the white space at the ends; a text area turns each line break into a line feed;
  a hidden field keeps the text. Types with a format of their own (number, date, colour) are left out;
  the pages have none.
\<close>

fun line_feeds :: "bool \<Rightarrow> jsstr \<Rightarrow> jsstr" where
  "line_feeds b [] = []"
| "line_feeds b (c # s) =
     (if c = 13 then 10 # line_feeds True s
      else if c = 10 \<and> b then line_feeds False s else c # line_feeds False s)"

definition drop_breaks :: "jsstr \<Rightarrow> jsstr" where
  "drop_breaks s = filter (\<lambda>c. c \<noteq> 10 \<and> c \<noteq> 13) s"

definition trim_blanks :: "jsstr \<Rightarrow> jsstr" where
  "trim_blanks s = (let blank = (\<lambda>c. c \<in> {9, 10, 12, 13, 32 :: nat}) in rev (dropWhile blank (rev (dropWhile blank s))))"

definition one_line :: "dom_el \<Rightarrow> bool" where
  "one_line e \<longleftrightarrow> el_tag e = ''INPUT'' \<and> el_type e \<in> {''text'', ''password'', ''search'', ''tel''}"

definition assigned :: "dom_el \<Rightarrow> jsstr \<Rightarrow> jsstr" where
  "assigned e s =
     (if one_line e then drop_breaks s
      else if el_tag e = ''INPUT'' \<and> el_type e \<in> {''url'', ''email''} then trim_blanks (drop_breaks s)
      else if el_tag e = ''TEXTAREA'' then line_feeds False s
      else s)"

section \<open>Reading a form\<close>

text \<open>
  \<open>data[name]\<close> also finds what every object inherits; \<open>inherited_names\<close> are those names, and \<open>setObject\<close> is the
  code for all other ones.
\<close>

definition inherited_names :: "jsstr set" where
  "inherited_names = js ` {''constructor'', ''toString'', ''toLocaleString'', ''valueOf'', ''hasOwnProperty'', ''isPrototypeOf'',
     ''propertyIsEnumerable'', ''__proto__'', ''__defineGetter__'', ''__defineSetter__'', ''__lookupGetter__'', ''__lookupSetter__''}"

definition setObject :: "jsstr \<Rightarrow> jval \<Rightarrow> (jsstr \<times> jval) list \<Rightarrow> (jsstr \<times> jval) list" where
  "setObject name value data =
     (case map_of data name of
        Some old \<Rightarrow>
          if js_truthy old then set_prop name (J_arr (make_array old @ make_array value)) data
          else set_prop name value data
      | None \<Rightarrow> set_prop name value data)"

lemma set_prop_new: "k \<notin> fst ` set ps \<Longrightarrow> set_prop k v ps = ps @ [(k, v)]"
  by (induction ps) auto

lemma setObject_new: "k \<notin> fst ` set ps \<Longrightarrow> setObject k v ps = ps @ [(k, v)]"
  by (simp add: setObject_def map_of_eq_None_iff [THEN iffD2] set_prop_new)

definition field_tags :: "string list" where
  "field_tags = [''TEXTAREA'', ''INPUT'', ''SELECT'']"

definition read_element :: "jsstr \<Rightarrow> dom_el \<Rightarrow> (jsstr \<times> jval) list \<Rightarrow> (jsstr \<times> jval) list" where
  "read_element prefix e data =
     (let name = el_id e
      in if name = [] then data
         else
           let name = drop (length prefix) name
           in if el_tag e \<in> set field_tags then
                if el_type e = ''radio'' \<or> el_type e = ''checkbox'' then
                  let name = (if el_name e \<noteq> [] then drop (length prefix) (el_name e) else name)
                  in if el_checked e then
                       if el_type e = ''checkbox'' \<and> el_name e \<noteq> [] then setObject name (J_arr [jq_val e]) data
                       else setObject name (jq_val e) data
                     else setObject name J_null data
                else if el_type e = ''image'' then setObject name (J_str (el_src e)) data
                else setObject name (jq_val e) data
              else if el_tag e = ''IMG'' then setObject name (J_str (el_src e)) data
              else setObject name (J_str (el_html e)) data)"

text \<open>The tags are those of the elements searched for; \<open>None\<close> stands for the default ones.\<close>

definition getJSON :: "document \<Rightarrow> (nat \<Rightarrow> bool) \<Rightarrow> jsstr \<Rightarrow> string list option \<Rightarrow> (jsstr \<times> jval) list" where
  "getJSON doc form prefix tags =
     (let tags = (case tags of None \<Rightarrow> field_tags | Some ts \<Rightarrow> ts)
      in fold (\<lambda>i data. if form i \<and> el_tag (doc ! i) \<in> set tags then read_element prefix (doc ! i) data else data)
           [0..<length doc] [])"

section \<open>Effects\<close>

type_synonym page = "document \<times> page_event list"

definition put :: "nat \<Rightarrow> (dom_el \<Rightarrow> dom_el) \<Rightarrow> page \<Rightarrow> page" where
  "put i f = (\<lambda>(doc, log). (doc[i := f (doc ! i)], log))"

text \<open>
  A click on a box toggles it; one on a radio button selects it and deselects the others of its name.
\<close>

definition click :: "nat \<Rightarrow> page \<Rightarrow> page" where
  "click i = (\<lambda>(doc, log).
     let e = doc ! i;
         doc = (if el_type e = ''checkbox'' then doc[i := e\<lparr>el_checked := \<not> el_checked e\<rparr>]
                else if el_type e = ''radio'' then
                  (map (\<lambda>d. if el_type d = ''radio'' \<and> el_name e \<noteq> [] \<and> el_name d = el_name e then d\<lparr>el_checked := False\<rparr> else d)
                     doc)[i := e\<lparr>el_checked := True\<rparr>]
                else doc)
     in (doc, log @ [Clicked i]))"

text \<open>Assigning \<open>true\<close> to \<open>checked\<close> of a radio button deselects the others too.\<close>

definition set_checked :: "nat \<Rightarrow> bool \<Rightarrow> page \<Rightarrow> page" where
  "set_checked i b = (\<lambda>(doc, log).
     let e = doc ! i
     in ((if b \<and> el_type e = ''radio'' then
            map (\<lambda>d. if el_type d = ''radio'' \<and> el_name e \<noteq> [] \<and> el_name d = el_name e then d\<lparr>el_checked := False\<rparr> else d) doc
          else doc)[i := e\<lparr>el_checked := b\<rparr>], log))"

definition change :: "nat list \<Rightarrow> page \<Rightarrow> page" where
  "change is = (\<lambda>(doc, log). (doc, log @ map Changed is))"

text \<open>
  \<open>$(el).val(v)\<close>: numbers and the elements of arrays are turned into texts; a select list selects the
  options whose value is among them.
\<close>

definition val_texts :: "jval \<Rightarrow> jsstr list" where
  "val_texts v =
     (case v of
        J_null \<Rightarrow> [[]]
      | J_arr xs \<Rightarrow> map (\<lambda>x. if x = J_null then [] else to_text x) xs
      | J_bool b \<Rightarrow> []
      | _ \<Rightarrow> [to_text v])"

definition select_first :: "(jsstr \<times> bool) list \<Rightarrow> (jsstr \<Rightarrow> bool) \<Rightarrow> (jsstr \<times> bool) list" where
  "select_first os p =
     (let n = length (takeWhile (\<lambda>(s, _). \<not> p s) os) in map (\<lambda>(i, (s, _)). (s, i = n)) (enumerate 0 os))"

text \<open>
  The options are set from the last to the first, and in a list for one selection each selected option
  deselects the others: the first one with the value stays.
\<close>

definition jq_set_val :: "jval \<Rightarrow> dom_el \<Rightarrow> dom_el" where
  "jq_set_val v e =
     (if el_tag e = ''SELECT'' then
        let p = (\<lambda>s. s \<in> set (val_texts v))
        in if el_multiple e then e\<lparr>el_options := map (\<lambda>(s, _). (s, p s)) (el_options e)\<rparr>
           else e\<lparr>el_options := select_first (el_options e) p\<rparr>
      else e\<lparr>el_value := assigned e (case v of J_null \<Rightarrow> [] | _ \<Rightarrow> to_text v)\<rparr>)"

section \<open>Writing a form\<close>

text \<open>
  The names are put into selectors, with a backslash before the characters \<open>. [ ] :\<close> only. \<open>name_ok\<close>
  are the names that the selectors find; for another one the selector means something else or is an
  error, and the functions give \<open>None\<close>.
\<close>

definition word_unit :: "nat \<Rightarrow> bool" where
  "word_unit c \<longleftrightarrow> is_digit10 c \<or> 65 \<le> c \<and> c \<le> 90 \<or> 97 \<le> c \<and> c \<le> 122 \<or> c = 95 \<or> c = 45"

definition escaped_units :: "nat set" where
  "escaped_units = {46, 91, 93, 58}"

definition name_ok :: "jsstr \<Rightarrow> bool" where
  "name_ok s \<longleftrightarrow> s \<noteq> [] \<and> list_all (\<lambda>c. word_unit c \<or> c > 160 \<or> c \<in> escaped_units) s"

definition find_all :: "document \<Rightarrow> (nat \<Rightarrow> bool) \<Rightarrow> (dom_el \<Rightarrow> bool) \<Rightarrow> nat list" where
  "find_all doc form p = filter (\<lambda>i. form i \<and> p (doc ! i)) [0..<length doc]"

text \<open>
  \<open>find("#" + name)\<close>: a plain name is looked up in the document first, and gives one element when that
  stands in the form; otherwise all elements of the form are searched.
\<close>

definition find_id :: "document \<Rightarrow> (nat \<Rightarrow> bool) \<Rightarrow> jsstr \<Rightarrow> nat list" where
  "find_id doc form name =
     (case find_all doc (\<lambda>_. True) (\<lambda>e. el_id e = name) of
        i # _ \<Rightarrow> if list_all word_unit name \<and> form i then [i] else find_all doc form (\<lambda>e. el_id e = name)
      | [] \<Rightarrow> [])"

definition html_text :: "jval \<Rightarrow> jsstr" where
  "html_text v =
     (case v of
        J_arr xs \<Rightarrow> concat (map (\<lambda>x. if js_truthy x \<or> x = J_num (Fin 0) then to_text x else []) xs)
      | _ \<Rightarrow> to_text v)"

definition write_one :: "nat \<Rightarrow> jval \<Rightarrow> bool \<Rightarrow> page \<Rightarrow> page" where
  "write_one i value untrigger page =
     (let e = fst page ! i; tagName = el_tag e
      in if tagName = ''INPUT'' \<or> tagName = ''SELECT'' \<or> tagName = ''TEXTAREA'' then
           if el_type e = ''checkbox'' \<or> el_type e = ''radio'' then
             if untrigger then set_checked i True page else click i (set_checked i False page)
           else if el_type e = ''image'' then put i (\<lambda>e. e\<lparr>el_src := to_text value\<rparr>) page
           else put i (jq_set_val value) page
         else if tagName = ''IMG'' then put i (\<lambda>e. e\<lparr>el_src := to_text value\<rparr>) page
         else put i (\<lambda>e. e\<lparr>el_html := html_text value\<rparr>) page)"

definition write_many :: "nat list \<Rightarrow> jval \<Rightarrow> bool \<Rightarrow> page \<Rightarrow> page" where
  "write_many els value untrigger page =
     fold (\<lambda>i page.
       if J_str (el_value (fst page ! i)) \<in> set (make_array value) then
         if untrigger then set_checked i True page else click i (set_checked i False page)
       else
         if untrigger then set_checked i False page else click i (set_checked i True page)) els page"

definition set_value :: "(nat \<Rightarrow> bool) \<Rightarrow> jsstr \<Rightarrow> jval \<Rightarrow> bool \<Rightarrow> page \<Rightarrow> page option" where
  "set_value form name value untrigger page =
     (let value = (if value = J_num (Fin 0) \<or> js_truthy value then value else J_str []);
          doc = fst page
      in if \<not> name_ok name then None
         else
           let el = find_id doc form name;
               el = (if el = [] then find_all doc form (\<lambda>e. el_name e = name \<and> el_tag e = ''INPUT'' \<and> el_type e = ''checkbox'') else el)
           in if el = [] \<and> (\<exists>c \<in> set (to_text value). c \<in> {10, 12, 13, 39, 92}) then None
              else
                let el = (if el = [] then
                            find_all doc form (\<lambda>e. el_name e = name \<and> el_value e = to_text value \<and>
                              el_tag e = ''INPUT'' \<and> el_type e = ''radio'')
                          else el)
                in if el = [] then Some page
                   else if length el = 1 \<and> el_tag (doc ! hd el) = ''INPUT'' \<and> el_type (doc ! hd el) = ''file'' \<and> to_text value \<noteq> []
                   then None
                   else
                     let page = (if length el = 1 then write_one (hd el) value untrigger page
                                 else write_many el value untrigger page)
                     in Some (if \<not> untrigger then change el page else page))"

text \<open>
  A field for files takes no text but the empty one: the assignment throws.
  The properties of the object in their order. A nested object is written by a call that passes
  \<open>untrigger\<close> in the place of the prefix: \<open>true\<close> becomes the prefix \<open>"true"\<close>, and the events are raised.
\<close>

function setJSON :: "(nat \<Rightarrow> bool) \<Rightarrow> (jsstr \<times> jval) list \<Rightarrow> jsstr \<Rightarrow> bool \<Rightarrow> page \<Rightarrow> page option" where
  "setJSON form [] prefix untrigger page = Some page"
| "setJSON form ((name, value) # ps) prefix untrigger page =
     (case (case value of
              J_null \<Rightarrow> Some page
            | J_obj qs \<Rightarrow> setJSON form qs (if untrigger then js ''true'' else []) False page
            | _ \<Rightarrow> set_value form (prefix @ name) value untrigger page) of
        None \<Rightarrow> None
      | Some page \<Rightarrow> setJSON form ps prefix untrigger page)"
  by pat_completeness auto
termination
  by (relation "measure (\<lambda>(form, ps, _). size_list (size_prod (\<lambda>_. 0) size) ps)") auto

section \<open>Clearing a form\<close>

definition clear_one :: "bool \<Rightarrow> nat \<Rightarrow> page \<Rightarrow> page option" where
  "clear_one untrigger i page =
     (let e = fst page ! i;
          page' =
            (if el_tag e = ''INPUT'' then
               if el_type e = ''checkbox'' then
                 Some (if untrigger then set_checked i False page else click i (set_checked i True page))
               else if el_type e = ''radio'' then
                 if \<not> name_ok (el_name e) then None
                 else if find (\<lambda>j. el_tag (fst page ! j) = ''INPUT'' \<and> el_name (fst page ! j) = el_name e)
                           [0..<length (fst page)] = Some i
                 then Some (if untrigger then set_checked i True page else click i page)
                 else Some page
               else if el_type e = ''image'' then Some (put i (\<lambda>e. e\<lparr>el_src := []\<rparr>) page)
               else Some (put i (jq_set_val (J_str [])) page)
             else if el_tag e = ''TEXTAREA'' then Some (put i (jq_set_val (J_str [])) page)
             else if el_tag e = ''SELECT'' then
               Some (put i (\<lambda>e. e\<lparr>el_options := select_first (el_options e)
                  (\<lambda>s. s = (if el_multiple e then js ''null'' else []))\<rparr>) page)
             else if el_tag e = ''IMG'' then Some (put i (\<lambda>e. e\<lparr>el_src := []\<rparr>) page)
             else Some (put i (\<lambda>e. e\<lparr>el_html := []\<rparr>) page))
      in map_option (\<lambda>page. if \<not> untrigger then change [i] page else page) page')"

definition clear_form :: "(nat \<Rightarrow> bool) \<Rightarrow> string list option \<Rightarrow> bool \<Rightarrow> page \<Rightarrow> page option" where
  "clear_form form tags untrigger page =
     (let tags = (case tags of None \<Rightarrow> field_tags | Some ts \<Rightarrow> ts)
      in fold (\<lambda>i page. Option.bind page (clear_one untrigger i))
           (find_all (fst page) form (\<lambda>e. el_tag e \<in> set tags)) (Some page))"

section \<open>Filters for keys\<close>

text \<open>
  What a handler of \<open>keypress\<close> returns: \<open>None\<close> when it throws, and then, as for \<open>true\<close>, the character
  is typed. \<open>charCode\<close> 0 is a key without a character.
\<close>

type_synonym key_result = "bool option"

definition typed_by :: "key_result \<Rightarrow> bool" where
  "typed_by r \<longleftrightarrow> r \<noteq> Some False"

definition floatOnly_paste :: "jsstr \<Rightarrow> bool" where
  "floatOnly_paste text \<longleftrightarrow> list_all is_digit10 text"

definition floatOnly_keypress :: "bool \<Rightarrow> jsstr \<Rightarrow> nat \<Rightarrow> nat \<Rightarrow> key_result" where
  "floatOnly_keypress sign value charCode k =
     Some (if sign then charCode = 0 \<or> k \<ge> 48 \<and> k \<le> 57 \<or> k = 46 \<and> value \<noteq> [] \<and> 46 \<notin> set value \<or> k = 45
           else charCode = 0 \<or> k \<ge> 48 \<and> k \<le> 57 \<or> k = 46 \<and> value \<noteq> [] \<and> 46 \<notin> set value)"

definition sign_keyup :: "jsstr \<Rightarrow> nat \<Rightarrow> jsstr" where
  "sign_keyup value k =
     (if k = 189 then (if value \<noteq> [] \<and> hd value = 45 then [45] else []) @ filter (\<lambda>c. c \<noteq> 45) value else value)"

definition integerOnly_paste :: "jsstr \<Rightarrow> bool" where
  "integerOnly_paste text \<longleftrightarrow> \<not> list_all is_digit10 text"

text \<open>With a sign the handler has no parameter and reads the undeclared \<open>e\<close>.\<close>

definition integerOnly_keypress :: "bool \<Rightarrow> nat \<Rightarrow> nat \<Rightarrow> key_result" where
  "integerOnly_keypress sign charCode k =
     (if sign then None else Some (charCode = 0 \<or> k \<ge> 48 \<and> k \<le> 57))"

definition is_letter :: "nat \<Rightarrow> bool" where
  "is_letter c \<longleftrightarrow> 65 \<le> c \<and> c \<le> 90 \<or> 97 \<le> c \<and> c \<le> 122"

definition letterOnly_paste :: "jsstr \<Rightarrow> bool" where
  "letterOnly_paste text \<longleftrightarrow> \<not> list_all is_letter text"

definition letterOnly_keypress :: "nat \<Rightarrow> nat \<Rightarrow> key_result" where
  "letterOnly_keypress charCode k = Some (charCode = 0 \<or> k \<ge> 65 \<and> k \<le> 90 \<or> k \<ge> 97 \<and> k \<le> 122)"

definition wordOnly_paste :: "jsstr \<Rightarrow> bool" where
  "wordOnly_paste text \<longleftrightarrow> \<not> list_all (\<lambda>c. is_letter c \<or> is_digit10 c) text"

definition wordOnly_keypress :: "nat \<Rightarrow> nat \<Rightarrow> key_result" where
  "wordOnly_keypress charCode k =
     Some (charCode = 0 \<or> k \<ge> 65 \<and> k \<le> 90 \<or> k \<ge> 97 \<and> k \<le> 122 \<or> k \<ge> 48 \<and> k \<le> 57)"

text \<open>\<open>maxlen\<close>: the handler of \<open>keypress\<close> reads the undeclared \<open>e\<close>; the one of \<open>keyup\<close> cuts the markup.
  An infinite limit, like a negative one, cuts nothing.\<close>

definition max_attr :: "jsstr option \<Rightarrow> int" where
  "max_attr attr = (case attr of None \<Rightarrow> 0 | Some s \<Rightarrow> (case parseInt (A_str s) 0 of A_num (Fin x) \<Rightarrow> \<lfloor>x\<rfloor> | A_num FNaN \<Rightarrow> 0 | _ \<Rightarrow> - 1))"

definition maxlen_keypress :: key_result where
  "maxlen_keypress = None"

definition maxlen_keyup :: "jsstr option \<Rightarrow> dom_el \<Rightarrow> dom_el" where
  "maxlen_keyup attr e =
     (let max = max_attr attr
      in if max > -1 \<and> max - int (length (val_text e)) < 0
         then e\<lparr>el_html := take (nat max) (val_text e)\<rparr> else e)"

end
