(* ===== verification/Page_Form_Contract.thy ===== *)
theory Page_Form_Contract
  imports Page_Form
begin

text \<open>
  What the pages may rely on when they read and write their forms, and where the methods of
  \<open>jquery.form.js\<close> surprise: the properties of \<open>Page_Form\<close>.
\<close>

section \<open>Writing and reading text fields\<close>

definition text_field :: "dom_el \<Rightarrow> bool" where
  "text_field e \<longleftrightarrow> name_ok (el_id e) \<and> el_id e \<notin> inherited_names
     \<and> (one_line e \<or> el_tag e = ''INPUT'' \<and> el_type e = ''hidden'' \<or> el_tag e = ''TEXTAREA'' \<and> el_type e = ''textarea'')"

lemma text_fieldD:
  "text_field e \<Longrightarrow> el_tag e \<in> {''INPUT'', ''TEXTAREA''} \<and> el_type e \<notin> {''radio'', ''checkbox'', ''image'', ''file''} \<and> name_ok (el_id e)"
  by (auto simp: text_field_def one_line_def)

lemma text_field_value [simp]: "text_field (e\<lparr>el_value := v\<rparr>) = text_field e" "assigned (e\<lparr>el_value := v\<rparr>) s = assigned e s"
  by (auto simp: text_field_def one_line_def assigned_def)

definition text_form :: "document \<Rightarrow> bool" where
  "text_form doc \<longleftrightarrow> list_all text_field doc \<and> distinct (map el_id doc)"

lemma filter_nth_eq:
  assumes "distinct xs" "i < length xs"
  shows "filter (\<lambda>j. xs ! j = xs ! i) [0..<length xs] = [i]"
proof -
  have "filter (\<lambda>j. xs ! j = xs ! i) [0..<length xs] = filter (\<lambda>j. j = i) [0..<length xs]"
    using assms by (intro filter_cong) (auto simp: nth_eq_iff_index_eq)
  also have "filter (\<lambda>j. j = i) [0..<n] = (if i < n then [i] else [])" for n
    by (induction n) auto
  then have "filter (\<lambda>j. j = i) [0..<length xs] = [i]" using assms(2) by simp
  finally show ?thesis .
qed

lemma find_text:
  assumes "text_form doc" "i < length doc"
  shows "find_id doc (\<lambda>_. True) (el_id (doc ! i)) = [i]"
proof -
  have "filter (\<lambda>j. el_id (doc ! j) = el_id (doc ! i)) [0..<length doc] = filter (\<lambda>j. map el_id doc ! j = map el_id doc ! i) [0..<length doc]"
    using assms(2) by (intro filter_cong) auto
  also have "\<dots> = [i]" using filter_nth_eq [of "map el_id doc" i] assms by (simp add: text_form_def)
  finally show ?thesis by (simp add: find_id_def find_all_def)
qed

lemma set_text:
  assumes "text_form doc" "i < length doc"
  shows "set_value (\<lambda>_. True) (el_id (doc ! i)) (J_str v) u (doc, evs) =
    Some (doc[i := (doc ! i)\<lparr>el_value := assigned (doc ! i) v\<rparr>], evs @ (if u then [] else [Changed i]))"
proof -
  have f: "text_field (doc ! i)" using assms by (simp add: text_form_def list_all_length)
  note d = text_fieldD [OF f]
  have t: "(if js_truthy (J_str v) then J_str v else J_str []) = J_str v" by auto
  show ?thesis
    using d find_text [OF assms]
    by (auto simp: set_value_def Let_def t write_one_def put_def jq_set_val_def change_def)
qed

lemma text_form_update:
  assumes "text_form doc" "i < length doc"
  shows "text_form (doc[i := (doc ! i)\<lparr>el_value := v\<rparr>])"
proof -
  have "map el_id (doc[i := (doc ! i)\<lparr>el_value := v\<rparr>]) = map el_id doc"
    using assms(2) by (simp add: map_update) (metis length_map list_update_id nth_map)
  then show ?thesis using assms by (auto simp: text_form_def list_all_length nth_list_update)
qed

lemma set_texts:
  assumes "text_form doc" "k \<le> length doc"
  shows "\<exists>evs'. setJSON (\<lambda>_. True) (map (\<lambda>i. (el_id (doc ! i), J_str (v i))) [k..<length doc]) [] u (doc, evs) =
    Some (take k doc @ map (\<lambda>i. (doc ! i)\<lparr>el_value := assigned (doc ! i) (v i)\<rparr>) [k..<length doc], evs')"
  using assms
proof (induction "length doc - k" arbitrary: k doc evs)
  case 0
  then show ?case by simp
next
  case (Suc n)
  then have k: "k < length doc" by simp
  let ?doc = "doc[k := (doc ! k)\<lparr>el_value := assigned (doc ! k) (v k)\<rparr>]"
  have same: "map (\<lambda>i. (el_id (doc ! i), J_str (v i))) [Suc k..<length doc] =
      map (\<lambda>i. (el_id (?doc ! i), J_str (v i))) [Suc k..<length ?doc]"
    "map (\<lambda>i. (?doc ! i)\<lparr>el_value := assigned (?doc ! i) (v i)\<rparr>) [Suc k..<length ?doc] = map (\<lambda>i. (doc ! i)\<lparr>el_value := assigned (doc ! i) (v i)\<rparr>) [Suc k..<length doc]"
    by auto
  have len: "n = length ?doc - Suc k" "Suc k \<le> length ?doc" using Suc.hyps(2) k by simp_all
  obtain evs' where "setJSON (\<lambda>_. True) (map (\<lambda>i. (el_id (?doc ! i), J_str (v i))) [Suc k..<length ?doc]) [] u
      (?doc, evs @ (if u then [] else [Changed k])) =
      Some (take (Suc k) ?doc @ map (\<lambda>i. (?doc ! i)\<lparr>el_value := assigned (?doc ! i) (v i)\<rparr>) [Suc k..<length ?doc], evs')"
    using Suc.hyps(1) [OF len(1) text_form_update [OF Suc.prems(1) k] len(2)] by blast
  then show ?case
    using set_text [OF Suc.prems(1) k, of "v k" u evs] k unfolding same(2) same(1) [symmetric]
    by (simp add: upt_conv_Cons take_Suc_conv_app_nth)
qed

lemma fold_upt_nth: "fold (\<lambda>i. f (xs ! i)) [0..<length xs] s = fold f xs s"
proof -
  have "fold f (map ((!) xs) [0..<length xs]) s = fold (\<lambda>i. f (xs ! i)) [0..<length xs] s"
    by (simp add: fold_map o_def)
  then show ?thesis by (simp add: map_nth)
qed

lemma getJSON_all:
  "list_all (\<lambda>e. el_tag e \<in> set field_tags) doc \<Longrightarrow> getJSON doc (\<lambda>_. True) prefix None = fold (read_element prefix) doc []"
proof -
  assume t: "list_all (\<lambda>e. el_tag e \<in> set field_tags) doc"
  have "getJSON doc (\<lambda>_. True) prefix None = fold (\<lambda>i. read_element prefix (doc ! i)) [0..<length doc] []"
    unfolding getJSON_def Let_def using t by (intro fold_cong) (auto simp: list_all_length)
  then show ?thesis by (simp add: fold_upt_nth)
qed

lemma get_texts:
  assumes "text_form doc"
  shows "getJSON doc (\<lambda>_. True) [] None = map (\<lambda>e. (el_id e, J_str (val_text e))) doc"
proof -
  have "fold (read_element []) doc ps = ps @ map (\<lambda>e. (el_id e, J_str (val_text e))) doc"
    if "list_all text_field doc" "distinct (map el_id doc)" "fst ` set ps \<inter> el_id ` set doc = {}" for doc ps
    using that
  proof (induction doc arbitrary: ps)
    case (Cons e doc)
    then have d: "el_id e \<noteq> []" "el_id e \<notin> fst ` set ps" and f: "text_field e" by (auto dest!: text_fieldD simp: name_ok_def)
    have "read_element [] e ps = ps @ [(el_id e, J_str (val_text e))]"
      using d text_fieldD [OF f] by (auto simp: read_element_def field_tags_def jq_val_def setObject_new)
    then show ?case using Cons by (auto simp: image_iff)
  qed simp
  moreover have "list_all (\<lambda>e. el_tag e \<in> set field_tags) doc"
    using assms by (auto simp: text_form_def field_tags_def list_all_iff dest!: text_fieldD)
  ultimately show ?thesis using assms by (simp add: getJSON_all text_form_def)
qed

text \<open>A text that the field keeps: no carriage returns, and no line feed in a field of one line. What is read of another one.\<close>

definition fits :: "dom_el \<Rightarrow> jsstr \<Rightarrow> bool" where
  "fits e s \<longleftrightarrow> 13 \<notin> set s \<and> (one_line e \<longrightarrow> 10 \<notin> set s)"

definition read_text :: "dom_el \<Rightarrow> jsstr \<Rightarrow> jsstr" where
  "read_text e s = (if one_line e then drop_breaks s else if el_tag e = ''TEXTAREA'' then line_feeds False s else filter (\<lambda>c. c \<noteq> 13) s)"

lemma line_feeds_none: "13 \<notin> set (line_feeds b s)" "13 \<notin> set s \<Longrightarrow> line_feeds False s = s"
proof -
  show "13 \<notin> set (line_feeds b s)" by (induction b s rule: line_feeds.induct) auto
  show "13 \<notin> set s \<Longrightarrow> line_feeds False s = s" by (induction s) auto
qed

lemma read_text_fits: "fits e s \<Longrightarrow> read_text e s = s"
  using line_feeds_none(2) by (auto simp: fits_def read_text_def drop_breaks_def filter_id_conv)

lemma val_text_assigned: "text_field e \<Longrightarrow> val_text (e\<lparr>el_value := assigned e s\<rparr>) = read_text e s"
  using line_feeds_none(1) [of False s]
  by (auto simp: text_field_def one_line_def val_text_def assigned_def read_text_def drop_breaks_def filter_id_conv)

text \<open>C4. What \<open>setJSON\<close> writes into text fields with distinct plain ids, \<open>getJSON\<close> reads back, whatever
  the fields held before: the very texts when they have no carriage returns and those for fields of one line
  no line feeds, else the texts without the former, and line feeds for them in a text area.\<close>

theorem form_roundtrip:
  assumes "text_form doc"
  shows "\<exists>doc' evs'.
    setJSON (\<lambda>_. True) (map (\<lambda>i. (el_id (doc ! i), J_str (v i))) [0..<length doc]) [] u (doc, evs) = Some (doc', evs') \<and>
    getJSON doc' (\<lambda>_. True) [] None = map (\<lambda>i. (el_id (doc ! i), J_str (read_text (doc ! i) (v i)))) [0..<length doc] \<and>
    (list_all (\<lambda>i. fits (doc ! i) (v i)) [0..<length doc] \<longrightarrow>
      getJSON doc' (\<lambda>_. True) [] None = map (\<lambda>i. (el_id (doc ! i), J_str (v i))) [0..<length doc])"
proof -
  let ?doc = "map (\<lambda>i. (doc ! i)\<lparr>el_value := assigned (doc ! i) (v i)\<rparr>) [0..<length doc]"
  obtain evs' where s: "setJSON (\<lambda>_. True) (map (\<lambda>i. (el_id (doc ! i), J_str (v i))) [0..<length doc]) [] u (doc, evs) =
      Some (?doc, evs')"
    using set_texts [OF assms, of 0 v u evs] by auto
  have f: "text_field (doc ! i)" if "i < length doc" for i using assms that by (simp add: text_form_def list_all_length)
  have "map el_id ?doc = map el_id doc" by (simp add: map_equality_iff)
  then have "text_form ?doc" using assms f by (simp add: text_form_def list_all_length)
  then have g: "getJSON ?doc (\<lambda>_. True) [] None = map (\<lambda>i. (el_id (doc ! i), J_str (read_text (doc ! i) (v i)))) [0..<length doc]"
    using get_texts [of ?doc] f by (simp add: val_text_assigned)
  have "map (\<lambda>i. (el_id (doc ! i), J_str (read_text (doc ! i) (v i)))) [0..<length doc]
      = map (\<lambda>i. (el_id (doc ! i), J_str (v i))) [0..<length doc]"
    if "list_all (\<lambda>i. fits (doc ! i) (v i)) [0..<length doc]"
    using that read_text_fits by (auto simp: list_all_iff)
  then show ?thesis using s g by auto
qed

definition demo_input :: "string \<Rightarrow> string \<Rightarrow> jsstr \<Rightarrow> dom_el" where
  "demo_input tag type name = \<lparr>el_tag = tag, el_type = type, el_id = name, el_name = [], el_value = [], el_checked = False,
     el_src = [], el_html = [], el_multiple = False, el_options = []\<rparr>"

lemma form_roundtrip_witness:
  "\<exists>doc' evs'. setJSON (\<lambda>_. True) [(js ''user.name'', J_str (js ''Ann'')), (js ''note'', J_str (js ''a'' @ [13, 10] @ js ''b''))] [] True
      ([demo_input ''INPUT'' ''text'' (js ''user.name''), demo_input ''TEXTAREA'' ''textarea'' (js ''note'')], []) = Some (doc', evs') \<and>
    getJSON doc' (\<lambda>_. True) [] None = [(js ''user.name'', J_str (js ''Ann'')), (js ''note'', J_str (js ''a'' @ [10] @ js ''b''))]"
proof -
  define doc where "doc = [demo_input ''INPUT'' ''text'' (js ''user.name''), demo_input ''TEXTAREA'' ''textarea'' (js ''note'')]"
  define v where "v = (\<lambda>i :: nat. if i = 0 then js ''Ann'' else js ''a'' @ [13, 10] @ js ''b'')"
  have t: "text_form doc"
    by (simp add: doc_def demo_input_def text_form_def text_field_def one_line_def name_ok_def word_unit_def escaped_units_def inherited_names_def)
  have w: "map (\<lambda>i. (el_id (doc ! i), J_str (f i))) [0..<length doc] = [(js ''user.name'', J_str (f 0)), (js ''note'', J_str (f 1))]" for f
    by (simp add: doc_def demo_input_def)
  have r: "read_text (doc ! 0) (v 0) = js ''Ann''" "read_text (doc ! 1) (v 1) = js ''a'' @ [10] @ js ''b''"
    by (simp_all add: doc_def v_def demo_input_def read_text_def one_line_def drop_breaks_def js_def)
  show ?thesis
    using form_roundtrip [OF t, of v True "[]"] unfolding w r by (auto simp: v_def doc_def)
qed

section \<open>Groups of radio buttons\<close>

definition radio_group :: "jsstr \<Rightarrow> document \<Rightarrow> nat \<Rightarrow> bool" where
  "radio_group name doc k \<longleftrightarrow> name \<noteq> [] \<and> k < length doc \<and> val_text (doc ! k) \<noteq> [] \<and>
     (\<forall>i < length doc. el_tag (doc ! i) = ''INPUT'' \<and> el_type (doc ! i) = ''radio'' \<and> el_id (doc ! i) \<noteq> [] \<and>
        el_name (doc ! i) = name \<and> el_checked (doc ! i) = (i = k))"

lemma read_radio:
  assumes "radio_group name doc k" "i < length doc"
  shows "read_element [] (doc ! i) data = setObject name (if i = k then J_str (val_text (doc ! i)) else J_null) data"
  using assms by (auto simp: read_element_def field_tags_def jq_val_def radio_group_def)

text \<open>C40. The value that \<open>getJSON\<close> reads of a group of radio buttons depends on the place of the selected
  one: a text when it is the last one, an array of the text otherwise; the text is the value without carriage returns.\<close>

theorem radio_group_value:
  assumes "radio_group name doc k"
  shows "getJSON doc (\<lambda>_. True) [] None =
    [(name, if k = length doc - 1 then J_str (val_text (doc ! k)) else J_arr [J_str (val_text (doc ! k))])]"
proof -
  let ?v = "J_str (val_text (doc ! k))"
  have k: "k < length doc" "val_text (doc ! k) \<noteq> []" using assms by (simp_all add: radio_group_def)
  have "fold (\<lambda>i. read_element [] (doc ! i)) [0..<n] [] =
      (if n = 0 then [] else if n \<le> k then [(name, J_null)] else if n = Suc k then [(name, ?v)] else [(name, J_arr [?v])])"
    if "n \<le> length doc" for n
    using that
  proof (induction n)
    case (Suc n)
    then show ?case using k read_radio [OF assms, of n] by (cases "k = 0"; auto simp: setObject_def)
  qed simp
  from this [of "length doc"] have "fold (read_element []) doc [] =
      [(name, if k = length doc - 1 then ?v else J_arr [?v])]"
    using k by (auto simp: fold_upt_nth)
  moreover have "list_all (\<lambda>e. el_tag e \<in> set field_tags) doc"
    using assms by (auto simp: radio_group_def field_tags_def list_all_length)
  ultimately show ?thesis by (simp add: getJSON_all)
qed

definition demo_radio :: "string \<Rightarrow> bool \<Rightarrow> dom_el" where
  "demo_radio s b = \<lparr>el_tag = ''INPUT'', el_type = ''radio'', el_id = js s, el_name = js ''sex'', el_value = js s,
     el_checked = b, el_src = [], el_html = [], el_multiple = False, el_options = []\<rparr>"

lemma radio_group_value_witness:
  "getJSON [demo_radio ''m'' True, demo_radio ''f'' False] (\<lambda>_. True) [] None = [(js ''sex'', J_arr [J_str (js ''m'')])] \<and>
   getJSON [demo_radio ''m'' False, demo_radio ''f'' True] (\<lambda>_. True) [] None = [(js ''sex'', J_str (js ''f''))]"
proof
  have "radio_group (js ''sex'') [demo_radio ''m'' True, demo_radio ''f'' False] 0"
    by (auto simp: radio_group_def demo_radio_def val_text_def js_def less_Suc_eq nth_Cons')
  from radio_group_value [OF this]
  show "getJSON [demo_radio ''m'' True, demo_radio ''f'' False] (\<lambda>_. True) [] None = [(js ''sex'', J_arr [J_str (js ''m'')])]"
    by (simp add: demo_radio_def val_text_def js_def)
  have "radio_group (js ''sex'') [demo_radio ''m'' False, demo_radio ''f'' True] 1"
    by (auto simp: radio_group_def demo_radio_def val_text_def js_def less_Suc_eq nth_Cons')
  from radio_group_value [OF this]
  show "getJSON [demo_radio ''m'' False, demo_radio ''f'' True] (\<lambda>_. True) [] None = [(js ''sex'', J_str (js ''f''))]"
    by (simp add: demo_radio_def val_text_def js_def)
qed

section \<open>Boxes and nested objects\<close>

text \<open>Writing any value into a single box found by its id checks it, \<open>false\<close> as well as \<open>true\<close>;
  and the properties of a nested object that is written without events are looked up under \<open>"true"\<close> and
  their name, in the place of the prefix, and the events are raised.\<close>

theorem set_json_surprises:
  "(el_tag e = ''INPUT'' \<and> el_type e = ''checkbox'' \<and> name_ok (el_id e) \<and> (\<forall>qs. x \<noteq> J_obj qs) \<and> x \<noteq> J_null \<longrightarrow>
     (\<exists>evs'. setJSON (\<lambda>_. True) [(el_id e, x)] [] u ([e], evs) = Some ([e\<lparr>el_checked := True\<rparr>], evs'))) \<and>
   (text_form doc \<and> i < length doc \<and> el_id (doc ! i) = js ''true'' @ name \<longrightarrow>
     setJSON (\<lambda>_. True) [(k, J_obj [(name, J_str v)])] prefix True (doc, evs) =
       Some (doc[i := (doc ! i)\<lparr>el_value := assigned (doc ! i) v\<rparr>], evs @ [Changed i]))"
proof (intro conjI impI; elim conjE)
  assume e: "el_tag e = ''INPUT''" "el_type e = ''checkbox''" "name_ok (el_id e)" "\<forall>qs. x \<noteq> J_obj qs" "x \<noteq> J_null"
  have "find_id [e] (\<lambda>_. True) (el_id e) = [0]" by (simp add: find_id_def find_all_def)
  then have "\<exists>evs'. set_value (\<lambda>_. True) (el_id e) w u ([e], evs) = Some ([e\<lparr>el_checked := True\<rparr>], evs')" for w
    using e(1-3) by (auto simp: set_value_def Let_def write_one_def set_checked_def click_def change_def)
  then obtain evs' where s: "set_value (\<lambda>_. True) (el_id e) x u ([e], evs) = Some ([e\<lparr>el_checked := True\<rparr>], evs')"
    by blast
  have "setJSON (\<lambda>_. True) [(el_id e, x)] [] u ([e], evs) = Some ([e\<lparr>el_checked := True\<rparr>], evs')"
    using e(4,5) s by (cases x) simp_all
  then show "\<exists>evs'. setJSON (\<lambda>_. True) [(el_id e, x)] [] u ([e], evs) = Some ([e\<lparr>el_checked := True\<rparr>], evs')"
    by blast
next
  assume d: "text_form doc" "i < length doc" "el_id (doc ! i) = js ''true'' @ name"
  then show "setJSON (\<lambda>_. True) [(k, J_obj [(name, J_str v)])] prefix True (doc, evs) =
       Some (doc[i := (doc ! i)\<lparr>el_value := assigned (doc ! i) v\<rparr>], evs @ [Changed i])"
    using set_text [OF d(1,2), of v False evs] by simp
qed

definition demo_box :: dom_el where
  "demo_box = \<lparr>el_tag = ''INPUT'', el_type = ''checkbox'', el_id = js ''agree'', el_name = [], el_value = js ''on'',
     el_checked = False, el_src = [], el_html = [], el_multiple = False, el_options = []\<rparr>"

lemma set_json_surprises_witness:
  "\<exists>evs'. setJSON (\<lambda>_. True) [(js ''agree'', J_bool False)] [] False ([demo_box], []) = Some ([demo_box\<lparr>el_checked := True\<rparr>], evs')"
  using set_json_surprises [THEN conjunct1, rule_format, of demo_box "J_bool False" False "[]"]
  by (simp add: demo_box_def name_ok_def word_unit_def)

section \<open>Typing numbers\<close>

text \<open>What a field of \<open>floatOnly\<close> without sign can hold: characters typed or pasted anywhere, any part deleted.\<close>

inductive float_field :: "jsstr \<Rightarrow> bool" where
  float_start: "float_field []"
| float_press: "float_field (u @ w) \<Longrightarrow> k \<noteq> 0 \<Longrightarrow> typed_by (floatOnly_keypress False (u @ w) k k) \<Longrightarrow> float_field (u @ k # w)"
| float_paste: "float_field (u @ w) \<Longrightarrow> floatOnly_paste t \<Longrightarrow> float_field (u @ t @ w)"
| float_delete: "float_field (u @ t @ w) \<Longrightarrow> float_field (u @ w)"

inductive_cases float_field_E: "float_field t"

lemma typed_float:
  "typed_by (floatOnly_keypress False t k k) \<longleftrightarrow> k = 0 \<or> is_digit10 k \<or> k = 46 \<and> t \<noteq> [] \<and> 46 \<notin> set t"
  by (auto simp: typed_by_def floatOnly_keypress_def is_digit10_def)

text \<open>A field of \<open>floatOnly\<close> without sign holds digits and at most one point, and can hold every such
  text, the single point too.\<close>

theorem float_field_iff:
  "float_field t \<longleftrightarrow> list_all (\<lambda>c. is_digit10 c \<or> c = 46) t \<and> length (filter (\<lambda>c. c = 46) t) \<le> 1"
proof
  assume "float_field t"
  then show "list_all (\<lambda>c. is_digit10 c \<or> c = 46) t \<and> length (filter (\<lambda>c. c = 46) t) \<le> 1"
  proof induction
    case (float_press u w k)
    have "filter (\<lambda>c. c = 46) s = []" if "46 \<notin> set s" for s :: jsstr using that by (auto simp: filter_empty_conv)
    then show ?case using float_press by (auto simp: typed_float is_digit10_def)
  next
    case (float_paste u w t)
    then have "filter (\<lambda>c. c = 46) t = []" by (auto simp: floatOnly_paste_def list_all_iff is_digit10_def filter_empty_conv)
    then show ?case using float_paste by (auto simp: floatOnly_paste_def list_all_iff)
  qed auto
next
  assume t: "list_all (\<lambda>c. is_digit10 c \<or> c = 46) t \<and> length (filter (\<lambda>c. c = 46) t) \<le> 1"
  have digits: "float_field s" if "list_all is_digit10 s" for s
    using float_paste [of "[]" "[]" s] float_start that by (simp add: floatOnly_paste_def)
  show "float_field t"
  proof (cases "46 \<in> set t")
    case False
    then show ?thesis using t by (intro digits) (auto simp: list_all_iff)
  next
    case True
    then obtain u w where uw: "t = u @ 46 # w" by (auto dest: split_list)
    then have "filter (\<lambda>c. c = 46) (u @ w) = []" using t by simp
    then have no: "46 \<notin> set (u @ w)" by (auto simp: filter_empty_conv)
    have d: "list_all is_digit10 (u @ w)" using t no unfolding uw by (auto simp: list_all_iff)
    show ?thesis
    proof (cases "u @ w = []")
      case False
      then show ?thesis unfolding uw using digits [OF d] no by (intro float_press) (auto simp: typed_float)
    next
      case True
      have "float_field ([48] @ 46 # [])" using digits [of "[48]"] by (intro float_press) (auto simp: typed_float is_digit10_def)
      then have "float_field [46]" using float_delete [of "[]" "[48]" "[46]"] by simp
      then show ?thesis using True uw by simp
    qed
  qed
qed

end
