(* ===== verification/Service.thy ===== *)
theory Service
  imports Page_Form
begin

text \<open>
  \<open>assets/libs/jquery.service.js\<close>: the settings of a call, the callbacks and the promise it ends with.
  The request itself (\<open>$.ajax\<close>, the network) is outside; its outcome is an argument of \<open>invoke\<close>. The
  handlers of a call are functions of the response that may throw.
\<close>

section \<open>Texts\<close>

text \<open>\<open>s.indexOf(t)\<close>\<close>

fun index_from :: "nat \<Rightarrow> jsstr \<Rightarrow> jsstr \<Rightarrow> int" where
  "index_from n t s =
     (if take (length t) s = t then int n
      else (case s of [] \<Rightarrow> -1 | _ # s' \<Rightarrow> index_from (Suc n) t s'))"

declare index_from.simps [simp del]

definition index_of :: "jsstr \<Rightarrow> jsstr \<Rightarrow> int" where
  "index_of s t = index_from 0 t s"

text \<open>\<open>s.lastIndexOf(c, i)\<close> of one character.\<close>

definition last_index :: "nat \<Rightarrow> jsstr \<Rightarrow> nat \<Rightarrow> int" where
  "last_index c s i =
     (case filter (\<lambda>j. s ! j = c) [0..<min (Suc i) (length s)] of [] \<Rightarrow> -1 | places \<Rightarrow> int (last places))"

text \<open>\<open>toLowerCase\<close> on the letters of ASCII; the extensions and content types that are compared are made of these.\<close>

definition lower :: "jsstr \<Rightarrow> jsstr" where
  "lower s = map (\<lambda>c. if 65 \<le> c \<and> c \<le> 90 then c + 32 else c) s"

text \<open>\<open>JSON.stringify\<close>\<close>

definition hex_unit :: "nat \<Rightarrow> nat" where
  "hex_unit d = (if d < 10 then 48 + d else 87 + d)"

definition quote_unit :: "nat \<Rightarrow> jsstr" where
  "quote_unit c =
     (if c = 34 then [92, 34] else if c = 92 then [92, 92]
      else if c = 8 then [92, 98] else if c = 12 then [92, 102] else if c = 10 then [92, 110]
      else if c = 13 then [92, 114] else if c = 9 then [92, 116]
      else if c < 32 then [92, 117, 48, 48, hex_unit (c div 16), hex_unit (c mod 16)] else [c])"

definition quote_text :: "jsstr \<Rightarrow> jsstr" where
  "quote_text s = [34] @ concat (map quote_unit s) @ [34]"

fun stringify :: "jval \<Rightarrow> jsstr" where
  "stringify J_null = js ''null''"
| "stringify (J_bool b) = (if b then js ''true'' else js ''false'')"
| "stringify (J_num x) = (case x of Fin r \<Rightarrow> string_of_float x | _ \<Rightarrow> js ''null'')"
| "stringify (J_str s) = quote_text s"
| "stringify (J_arr xs) = [91] @ join_with [44] (map stringify xs) @ [93]"
| "stringify (J_obj ps) = [123] @ join_with [44] (map (\<lambda>(k, v). quote_text k @ [58] @ stringify v) ps) @ [125]"

section \<open>The settings of a call\<close>

text \<open>A handler is \<open>None\<close> when it is no function; it tells whether it throws on a response.\<close>

type_synonym handler = "(jval \<Rightarrow> bool) option"

record call_config =
  contentType :: "jsstr option"
  dataType :: "jsstr option"
  processData :: "bool option"
  request_data :: "jval option"
  request_type :: jsstr
  timeout :: int
  ignore401 :: bool
  on_complete :: handler
  on_error :: handler
  on_success :: handler

definition service_defaults :: call_config where
  "service_defaults = \<lparr>contentType = None, dataType = None, processData = Some True, request_data = None,
     request_type = js ''POST'', timeout = 300000, ignore401 = True,
     on_complete = None, on_error = None, on_success = None\<rparr>"

text \<open>The part of the address that is taken for the extension.\<close>

definition url_ext :: "jsstr \<Rightarrow> jsstr" where
  "url_ext url =
     (let endIndex = index_of url (js ''?'');
          endIndex = (if endIndex < 0 then index_of url (js ''#'') else endIndex);
          endIndex = (if endIndex < 0 then int (length url) else endIndex);
          startIndex = last_index 46 url (nat endIndex)
      in lower (substring url (startIndex + 1) endIndex))"

definition or_else :: "jsstr option \<Rightarrow> jsstr \<Rightarrow> jsstr option" where
  "or_else a b = (if a = None \<or> a = Some [] then Some b else a)"

definition ext_content :: "jsstr \<Rightarrow> jsstr option \<Rightarrow> jsstr option" where
  "ext_content ext content =
     (if ext = js ''json'' then Some (js ''application/json;charset=utf-8'')
      else if ext = js ''xml'' then Some (js ''application/xml;charset=utf-8'')
      else if ext = js ''html'' then Some (js ''text/html;charset=utf-8'')
      else if ext = js ''txt'' then Some (js ''text/plain;charset=utf-8'')
      else content)"

definition ServiceHelper :: "jsstr \<Rightarrow> call_config \<Rightarrow> call_config" where
  "ServiceHelper url configs =
     (let ext = url_ext url;
          contentType' = ext_content ext (contentType configs);
          processData' = (if processData configs = None then Some True else processData configs);
          content = lower (case contentType' of None \<Rightarrow> [] | Some c \<Rightarrow> c)
      in configs\<lparr>contentType := contentType', dataType := or_else (dataType configs) ext, processData := processData',
           request_data :=
             (if processData' = Some True \<and> (\<forall>s. request_data configs \<noteq> Some (J_str s)) then
                if index_of content (js ''json'') \<noteq> 0
                then map_option (\<lambda>v. J_str (stringify v)) (request_data configs)
                else request_data configs
              else request_data configs)\<rparr>)"

section \<open>Callbacks and the promise\<close>

datatype promise = Waiting | Resolved jval | Rejected jval

datatype call_event = Complete_called jval | Error_called jval | Success_called jval

record call_state =
  calls :: "call_event list"
  settled :: promise

definition settle :: "promise \<Rightarrow> call_state \<Rightarrow> call_state" where
  "settle p st = (if settled st = Waiting then st\<lparr>settled := p\<rparr> else st)"

text \<open>\<open>data && !data.success\<close>: only an object has a property \<open>success\<close>.\<close>

definition refused :: "jval \<Rightarrow> bool" where
  "refused data \<longleftrightarrow> js_truthy data \<and>
     \<not> (case data of J_obj ps \<Rightarrow> (case map_of ps (js ''success'') of Some v \<Rightarrow> js_truthy v | None \<Rightarrow> False) | _ \<Rightarrow> False)"

text \<open>A call of a handler: the state, and whether an error leaves the callback (\<open>$.error\<close> throws).\<close>

definition run_handler :: "handler \<Rightarrow> (jval \<Rightarrow> call_event) \<Rightarrow> jval \<Rightarrow> call_state \<Rightarrow> call_state \<times> bool" where
  "run_handler h ev data st =
     (case h of None \<Rightarrow> (st, False) | Some f \<Rightarrow> (st\<lparr>calls := calls st @ [ev data]\<rparr>, f data))"

definition callback :: "call_config \<Rightarrow> jval \<Rightarrow> call_state \<Rightarrow> call_state \<times> bool" where
  "callback configs data st =
     (let (st, thrown) = run_handler (on_complete configs) Complete_called data st
      in if thrown then (st, True)
         else
           let (st, thrown) =
             (if refused data then run_handler (on_error configs) Error_called data st
              else run_handler (on_success configs) Success_called data st)
           in if thrown then (st, True)
              else if refused data then (settle (Rejected data) st, False)
              else (settle (Resolved data) st, False))"

text \<open>
  What becomes of the request: a response, a failure with status, \<open>textStatus\<close> and error, an error thrown
  by \<open>$.ajax\<close> before there is a response with its number and description, or nothing yet.
\<close>

datatype outcome =
    Response jval
  | Failure nat jsstr "jsstr option"
  | Refused_call int "jsstr option"
  | No_answer

definition failure_data :: "nat \<Rightarrow> jsstr \<Rightarrow> jsstr option \<Rightarrow> jval" where
  "failure_data status textStatus errorThrown =
     J_obj [(js ''success'', J_bool False), (js ''errcode'', J_str (js ''http-'' @ string_of_nat status)),
       (js ''errmsg'', J_str (case errorThrown of
          Some e \<Rightarrow> if e \<noteq> [] then e else if textStatus = js ''timeout'' then [35831, 27714, 36229, 26102] else [35831, 27714, 22833, 36133]
        | None \<Rightarrow> if textStatus = js ''timeout'' then [35831, 27714, 36229, 26102] else [35831, 27714, 22833, 36133]))]"

text \<open>\<open>number & 0xFFFF\<close>; an error without a number gives 0.\<close>

definition thrown_data :: "int \<Rightarrow> jsstr option \<Rightarrow> jval" where
  "thrown_data number description =
     J_obj ([(js ''success'', J_bool False), (js ''code'', J_str (js ''ajax-'' @ string_of_nat (nat (number mod 65536))))] @
       (case description of None \<Rightarrow> [] | Some d \<Rightarrow> [(js ''message'', J_str d)]))"

text \<open>
  A request that is not asynchronous answers inside \<open>$.ajax\<close>: an error of a handler then comes out of
  \<open>$.ajax\<close> and is reported by a second callback. The truth value says whether an error is left.
\<close>

definition invoke :: "jsstr \<Rightarrow> call_config \<Rightarrow> bool \<Rightarrow> outcome \<Rightarrow> call_state \<times> bool" where
  "invoke url settings async out =
     (let helper = ServiceHelper url settings; st = \<lparr>calls = [], settled = Waiting\<rparr>;
          answer = (\<lambda>data. let (st, thrown) = callback helper data st
                    in if thrown \<and> \<not> async then callback helper (thrown_data 0 None) st else (st, thrown))
      in case out of
           Response data \<Rightarrow> answer data
         | Failure status textStatus errorThrown \<Rightarrow>
             if ignore401 helper \<and> status = 401 then (st, False)
             else answer (failure_data status textStatus errorThrown)
         | Refused_call number description \<Rightarrow> callback helper (thrown_data number description) st
         | No_answer \<Rightarrow> (st, False))"

end
