(* ===== verification/Page_Url.thy ===== *)
theory Page_Url
  imports Service Ecma_Plus
begin

text \<open>
  \<open>assets/libs/jquery.url.js\<close> and \<open>assets/plugins/util.js\<close>: the parameters of an address, the way back to
  a list page with the parameters it was left with, and the escaping of texts for markup. \<open>$.param\<close> is the
  one of \<open>jquery-1.12.4.js\<close>; \<open>encodeURIComponent\<close> and \<open>decodeURI\<close> are those of the language, with \<open>None\<close>
  for a \<open>URIError\<close>.
\<close>

section \<open>Escapes for markup\<close>

definition replace_all :: "nat \<Rightarrow> jsstr \<Rightarrow> jsstr \<Rightarrow> jsstr" where
  "replace_all c t s = concat (map (\<lambda>d. if d = c then t else [d]) s)"

definition escapeHTML :: "jsstr \<Rightarrow> jsstr" where
  "escapeHTML text =
     (let text = replace_all 60 (js ''&lt;'') text;
          text = replace_all 62 (js ''&gt;'') text;
          text = replace_all 32 (js ''&nbsp;'') text
      in replace_all 34 (js ''&quot;'') text)"

text \<open>\<open>defaultIfEmpty\<close> reads the undeclared \<open>s\<close> for every other value, which is an error (\<open>None\<close>).\<close>

definition defaultIfEmpty :: "jsarg \<Rightarrow> jsarg option" where
  "defaultIfEmpty str = (if str = A_null \<or> str = A_undefined then Some (A_str []) else None)"

section \<open>Percent encoding\<close>

definition hex_upper :: "nat \<Rightarrow> nat" where
  "hex_upper d = (if d < 10 then 48 + d else 55 + d)"

definition percent :: "nat \<Rightarrow> jsstr" where
  "percent b = [37, hex_upper (b div 16), hex_upper (b mod 16)]"

definition uri_unreserved :: "nat \<Rightarrow> bool" where
  "uri_unreserved c \<longleftrightarrow> is_digit10 c \<or> 65 \<le> c \<and> c \<le> 90 \<or> 97 \<le> c \<and> c \<le> 122 \<or> c \<in> {45, 95, 46, 33, 126, 42, 39, 40, 41}"

text \<open>The bytes of UTF-8 of a code point.\<close>

definition utf8 :: "nat \<Rightarrow> nat list" where
  "utf8 p =
     (if p < 0x80 then [p]
      else if p < 0x800 then [0xC0 + p div 64, 0x80 + p mod 64]
      else if p < 0x10000 then [0xE0 + p div 4096, 0x80 + p div 64 mod 64, 0x80 + p mod 64]
      else [0xF0 + p div 262144, 0x80 + p div 4096 mod 64, 0x80 + p div 64 mod 64, 0x80 + p mod 64])"

fun encodeURIComponent :: "jsstr \<Rightarrow> jsstr option" where
  "encodeURIComponent [] = Some []"
| "encodeURIComponent (c # s) =
     (if uri_unreserved c then map_option ((#) c) (encodeURIComponent s)
      else if 0xDC00 \<le> c \<and> c \<le> 0xDFFF then None
      else if 0xD800 \<le> c \<and> c \<le> 0xDBFF then
        (case s of
           d # t \<Rightarrow>
             if 0xDC00 \<le> d \<and> d \<le> 0xDFFF
             then map_option ((@) (concat (map percent (utf8 ((c - 0xD800) * 0x400 + (d - 0xDC00) + 0x10000))))) (encodeURIComponent t)
             else None
         | [] \<Rightarrow> None)
      else map_option ((@) (concat (map percent (utf8 c)))) (encodeURIComponent s))"

definition hex_pair :: "jsstr \<Rightarrow> nat option" where
  "hex_pair s =
     (case s of
        p # a # b # _ \<Rightarrow> if p = 37 \<and> digit_value a < 16 \<and> digit_value b < 16 then Some (digit_value a * 16 + digit_value b) else None
      | _ \<Rightarrow> None)"

text \<open>The bytes that continue a character, up to \<open>n\<close> of them, and the code point they make.\<close>

fun continue :: "nat \<Rightarrow> nat \<Rightarrow> jsstr \<Rightarrow> nat option" where
  "continue 0 p s = Some p"
| "continue (Suc n) p s =
     (case hex_pair s of
        Some b \<Rightarrow> if 0x80 \<le> b \<and> b < 0xC0 then continue n (p * 64 + (b - 0x80)) (drop 3 s) else None
      | None \<Rightarrow> None)"

definition uri_reserved :: "nat \<Rightarrow> bool" where
  "uri_reserved c \<longleftrightarrow> c \<in> {59, 47, 63, 58, 64, 38, 61, 43, 36, 44, 35}"

definition units_of :: "nat \<Rightarrow> jsstr" where
  "units_of p = (if p < 0x10000 then [p] else [0xD800 + (p - 0x10000) div 0x400, 0xDC00 + (p - 0x10000) mod 0x400])"

text \<open>The character a percent sign begins: its units and the number of units it is written with.\<close>

definition decode_char :: "jsstr \<Rightarrow> (jsstr \<times> nat) option" where
  "decode_char s =
     (case hex_pair s of
        None \<Rightarrow> None
      | Some b \<Rightarrow>
          if b < 0x80 then Some (if uri_reserved b then take 3 s else [b], 3)
          else
            let n = (if b < 0xC0 then 0 else if b < 0xE0 then 1 else if b < 0xF0 then 2 else if b < 0xF8 then 3 else 0 :: nat);
                low = (if n = 1 then 0x80 else if n = 2 then 0x800 else 0x10000)
            in if n = 0 then None
               else case continue n (b mod 2 ^ (6 - n)) (drop 3 s) of
                   None \<Rightarrow> None
                 | Some p \<Rightarrow>
                     if p < low \<or> 0xD800 \<le> p \<and> p \<le> 0xDFFF \<or> 0x10FFFF < p then None
                     else Some (units_of p, 3 * Suc n))"

function decodeURI :: "jsstr \<Rightarrow> jsstr option" where
  "decodeURI [] = Some []"
| "decodeURI (c # s) =
     (if c \<noteq> 37 then map_option ((#) c) (decodeURI s)
      else (case decode_char (c # s) of
              None \<Rightarrow> None
            | Some (us, k) \<Rightarrow> map_option ((@) us) (decodeURI (drop (k - 1) s))))"
  by pat_completeness auto
termination by (relation "measure length") auto

section \<open>Parameters\<close>

text \<open>
  \<open>/[?&]+([^=&]+)=([^&#]*)/\<close> at the start of a text: marks (as many as leave a name), a name up to the
  next equals sign, the value up to a mark; and what follows.
\<close>

definition match_from :: "jsstr \<Rightarrow> (jsstr \<times> jsstr \<times> jsstr) option" where
  "match_from s =
     (let key = takeWhile (\<lambda>c. c \<noteq> 61 \<and> c \<noteq> 38) s; r = drop (length key) s
      in if key = [] \<or> r = [] \<or> hd r \<noteq> 61 then None
         else let v = takeWhile (\<lambda>c. c \<noteq> 38 \<and> c \<noteq> 35) (tl r) in Some (key, v, drop (length v) (tl r)))"

definition match_param :: "jsstr \<Rightarrow> (jsstr \<times> jsstr \<times> jsstr) option" where
  "match_param s =
     (let run = length (takeWhile (\<lambda>c. c = 63 \<or> c = 38) s)
      in fold (\<lambda>n m. case m of None \<Rightarrow> match_from (drop n s) | Some _ \<Rightarrow> m) (rev [1..<Suc run]) None)"

lemma match_from_shorter: "match_from s = Some (k, v, r) \<Longrightarrow> length r < length s"
  by (auto simp: match_from_def Let_def split: if_splits)

lemma match_param_shorter: "match_param s = Some (k, v, r) \<Longrightarrow> length r < length s"
proof -
  have "fold (\<lambda>n m. case m of None \<Rightarrow> match_from (drop n s) | Some _ \<Rightarrow> m) ns m = Some (k, v, r) \<Longrightarrow>
      m = Some (k, v, r) \<or> (\<exists>n. match_from (drop n s) = Some (k, v, r))" for ns m
    by (induction ns arbitrary: m) (auto split: option.splits)
  moreover assume "match_param s = Some (k, v, r)"
  ultimately obtain n where "match_from (drop n s) = Some (k, v, r)"
    unfolding match_param_def Let_def by blast
  then show ?thesis using match_from_shorter [of "drop n s" k v r] by simp
qed

function all_params :: "jsstr \<Rightarrow> (jsstr \<times> jsstr) list" where
  "all_params [] = []"
| "all_params (c # s) =
     (case match_param (c # s) of Some (k, v, r) \<Rightarrow> (k, v) # all_params r | None \<Rightarrow> all_params s)"
  by pat_completeness auto
termination by (relation "measure length") (auto dest: match_param_shorter)

text \<open>\<open>s.replace("[]", "")\<close>\<close>

fun drop_brackets :: "jsstr \<Rightarrow> jsstr" where
  "drop_brackets (a # b # s) = (if a = 91 \<and> b = 93 then s else a # drop_brackets (b # s))"
| "drop_brackets s = s"

definition getUrlParams :: "jsstr \<Rightarrow> (jsstr \<times> jval) list option" where
  "getUrlParams url =
     fold (\<lambda>(key, value) vars.
         case (vars, decodeURI key, decodeURI value) of
           (Some vars, Some key, Some value) \<Rightarrow> Some (setObject (drop_brackets key) (J_str value) vars)
         | _ \<Rightarrow> None) (all_params url) (Some [])"

definition getUrlParam :: "jsstr \<Rightarrow> jsstr \<Rightarrow> jval option option" where
  "getUrlParam name url = map_option (\<lambda>vars. map_of vars name) (getUrlParams url)"

section \<open>The way back\<close>

definition add_param :: "jsstr \<Rightarrow> jval \<Rightarrow> jsstr option" where
  "add_param key value =
     (case (encodeURIComponent key, encodeURIComponent (if value = J_null then [] else to_text value)) of
        (Some k, Some v) \<Rightarrow> Some (k @ [61] @ v)
      | _ \<Rightarrow> None)"

definition is_object :: "jval \<Rightarrow> bool" where
  "is_object v = (case v of J_arr _ \<Rightarrow> True | J_obj _ \<Rightarrow> True | _ \<Rightarrow> False)"

function buildParams :: "jsstr \<Rightarrow> jval \<Rightarrow> jsstr option list" where
  "buildParams prefix (J_arr xs) =
     concat (map (\<lambda>(i, v).
       if take 2 (rev prefix) = [93, 91] then [add_param prefix v]
       else buildParams (prefix @ [91] @ (if is_object v then string_of_nat i else []) @ [93]) v) (enumerate 0 xs))"
| "buildParams prefix (J_obj ps) = concat (map (\<lambda>(name, v). buildParams (prefix @ [91] @ name @ [93]) v) ps)"
| "buildParams prefix J_null = [add_param prefix J_null]"
| "buildParams prefix (J_bool b) = [add_param prefix (J_bool b)]"
| "buildParams prefix (J_num x) = [add_param prefix (J_num x)]"
| "buildParams prefix (J_str s) = [add_param prefix (J_str s)]"
  by pat_completeness auto
termination
proof (relation "measure (\<lambda>(_, v). size v)", goal_cases)
  case (2 prefix xs z i v)
  then have "v \<in> set xs" by (auto simp: in_set_enumerate_eq)
  then have "size v < Suc (size_list size xs)" by (simp add: less_Suc_eq_le size_list_estimation')
  then show ?case by simp
next
  case (3 prefix ps z name v)
  then show ?case by (induction ps) auto
qed simp

definition join_all :: "jsstr option list \<Rightarrow> jsstr option" where
  "join_all ps = (if None \<in> set ps then None else Some (join_with [38] (map the ps)))"

text \<open>\<open>s.replace(/%20/g, "+")\<close>\<close>

fun plus_for_space :: "jsstr \<Rightarrow> jsstr" where
  "plus_for_space (a # b # c # s) =
     (if a = 37 \<and> b = 50 \<and> c = 48 then 43 # plus_for_space s else a # plus_for_space (b # c # s))"
| "plus_for_space s = s"

definition jq_param :: "(jsstr \<times> jval) list \<Rightarrow> jsstr option" where
  "jq_param ps = map_option plus_for_space (join_all (concat (map (\<lambda>(k, v). buildParams k v) ps)))"

definition extend_obj :: "(jsstr \<times> jval) list \<Rightarrow> (jsstr \<times> jval) list \<Rightarrow> (jsstr \<times> jval) list" where
  "extend_obj a b = fold (\<lambda>(k, v). set_prop k v) b a"

text \<open>The address that \<open>goBack\<close> leads to.\<close>

definition goBack :: "jsstr \<Rightarrow> jsstr \<Rightarrow> (jsstr \<times> jval) list \<Rightarrow> jsstr option" where
  "goBack referer target params =
     (case (if referer \<noteq> [] \<and> index_of referer target \<ge> 0
            then map_option (\<lambda>old. extend_obj old params) (getUrlParams referer) else Some params) of
        None \<Rightarrow> None
      | Some params \<Rightarrow> map_option (\<lambda>search. target @ (if search \<noteq> [] then [63] else []) @ search) (jq_param params))"

end
