(* ===== verification/Page_Url_Contract.thy ===== *)
theory Page_Url_Contract
  imports Page_Url
begin

text \<open>
  What becomes of the parameters of an address that \<open>$.param\<close> writes and \<open>getUrlParams\<close> reads, as \<open>goBack\<close>
  does each time a page is left, and what the escapes for markup guarantee.
\<close>

section \<open>Encoded texts\<close>

definition ascii :: "jsstr \<Rightarrow> bool" where
  "ascii s \<longleftrightarrow> list_all (\<lambda>c. c < 128) s"

definition query_char :: "nat \<Rightarrow> jsstr" where
  "query_char c = (if c = 32 then [43] else if uri_unreserved c then [c] else percent c)"

definition query_text :: "jsstr \<Rightarrow> jsstr" where
  "query_text s = concat (map query_char s)"

text \<open>What is read of a character that was written: reserved ones stay encoded, and so does a space as plus.\<close>

definition read_char :: "nat \<Rightarrow> jsstr" where
  "read_char c = (if c = 32 then [43] else if uri_reserved c then percent c else [c])"

definition read_back :: "jsstr \<Rightarrow> jsstr" where
  "read_back s = concat (map read_char s)"

lemma hex_upper_range:
  assumes "d < 16"
  shows "digit_value (hex_upper d) = d" "hex_upper d \<noteq> 37" "hex_upper d \<in> {48..57} \<union> {65..70}"
  using assms by (auto simp: hex_upper_def digit_value_def)

lemma hex_upper_2: "hex_upper d = 50 \<longleftrightarrow> d = 2" "hex_upper d = 48 \<longleftrightarrow> d = 0"
  by (auto simp: hex_upper_def)

lemma percent_decode: "b < 128 \<Longrightarrow> hex_pair (percent b @ s) = Some b"
  using hex_upper_range(1) [of "b div 16"] hex_upper_range(1) [of "b mod 16"] by (simp add: hex_pair_def percent_def)

lemma plus_skip: "c \<noteq> 37 \<Longrightarrow> plus_for_space (c # s) = c # plus_for_space s"
  by (cases s; cases "tl s") auto

lemma plus_percent:
  assumes "b < 128"
  shows "plus_for_space (percent b @ s) = (if b = 32 then [43] else percent b) @ plus_for_space s"
proof -
  have n: "hex_upper (b div 16) \<noteq> 37" "hex_upper (b mod 16) \<noteq> 37" using hex_upper_range(2) assms by auto
  have "b div 16 = 2 \<and> b mod 16 = 0 \<longleftrightarrow> b = 32" by presburger
  then show ?thesis using n by (auto simp: percent_def hex_upper_2 plus_skip)
qed

lemma unreserved_plain: "uri_unreserved c \<Longrightarrow> c < 128 \<and> c \<notin> {32, 37, 43, 38, 61, 63, 35, 91, 93} \<and> \<not> uri_reserved c"
  by (auto simp: uri_unreserved_def uri_reserved_def is_digit10_def)

lemma encode_ascii:
  "ascii s \<Longrightarrow> encodeURIComponent s = Some (concat (map (\<lambda>c. if uri_unreserved c then [c] else percent c) s))"
  by (induction s) (auto simp: ascii_def utf8_def)

lemma plus_ascii:
  "ascii s \<Longrightarrow> plus_for_space (concat (map (\<lambda>c. if uri_unreserved c then [c] else percent c) s) @ t) = query_text s @ plus_for_space t"
proof (induction s)
  case (Cons c s)
  then show ?case
    using unreserved_plain [of c] by (auto simp: query_text_def query_char_def plus_skip plus_percent ascii_def)
qed (simp add: query_text_def)

lemma query_char_units:
  assumes "d < 128" "c \<in> set (query_char d)"
  shows "c \<notin> {38, 61, 63, 35}"
proof (cases "d = 32 \<or> uri_unreserved d")
  case True
  then show ?thesis using assms(2) unreserved_plain [of d] by (auto simp: query_char_def)
next
  case False
  have "d div 16 < 16" "d mod 16 < 16" using assms(1) by auto
  then have "hex_upper (d div 16) \<in> {48..57} \<union> {65..70}" "hex_upper (d mod 16) \<in> {48..57} \<union> {65..70}"
    by (simp_all only: hex_upper_range(3))
  moreover have "c \<in> {37, hex_upper (d div 16), hex_upper (d mod 16)}"
    using False assms(2) by (simp add: query_char_def percent_def)
  ultimately have "c = 37 \<or> c \<in> {48..57} \<or> c \<in> {65..70}" by blast
  then show ?thesis by (elim disjE) simp_all
qed

lemma query_units: "ascii s \<Longrightarrow> c \<in> set (query_text s) \<Longrightarrow> c \<notin> {38, 61, 63, 35}"
  using query_char_units by (auto simp: ascii_def query_text_def list_all_iff)

lemma query_text_Nil: "query_text s = [] \<longleftrightarrow> s = []"
  by (cases s) (auto simp: query_text_def query_char_def percent_def)

lemma decode_query: "ascii s \<Longrightarrow> decodeURI (query_text s) = Some (read_back s)"
proof (induction s)
  case (Cons c s)
  then have IH: "decodeURI (query_text s) = Some (read_back s)" and c: "c < 128" by (simp_all add: ascii_def)
  consider "c = 32" | "c \<noteq> 32" "uri_unreserved c" | "c \<noteq> 32" "\<not> uri_unreserved c" by blast
  then show ?case
  proof cases
    case 3
    have "decodeURI (percent c @ query_text s) = map_option ((@) (if uri_reserved c then percent c else [c])) (decodeURI (query_text s))"
      using c percent_decode [OF c, of "query_text s"] by (simp add: percent_def decode_char_def)
    then show ?thesis using 3 IH by (simp add: query_text_def query_char_def read_back_def read_char_def)
  qed (use IH unreserved_plain [of c] in \<open>auto simp: query_text_def query_char_def read_back_def read_char_def\<close>)
qed (simp add: query_text_def read_back_def)

section \<open>Scanning an address\<close>

lemma skip_base: "set b \<inter> {38, 63} = {} \<Longrightarrow> all_params (b @ t) = all_params t"
  by (induction b) (auto simp: match_param_def)

lemma match_pair:
  assumes "k \<noteq> []" "set k \<inter> {38, 61, 63} = {}" "set v \<inter> {38, 35} = {}" "c \<in> {38, 63}" "rest = [] \<or> hd rest = 38"
  shows "all_params (c # k @ 61 # v @ rest) = (k, v) # all_params rest"
proof -
  have "takeWhile (\<lambda>c. c = 63 \<or> c = 38) (c # k @ 61 # v @ rest) = [c]"
    using assms(1,2,4) by (cases k) auto
  moreover have "takeWhile (\<lambda>c. c \<noteq> 61 \<and> c \<noteq> 38) (k @ 61 # v @ rest) = k"
    using assms(2) by (subst takeWhile_append2) auto
  moreover have "takeWhile (\<lambda>c. c \<noteq> 38 \<and> c \<noteq> 35) (v @ rest) = v"
    using assms(3,5) by (subst takeWhile_append2) (auto, cases rest, auto)
  ultimately show ?thesis using assms(1) by (simp add: match_param_def match_from_def)
qed

definition pair_text :: "jsstr \<times> jsstr \<Rightarrow> jsstr" where
  "pair_text p = query_text (fst p) @ 61 # query_text (snd p)"

lemma scan_pairs:
  assumes "\<forall>p \<in> set ps. fst p \<noteq> [] \<and> ascii (fst p) \<and> ascii (snd p)" "c \<in> {38, 63}" "ps \<noteq> []"
  shows "all_params (c # join_with [38] (map pair_text ps)) = map (\<lambda>(k, v). (query_text k, query_text v)) ps"
  using assms
proof (induction ps arbitrary: c)
  case (Cons p ps)
  have u: "set (query_text (fst p)) \<inter> {38, 61, 63} = {}" "set (query_text (snd p)) \<inter> {38, 35} = {}"
    using query_units [of "fst p"] query_units [of "snd p"] Cons.prems(1) by auto
  define rest where "rest = (if ps = [] then [] else 38 # join_with [38] (map pair_text ps))"
  have "join_with [38] (map pair_text (p # ps)) = query_text (fst p) @ 61 # query_text (snd p) @ rest"
    by (cases ps) (simp_all add: rest_def pair_text_def join_with_Cons)
  moreover have "all_params rest = map (\<lambda>(k, v). (query_text k, query_text v)) ps"
    using Cons.IH [of 38] Cons.prems(1) by (cases "ps = []") (simp_all add: rest_def)
  moreover have "rest = [] \<or> hd rest = 38" by (simp add: rest_def)
  ultimately show ?case
    using match_pair [OF _ u Cons.prems(2)] Cons.prems(1) by (simp add: query_text_Nil split: prod.split)
qed simp

section \<open>Writing and reading parameters\<close>

definition raw_text :: "jsstr \<Rightarrow> jsstr" where
  "raw_text s = concat (map (\<lambda>c. if uri_unreserved c then [c] else percent c) s)"

lemma plus_join:
  assumes "\<forall>p \<in> set ps. ascii (fst p) \<and> ascii (snd p)"
  shows "plus_for_space (join_with [38] (map (\<lambda>p. raw_text (fst p) @ 61 # raw_text (snd p)) ps)) = join_with [38] (map pair_text ps)"
  using assms
proof (induction ps)
  case (Cons p ps)
  have p: "plus_for_space (raw_text (fst p) @ 61 # raw_text (snd p) @ t) = pair_text p @ plus_for_space t" for t
    using Cons.prems by (simp add: raw_text_def plus_ascii plus_skip pair_text_def)
  show ?case
  proof (cases "ps = []")
    case True
    then show ?thesis using p [of "[]"] by simp
  next
    case False
    then show ?thesis using p [of "38 # t" for t] Cons by (simp add: join_with_Cons plus_skip)
  qed
qed simp

lemma param_text:
  assumes "\<forall>p \<in> set ps. ascii (fst p) \<and> ascii (snd p)"
  shows "jq_param (map (\<lambda>(k, v). (k, J_str v)) ps) = Some (join_with [38] (map pair_text ps))"
proof -
  have "concat (map (\<lambda>(k, v). buildParams k v) (map (\<lambda>(k, v). (k, J_str v)) ps)) =
      map Some (map (\<lambda>p. raw_text (fst p) @ 61 # raw_text (snd p)) ps)"
    using assms by (induction ps) (auto simp: add_param_def encode_ascii raw_text_def)
  moreover have "join_all (map Some ws) = Some (join_with [38] ws)" for ws
    by (simp add: join_all_def comp_def)
  ultimately show ?thesis by (simp only: jq_param_def option.map plus_join [OF assms])
qed

lemma read_plain: "list_all uri_unreserved s \<Longrightarrow> read_back s = s"
  using unreserved_plain by (induction s) (auto simp: read_back_def read_char_def)

lemma drop_brackets_plain: "91 \<notin> set s \<Longrightarrow> drop_brackets s = s"
  by (induction s rule: drop_brackets.induct) auto

text \<open>C30. \<open>getUrlParams\<close> reads back what \<open>$.param\<close> writes, with the names unchanged, but not the values: a
  space comes back as a plus sign, and \<open>; / ? : @ & = + $ , #\<close> come back as percent codes.\<close>

theorem url_params_readback:
  assumes "ps \<noteq> []" "distinct (map fst ps)" "set base \<inter> {38, 63} = {}"
    and "\<forall>p \<in> set ps. fst p \<noteq> [] \<and> list_all uri_unreserved (fst p) \<and> ascii (snd p)"
  shows "\<exists>q. jq_param (map (\<lambda>(k, v). (k, J_str v)) ps) = Some q \<and>
    getUrlParams (base @ 63 # q) = Some (map (\<lambda>(k, v). (k, J_str (read_back v))) ps)"
proof -
  have a: "\<forall>p \<in> set ps. fst p \<noteq> [] \<and> ascii (fst p) \<and> ascii (snd p)"
    using assms(4) unreserved_plain by (auto simp: ascii_def list_all_iff)
  let ?q = "join_with [38] (map pair_text ps)"
  have scan: "all_params (base @ 63 # ?q) = map (\<lambda>(k, v). (query_text k, query_text v)) ps"
    using scan_pairs [OF a _ assms(1), of 63] skip_base [OF assms(3)] by simp
  define step where "step = (\<lambda>(key, val) vars. case (vars, decodeURI key, decodeURI val) of
      (Some vars, Some key, Some val) \<Rightarrow> Some (setObject (drop_brackets key) (J_str val) vars) | _ \<Rightarrow> None)"
  have "fold step (map (\<lambda>(k, v). (query_text k, query_text v)) ps) (Some vs) = Some (vs @ map (\<lambda>(k, v). (k, J_str (read_back v))) ps)"
    if "distinct (map fst vs @ map fst ps)" "\<forall>p \<in> set ps. fst p \<noteq> [] \<and> list_all uri_unreserved (fst p) \<and> ascii (fst p) \<and> ascii (snd p)"
    for vs ps
    using that
  proof (induction ps arbitrary: vs)
    case (Cons p ps)
    obtain k v where p: "p = (k, v)" by (cases p)
    have "91 \<notin> set k" using Cons.prems(2) unreserved_plain [of 91] by (auto simp: p list_all_iff)
    then have "step (query_text k, query_text v) (Some vs) = Some (vs @ [(k, J_str (read_back v))])"
      using Cons.prems by (auto simp: p step_def decode_query read_plain drop_brackets_plain setObject_new image_iff)
    moreover have "fold step (map (\<lambda>(k, v). (query_text k, query_text v)) ps) (Some (vs @ [(k, J_str (read_back v))])) =
        Some ((vs @ [(k, J_str (read_back v))]) @ map (\<lambda>(k, v). (k, J_str (read_back v))) ps)"
      using Cons.prems by (intro Cons.IH) (auto simp: p)
    ultimately show ?case by (simp add: p)
  qed simp
  from this [of "[]" ps] have "getUrlParams (base @ 63 # ?q) = Some (map (\<lambda>(k, v). (k, J_str (read_back v))) ps)"
    unfolding getUrlParams_def scan step_def [symmetric] using assms(2,4) a by simp
  then show ?thesis using param_text [of ps] a by blast
qed

lemma url_params_readback_witness:
  "\<exists>q. jq_param [(js ''q'', J_str (js ''a b&c''))] = Some q \<and>
     getUrlParams (js ''/list'' @ 63 # q) = Some [(js ''q'', J_str (js ''a+b%26c''))]"
  using url_params_readback [of "[(js ''q'', js ''a b&c'')]" "js ''/list''"]
  by (simp add: uri_unreserved_def ascii_def read_back_def read_char_def uri_reserved_def percent_def hex_upper_def)

section \<open>Markup\<close>

lemma escape_units: "set (escapeHTML s) \<inter> {60, 62, 32, 34} = {}"
proof -
  have "set (replace_all c t s) = (set s - {c}) \<union> (if c \<in> set s then set t else {})" for c t s
    by (auto simp: replace_all_def)
  then show ?thesis by (auto simp: escapeHTML_def Let_def)
qed

text \<open>A text escaped for markup holds no angle bracket, quote or space, so it opens no tag; but an
  ampersand is not escaped, and different texts become the same.\<close>

theorem escape_html:
  "set (escapeHTML s) \<inter> {60, 62, 32, 34} = {} \<and> escapeHTML (js ''&lt;'') = escapeHTML (js ''<'')"
  using escape_units by (simp add: escapeHTML_def replace_all_def Let_def)

end
