(* ===== verification/Service_Contract.thy ===== *)
theory Service_Contract
  imports Service
begin

text \<open>
  What a page that calls \<open>$.ServiceClient.invoke\<close> may rely on: how its promise and callbacks follow from
  the outcome of the request, and how the address and the settings determine what is sent.
\<close>

section \<open>Callbacks\<close>

definition quiet :: "handler \<Rightarrow> bool" where
  "quiet h \<longleftrightarrow> (\<forall>f data. h = Some f \<longrightarrow> \<not> f data)"

definition quiet_calls :: "call_config \<Rightarrow> bool" where
  "quiet_calls s \<longleftrightarrow> quiet (on_complete s) \<and> quiet (on_error s) \<and> quiet (on_success s)"

definition called :: "handler \<Rightarrow> call_event \<Rightarrow> call_event list" where
  "called h e = (if h = None then [] else [e])"

lemma helper_keeps [simp]:
  "on_complete (ServiceHelper url s) = on_complete s" "on_error (ServiceHelper url s) = on_error s"
  "on_success (ServiceHelper url s) = on_success s" "ignore401 (ServiceHelper url s) = ignore401 s"
  by (simp_all add: ServiceHelper_def Let_def)

lemma run_quiet:
  "quiet h \<Longrightarrow> run_handler h ev data st = (st\<lparr>calls := calls st @ called h (ev data)\<rparr>, False)"
  by (auto simp: run_handler_def called_def quiet_def split: option.split)

lemma callback_quiet:
  assumes "quiet_calls s"
  shows "callback s data st =
    (settle (if refused data then Rejected data else Resolved data)
      (st\<lparr>calls := calls st @ called (on_complete s) (Complete_called data) @
         (if refused data then called (on_error s) (Error_called data) else called (on_success s) (Success_called data))\<rparr>), False)"
  using assms by (simp add: callback_def run_quiet quiet_calls_def)

text \<open>C10. When no handler throws, the promise follows from the outcome alone: it is resolved with a
  response that is falsy or an object whose \<open>success\<close> is truthy, rejected with every other response (every
  text that is not empty and every array among them) and with failures, and it waits for ever after a 401
  that is ignored. The handler \<open>complete\<close> is called first, and exactly one of \<open>error\<close> and \<open>success\<close> after it.\<close>

theorem invoke_outcome:
  assumes "quiet_calls s" "invoke url s async out = (st, thrown)"
  shows "\<not> thrown \<and>
    (case out of
       Response data \<Rightarrow> settled st = (if refused data then Rejected data else Resolved data) \<and>
         calls st = called (on_complete s) (Complete_called data) @
           (if refused data then called (on_error s) (Error_called data) else called (on_success s) (Success_called data))
     | Failure status textStatus e \<Rightarrow>
         if ignore401 s \<and> status = 401 then settled st = Waiting \<and> calls st = []
         else settled st = Rejected (failure_data status textStatus e) \<and>
           calls st = called (on_complete s) (Complete_called (failure_data status textStatus e)) @
             called (on_error s) (Error_called (failure_data status textStatus e))
     | Refused_call n d \<Rightarrow> settled st = Rejected (thrown_data n d)
     | No_answer \<Rightarrow> settled st = Waiting \<and> calls st = [])"
proof -
  have q: "quiet_calls (ServiceHelper url s)" using assms(1) by (simp add: quiet_calls_def)
  have r: "refused (failure_data status textStatus e)" "refused (thrown_data n d)" for status textStatus e n d
    by (simp_all add: refused_def failure_data_def thrown_data_def)
  show ?thesis
    using assms(2)
    by (cases out) (auto simp: invoke_def Let_def callback_quiet [OF q] r settle_def split: if_splits)
qed

definition demo_call :: call_config where
  "demo_call = service_defaults\<lparr>on_success := Some (\<lambda>_. False)\<rparr>"

lemma invoke_outcome_witness:
  "settled (fst (invoke (js ''list.html'') demo_call True (Response (J_str (js ''<p>''))))) = Rejected (J_str (js ''<p>'')) \<and>
   settled (fst (invoke (js ''list.json'') demo_call True (Failure 401 (js ''error'') None))) = Waiting"
proof -
  have q: "quiet_calls demo_call" by (simp add: quiet_calls_def quiet_def demo_call_def service_defaults_def)
  obtain st th st' th' where e: "invoke (js ''list.html'') demo_call True (Response (J_str (js ''<p>''))) = (st, th)"
    "invoke (js ''list.json'') demo_call True (Failure 401 (js ''error'') None) = (st', th')" by fastforce
  from invoke_outcome [OF q e(1)] invoke_outcome [OF q e(2)] show ?thesis
    unfolding e by (simp add: refused_def demo_call_def service_defaults_def)
qed

text \<open>C24. A handler that throws leaves the promise waiting for ever when the request is asynchronous; when
  it is not, the callback is run a second time with an error, so that \<open>success\<close> and \<open>error\<close> are both called
  and the promise is rejected although the service succeeded.\<close>

theorem throwing_handler:
  assumes "\<not> refused data" "on_success s = Some f" "f data" "quiet (on_complete s)" "quiet (on_error s)"
  shows "invoke url s True (Response data) =
      (\<lparr>calls = called (on_complete s) (Complete_called data) @ [Success_called data], settled = Waiting\<rparr>, True) \<and>
    invoke url s False (Response data) =
      (\<lparr>calls = called (on_complete s) (Complete_called data) @ [Success_called data] @
          called (on_complete s) (Complete_called (thrown_data 0 None)) @ called (on_error s) (Error_called (thrown_data 0 None)),
        settled = Rejected (thrown_data 0 None)\<rparr>, False)"
proof -
  have r: "refused (thrown_data 0 None)" by (simp add: refused_def thrown_data_def)
  have f: "run_handler (Some f) Success_called data st = (st\<lparr>calls := calls st @ [Success_called data]\<rparr>, True)" for st
    using assms(3) by (simp add: run_handler_def)
  show ?thesis
    using assms r by (simp add: invoke_def Let_def callback_def run_quiet f settle_def)
qed

lemma throwing_handler_witness:
  "settled (fst (invoke [] (service_defaults\<lparr>on_success := Some (\<lambda>_. True)\<rparr>) True (Response J_null))) = Waiting"
  using throwing_handler [of J_null "service_defaults\<lparr>on_success := Some (\<lambda>_. True)\<rparr>" "\<lambda>_. True" "[]"]
  by (simp add: refused_def service_defaults_def quiet_def)

section \<open>Settings\<close>

lemma index_from_char:
  "index_from n [c] s = (if c \<in> set s then int (n + length (takeWhile (\<lambda>d. d \<noteq> c) s)) else -1)"
proof (induction s arbitrary: n)
  case Nil
  then show ?case by (subst index_from.simps) simp
next
  case (Cons d s)
  then show ?case by (subst index_from.simps) auto
qed

lemma index_of_char: "index_of s [c] = (if c \<in> set s then int (length (takeWhile (\<lambda>d. d \<noteq> c) s)) else -1)"
  by (simp add: index_of_def index_from_char)

lemma last_index_dot:
  assumes "c \<notin> set w" "i = length u + Suc (length w)" "r = [] \<or> hd r \<noteq> c"
  shows "last_index c (u @ c # w @ r) i = int (length u)"
proof -
  let ?s = "u @ c # w @ r" and ?n = "min (Suc i) (length (u @ c # w @ r))"
  have n: "Suc (length u) \<le> ?n" using assms(2) by simp
  have "\<forall>j \<in> set [Suc (length u)..<?n]. ?s ! j \<noteq> c"
  proof
    fix j assume "j \<in> set [Suc (length u)..<?n]"
    then have j: "Suc (length u) \<le> j" "j \<le> i" "j < length ?s" by auto
    define k where "k = j - Suc (length u)"
    have jk: "j = length u + Suc k" using j(1) by (simp add: k_def)
    then have e: "?s ! j = (w @ r) ! k" by (simp add: nth_append)
    show "?s ! j \<noteq> c"
    proof (cases "k < length w")
      case True
      then show ?thesis unfolding e using assms(1) by (auto simp: nth_append)
    next
      case False
      then have "k = length w" "r \<noteq> []" using j jk assms(2) by auto
      then show ?thesis unfolding e using assms(3) by (simp add: hd_conv_nth nth_append)
    qed
  qed
  then have "filter (\<lambda>j. ?s ! j = c) [Suc (length u)..<?n] = []" by (simp add: filter_empty_conv)
  moreover have "[0..<?n] = [0..<length u] @ [length u..<?n]"
    using upt_add_eq_append [of 0 "length u" "?n - length u"] n by simp
  moreover have "[length u..<?n] = length u # [Suc (length u)..<?n]" using n by (intro upt_conv_Cons) simp
  ultimately have "filter (\<lambda>j. ?s ! j = c) [0..<?n] = filter (\<lambda>j. ?s ! j = c) [0..<length u] @ [length u]"
    by simp
  moreover have "(case xs @ [y] of [] \<Rightarrow> -1 | zs \<Rightarrow> int (last zs)) = int y" for xs and y :: nat
    by (cases xs) auto
  ultimately show ?thesis by (simp only: last_index_def)
qed

lemma index_from_bound: "index_from n t u = -1 \<or> int n \<le> index_from n t u"
proof (induction u arbitrary: n)
  case (Cons d u)
  show ?case using Cons [of "Suc n"] index_from.simps [of n t "d # u"] by auto
qed (simp add: index_from.simps)

lemma index_of_not_0: "take (length t) s \<noteq> t \<Longrightarrow> index_of s t \<noteq> 0"
  using index_from.simps [of 0 t s] index_from_bound [of 1 t "tl s"]
  by (cases s) (auto simp: index_of_def)

text \<open>The extension of an address is the text between the last point before a question mark or a
  hash and that mark; an address with neither point nor mark is taken for an extension as a whole. Data
  that is no text is sent as JSON whatever the content type, except one that begins with \<open>json\<close>.\<close>

theorem service_settings:
  assumes "set (path @ ext) \<inter> {35, 63} = {}" "46 \<notin> set ext" "rest = [] \<or> hd rest = 63"
    and "contentType s = Some c" "take 4 (lower c) \<noteq> js ''json''" "lower ext \<notin> {js ''json'', js ''xml'', js ''html'', js ''txt''}"
    and "processData s = Some True" "request_data s = Some v" "\<forall>t. v \<noteq> J_str t"
  shows "url_ext (path @ 46 # ext @ rest) = lower ext \<and>
    (46 \<notin> set path \<longrightarrow> url_ext path = lower path) \<and>
    request_data (ServiceHelper (path @ 46 # ext @ rest) s) = Some (J_str (stringify v))"
proof -
  let ?url = "path @ 46 # ext @ rest"
  have marks: "index_of ?url [63] = (if rest = [] then -1 else int (length path + Suc (length ext)))"
  proof (cases rest)
    case Nil
    then show ?thesis using assms(1) by (auto simp: index_of_char)
  next
    case (Cons d r)
    have "takeWhile (\<lambda>d. d \<noteq> 63) ((path @ 46 # ext) @ rest) = (path @ 46 # ext) @ takeWhile (\<lambda>d. d \<noteq> 63) rest"
      using assms(1) by (intro takeWhile_append2) auto
    then have "takeWhile (\<lambda>d. d \<noteq> 63) ?url = path @ 46 # ext" using Cons assms(3) by simp
    then show ?thesis using Cons assms(3) by (simp add: index_of_char)
  qed
  have hash: "rest = [] \<Longrightarrow> index_of ?url [35] = -1" using assms(1) by (auto simp: index_of_char)
  have l: "last_index 46 ?url (length path + Suc (length ext)) = int (length path)"
    using assms(2,3) by (intro last_index_dot) auto
  have ext: "url_ext ?url = lower ext"
  proof -
    have q: "js ''?'' = [63]" "js ''#'' = [35]" by simp_all
    define e where "e = length path + Suc (length ext)"
    have end_: "(if (if index_of ?url [63] < 0 then index_of ?url [35] else index_of ?url [63]) < 0 then int (length ?url)
        else if index_of ?url [63] < 0 then index_of ?url [35] else index_of ?url [63]) = int e"
      using marks hash by (cases "rest = []") (simp_all add: e_def)
    have "url_ext ?url = lower (substring ?url (last_index 46 ?url e + 1) (int e))"
      unfolding url_ext_def Let_def q end_ by (simp only: nat_int)
    also have "last_index 46 ?url e = int (length path)" using l by (simp add: e_def)
    also have "substring ?url (int (length path) + 1) (int e) = ext"
      by (simp add: substring_def Let_def nat_add_distrib e_def)
    finally show ?thesis .
  qed
  have plain: "url_ext path = lower path" if "46 \<notin> set path"
  proof -
    have "last_index 46 path n = -1" for n
    proof -
      have "filter (\<lambda>j. path ! j = 46) [0..<min (Suc n) (length path)] = []"
        using that by (auto simp: filter_empty_conv in_set_conv_nth)
      then show ?thesis by (simp add: last_index_def)
    qed
    moreover have "index_of path [63] = -1" "index_of path [35] = -1" using assms(1) by (auto simp: index_of_char)
    ultimately show ?thesis by (simp add: url_ext_def Let_def substring_def)
  qed
  have "index_of (lower c) (js ''json'') \<noteq> 0" using assms(5) by (intro index_of_not_0) (simp add: eval_nat_numeral)
  then have "request_data (ServiceHelper ?url s) = Some (J_str (stringify v))"
    using assms(4,6-9) by (simp add: ServiceHelper_def ext Let_def ext_content_def)
  then show ?thesis using ext plain by simp
qed

lemma service_settings_witness:
  "url_ext (js ''/a.do?b'') = js ''do'' \<and>
   request_data (ServiceHelper (js ''/a.do?b'') (service_defaults\<lparr>contentType := Some (js ''text/xml''), request_data := Some (J_bool True)\<rparr>)) =
     Some (J_str (js ''true''))"
  using service_settings [of "js ''/a''" "js ''do''" "js ''?b''"
      "service_defaults\<lparr>contentType := Some (js ''text/xml''), request_data := Some (J_bool True)\<rparr>" "js ''text/xml''" "J_bool True"]
  by (simp add: lower_def service_defaults_def)

end
