(* ===== verification/Check_Tree.thy ===== *)
theory Check_Tree
  imports Prelude "HOL-Library.Sublist"
begin

text \<open>
  \<open>assets/plugins/boostrap-tree/bootstrap-tree.js\<close>: trees of items with boxes that can be checked, with
  radio buttons, and with branches that can be folded. An item is the path of positions from the root
  list to its \<open>li\<close>; the set \<open>ticked\<close> holds the items whose box is checked (class
  \<open>fa-check-square-o\<close>), \<open>picked\<close> those whose radio button is (\<open>fa-dot-circle-o\<close>), \<open>folded\<close> the items that are hidden and \<open>marked\<close>
  those whose title and sign say that the branch can be expanded. Every item has one box or button in its
  \<open>span\<close>; animations are taken at their end.
\<close>

section \<open>Trees\<close>

type_synonym path = "nat list"

record tree =
  items :: "path list"
  ticked :: "path set"
  picked :: "path set"
  folded :: "path set"
  marked :: "path set"

definition kids :: "tree \<Rightarrow> path \<Rightarrow> path list" where
  "kids t p = filter (\<lambda>q. q \<noteq> [] \<and> butlast q = p) (items t)"

definition below :: "tree \<Rightarrow> path \<Rightarrow> path list" where
  "below t p = filter (\<lambda>q. strict_prefix p q) (items t)"

text \<open>The list an item stands in is in an item, unless it is the root list.\<close>

definition parent_item :: "path \<Rightarrow> path option" where
  "parent_item p = (if length p \<le> 1 then None else Some (butlast p))"

section \<open>Handlers\<close>

function uncheckAncestors :: "path \<Rightarrow> tree \<Rightarrow> tree" where
  "uncheckAncestors p t =
     (if \<not> list_ex (\<lambda>q. q \<in> ticked t) (kids t (butlast p)) then
        (case parent_item p of
           Some q \<Rightarrow> uncheckAncestors q (t\<lparr>ticked := ticked t - {q}\<rparr>)
         | None \<Rightarrow> t)
      else t)"
  by pat_completeness auto
termination by (relation "measure (\<lambda>(p, t). length p)") (auto simp: parent_item_def split: if_splits)

declare uncheckAncestors.simps [simp del]

function checkAncestors :: "path \<Rightarrow> tree \<Rightarrow> tree" where
  "checkAncestors p t =
     (case parent_item p of
        Some q \<Rightarrow> if q \<notin> ticked t then checkAncestors q (t\<lparr>ticked := insert q (ticked t)\<rparr>) else t
      | None \<Rightarrow> t)"
  by pat_completeness auto
termination by (relation "measure (\<lambda>(p, t). length p)") (auto simp: parent_item_def split: if_splits)

declare checkAncestors.simps [simp del]

text \<open>
  The letters of \<open>data-link-type\<close> for checking (\<open>Y\<close>) and unchecking (\<open>N\<close>): \<open>p\<close> updates the ancestors,
  \<open>s\<close> the descendants. Both are \<open>ps\<close> by default.
\<close>

record link_type =
  link_Y :: string
  link_N :: string

definition default_link :: link_type where
  "default_link = \<lparr>link_Y = ''ps'', link_N = ''ps''\<rparr>"

definition click_box :: "link_type \<Rightarrow> path \<Rightarrow> tree \<Rightarrow> tree" where
  "click_box linkType p t =
     (if p \<in> ticked t then
        let t = t\<lparr>ticked := ticked t - {p}\<rparr>;
            t = (if CHR ''s'' \<in> set (link_N linkType) then t\<lparr>ticked := ticked t - set (below t p)\<rparr> else t)
        in if CHR ''p'' \<in> set (link_N linkType) then uncheckAncestors p t else t
      else
        let t = t\<lparr>ticked := insert p (ticked t)\<rparr>;
            t = (if CHR ''s'' \<in> set (link_Y linkType) then t\<lparr>ticked := ticked t \<union> set (below t p)\<rparr> else t)
        in if CHR ''p'' \<in> set (link_Y linkType) then checkAncestors p t else t)"

definition click_radio :: "path \<Rightarrow> tree \<Rightarrow> tree" where
  "click_radio p t = (if p \<notin> picked t then t\<lparr>picked := insert p (picked t - set (items t))\<rparr> else t)"

definition click_branch :: "path \<Rightarrow> tree \<Rightarrow> tree" where
  "click_branch p t =
     (let children = kids t p
      in if children = [] then t
         else if list_ex (\<lambda>q. q \<notin> folded t) children
         then t\<lparr>folded := folded t \<union> set children, marked := insert p (marked t)\<rparr>
         else t\<lparr>folded := folded t - set children, marked := marked t - {p}\<rparr>)"

section \<open>Consistent trees\<close>

definition wf_tree :: "tree \<Rightarrow> bool" where
  "wf_tree t \<longleftrightarrow> list_all (\<lambda>p. p \<noteq> [] \<and> (length p > 1 \<longrightarrow> butlast p \<in> set (items t))) (items t) \<and> ticked t \<subseteq> set (items t)"

text \<open>A box with items below it is checked when one of these is.\<close>

definition box_ok :: "tree \<Rightarrow> path \<Rightarrow> bool" where
  "box_ok t p \<longleftrightarrow> (kids t p \<noteq> [] \<longrightarrow> (p \<in> ticked t \<longleftrightarrow> (\<exists>q \<in> set (kids t p). q \<in> ticked t)))"

definition consistent :: "tree \<Rightarrow> bool" where
  "consistent t \<longleftrightarrow> wf_tree t \<and> list_all (box_ok t) (items t)"

lemma kids_ticked [simp]: "kids (t\<lparr>ticked := S\<rparr>) p = kids t p"
  by (simp add: kids_def)

lemma below_ticked [simp]: "below (t\<lparr>ticked := S\<rparr>) p = below t p"
  by (simp add: below_def)

lemma in_kids: "q \<in> set (kids t p) \<longleftrightarrow> q \<in> set (items t) \<and> q \<noteq> [] \<and> butlast q = p"
  by (auto simp: kids_def)

lemma parent_some: "parent_item p = Some q \<longleftrightarrow> length p > 1 \<and> q = butlast p"
  by (auto simp: parent_item_def)

lemma butlast_neq: "p \<noteq> [] \<Longrightarrow> butlast p \<noteq> p"
  by (metis append_butlast_last_id not_Cons_self2 self_append_conv)

lemma box_ok_cong:
  assumes "box_ok t q" "q \<in> ticked t \<longleftrightarrow> q \<in> S" "\<And>k. k \<in> set (kids t q) \<Longrightarrow> k \<in> ticked t \<longleftrightarrow> k \<in> S"
  shows "box_ok (t\<lparr>ticked := S\<rparr>) q"
  using assms by (simp add: box_ok_def)

lemma kid_parent:
  assumes "wf_tree t" "q \<in> set (kids t r)" "r \<in> set (items t)"
  shows "parent_item q = Some r"
proof -
  have "r \<noteq> []" "q \<noteq> []" "butlast q = r" using assms by (auto simp: wf_tree_def list_all_iff in_kids)
  then show ?thesis by (cases q rule: rev_cases) (auto simp: parent_some Suc_lessI)
qed

lemma parent_in_items: "wf_tree t \<Longrightarrow> p \<in> set (items t) \<Longrightarrow> parent_item p = Some q \<Longrightarrow> q \<in> set (items t) \<and> p \<in> set (kids t q)"
  by (auto simp: wf_tree_def list_all_iff parent_some in_kids)

text \<open>The loops up the tree: all boxes are right but perhaps the one above the current item.\<close>

lemma uncheckAncestors_inv:
  assumes "wf_tree t" "p \<in> set (items t)" "p \<notin> ticked t"
    and "\<And>q. q \<in> set (items t) \<Longrightarrow> parent_item p \<noteq> Some q \<Longrightarrow> box_ok t q"
    and "\<And>q. parent_item p = Some q \<Longrightarrow> q \<in> ticked t"
  shows "consistent (uncheckAncestors p t) \<and> items (uncheckAncestors p t) = items t"
  using assms
proof (induction p t rule: uncheckAncestors.induct)
  case (1 p t)
  show ?case
  proof (cases "list_ex (\<lambda>q. q \<in> ticked t) (kids t (butlast p))")
    case True
    have "box_ok t q" if "parent_item p = Some q" for q
      using True 1(6) [OF that] that by (auto simp: box_ok_def parent_some list_ex_iff)
    then have "consistent t" using 1(2,5) by (auto simp: consistent_def list_all_iff)
    then show ?thesis using True by (simp add: uncheckAncestors.simps [of p t])
  next
    case False
    show ?thesis
    proof (cases "parent_item p")
      case None
      then show ?thesis using False 1(2,5) by (simp add: uncheckAncestors.simps [of p t] consistent_def list_all_iff)
    next
      case (Some q)
      let ?t = "t\<lparr>ticked := ticked t - {q}\<rparr>"
      have q: "q = butlast p" "length p > 1" "q \<noteq> []" "q \<in> set (items t)" "q \<in> ticked t"
        using Some 1(2,3,6) by (auto simp: parent_some wf_tree_def list_all_iff)
      have "consistent (uncheckAncestors q ?t) \<and> items (uncheckAncestors q ?t) = items ?t"
      proof (rule 1(1) [OF False Some])
        show "wf_tree ?t" using 1(2) by (auto simp: wf_tree_def)
        show "q \<in> set (items ?t)" "q \<notin> ticked ?t" using q by simp_all
        show "box_ok ?t r" if "r \<in> set (items ?t)" "parent_item q \<noteq> Some r" for r
        proof (cases "r = q")
          case True
          then show ?thesis using False q by (auto simp: box_ok_def list_ex_iff)
        next
          case ne: False
          have "q \<notin> set (kids t r)" using kid_parent [OF 1(2)] that by auto
          then show ?thesis
            using that ne 1(5) [of r] Some by (intro box_ok_cong) auto
        qed
        show "r \<in> ticked ?t" if r: "parent_item q = Some r" for r
        proof -
          have "r \<noteq> q" using r q(3) by (auto simp: parent_some butlast_neq)
          moreover have "r \<in> set (items t)" using r 1(2) q(4) by (auto simp: wf_tree_def list_all_iff parent_some)
          moreover have "box_ok t r" using 1(5) [of r] \<open>r \<in> set (items t)\<close> \<open>r \<noteq> q\<close> Some by simp
          moreover have "q \<in> set (kids t r)" using r q by (auto simp: in_kids parent_some)
          ultimately show ?thesis using q(5) by (auto simp: box_ok_def)
        qed
      qed
      then show ?thesis using False Some by (simp add: uncheckAncestors.simps [of p t])
    qed
  qed
qed

lemma checkAncestors_inv:
  assumes "wf_tree t" "p \<in> set (items t)" "p \<in> ticked t"
    and "\<And>q. q \<in> set (items t) \<Longrightarrow> parent_item p \<noteq> Some q \<Longrightarrow> box_ok t q"
  shows "consistent (checkAncestors p t) \<and> items (checkAncestors p t) = items t"
  using assms
proof (induction p t rule: checkAncestors.induct)
  case (1 p t)
  show ?case
  proof (cases "parent_item p")
    case None
    then show ?thesis using 1(2,5) by (simp add: checkAncestors.simps [of p t] consistent_def list_all_iff)
  next
    case (Some q)
    have q: "q \<in> set (items t)" "p \<in> set (kids t q)" using parent_in_items [OF 1(2,3) Some] by simp_all
    show ?thesis
    proof (cases "q \<in> ticked t")
      case True
      then have "box_ok t q" using q(2) 1(4) by (auto simp: box_ok_def)
      then have "consistent t" using 1(2,5) Some by (auto simp: consistent_def list_all_iff)
      then show ?thesis using Some True by (simp add: checkAncestors.simps [of p t])
    next
      case False
      let ?t = "t\<lparr>ticked := insert q (ticked t)\<rparr>"
      have "consistent (checkAncestors q ?t) \<and> items (checkAncestors q ?t) = items ?t"
      proof (rule 1(1) [OF Some False])
        show "wf_tree ?t" using 1(2) q(1) by (auto simp: wf_tree_def)
        show "q \<in> set (items ?t)" "q \<in> ticked ?t" using q by simp_all
        show "box_ok ?t r" if "r \<in> set (items ?t)" "parent_item q \<noteq> Some r" for r
        proof (cases "r = q")
          case True
          then show ?thesis using q(2) 1(4) by (auto simp: box_ok_def)
        next
          case ne: False
          have "q \<notin> set (kids t r)" using kid_parent [OF 1(2)] that by auto
          then show ?thesis using that ne 1(5) [of r] Some by (intro box_ok_cong) auto
        qed
      qed
      then show ?thesis using False Some by (simp add: checkAncestors.simps [of p t])
    qed
  qed
qed

text \<open>The loops change only boxes of items that have items below.\<close>

definition leaves :: "tree \<Rightarrow> path set" where
  "leaves t = {p \<in> set (items t). kids t p = []}"

definition leaf_ticks :: "tree \<Rightarrow> path set" where
  "leaf_ticks t = ticked t \<inter> leaves t"

definition leaves_at :: "tree \<Rightarrow> path \<Rightarrow> path set" where
  "leaves_at t p = {q \<in> leaves t. prefix p q}"

lemma leaves_ticked [simp]: "leaves (t\<lparr>ticked := S\<rparr>) = leaves t"
  by (simp add: leaves_def)

lemma parent_no_leaf:
  assumes "wf_tree t" "p \<in> set (items t)" "parent_item p = Some q"
  shows "q \<notin> leaves t"
  using parent_in_items [OF assms] by (auto simp: leaves_def)

lemma uncheckAncestors_leaves:
  "wf_tree t \<Longrightarrow> p \<in> set (items t) \<Longrightarrow> leaf_ticks (uncheckAncestors p t) = leaf_ticks t"
proof (induction p t rule: uncheckAncestors.induct)
  case (1 p t)
  then show ?case
    using parent_no_leaf [OF 1(2,3)] parent_in_items [OF 1(2,3)]
    by (subst uncheckAncestors.simps) (auto simp: leaf_ticks_def wf_tree_def split: option.split)
qed

lemma checkAncestors_leaves:
  "wf_tree t \<Longrightarrow> p \<in> set (items t) \<Longrightarrow> leaf_ticks (checkAncestors p t) = leaf_ticks t"
proof (induction p t rule: checkAncestors.induct)
  case (1 p t)
  then show ?case
    using parent_no_leaf [OF 1(2,3)] parent_in_items [OF 1(2,3)]
    by (subst checkAncestors.simps) (auto simp: leaf_ticks_def wf_tree_def split: option.split)
qed

lemma below_kid:
  assumes "wf_tree t" "r \<in> set (items t)" "k \<in> set (kids t r)"
  shows "prefix p k \<longleftrightarrow> k = p \<or> prefix p r"
proof -
  have "k \<noteq> []" "butlast k = r" using assms(3) by (simp_all add: in_kids)
  then obtain x where "k = r @ [x]" by (metis append_butlast_last_id)
  then show ?thesis by (auto simp: prefix_snoc)
qed

lemma in_below: "q \<in> set (below t p) \<longleftrightarrow> q \<in> set (items t) \<and> strict_prefix p q"
  by (auto simp: below_def)

lemma prefix_in_items:
  assumes "wf_tree t" "p \<noteq> []"
  shows "q \<in> set (items t) \<Longrightarrow> prefix p q \<Longrightarrow> p \<in> set (items t)"
proof (induction q rule: rev_induct)
  case (snoc x q)
  show ?case
  proof (cases "p = q @ [x]")
    case False
    then have "prefix p q" "q \<noteq> []" using snoc.prems(2) assms(2) by auto
    moreover from this have "q \<in> set (items t)"
      using snoc.prems(1) assms(1) by (auto simp: wf_tree_def list_all_iff)
    ultimately show ?thesis by (intro snoc.IH)
  qed (use snoc.prems in simp)
qed (use assms(2) in simp)

lemma kid_below:
  assumes "wf_tree t" "q \<in> set (items t)" "strict_prefix p q"
  shows "\<exists>k \<in> set (kids t p). prefix k q"
proof -
  obtain zs where "q = p @ zs" "zs \<noteq> []" using assms(3) by (auto simp: strict_prefix_def prefix_def)
  then obtain x w where q: "q = p @ x # w" by (cases zs) auto
  have "p @ [x] \<in> set (items t)" by (rule prefix_in_items [OF assms(1) _ assms(2)]) (simp_all add: q)
  then show ?thesis using q by (intro bexI [of _ "p @ [x]"]) (auto simp: in_kids)
qed

lemma leaves_at_kids:
  assumes "wf_tree t" "kids t p \<noteq> []"
  shows "leaves_at t p = (\<Union>k \<in> set (kids t p). leaves_at t k)"
proof (intro equalityI subsetI)
  fix q assume q: "q \<in> leaves_at t p"
  then have "strict_prefix p q" using assms(2) by (auto simp: leaves_at_def leaves_def strict_prefix_def)
  then show "q \<in> (\<Union>k \<in> set (kids t p). leaves_at t k)"
    using kid_below [OF assms(1), of q p] q by (auto simp: leaves_at_def leaves_def)
next
  fix q assume "q \<in> (\<Union>k \<in> set (kids t p). leaves_at t k)"
  then obtain k where k: "k \<in> set (kids t p)" "q \<in> leaves_at t k" by blast
  then have "prefix p k" using prefixeq_butlast [of k] by (auto simp: in_kids)
  then show "q \<in> leaves_at t p" using k(2) by (auto simp: leaves_at_def)
qed

lemma leaves_at_leaf:
  assumes "wf_tree t" "p \<in> set (items t)" "kids t p = []"
  shows "leaves_at t p = {p}"
proof -
  have "q = p" if "q \<in> leaves_at t p" for q
    using kid_below [OF assms(1), of q p] that assms(3) by (auto simp: leaves_at_def leaves_def strict_prefix_def)
  then show ?thesis using assms by (auto simp: leaves_at_def leaves_def)
qed

text \<open>A box is checked when a leaf below it or itself is.\<close>

lemma box_by_leaves:
  assumes "consistent t" "p \<in> set (items t)"
  shows "p \<in> ticked t \<longleftrightarrow> leaf_ticks t \<inter> leaves_at t p \<noteq> {}"
proof -
  define M where "M = Max (length ` set (items t))"
  have M: "length q \<le> M" if "q \<in> set (items t)" for q using that by (simp add: M_def)
  have wf: "wf_tree t" using assms(1) by (simp add: consistent_def)
  show ?thesis
    using assms(2)
  proof (induction "M - length p" arbitrary: p rule: less_induct)
    case less
    show ?case
    proof (cases "kids t p = []")
      case True
      then show ?thesis
        using less.prems leaves_at_leaf [OF wf less.prems True] by (auto simp: leaf_ticks_def leaves_def)
    next
      case False
      have "k \<in> ticked t \<longleftrightarrow> leaf_ticks t \<inter> leaves_at t k \<noteq> {}" if "k \<in> set (kids t p)" for k
      proof (rule less.hyps)
        have "length k = Suc (length p)" using that by (auto simp: in_kids)
        then show "M - length k < M - length p" using M [of k] that by (auto simp: in_kids)
        show "k \<in> set (items t)" using that by (simp add: in_kids)
      qed
      moreover have "p \<in> ticked t \<longleftrightarrow> (\<exists>k \<in> set (kids t p). k \<in> ticked t)"
        using assms(1) less.prems False by (auto simp: consistent_def list_all_iff box_ok_def)
      ultimately show ?thesis unfolding leaves_at_kids [OF wf False] by blast
    qed
  qed
qed

section \<open>Clicks on boxes\<close>

definition branch :: "tree \<Rightarrow> path \<Rightarrow> path set" where
  "branch t p = insert p (set (below t p))"

lemma in_branch: "p \<in> set (items t) \<Longrightarrow> q \<in> branch t p \<longleftrightarrow> q \<in> set (items t) \<and> prefix p q"
  by (auto simp: branch_def in_below strict_prefix_def)

lemma branch_leaves: "p \<in> set (items t) \<Longrightarrow> leaves t \<inter> branch t p = leaves_at t p"
  unfolding leaves_at_def by (auto simp: in_branch leaves_def)

lemma kid_in_branch:
  assumes "wf_tree t" "p \<in> set (items t)" "r \<in> set (items t)" "k \<in> set (kids t r)"
  shows "k \<in> branch t p \<longleftrightarrow> k = p \<or> r \<in> branch t p"
  using below_kid [OF assms(1,3,4), of p] assms(2-4) by (auto simp: in_branch in_kids)

text \<open>Setting a branch leaves all boxes right but perhaps the one above it.\<close>

lemma branch_boxes:
  assumes "consistent t" "p \<in> set (items t)" "r \<in> set (items t)" "parent_item p \<noteq> Some r"
  shows "box_ok (t\<lparr>ticked := ticked t - branch t p\<rparr>) r" "box_ok (t\<lparr>ticked := ticked t \<union> branch t p\<rparr>) r"
proof -
  have wf: "wf_tree t" and ok: "box_ok t r" using assms(1,3) by (auto simp: consistent_def list_all_iff)
  have kids: "k \<in> branch t p \<longleftrightarrow> r \<in> branch t p" if k: "k \<in> set (kids t r)" for k
  proof -
    have "k = p \<Longrightarrow> False" using kid_parent [OF wf k assms(3)] assms(4) by auto
    then show ?thesis using kid_in_branch [OF wf assms(2,3) k] by blast
  qed
  show "box_ok (t\<lparr>ticked := ticked t - branch t p\<rparr>) r"
    using kids ok by (auto simp: box_ok_def)
  show "box_ok (t\<lparr>ticked := ticked t \<union> branch t p\<rparr>) r"
    using kids ok by (cases "kids t r") (auto simp: box_ok_def)
qed

lemma branch_parent:
  assumes "consistent t" "p \<in> set (items t)" "p \<in> ticked t" "parent_item p = Some q"
  shows "q \<in> ticked t - branch t p"
proof -
  have q: "q \<in> set (items t)" "p \<in> set (kids t q)" "box_ok t q"
    using parent_in_items [OF _ assms(2,4)] assms(1) by (auto simp: consistent_def list_all_iff)
  then have "q \<in> ticked t" using assms(3) by (auto simp: box_ok_def)
  moreover have "length q < length p" using assms(4) by (auto simp: parent_some)
  ultimately show ?thesis using assms(2) by (auto simp: in_branch dest: prefix_length_le)
qed

text \<open>C5. With links in both directions, as by default, the boxes are a view of the checked leaves: each box
  shows whether a leaf below it is checked, a click on one checks all leaves below it or unchecks them all
  and touches no other leaf, and every box is right again after it.\<close>

theorem click_refines_leaves:
  assumes "consistent t" "p \<in> set (items t)" "set ''ps'' \<subseteq> set (link_Y l)" "set ''ps'' \<subseteq> set (link_N l)"
  shows "consistent (click_box l p t) \<and>
    leaf_ticks (click_box l p t) =
      (if leaf_ticks t \<inter> leaves_at t p \<noteq> {} then leaf_ticks t - leaves_at t p else leaf_ticks t \<union> leaves_at t p)"
proof -
  let ?u = "t\<lparr>ticked := ticked t - branch t p\<rparr>" and ?c = "t\<lparr>ticked := ticked t \<union> branch t p\<rparr>"
  note leaf = branch_leaves [OF assms(2)]
  have wf: "wf_tree ?u" "wf_tree ?c"
    using assms(1,2) by (auto simp: consistent_def wf_tree_def in_branch)
  have p: "p \<in> branch t p" by (simp add: branch_def)
  show ?thesis
  proof (cases "p \<in> ticked t")
    case True
    have e: "ticked t - {p} - set (below t p) = ticked t - branch t p" by (auto simp: branch_def)
    have c: "click_box l p t = uncheckAncestors p ?u"
      using True assms(4) e by (simp add: click_box_def Let_def)
    have "consistent (uncheckAncestors p ?u)"
      using uncheckAncestors_inv [OF wf(1), of p] branch_boxes(1) [OF assms(1,2)] branch_parent [OF assms(1,2) True]
        assms(2) p by simp
    moreover have "leaf_ticks (uncheckAncestors p ?u) = leaf_ticks t - leaves_at t p"
      using uncheckAncestors_leaves [OF wf(1), of p] assms(2) leaf by (auto simp: leaf_ticks_def)
    ultimately show ?thesis using True box_by_leaves [OF assms(1,2)] c by simp
  next
    case False
    have c: "click_box l p t = checkAncestors p ?c"
      using False assms(3) by (simp add: click_box_def Let_def branch_def)
    have "consistent (checkAncestors p ?c)"
      using checkAncestors_inv [OF wf(2), of p] branch_boxes(2) [OF assms(1,2)] assms(2) p by simp
    moreover have "leaf_ticks (checkAncestors p ?c) = leaf_ticks t \<union> leaves_at t p"
      using checkAncestors_leaves [OF wf(2), of p] assms(2) leaf by (auto simp: leaf_ticks_def)
    ultimately show ?thesis using False box_by_leaves [OF assms(1,2)] c by simp
  qed
qed

definition demo_tree :: tree where
  "demo_tree = \<lparr>items = [[0], [0, 0], [0, 1], [1]], ticked = {[0], [0, 1]}, picked = {}, folded = {}, marked = {}\<rparr>"

lemma click_refines_leaves_witness:
  "leaf_ticks (click_box default_link [0] demo_tree) = {}"
proof -
  have "consistent demo_tree" by (auto simp: demo_tree_def consistent_def wf_tree_def box_ok_def kids_def)
  moreover have "leaf_ticks demo_tree = {[0, 1]}" by (auto simp: leaf_ticks_def leaves_def demo_tree_def kids_def)
  moreover have "leaves_at demo_tree [0] = {[0, 0], [0, 1]}"
    by (auto simp: leaves_at_def leaves_def demo_tree_def kids_def prefix_def)
  ultimately show ?thesis
    using click_refines_leaves [of demo_tree "[0]" default_link] by (simp add: demo_tree_def default_link_def)
qed

section \<open>Radio buttons and branches\<close>

text \<open>Of the radio buttons of a tree at most one is selected after a click on one, and two clicks on a
  branch whose items are all shown or all hidden restore it.\<close>

lemma radio_and_branches:
  "(p \<in> set (items t) \<and> picked t \<subseteq> set (items t) \<and> p \<notin> picked t \<longrightarrow> picked (click_radio p t) = {p}) \<and>
   (set (kids t p) \<inter> folded t = {} \<and> p \<notin> marked t \<longrightarrow> click_branch p (click_branch p t) = t)"
proof (intro conjI impI; elim conjE)
  show "picked (click_radio p t) = {p}" if "p \<in> set (items t)" "picked t \<subseteq> set (items t)" "p \<notin> picked t"
    using that by (auto simp: click_radio_def)
next
  assume k: "set (kids t p) \<inter> folded t = {}" "p \<notin> marked t"
  have same: "kids (t\<lparr>folded := F, marked := M\<rparr>) p = kids t p" for F M by (simp add: kids_def)
  show "click_branch p (click_branch p t) = t"
  proof (cases "kids t p = []")
    case False
    then obtain q where "q \<in> set (kids t p)" "q \<notin> folded t" using k(1) by (cases "kids t p") auto
    then have "click_branch p t = t\<lparr>folded := folded t \<union> set (kids t p), marked := insert p (marked t)\<rparr>"
      using False by (auto simp: click_branch_def Let_def list_ex_iff)
    moreover have "(folded t \<union> set (kids t p)) - set (kids t p) = folded t" "insert p (marked t) - {p} = marked t" using k by auto
    ultimately show ?thesis using False by (simp add: click_branch_def Let_def same list_ex_iff)
  qed (simp add: click_branch_def)
qed

end
