(* ===== verification/App_Shell.thy ===== *)
theory App_Shell
  imports Js_Strings
begin

text \<open>
  \<open>assets/js/app.js\<close> and \<open>assets/js/main.js\<close>: the frame around the pages. Its state are the classes of the
  page's elements, the panels that can be enlarged, and the login window that answers with status 401 open.
  Elements that are given classes are sets of class names; animations are taken at their end.
\<close>

section \<open>Classes of the page\<close>

record shell =
  root_classes :: "string set"
  html_classes :: "string set"
  device :: "string option"

definition toggle :: "'a \<Rightarrow> 'a set \<Rightarrow> 'a set" where
  "toggle c cs = (if c \<in> cs then cs - {c} else insert c cs)"

text \<open>The start of the application, on a mobile device or not, in a frame or not, for a width of the window.\<close>

definition initApp :: "bool \<Rightarrow> bool \<Rightarrow> int \<Rightarrow> shell \<Rightarrow> shell" where
  "initApp ismobile framed width s =
     (let s = (if ismobile then s\<lparr>root_classes := insert ''mobile-detected'' (root_classes s), device := Some ''mobile''\<rparr>
               else s\<lparr>root_classes := {''desktop-detected'', ''fixed-page-footer''} \<union> root_classes s, device := Some ''desktop''\<rparr>);
          s = (if ismobile then s\<lparr>root_classes := insert ''needsclick'' (root_classes s)\<rparr> else s);
          s = (if framed then s\<lparr>root_classes := insert ''iframe-detected'' (root_classes s)\<rparr> else s)
      in if width < 979 then s\<lparr>root_classes := insert ''mobile-view-activated'' (root_classes s) - {''minified''}\<rparr>
         else s\<lparr>root_classes := root_classes s - {''mobile-view-activated''}\<rparr>)"

definition launchFullscreen :: "shell \<Rightarrow> shell" where
  "launchFullscreen s =
     (if ''full-screen'' \<in> root_classes s then s\<lparr>root_classes := root_classes s - {''full-screen''}\<rparr>
      else s\<lparr>root_classes := insert ''full-screen'' (root_classes s)\<rparr>)"

definition minifyMenu :: "shell \<Rightarrow> shell" where
  "minifyMenu s =
     (if ''menu-on-top'' \<notin> root_classes s then
        s\<lparr>root_classes := toggle ''minified'' (root_classes s) - {''hidden-menu''},
          html_classes := html_classes s - {''hidden-menu-mobile-lock''}\<rparr>
      else s)"

definition toggleMenu :: "int \<Rightarrow> shell \<Rightarrow> shell" where
  "toggleMenu width s =
     (let hide = (\<lambda>s. s\<lparr>html_classes := toggle ''hidden-menu-mobile-lock'' (html_classes s),
            root_classes := toggle ''hidden-menu'' (root_classes s) - {''minified''}\<rparr>)
      in if ''menu-on-top'' \<in> root_classes s then if width < 979 then hide s else s
         else hide s)"

definition search_mobile :: "bool \<Rightarrow> shell \<Rightarrow> shell" where
  "search_mobile on s =
     (if on then s\<lparr>root_classes := insert ''search-mobile'' (root_classes s)\<rparr>
      else s\<lparr>root_classes := root_classes s - {''search-mobile''}\<rparr>)"

text \<open>
  The path above the page and the title: the entries of the menu that lead to the page, then the branches
  that are not empty. Texts are trimmed and without the number of unread messages.
\<close>

definition drawBreadCrumb :: "jsstr list \<Rightarrow> jsstr list \<Rightarrow> jsstr \<Rightarrow> jsstr list \<times> jsstr" where
  "drawBreadCrumb trunks branches title =
     (let (crumbs, title) = fold (\<lambda>t (crumbs, title). (crumbs @ [t], if length trunks > 0 then title @ 45 # t else title)) trunks ([[39318, 39029]], title)
      in fold (\<lambda>n (crumbs, title). if n \<noteq> [] then (crumbs @ [n], n) else (crumbs, title)) branches (crumbs, title))"

text \<open>The messages in the header: badges with their classes and texts, and whether the list is shown.\<close>

record activity =
  badges :: "(string list \<times> string) list"
  dropdown :: bool
  active_header :: bool

definition is_bg_color :: "string \<Rightarrow> bool" where
  "is_bg_color c \<longleftrightarrow> take 9 c = ''bg-color-'' \<and> length c > 9"

definition toggleActivity :: "activity \<Rightarrow> activity" where
  "toggleActivity a =
     (let a = a\<lparr>badges := map (\<lambda>(cs, n). if ''bg-color-red'' \<in> set cs then (filter (\<lambda>c. \<not> is_bg_color c) cs, ''0'') else (cs, n)) (badges a)\<rparr>
      in if dropdown a then a\<lparr>dropdown := False, active_header := False\<rparr>
         else a\<lparr>dropdown := True, active_header := True\<rparr>)"

definition mouseup :: "bool \<Rightarrow> bool \<Rightarrow> activity \<Rightarrow> activity" where
  "mouseup is_target has_target a =
     (if \<not> is_target \<or> has_target then a\<lparr>dropdown := False, active_header := False\<rparr> else a)"

definition mark_badge :: "int \<Rightarrow> string set \<Rightarrow> string set" where
  "mark_badge n cs = (if n > 0 then {''bg-color-red'', ''bounceIn'', ''animated''} \<union> cs else cs)"

section \<open>Panels\<close>

text \<open>
  \<open>body_size\<close> is the size in pixels that is written to the panel's body, \<open>None\<close> for \<open>auto\<close>; the handlers
  of \<open>resize\<close> on the window are functions that each click creates, numbered by the clicks.
\<close>

record panel =
  fullscreen :: bool
  zoom_title :: jsstr
  heading_fixed :: bool
  footer_fixed :: bool
  body_size :: "(int \<times> int) option"
  resizers :: "nat list"
  clicks :: nat
  no_overflow :: bool
  collapsed :: bool

record sizes =
  panel_height :: int
  panel_width :: int
  heading_height :: int
  footer_height :: int

definition resize :: "sizes \<Rightarrow> panel \<Rightarrow> panel" where
  "resize z p = p\<lparr>body_size := Some (panel_height z - heading_height z - footer_height z, panel_width z)\<rparr>"

definition window_resize :: "sizes \<Rightarrow> panel \<Rightarrow> panel" where
  "window_resize z p = fold (\<lambda>_. resize z) (resizers p) p"

definition zoom_click :: "sizes \<Rightarrow> panel \<Rightarrow> panel" where
  "zoom_click z p =
     (let this = clicks p; p = p\<lparr>fullscreen := \<not> fullscreen p, clicks := Suc this\<rparr>
      in if fullscreen p then
           window_resize z (p\<lparr>zoom_title := [24674, 22797], no_overflow := True, heading_fixed := True, footer_fixed := True,
             resizers := resizers p @ [this]\<rparr>)
         else p\<lparr>zoom_title := [20840, 23631], no_overflow := False, heading_fixed := False, footer_fixed := False,
             resizers := filter (\<lambda>r. r \<noteq> this) (resizers p), body_size := None\<rparr>)"

definition toggle_click :: "panel \<Rightarrow> panel" where
  "toggle_click p = (if collapsed p then p\<lparr>collapsed := False\<rparr> else p\<lparr>collapsed := True\<rparr>)"

section \<open>Requests and the login window\<close>

text \<open>
  The pages run in frames, each with its own number of running requests (\<open>jQuery.active\<close>); they share the
  top window's mask and \<open>_login_opend\<close>, the index of the login window. \<open>windows\<close> are the indices of the open
  login windows.
\<close>

record requests =
  active :: "nat \<Rightarrow> nat"
  mask :: bool
  login_opend :: "nat option"
  windows :: "nat list"

definition ajaxStop :: "requests \<Rightarrow> requests" where
  "ajaxStop r = r\<lparr>mask := False\<rparr>"

text \<open>The end of a request of frame \<open>f\<close>; a login window opened now has the index \<open>k\<close>.\<close>

definition ajaxComplete :: "nat \<Rightarrow> nat \<Rightarrow> nat \<Rightarrow> requests \<Rightarrow> requests" where
  "ajaxComplete f status k r =
     (let r = (if status = 401 \<and> login_opend r = None then r\<lparr>login_opend := Some k, windows := windows r @ [k]\<rparr> else r);
          r = r\<lparr>active := (active r)(f := active r f - 1)\<rparr>
      in if active r f = 0 then ajaxStop r else r)"

text \<open>
  A request of frame \<open>f\<close>, which is the layer \<open>idx\<close> if it is one: while the login window is open, requests
  of other frames are aborted, which ends them with status 0.
\<close>

definition ajaxSend :: "nat \<Rightarrow> nat option \<Rightarrow> bool \<Rightarrow> requests \<Rightarrow> requests" where
  "ajaxSend f idx quiet r =
     (let r = r\<lparr>active := (active r)(f := Suc (active r f))\<rparr>
      in if login_opend r \<noteq> None \<and> idx \<noteq> login_opend r then ajaxComplete f 0 0 r
         else if \<not> quiet \<and> \<not> mask r then r\<lparr>mask := True\<rparr>
         else r)"

definition login_end :: "requests \<Rightarrow> requests" where
  "login_end r = r\<lparr>windows := filter (\<lambda>k. Some k \<noteq> login_opend r) (windows r), login_opend := None\<rparr>"

inductive request_step :: "requests \<Rightarrow> requests \<Rightarrow> bool" where
  send: "request_step r (ajaxSend f idx q r)"
| finish: "active r f > 0 \<Longrightarrow> k \<notin> set (windows r) \<Longrightarrow> request_step r (ajaxComplete f status k r)"
| login: "login_opend r \<noteq> None \<Longrightarrow> request_step r (login_end r)"

definition no_requests :: requests where
  "no_requests = \<lparr>active = (\<lambda>_. 0), mask = False, login_opend = None, windows = []\<rparr>"

section \<open>Invariants\<close>

text \<open>C22. However the requests of the frames interleave, at most one login window is open, the one whose
  index is remembered, and the mask is shown only while a request is running.\<close>

theorem one_login_window:
  assumes "request_step\<^sup>*\<^sup>* no_requests r"
  shows "windows r = (case login_opend r of None \<Rightarrow> [] | Some k \<Rightarrow> [k]) \<and> (mask r \<longrightarrow> (\<exists>f. active r f > 0))"
  using assms
proof (induction rule: rtranclp_induct)
  case base
  then show ?case by (simp add: no_requests_def)
next
  case (step r r')
  from step.hyps(2) step.IH show ?case
  proof (cases rule: request_step.cases)
    case (send f idx q)
    then show ?thesis
      using step.IH by (auto simp: ajaxSend_def ajaxComplete_def ajaxStop_def Let_def split: option.splits if_splits)
  next
    case (finish f k status)
    then show ?thesis
      using step.IH by (auto simp: ajaxComplete_def ajaxStop_def Let_def split: option.splits if_splits)
  next
    case login
    then show ?thesis using step.IH by (auto simp: login_end_def)
  qed
qed

lemma one_login_window_witness:
  "windows (ajaxComplete 1 401 8 (ajaxComplete 0 401 7 (ajaxSend 1 None False (ajaxSend 0 None False no_requests)))) = [7]"
proof -
  let ?r = "ajaxSend 1 None False (ajaxSend 0 None False no_requests)"
  have "request_step\<^sup>*\<^sup>* no_requests ?r"
    by (rule rtranclp.rtrancl_into_rtrancl [OF r_into_rtranclp [of request_step, OF request_step.send] request_step.send])
  moreover have "active ?r 0 > 0" "7 \<notin> set (windows ?r)"
    by (simp_all add: ajaxSend_def no_requests_def Let_def)
  ultimately have a: "request_step\<^sup>*\<^sup>* no_requests (ajaxComplete 0 401 7 ?r)"
    using rtranclp.rtrancl_into_rtrancl [of request_step, OF _ request_step.finish] by blast
  have "active (ajaxComplete 0 401 7 ?r) 1 > 0" "8 \<notin> set (windows (ajaxComplete 0 401 7 ?r))"
    by (simp_all add: ajaxComplete_def ajaxStop_def ajaxSend_def no_requests_def Let_def)
  note this = rtranclp.rtrancl_into_rtrancl [of request_step, OF a request_step.finish [OF this]]
  from one_login_window [OF this [of 401]] show ?thesis
    by (simp add: ajaxComplete_def ajaxStop_def ajaxSend_def no_requests_def Let_def)
qed

text \<open>Every other frame's requests are aborted while the login window is open, and leave no trace but the mask.\<close>

lemma aborted_request:
  assumes "login_opend r = Some k" "idx \<noteq> Some k"
  shows "active (ajaxSend f idx q r) = active r" "windows (ajaxSend f idx q r) = windows r"
  using assms by (auto simp: ajaxSend_def ajaxComplete_def ajaxStop_def Let_def)

text \<open>The actions of the menu and the header.\<close>

inductive menu_step :: "shell \<Rightarrow> shell \<Rightarrow> bool" where
  menu_minify: "menu_step s (minifyMenu s)"
| menu_toggle: "menu_step s (toggleMenu width s)"
| menu_full: "menu_step s (launchFullscreen s)"
| menu_search: "menu_step s (search_mobile on s)"

text \<open>The menu is never minified and hidden at once, and the page is locked exactly while it is hidden,
  whatever actions follow each other, on windows of any width.\<close>

theorem menu_states:
  assumes "menu_step\<^sup>*\<^sup>* (initApp m fr w s) t"
    and "root_classes s \<inter> {''hidden-menu'', ''minified''} = {}" "''hidden-menu-mobile-lock'' \<notin> html_classes s"
  shows "\<not> {''hidden-menu'', ''minified''} \<subseteq> root_classes t \<and>
    (''hidden-menu'' \<in> root_classes t \<longleftrightarrow> ''hidden-menu-mobile-lock'' \<in> html_classes t)"
  using assms(1)
proof (induction rule: rtranclp_induct)
  case base
  then show ?case using assms(2,3) by (auto simp: initApp_def Let_def)
next
  case (step t u)
  from step.hyps(2) step.IH show ?case
    by cases (auto simp: minifyMenu_def toggleMenu_def launchFullscreen_def search_mobile_def toggle_def Let_def split: if_splits)
qed

lemma menu_states_witness:
  "\<not> {''hidden-menu'', ''minified''} \<subseteq> root_classes (toggleMenu 800 (minifyMenu (initApp False False 1200 \<lparr>root_classes = {}, html_classes = {}, device = None\<rparr>)))"
proof -
  let ?s = "\<lparr>root_classes = {}, html_classes = {}, device = None\<rparr>"
  have "menu_step\<^sup>*\<^sup>* (initApp False False 1200 ?s) (toggleMenu 800 (minifyMenu (initApp False False 1200 ?s)))"
    by (rule rtranclp.rtrancl_into_rtrancl [OF r_into_rtranclp [of menu_step, OF menu_step.menu_minify] menu_step.menu_toggle])
  from menu_states [OF this] show ?thesis by simp
qed

text \<open>Enlarging a panel and restoring it leaves a handler on the window behind, as the function that
  is taken off is not the one that was put on: the next change of the window's size gives the restored
  panel a fixed size again.\<close>

theorem zoom_leaves_handler:
  assumes "\<not> fullscreen p" "\<forall>r \<in> set (resizers p). r < clicks p"
  shows "let q = zoom_click z (zoom_click z p) in
    \<not> fullscreen q \<and> body_size q = None \<and> resizers q = resizers p @ [clicks p] \<and>
    body_size (window_resize z' q) = Some (panel_height z' - heading_height z' - footer_height z', panel_width z')"
proof -
  have keep: "fullscreen (fold (\<lambda>_. resize z) xs p) = fullscreen p \<and> resizers (fold (\<lambda>_. resize z) xs p) = resizers p \<and>
      clicks (fold (\<lambda>_. resize z) xs p) = clicks p" for z xs p
    by (induction xs arbitrary: p) (auto simp: resize_def)
  have size: "body_size (fold (\<lambda>_. resize z) (xs @ [x]) p) =
      Some (panel_height z - heading_height z - footer_height z, panel_width z)" for z xs x p
    by (simp add: resize_def)
  have "filter (\<lambda>r. r \<noteq> Suc (clicks p)) (resizers p) = resizers p"
    using assms(2) by (auto intro!: filter_True)
  then show ?thesis
    using assms(1) by (simp add: zoom_click_def window_resize_def Let_def keep size resize_def)
qed

definition demo_panel :: panel where
  "demo_panel = \<lparr>fullscreen = False, zoom_title = [20840, 23631], heading_fixed = False, footer_fixed = False, body_size = None,
     resizers = [], clicks = 0, no_overflow = False, collapsed = False\<rparr>"

lemma zoom_leaves_handler_witness:
  "body_size (window_resize \<lparr>panel_height = 500, panel_width = 300, heading_height = 40, footer_height = 0\<rparr>
     (zoom_click \<lparr>panel_height = 900, panel_width = 800, heading_height = 40, footer_height = 0\<rparr>
       (zoom_click \<lparr>panel_height = 900, panel_width = 800, heading_height = 40, footer_height = 0\<rparr> demo_panel))) = Some (460, 300)"
  using zoom_leaves_handler [of demo_panel "\<lparr>panel_height = 900, panel_width = 800, heading_height = 40, footer_height = 0\<rparr>"
      "\<lparr>panel_height = 500, panel_width = 300, heading_height = 40, footer_height = 0\<rparr>"]
  by (simp add: demo_panel_def Let_def)

end
