(* ===== verification/Js_Object.thy ===== *)
theory Js_Object
  imports Prelude
begin

text \<open>
  Objects used as tables: the list of the properties in the order of their creation, which is the order
  of \<open>for (k in o)\<close> for keys that are no numbers. Writing a key that is there keeps its place.
\<close>

fun set_key :: "'k \<Rightarrow> 'v \<Rightarrow> ('k \<times> 'v) list \<Rightarrow> ('k \<times> 'v) list" where
  "set_key k v [] = [(k, v)]"
| "set_key k v (p # ps) = (if fst p = k then (k, v) # ps else p # set_key k v ps)"

text \<open>\<open>delete o[k]\<close>\<close>

definition del_key :: "'k \<Rightarrow> ('k \<times> 'v) list \<Rightarrow> ('k \<times> 'v) list" where
  "del_key k o' = filter (\<lambda>p. fst p \<noteq> k) o'"

text \<open>\<open>$.extend(a, b)\<close>\<close>

definition extend_with :: "('k \<times> 'v) list \<Rightarrow> ('k \<times> 'v) list \<Rightarrow> ('k \<times> 'v) list" where
  "extend_with a b = fold (\<lambda>p. set_key (fst p) (snd p)) b a"

definition has_key :: "'k \<Rightarrow> ('k \<times> 'v) list \<Rightarrow> bool" where
  "has_key k o' \<longleftrightarrow> map_of o' k \<noteq> None"

lemma map_of_set_key [simp]: "map_of (set_key k v ps) = (map_of ps)(k \<mapsto> v)"
  by (induction ps) (auto simp: fun_eq_iff)

lemma map_of_del_key [simp]: "map_of (del_key k ps) = (map_of ps)(k := None)"
  by (induction ps) (auto simp: del_key_def fun_eq_iff)

lemma map_of_extend_with: "map_of (extend_with a b) k = (case map_of (rev b) k of None \<Rightarrow> map_of a k | Some v \<Rightarrow> Some v)"
  by (induction b arbitrary: a) (auto simp: extend_with_def map_add_def split: option.splits)

lemma keys_set_key: "fst ` set (set_key k v ps) = insert k (fst ` set ps)"
  by (induction ps) auto

lemma distinct_set_key [simp]: "distinct (map fst (set_key k v ps)) = distinct (map fst ps)"
proof (induction ps)
  case (Cons p ps)
  then show ?case using keys_set_key [of k v ps] by auto
qed simp

lemma set_key_new: "k \<notin> fst ` set ps \<Longrightarrow> set_key k v ps = ps @ [(k, v)]"
  by (induction ps) auto

lemma set_key_in_front: "k \<notin> fst ` set ps \<Longrightarrow> set_key k v ((k, w) # ps) = (k, v) # ps"
  by simp

lemma distinct_extend_with: "distinct (map fst a) \<Longrightarrow> distinct (map fst (extend_with a b))"
  by (induction b arbitrary: a) (auto simp: extend_with_def)

lemma distinct_del_key: "distinct (map fst a) \<Longrightarrow> distinct (map fst (del_key k a))"
  unfolding del_key_def by (induction a) auto

lemma keys_del_key: "fst ` set (del_key k ps) = fst ` set ps - {k}"
  by (auto simp: del_key_def)

lemma keys_extend_with: "fst ` set (extend_with a b) = fst ` set a \<union> fst ` set b"
  by (induction b arbitrary: a) (auto simp: extend_with_def keys_set_key)

lemma extend_with_new:
  "distinct (map fst b) \<Longrightarrow> fst ` set b \<inter> fst ` set a = {} \<Longrightarrow> extend_with a b = a @ b"
proof (induction b arbitrary: a)
  case (Cons p b)
  then have "set_key (fst p) (snd p) a = a @ [p]" by (simp add: set_key_new)
  moreover have "extend_with (a @ [p]) b = (a @ [p]) @ b" using Cons by (intro Cons.IH) auto
  ultimately show ?case by (simp add: extend_with_def)
qed (simp add: extend_with_def)

end
