(* ===== verification/Validator_Rules.thy ===== *)
theory Validator_Rules
  imports Js_Object Validation_Rules Page_Url
begin

text \<open>
  The rules of \<open>assets/plugins/jquery-validation/jquery.validate.js\<close>: the elements of a form and their
  values, the gathering and normalising of the rules of an element, the methods that look at one value,
  and the texts of messages. The form is the list of its elements in the order of the document; an
  element is known by its place in the list. \<open>selects\<close> stands for the selector engine: the elements of
  the form that a selector finds. Values and parameters are those of JSON, with \<open>None\<close> for \<open>undefined\<close>.
\<close>

section \<open>Elements\<close>

record field =
  fname :: jsstr
  fid :: jsstr
  node :: string
  ftype :: string
  fvalue :: jval
  fchecked :: bool
  chosen :: nat
  bad_input :: "bool option"
  editable :: bool
  ftext :: jsstr
  skipped :: bool
  ignored :: bool
  fvisible :: bool
  fclass :: jsstr
  ftitle :: jsstr
  attrs :: "(jsstr \<times> jsstr) list"
  fdata :: "(jsstr \<times> jval) list"

type_synonym form_fields = "field list"

text \<open>
  \<open>node\<close> is the name of the element in lower case, \<open>chosen\<close> the number of its selected options,
  \<open>bad_input\<close> its \<open>validity.badInput\<close> where the browser has one, \<open>skipped\<close> says that it is a submit,
  reset or image button or disabled, \<open>ignored\<close> that it matches the setting \<open>ignore\<close>.
\<close>

definition checkable :: "field \<Rightarrow> bool" where
  "checkable e \<longleftrightarrow> ftype e = ''radio'' \<or> ftype e = ''checkbox''"

definition findByName :: "form_fields \<Rightarrow> jsstr \<Rightarrow> nat list" where
  "findByName fs name = filter (\<lambda>i. fname (fs ! i) = name) [0..<length fs]"

definition validationTargetFor :: "form_fields \<Rightarrow> nat \<Rightarrow> nat option" where
  "validationTargetFor fs i =
     (let found = (if checkable (fs ! i) then findByName fs (fname (fs ! i)) else [i])
      in List.find (\<lambda>j. \<not> ignored (fs ! j)) found)"

definition checked_ones :: "form_fields \<Rightarrow> jsstr \<Rightarrow> nat list" where
  "checked_ones fs name = filter (\<lambda>j. fchecked (fs ! j)) (findByName fs name)"

text \<open>The name of the file without its directory; \<open>[92]\<close> is a backslash.\<close>

definition fake_path :: jsstr where
  "fake_path = js ''C:'' @ [92] @ js ''fakepath'' @ [92]"

definition after_last :: "nat \<Rightarrow> jsstr \<Rightarrow> jsstr option" where
  "after_last c s = (let idx = last_index c s (length s) in if idx \<ge> 0 then Some (drop (nat idx + 1) s) else None)"

definition file_name :: "jsstr \<Rightarrow> jsstr" where
  "file_name val =
     (if substr val 0 12 = fake_path then drop 12 val
      else case after_last 47 val of
        Some s \<Rightarrow> s
      | None \<Rightarrow> (case after_last 92 val of Some s \<Rightarrow> s | None \<Rightarrow> val))"

definition elementValue :: "form_fields \<Rightarrow> nat \<Rightarrow> jval option" where
  "elementValue fs i =
     (let e = fs ! i
      in if checkable e then
           (case checked_ones fs (fname e) of [] \<Rightarrow> None | j # _ \<Rightarrow> Some (fvalue (fs ! j)))
         else if ftype e = ''number'' \<and> bad_input e \<noteq> None then
           Some (if bad_input e = Some True then J_str (js ''NaN'') else fvalue e)
         else
           let val = (if editable e then J_str (ftext e) else fvalue e)
           in case val of
                J_str s \<Rightarrow>
                  if ftype e = ''file'' then Some (J_str (file_name s)) else Some (J_str (replace_all 13 [] s))
              | _ \<Rightarrow> Some val)"

definition jval_length :: "jval option \<Rightarrow> nat" where
  "jval_length v = (case v of Some (J_str s) \<Rightarrow> length s | Some (J_arr xs) \<Rightarrow> length xs | _ \<Rightarrow> 0)"

definition getLength :: "form_fields \<Rightarrow> jval option \<Rightarrow> nat \<Rightarrow> nat" where
  "getLength fs val i =
     (let e = fs ! i
      in if node e = ''select'' then chosen e
         else if node e = ''input'' \<and> checkable e then length (checked_ones fs (fname e))
         else jval_length val)"

section \<open>Parameters of rules\<close>

text \<open>
  A parameter is a value, a function of the element, or an object with \<open>param\<close> or \<open>depends\<close>. The
  entry \<open>normalizer\<close> holds a function of the value, which can fail to return a text.
\<close>

datatype guard = Always | If_found jsstr | If_holds "nat \<Rightarrow> bool"

datatype param =
    Plain jval
  | Computed "nat \<Rightarrow> jval"
  | Guarded "param option" guard
  | Normalizer "jval option \<Rightarrow> jsstr option"

type_synonym rules = "(jsstr \<times> param) list"

fun param_truthy :: "param \<Rightarrow> bool" where
  "param_truthy (Plain v) = js_truthy v"
| "param_truthy _ = True"

text \<open>\<open>Number(v)\<close>\<close>

fun to_number :: "jval \<Rightarrow> jsf" where
  "to_number J_null = Fin 0"
| "to_number (J_bool b) = Fin (if b then 1 else 0)"
| "to_number (J_num x) = x"
| "to_number (J_str s) = string_to_number s"
| "to_number v = string_to_number (to_text v)"

fun number_param :: "param \<Rightarrow> param" where
  "number_param (Plain v) = Plain (J_num (to_number v))"
| "number_param p = Plain (J_num FNaN)"

text \<open>\<open>s.split(/\s/)\<close>, and \<open>s.split(/[\s,]+/)\<close>\<close>

fun split_by :: "(nat \<Rightarrow> bool) \<Rightarrow> jsstr \<Rightarrow> jsstr list" where
  "split_by sep [] = [[]]"
| "split_by sep (c # s) =
     (if sep c then [] # split_by sep s
      else (case split_by sep s of [] \<Rightarrow> [[c]] | w # ws \<Rightarrow> (c # w) # ws))"

fun split_runs :: "(nat \<Rightarrow> bool) \<Rightarrow> bool \<Rightarrow> jsstr \<Rightarrow> jsstr list" where
  "split_runs sep inside [] = [[]]"
| "split_runs sep inside (c # s) =
     (if sep c then (if inside then split_runs sep True s else [] # split_runs sep True s)
      else (case split_runs sep False s of [] \<Rightarrow> [[c]] | w # ws \<Rightarrow> (c # w) # ws))"

definition part_number :: "jsstr list \<Rightarrow> nat \<Rightarrow> jval" where
  "part_number parts k = J_num (if k < length parts then string_to_number (parts ! k) else FNaN)"

definition item_number :: "jval list \<Rightarrow> nat \<Rightarrow> jval" where
  "item_number xs k = J_num (if k < length xs then to_number (xs ! k) else FNaN)"

definition range_param :: "param \<Rightarrow> param" where
  "range_param p =
     (case p of
        Plain (J_arr xs) \<Rightarrow> Plain (J_arr [item_number xs 0, item_number xs 1])
      | Plain (J_str s) \<Rightarrow>
          let parts = split_runs (\<lambda>c. is_space c \<or> c = 44) False (filter (\<lambda>c. c \<noteq> 91 \<and> c \<noteq> 93) s)
          in Plain (J_arr [part_number parts 0, part_number parts 1])
      | _ \<Rightarrow> p)"

section \<open>Gathering rules\<close>

definition normalizeRule :: "jsstr + rules \<Rightarrow> rules" where
  "normalizeRule data =
     (case data of
        Inl s \<Rightarrow> fold (\<lambda>w. set_key w (Plain (J_bool True))) (split_by is_space s) []
      | Inr rs \<Rightarrow> rs)"

definition classRuleSettings :: "(jsstr \<times> rules) list" where
  "classRuleSettings =
     map (\<lambda>m. (js m, [(js m, Plain (J_bool True))]))
       [''required'', ''email'', ''url'', ''date'', ''dateISO'', ''number'', ''digits'', ''creditcard'']"

definition classRules :: "(jsstr \<times> rules) list \<Rightarrow> field \<Rightarrow> rules" where
  "classRules table e =
     (if fclass e = [] then []
      else fold (\<lambda>c rs. case map_of table c of None \<Rightarrow> rs | Some r \<Rightarrow> extend_with rs r)
        (split_on 32 (fclass e)) [])"

definition mentions :: "jsstr \<Rightarrow> string list \<Rightarrow> bool" where
  "mentions s words = list_ex (\<lambda>w. index_of s (js w) \<ge> 0) words"

definition number_attribute :: "jsstr option \<Rightarrow> jsstr \<Rightarrow> bool" where
  "number_attribute type method \<longleftrightarrow>
     mentions method [''min'', ''max'', ''step''] \<and>
     (case type of None \<Rightarrow> True | Some t \<Rightarrow> mentions t [''number'', ''range'', ''text''])"

definition normalizeAttributeRule :: "jsstr option \<Rightarrow> jsstr \<Rightarrow> jval option \<Rightarrow> rules \<Rightarrow> rules" where
  "normalizeAttributeRule type method val rules =
     (let val = (if number_attribute type method
                 then (case val of
                         None \<Rightarrow> None
                       | Some v \<Rightarrow> if to_number v = FNaN then None else Some (J_num (to_number v)))
                 else val)
      in case val of
           Some v \<Rightarrow>
             if js_truthy v \<or> v = J_num (Fin 0) then set_key method (Plain v) rules
             else if type = Some method \<and> method \<noteq> js ''range'' then set_key method (Plain (J_bool True)) rules
             else rules
         | None \<Rightarrow> if type = Some method \<and> method \<noteq> js ''range'' then set_key method (Plain (J_bool True)) rules else rules)"

definition type_attribute :: "field \<Rightarrow> jsstr option" where
  "type_attribute e = map_of (attrs e) (js ''type'')"

definition attribute_value :: "field \<Rightarrow> jsstr \<Rightarrow> jval option" where
  "attribute_value e method =
     (if method = js ''required'' then Some (J_bool (map_of (attrs e) method \<noteq> None))
      else map_option J_str (map_of (attrs e) method))"

definition huge_maxlength :: "param \<Rightarrow> bool" where
  "huge_maxlength p =
     (case p of
        Plain v \<Rightarrow> js_truthy v \<and> list_ex (\<lambda>w. index_of (to_text v) (js w) \<ge> 0) [''-1'', ''2147483647'', ''524288'']
      | _ \<Rightarrow> False)"

definition attributeRules :: "jsstr list \<Rightarrow> field \<Rightarrow> rules" where
  "attributeRules methods e =
     (let rules = fold (\<lambda>m. normalizeAttributeRule (type_attribute e) m (attribute_value e m)) methods []
      in case map_of rules (js ''maxlength'') of
           Some p \<Rightarrow> if huge_maxlength p then del_key (js ''maxlength'') rules else rules
         | None \<Rightarrow> rules)"

text \<open>The key of a method among the data of an element: \<open>prefix\<close>, and the method with a capital first letter.\<close>

definition data_key :: "jsstr \<Rightarrow> jsstr \<Rightarrow> jsstr" where
  "data_key start method = start @ to_upper (take 1 method) @ lower (drop 1 method)"

definition dataRules :: "jsstr list \<Rightarrow> field \<Rightarrow> rules" where
  "dataRules methods e =
     fold (\<lambda>m. normalizeAttributeRule (type_attribute e) m (map_of (fdata e) (data_key (js ''rule'') m))) methods []"

definition staticRules :: "(jsstr \<times> (jsstr + rules)) list \<Rightarrow> field \<Rightarrow> rules" where
  "staticRules settings e = (case map_of settings (fname e) of None \<Rightarrow> [] | Some r \<Rightarrow> normalizeRule r)"

section \<open>Normalising rules\<close>

text \<open>
  Rules whose dependency does not hold are dropped, and the marks of the element are reset then; the
  second result says whether one was.
\<close>

definition guard_holds :: "(jsstr \<Rightarrow> nat list) \<Rightarrow> nat \<Rightarrow> guard \<Rightarrow> bool" where
  "guard_holds selects i g =
     (case g of Always \<Rightarrow> True | If_found s \<Rightarrow> selects s \<noteq> [] | If_holds f \<Rightarrow> f i)"

definition depended :: "(jsstr \<Rightarrow> nat list) \<Rightarrow> nat \<Rightarrow> param \<Rightarrow> param option" where
  "depended selects i p =
     (case p of
        Plain v \<Rightarrow> if v = J_bool False then None else Some p
      | Guarded q g \<Rightarrow>
          if guard_holds selects i g then Some (case q of None \<Rightarrow> Plain (J_bool True) | Some q \<Rightarrow> q) else None
      | _ \<Rightarrow> Some p)"

definition drops_rule :: "(jsstr \<Rightarrow> nat list) \<Rightarrow> nat \<Rightarrow> param \<Rightarrow> bool" where
  "drops_rule selects i p = (case p of Guarded _ g \<Rightarrow> \<not> guard_holds selects i g | _ \<Rightarrow> False)"

definition evaluated :: "nat \<Rightarrow> jsstr \<Rightarrow> param \<Rightarrow> param" where
  "evaluated i method p =
     (case p of
        Computed f \<Rightarrow> if method \<noteq> js ''normalizer'' then Plain (f i) else p
      | Normalizer f \<Rightarrow> p
      | _ \<Rightarrow> p)"

definition map_key :: "jsstr \<Rightarrow> (param \<Rightarrow> param) \<Rightarrow> rules \<Rightarrow> rules" where
  "map_key k f rs =
     (case map_of rs k of None \<Rightarrow> rs | Some p \<Rightarrow> if param_truthy p then set_key k (f p) rs else rs)"

definition set_param :: "rules \<Rightarrow> jsstr \<Rightarrow> bool" where
  "set_param rs k = (case map_of rs k of None \<Rightarrow> False | Some (Plain v) \<Rightarrow> v \<noteq> J_null | _ \<Rightarrow> True)"

definition pair_of :: "rules \<Rightarrow> jsstr \<Rightarrow> jsstr \<Rightarrow> param" where
  "pair_of rs lo hi =
     Plain (J_arr (map (\<lambda>k. case map_of rs k of Some (Plain v) \<Rightarrow> v | _ \<Rightarrow> J_null) [lo, hi]))"

definition join_range :: "jsstr \<Rightarrow> jsstr \<Rightarrow> jsstr \<Rightarrow> rules \<Rightarrow> rules" where
  "join_range lo hi both rs =
     (if set_param rs lo \<and> set_param rs hi
      then del_key hi (del_key lo (set_key both (pair_of rs lo hi) rs)) else rs)"

definition normalizeRules :: "(jsstr \<Rightarrow> nat list) \<Rightarrow> bool \<Rightarrow> nat \<Rightarrow> rules \<Rightarrow> rules \<times> bool" where
  "normalizeRules selects autoCreateRanges i rs =
     (let dropped = list_ex (\<lambda>(k, p). drops_rule selects i p) rs;
          rs = List.map_filter (\<lambda>(k, p). map_option (Pair k) (depended selects i p)) rs;
          rs = map (\<lambda>(k, p). (k, evaluated i k p)) rs;
          rs = fold (\<lambda>k. map_key k number_param) [js ''minlength'', js ''maxlength''] rs;
          rs = fold (\<lambda>k. map_key k range_param) [js ''rangelength'', js ''range''] rs;
          rs = (if autoCreateRanges
                then join_range (js ''minlength'') (js ''maxlength'') (js ''rangelength'')
                       (join_range (js ''min'') (js ''max'') (js ''range'') rs)
                else rs)
      in (rs, dropped))"

text \<open>\<open>required\<close> to the front, \<open>remote\<close> to the back.\<close>

definition required_first :: "rules \<Rightarrow> rules" where
  "required_first rs =
     (case map_of rs (js ''required'') of
        Some p \<Rightarrow>
          if param_truthy p then extend_with [(js ''required'', p)] (del_key (js ''required'') rs) else rs
      | None \<Rightarrow> rs)"

definition remote_last :: "rules \<Rightarrow> rules" where
  "remote_last rs =
     (case map_of rs (js ''remote'') of
        Some p \<Rightarrow>
          if param_truthy p then extend_with (del_key (js ''remote'') rs) [(js ''remote'', p)] else rs
      | None \<Rightarrow> rs)"

end
