(* ===== verification/Validator_Methods.thy ===== *)
theory Validator_Methods
  imports Validator_Rules
begin

text \<open>
  The methods of \<open>jquery.validate.js\<close> that look at the value of an element only, the method \<open>unique\<close> of
  \<open>jquery.validate.custom.js\<close>, and the texts of messages. \<open>date\<close> rests on the dates of the
  browser; what they make of a value, and the methods a page adds, are arguments of the check.
\<close>

section \<open>Comparing values\<close>

fun text_le :: "jsstr \<Rightarrow> jsstr \<Rightarrow> bool" where
  "text_le [] t = True"
| "text_le (c # s) [] = False"
| "text_le (c # s) (d # t) = (c < d \<or> c = d \<and> text_le s t)"

fun jsf_le :: "jsf \<Rightarrow> jsf \<Rightarrow> bool" where
  "jsf_le FNaN b = False"
| "jsf_le a FNaN = False"
| "jsf_le (FInf neg) b = (neg \<or> b = FInf False)"
| "jsf_le a (FInf neg) = (\<not> neg)"
| "jsf_le (Fin x) (Fin y) = (x \<le> y)"

fun primitive :: "jval \<Rightarrow> jval" where
  "primitive (J_arr xs) = J_str (to_text (J_arr xs))"
| "primitive (J_obj ps) = J_str (to_text (J_obj ps))"
| "primitive v = v"

text \<open>\<open>a <= b\<close>: texts by their units, anything else as numbers; \<open>undefined\<close> compares with nothing.\<close>

definition value_le :: "jval option \<Rightarrow> jval option \<Rightarrow> bool" where
  "value_le a b =
     (case (a, b) of
        (Some x, Some y) \<Rightarrow>
          (case (primitive x, primitive y) of
             (J_str s, J_str t) \<Rightarrow> text_le s t
           | (x, y) \<Rightarrow> jsf_le (to_number x) (to_number y))
      | _ \<Rightarrow> False)"

text \<open>\<open>param[k]\<close>\<close>

definition item_at :: "jval \<Rightarrow> nat \<Rightarrow> jval option" where
  "item_at p k =
     (case p of
        J_arr xs \<Rightarrow> if k < length xs then Some (xs ! k) else None
      | J_str s \<Rightarrow> if k < length s then Some (J_str [s ! k]) else None
      | _ \<Rightarrow> None)"

definition count_value :: "nat \<Rightarrow> jval option" where
  "count_value n = Some (J_num (Fin (of_nat n)))"

text \<open>The remainder of doubles, which is exact and has the sign of the dividend.\<close>

definition js_rem :: "jsf \<Rightarrow> jsf \<Rightarrow> jsf" where
  "js_rem a b =
     (case (a, b) of
        (Fin x, Fin y) \<Rightarrow>
          if y = 0 then FNaN
          else let q = x / y in Fin (x - y * of_int (if q < 0 then - \<lfloor>- q\<rfloor> else \<lfloor>q\<rfloor>))
      | (Fin x, FInf _) \<Rightarrow> Fin x
      | _ \<Rightarrow> FNaN)"

definition number_value :: "jval option \<Rightarrow> jsf" where
  "number_value v = (case v of None \<Rightarrow> FNaN | Some v \<Rightarrow> to_number (primitive v))"

definition subject :: "jval option \<Rightarrow> jsstr" where
  "subject v = (case v of None \<Rightarrow> js ''undefined'' | Some v \<Rightarrow> to_text v)"

section \<open>Methods\<close>

definition depend :: "(jsstr \<Rightarrow> nat list) \<Rightarrow> jval option \<Rightarrow> bool" where
  "depend selects param =
     (case param of Some (J_bool b) \<Rightarrow> b | Some (J_str s) \<Rightarrow> selects s \<noteq> [] | _ \<Rightarrow> True)"

definition m_required :: "(jsstr \<Rightarrow> nat list) \<Rightarrow> form_fields \<Rightarrow> jval option \<Rightarrow> nat \<Rightarrow> jval option \<Rightarrow> verdict" where
  "m_required selects fs val i param =
     (if \<not> depend selects param then Mismatch
      else if node (fs ! i) = ''select'' then
        of_check (js_truthy (fvalue (fs ! i)) \<and> 0 < jval_length (Some (fvalue (fs ! i))))
      else if checkable (fs ! i) then of_check (0 < getLength fs val i)
      else of_check (0 < jval_length val))"

definition optional :: "(jsstr \<Rightarrow> nat list) \<Rightarrow> form_fields \<Rightarrow> nat \<Rightarrow> bool" where
  "optional selects fs i = (m_required selects fs (elementValue fs i) i None = Invalid)"

definition email_part :: re where
  "email_part =
     (let alnum = cls [(97, 122), (65, 90), (48, 57)]; inner = cls [(97, 122), (65, 90), (48, 57), (45, 45)]
      in Seq alnum (opt (Seq (upto_rep 61 inner) alnum)))"

definition email_local :: "(nat \<times> nat) list" where
  "email_local = [(97, 122), (65, 90), (48, 57)] @ one_of ''.!#$%&*+/=?^_{|}~-'' @ [(39, 39), (96, 96)]"

definition m_email :: "bool \<Rightarrow> jsstr \<Rightarrow> verdict" where
  "m_email opt_empty val =
     unless_optional opt_empty (re_test (whole (seqs [plus (cls email_local), chr (CHR ''@''), email_part,
       Star (Seq (chr (CHR ''.'')) email_part)])) val)"

text \<open>The address of a host by numbers, without those of private networks; by names; and the whole pattern.\<close>

definition url_numbers :: re where
  "url_numbers =
     (let part = Seq (chr (CHR ''.'')) (between 1 3 digit)
      in seqs [
        Not_look (Seq (alts [lit ''10'', lit ''127'']) (rep 3 part)),
        Not_look (Seq (alts [lit ''169.254'', lit ''192.168'']) (rep 2 part)),
        Not_look (seqs [lit ''172.'', alts [Seq (chr (CHR ''1'')) (cls (rng [(CHR ''6'', CHR ''9'')])), Seq (chr (CHR ''2'')) digit,
           Seq (chr (CHR ''3'')) (cls (rng [(CHR ''0'', CHR ''1'')]))], rep 2 part]),
        alts [Seq (cls (rng [(CHR ''1'', CHR ''9'')])) (opt digit), seqs [chr (CHR ''1''), digit, digit],
              seqs [chr (CHR ''2''), cls (one_of ''01''), digit], Seq (lit ''22'') (cls (rng [(CHR ''0'', CHR ''3'')]))],
        rep 2 (Seq (chr (CHR ''.'')) (alts [Seq (opt (chr (CHR ''1''))) (between 1 2 digit),
           seqs [chr (CHR ''2''), cls (rng [(CHR ''0'', CHR ''4'')]), digit], Seq (lit ''25'') (cls (rng [(CHR ''0'', CHR ''5'')]))])),
        Seq (chr (CHR ''.'')) (alts [Seq (cls (rng [(CHR ''1'', CHR ''9'')])) (opt digit), seqs [chr (CHR ''1''), digit, digit],
           seqs [chr (CHR ''2''), cls (rng [(CHR ''0'', CHR ''4'')]), digit], Seq (lit ''25'') (cls (rng [(CHR ''0'', CHR ''4'')]))])])"

definition url_letter :: "(nat \<times> nat) list" where
  "url_letter = [(97, 122), (0xA1, 0xFFFF)]"

definition url_names :: re where
  "url_names =
     (let sign = cls (url_letter @ digits_cls); name = Seq (Star (Seq sign (Star (chr (CHR ''-''))))) (plus sign)
      in seqs [name, Star (Seq (chr (CHR ''.'')) name),
           Seq (chr (CHR ''.'')) (Seq (rep 2 (cls url_letter)) (Star (cls url_letter))), opt dot])"

definition m_url :: "bool \<Rightarrow> jsstr \<Rightarrow> verdict" where
  "m_url opt_empty val =
     unless_optional opt_empty (re_test (ignore_case (whole (seqs [
       Seq (opt (Seq (alts [Seq (lit ''http'') (opt (chr (CHR ''s''))), lit ''ftp'']) (chr (CHR '':'')))) (lit ''//''),
       opt (seqs [plus non_space, opt (Seq (chr (CHR '':'')) (Star non_space)), chr (CHR ''@'')]),
       Alt url_numbers url_names,
       opt (Seq (chr (CHR '':'')) (between 2 5 digit)),
       opt (Seq (cls (one_of ''/?#'')) (Star non_space))]))) val)"

text \<open>\<open>valid_date\<close> says that neither \<open>Invalid\<close> nor \<open>NaN\<close> stands in \<open>new Date(value).toString()\<close>.\<close>

definition m_date :: "(jval option \<Rightarrow> bool) \<Rightarrow> bool \<Rightarrow> jval option \<Rightarrow> verdict" where
  "m_date valid_date opt_empty val = unless_optional opt_empty (valid_date val)"

definition m_dateISO :: "bool \<Rightarrow> jsstr \<Rightarrow> verdict" where
  "m_dateISO opt_empty val =
     (let sep = cls (one_of ''/-''); zero = opt (chr (CHR ''0''))
      in unless_optional opt_empty (re_test (whole (seqs [rep 4 digit, sep,
           Alt (Seq zero (cls [(49, 57)])) (Seq (chr (CHR ''1'')) (cls (one_of ''012''))), sep,
           alts [Seq zero (cls [(49, 57)]), Seq (cls (one_of ''12'')) (cls [(48, 57)]),
                 Seq (chr (CHR ''3'')) (cls (one_of ''01''))]])) val))"

definition m_number :: "bool \<Rightarrow> jsstr \<Rightarrow> verdict" where
  "m_number opt_empty val =
     (let sign = opt (chr (CHR ''-''))
      in unless_optional opt_empty (re_test (whole (seqs [
           opt (Alt (Seq sign (plus digit)) (seqs [sign, between 1 3 digit, plus (Seq (chr (CHR '','')) (rep 3 digit))])),
           opt (Seq (chr (CHR ''.'')) (plus digit))])) val))"

definition m_digits :: "bool \<Rightarrow> jsstr \<Rightarrow> verdict" where
  "m_digits opt_empty val = unless_optional opt_empty (re_test (whole (plus digit)) val)"

definition value_size :: "form_fields \<Rightarrow> jval option \<Rightarrow> nat \<Rightarrow> nat" where
  "value_size fs val i = (case val of Some (J_arr xs) \<Rightarrow> length xs | _ \<Rightarrow> getLength fs val i)"

definition m_minlength :: "bool \<Rightarrow> nat \<Rightarrow> jval \<Rightarrow> verdict" where
  "m_minlength opt_empty n param = unless_optional opt_empty (value_le (Some param) (count_value n))"

definition m_maxlength :: "bool \<Rightarrow> nat \<Rightarrow> jval \<Rightarrow> verdict" where
  "m_maxlength opt_empty n param = unless_optional opt_empty (value_le (count_value n) (Some param))"

definition m_rangelength :: "bool \<Rightarrow> nat \<Rightarrow> jval \<Rightarrow> verdict" where
  "m_rangelength opt_empty n param =
     unless_optional opt_empty (value_le (item_at param 0) (count_value n) \<and> value_le (count_value n) (item_at param 1))"

definition m_min :: "bool \<Rightarrow> jval option \<Rightarrow> jval \<Rightarrow> verdict" where
  "m_min opt_empty val param = unless_optional opt_empty (value_le (Some param) val)"

definition m_max :: "bool \<Rightarrow> jval option \<Rightarrow> jval \<Rightarrow> verdict" where
  "m_max opt_empty val param = unless_optional opt_empty (value_le val (Some param))"

definition m_range :: "bool \<Rightarrow> jval option \<Rightarrow> jval \<Rightarrow> verdict" where
  "m_range opt_empty val param =
     unless_optional opt_empty (value_le (item_at param 0) val \<and> value_le val (item_at param 1))"

text \<open>The attribute \<open>type\<close> is a word, which is looked for among three words.\<close>

definition m_step :: "bool \<Rightarrow> jsstr option \<Rightarrow> jval option \<Rightarrow> jval \<Rightarrow> verdict" where
  "m_step opt_empty type val param =
     (if (case type of None \<Rightarrow> False | Some t \<Rightarrow> t \<noteq> [] \<and> t \<notin> {js ''text'', js ''number'', js ''range''}) then Throws
      else unless_optional opt_empty (js_rem (number_value val) (number_value (Some param)) = Fin 0))"

text \<open>\<open>===\<close> of values; two arrays or objects are never the same one.\<close>

definition same_value :: "jval option \<Rightarrow> jval option \<Rightarrow> bool" where
  "same_value a b \<longleftrightarrow> a = b \<and> (case a of Some (J_arr _) \<Rightarrow> False | Some (J_obj _) \<Rightarrow> False | Some (J_num FNaN) \<Rightarrow> False | _ \<Rightarrow> True)"

definition m_equalTo :: "(jsstr \<Rightarrow> nat list) \<Rightarrow> form_fields \<Rightarrow> jval option \<Rightarrow> jval \<Rightarrow> verdict" where
  "m_equalTo selects fs val param =
     of_check (same_value val (case selects (to_text param) of [] \<Rightarrow> None | j # _ \<Rightarrow> Some (fvalue (fs ! j))))"

text \<open>\<open>success\<close> is what the answer of the server says, \<open>None\<close> when none came; the request is not asynchronous.\<close>

definition m_unique :: "bool \<Rightarrow> bool option \<Rightarrow> verdict" where
  "m_unique opt_empty success =
     (if opt_empty then Valid else of_check (success = Some True))"

section \<open>Selectors\<close>

definition blank :: "jval option \<Rightarrow> bool" where
  "blank v = (trim (subject v) = [])"

definition filled :: "jval option \<Rightarrow> bool" where
  "filled v = (v \<noteq> Some J_null \<and> trim (subject v) \<noteq> [])"

definition not_checked :: "field \<Rightarrow> bool" where
  "not_checked e = (\<not> fchecked e)"

section \<open>Texts of messages\<close>

function replace_text :: "jsstr \<Rightarrow> jsstr \<Rightarrow> jsstr \<Rightarrow> jsstr" where
  "replace_text p r s =
     (case s of
        [] \<Rightarrow> []
      | c # t \<Rightarrow>
          if p \<noteq> [] \<and> take (length p) s = p then r @ replace_text p r (drop (length p) s)
          else c # replace_text p r t)"
  by pat_completeness auto
termination by (relation "measure (\<lambda>(p, r, s). length s)") auto

declare replace_text.simps [simp del]

definition slot :: "nat \<Rightarrow> jsstr" where
  "slot i = [123] @ string_of_nat i @ [125]"

text \<open>\<open>$.validator.format(source, \<dots>)\<close> with at least one more argument.\<close>

definition format_params :: "jval \<Rightarrow> jval list \<Rightarrow> jval list" where
  "format_params params rest =
     (case (if rest \<noteq> [] \<and> \<not> (case params of J_arr _ \<Rightarrow> True | _ \<Rightarrow> False) then J_arr (params # rest) else params) of
        J_arr xs \<Rightarrow> xs
      | p \<Rightarrow> [p])"

definition format :: "jsstr \<Rightarrow> jval list \<Rightarrow> jsstr" where
  "format source args =
     (case args of
        [] \<Rightarrow> source
      | params # rest \<Rightarrow>
          fold (\<lambda>(i, n). replace_text (slot i) (to_text n)) (enumerate 0 (format_params params rest)) source)"

text \<open>\<open>/\$?\{(\d+)\}/g\<close>: whether the pattern occurs, and its replacement by the braces alone.\<close>

fun slot_at :: "jsstr \<Rightarrow> (jsstr \<times> jsstr) option" where
  "slot_at s =
     (let s = (case s of c # t \<Rightarrow> if c = 36 then t else s | [] \<Rightarrow> s)
      in case s of
           [] \<Rightarrow> None
         | c # t \<Rightarrow>
             let ds = takeWhile is_digit10 t; rest = dropWhile is_digit10 t
             in if c = 123 \<and> ds \<noteq> [] \<and> rest \<noteq> [] \<and> hd rest = 125 then Some (ds, tl rest) else None)"

declare slot_at.simps [simp del]

fun has_slot :: "jsstr \<Rightarrow> bool" where
  "has_slot [] = False"
| "has_slot (c # s) = (slot_at (c # s) \<noteq> None \<or> has_slot s)"

lemma slot_at_shorter: "slot_at s = Some (ds, r) \<Longrightarrow> length r < length s"
proof -
  assume s: "slot_at s = Some (ds, r)"
  define u where "u = (case s of c # t \<Rightarrow> if c = 36 then t else s | [] \<Rightarrow> s)"
  have le: "length u \<le> length s" by (auto simp: u_def split: list.splits)
  from s obtain c t where u: "u = c # t" and r: "dropWhile is_digit10 t \<noteq> []" "r = tl (dropWhile is_digit10 t)"
    unfolding slot_at.simps [of s] u_def [symmetric] Let_def by (auto split: list.splits if_splits)
  have "length r < length u" using u r length_dropWhile_le [of is_digit10 t] by (cases "dropWhile is_digit10 t") auto
  with le show ?thesis by simp
qed

function bare_slots :: "jsstr \<Rightarrow> jsstr" where
  "bare_slots s =
     (case s of
        [] \<Rightarrow> []
      | c # t \<Rightarrow>
          (case slot_at s of
             None \<Rightarrow> c # bare_slots t
           | Some (ds, r) \<Rightarrow> [123] @ ds @ [125] @ bare_slots r))"
  by pat_completeness auto
termination
  by (relation "measure length") (auto dest!: slot_at_shorter)

declare bare_slots.simps [simp del]

end
