(* ===== verification/Validator.thy ===== *)
theory Validator
  imports Validator_Methods
begin

text \<open>
  The validator of \<open>assets/plugins/jquery-validation/jquery.validate.js\<close>: its state, the messages and
  labels it shows, the check of an element and of the form, the remote requests, and the handlers of
  the events of the form. The settings are a record, the class marks, labels and attributes of the
  document another, and what leaves the page is logged in \<open>outbox\<close>. A message is a text; names of
  elements and groups are no numbers, so that objects keep the order of their creation.
\<close>

section \<open>State\<close>

datatype message = Says jsstr | Makes "jval option \<Rightarrow> nat \<Rightarrow> jsstr"

datatype messages = For_all jsstr | For_methods "(jsstr \<times> message option) list"

datatype place = In_container | After_element | After_parent | After_last_sibling | After_box_row

datatype shown_node = Label nat | Box nat | Wrap nat

text \<open>An error element: \<open>owner\<close> is the element it was made for.\<close>

record label =
  lid :: jsstr
  lfor :: "jsstr option"
  ltext :: jsstr
  lerror :: bool
  lvalid :: bool
  lsuccess :: bool
  owner :: nat
  lplace :: place

record view =
  labels :: "label list"
  shown :: "shown_node \<Rightarrow> bool"
  error_class :: "nat \<Rightarrow> bool"
  valid_class :: "nat \<Rightarrow> bool"
  pending_class :: "nat \<Rightarrow> bool"
  group_error :: "nat \<Rightarrow> bool"
  described_by :: "nat \<Rightarrow> jsstr"
  aria_invalid :: "nat \<Rightarrow> bool option"
  aria_required :: "nat \<Rightarrow> bool"

record err =
  e_message :: jsstr
  e_element :: "nat option"
  e_method :: "jsstr option"

record previous =
  p_old :: "jsstr option"
  p_valid :: bool
  p_message :: jsstr
  p_original :: "message option"

record request =
  rq_field :: nat
  rq_value :: "jval option"
  rq_prev :: nat

datatype sending = Native | To_handler "(jsstr \<times> jval) option"

record validator =
  controls :: form_fields
  s_rules :: "(jsstr \<times> (jsstr + rules)) list"
  s_messages :: "(jsstr \<times> messages) list"
  groups :: "(jsstr \<times> jsstr) list"
  submitted :: "jsstr list"
  invalid :: "(jsstr \<times> jval) list"
  pending :: "jsstr list"
  pendingRequest :: int
  errorList :: "err list"
  errorMap :: "(jsstr \<times> jsstr) list"
  successList :: "nat list"
  currentElements :: "nat list"
  toShow :: "shown_node set"
  toHide :: "shown_node set"
  formSubmitted :: bool
  cancelSubmit :: bool
  submitButton :: "nat option"
  lastActive :: "nat option"
  previous_of :: "nat \<Rightarrow> nat option"
  previous_objs :: "previous list"
  live :: "request list"
  blur_links :: "(nat \<times> nat) list"
  dom :: view
  outbox :: "sending list"
  invalid_events :: nat

text \<open>
  \<open>previous_of\<close> is the value kept with an element, a reference to one of \<open>previous_objs\<close>; \<open>live\<close> are the
  requests that have been sent and neither answered nor aborted; \<open>blur_links\<close> the handlers of \<open>equalTo\<close>.
\<close>

datatype on_success = Add_class | Call_back

record config =
  selects :: "jsstr \<Rightarrow> nat list"
  method_names :: "jsstr list"
  valid_date :: "jval option \<Rightarrow> bool"
  extra :: "jsstr \<Rightarrow> (form_fields \<Rightarrow> jval option \<Rightarrow> nat \<Rightarrow> jval \<Rightarrow> verdict) option"
  class_rules :: "(jsstr \<times> rules) list"
  default_messages :: "jsstr \<Rightarrow> message option"
  auto_ranges :: bool
  ignoreTitle :: bool
  debug :: bool
  focusCleanup :: bool
  focuses_invalid :: bool
  onsubmit :: bool
  onfocusin_set :: bool
  onfocusout_set :: bool
  onkeyup_set :: bool
  onclick_set :: bool
  highlight :: "(validator \<Rightarrow> nat \<Rightarrow> view) option"
  unhighlight :: "(validator \<Rightarrow> nat \<Rightarrow> view) option"
  show_errors :: "(validator \<Rightarrow> view) option"
  success :: "on_success option"
  label_element :: bool
  wrapper :: bool
  label_container :: bool
  containers :: "nat list"
  error_placement :: "(nat \<Rightarrow> place) option"
  inside_label :: "nat \<Rightarrow> bool"
  submit_handler :: "bool option option"
  reset_plugin :: "(form_fields \<Rightarrow> form_fields) option"

text \<open>
  \<open>submit_handler\<close> holds the result of the page's handler, \<open>reset_plugin\<close> the effect of \<open>$.fn.resetForm\<close>
  where a plugin provides it; \<open>inside_label\<close> says whether the place of the error of an element lies in a
  label of the element.
\<close>

abbreviation field_of :: "validator \<Rightarrow> nat \<Rightarrow> field" where
  "field_of v i \<equiv> controls v ! i"

abbreviation name_of :: "validator \<Rightarrow> nat \<Rightarrow> jsstr" where
  "name_of v i \<equiv> fname (controls v ! i)"

definition on_dom :: "(view \<Rightarrow> view) \<Rightarrow> validator \<Rightarrow> validator" where
  "on_dom f v = v\<lparr>dom := f (dom v)\<rparr>"

section \<open>Messages\<close>

definition customMessage :: "validator \<Rightarrow> jsstr \<Rightarrow> jsstr \<Rightarrow> message option" where
  "customMessage v name method =
     (case map_of (s_messages v) name of
        None \<Rightarrow> None
      | Some (For_all s) \<Rightarrow> Some (Says s)
      | Some (For_methods ms) \<Rightarrow> Option.bind (map_of ms method) id)"

definition customDataMessage :: "field \<Rightarrow> jsstr \<Rightarrow> message option" where
  "customDataMessage e method =
     (case map_of (fdata e) (data_key (js ''msg'') method) of
        Some v \<Rightarrow> if js_truthy v then Some (Says (to_text v)) else map_option (Says \<circ> to_text) (map_of (fdata e) (js ''msg''))
      | None \<Rightarrow> map_option (Says \<circ> to_text) (map_of (fdata e) (js ''msg'')))"

fun findDefined :: "'a option list \<Rightarrow> 'a option" where
  "findDefined [] = None"
| "findDefined (Some a # as) = Some a"
| "findDefined (None # as) = findDefined as"

definition defaultMessage :: "config \<Rightarrow> validator \<Rightarrow> nat \<Rightarrow> jsstr \<Rightarrow> jval option \<Rightarrow> jsstr" where
  "defaultMessage cfg v i method params =
     (let e = field_of v i;
          message = findDefined [
            customMessage v (fname e) method,
            customDataMessage e method,
            (if \<not> ignoreTitle cfg \<and> ftitle e \<noteq> [] then Some (Says (ftitle e)) else None),
            default_messages cfg method,
            Some (Says (js ''<strong>Warning: No message defined for '' @ fname e @ js ''</strong>''))]
      in case message of
           Some (Makes f) \<Rightarrow> f params i
         | Some (Says s) \<Rightarrow>
             if has_slot s then format (bare_slots s) (case params of None \<Rightarrow> [] | Some p \<Rightarrow> [p]) else s
         | None \<Rightarrow> [])"

definition formatAndAdd :: "config \<Rightarrow> nat \<Rightarrow> jsstr \<Rightarrow> jval option \<Rightarrow> validator \<Rightarrow> validator" where
  "formatAndAdd cfg i method params v =
     (let message = defaultMessage cfg v i method params
      in v\<lparr>errorList := errorList v @ [\<lparr>e_message = message, e_element = Some i, e_method = Some method\<rparr>],
           errorMap := set_key (name_of v i) message (errorMap v),
           submitted := List.insert (name_of v i) (submitted v)\<rparr>)"

section \<open>Labels\<close>

definition idOrName :: "validator \<Rightarrow> nat \<Rightarrow> jsstr" where
  "idOrName v i =
     (let e = field_of v i
      in case map_of (groups v) (fname e) of
           Some g \<Rightarrow> if g \<noteq> [] then g else if checkable e then fname e else if fid e \<noteq> [] then fid e else fname e
         | None \<Rightarrow> if checkable e then fname e else if fid e \<noteq> [] then fid e else fname e)"

text \<open>The ids that \<open>aria-describedby\<close> lists.\<close>

definition described_ids :: "jsstr \<Rightarrow> jsstr list" where
  "described_ids s = filter (\<lambda>w. w \<noteq> []) (split_by is_space s)"

text \<open>\<open>errors()\<close> are the elements of the class of errors; \<open>errorsFor(element)\<close> are numbers of labels.\<close>

definition errorsFor :: "config \<Rightarrow> validator \<Rightarrow> nat \<Rightarrow> nat list" where
  "errorsFor cfg v i =
     (let name = idOrName v i; ids = described_ids (described_by (dom v) i)
      in filter (\<lambda>k. let l = labels (dom v) ! k
           in lerror l \<and>
              (label_element cfg \<and> lfor l = Some name
               \<or> inside_label cfg (owner l) \<and> idOrName v (owner l) = name
               \<or> lid l \<in> set ids)) [0..<length (labels (dom v))])"

definition error_nodes :: "validator \<Rightarrow> shown_node set" where
  "error_nodes v = Label ` set (filter (\<lambda>k. lerror (labels (dom v) ! k)) [0..<length (labels (dom v))])"

definition boxes :: "config \<Rightarrow> shown_node set" where
  "boxes cfg = Box ` set (containers cfg)"

definition wrap_of :: "shown_node \<Rightarrow> shown_node" where
  "wrap_of n = (case n of Label k \<Rightarrow> Wrap k | n \<Rightarrow> n)"

definition addWrapper :: "config \<Rightarrow> shown_node set \<Rightarrow> shown_node set" where
  "addWrapper cfg ns = (if wrapper cfg then ns \<union> wrap_of ` ns else ns)"

definition set_shown :: "bool \<Rightarrow> shown_node set \<Rightarrow> view \<Rightarrow> view" where
  "set_shown b ns d = d\<lparr>shown := \<lambda>n. if n \<in> ns then b else shown d n\<rparr>"

definition map_labels :: "(nat \<Rightarrow> bool) \<Rightarrow> (label \<Rightarrow> label) \<Rightarrow> view \<Rightarrow> view" where
  "map_labels p f d = d\<lparr>labels := map (\<lambda>(k, l). if p k then f l else l) (enumerate 0 (labels d))\<rparr>"

definition hideThese :: "config \<Rightarrow> shown_node set \<Rightarrow> view \<Rightarrow> view" where
  "hideThese cfg ns d =
     set_shown False (addWrapper cfg ns) (map_labels (\<lambda>k. Label k \<in> ns - boxes cfg) (\<lambda>l. l\<lparr>ltext := []\<rparr>) d)"

definition hideErrors :: "config \<Rightarrow> validator \<Rightarrow> validator" where
  "hideErrors cfg v = on_dom (hideThese cfg (toHide v)) v"

text \<open>\<open>\b\<close> on both sides of a text.\<close>

definition boundary :: "jsstr \<Rightarrow> nat \<Rightarrow> bool" where
  "boundary s k =
     ((0 < k \<and> k \<le> length s \<and> in_class False word_cls (s ! (k - 1))) \<noteq> (k < length s \<and> in_class False word_cls (s ! k)))"

definition word_match :: "jsstr \<Rightarrow> jsstr \<Rightarrow> bool" where
  "word_match s w =
     list_ex (\<lambda>k. take (length w) (drop k s) = w \<and> boundary s k \<and> boundary s (k + length w)) [0..<length s + 1]"

definition link_error :: "validator \<Rightarrow> nat \<Rightarrow> jsstr \<Rightarrow> jsstr \<Rightarrow> view \<Rightarrow> view" where
  "link_error v i describedBy errorID d =
     (let now = (if describedBy = [] then errorID
                 else if \<not> word_match describedBy errorID then describedBy @ [32] @ errorID else describedBy);
          d = d\<lparr>described_by := (described_by d)(i := now)\<rparr>
      in case map_of (groups v) (name_of v i) of
           Some g \<Rightarrow>
             if g = [] then d
             else d\<lparr>described_by := \<lambda>j.
               if j < length (controls v) \<and> map_of (groups v) (name_of v j) = Some g then errorID else described_by d j\<rparr>
         | None \<Rightarrow> d)"

definition new_label :: "config \<Rightarrow> validator \<Rightarrow> nat \<Rightarrow> jsstr option \<Rightarrow> label" where
  "new_label cfg v i message =
     \<lparr>lid = idOrName v i @ js ''-error'',
      lfor = (if label_element cfg then Some (idOrName v i) else None),
      ltext = (case message of None \<Rightarrow> [] | Some m \<Rightarrow> m),
      lerror = True, lvalid = False, lsuccess = False, owner = i,
      lplace = (if label_container cfg then In_container
                else case error_placement cfg of Some f \<Rightarrow> f i | None \<Rightarrow> After_element)\<rparr>"

definition showLabel :: "config \<Rightarrow> nat \<Rightarrow> jsstr option \<Rightarrow> validator \<Rightarrow> validator" where
  "showLabel cfg i message v =
     (let error = errorsFor cfg v i; describedBy = described_by (dom v) i; n = length (labels (dom v));
          v1 = (if error \<noteq> [] then
                  on_dom (map_labels (\<lambda>k. k \<in> set error)
                    (\<lambda>l. l\<lparr>lvalid := False, lerror := True, ltext := (case message of None \<Rightarrow> ltext l | Some m \<Rightarrow> m)\<rparr>)) v
                else
                  on_dom (\<lambda>d. let l = new_label cfg v i message;
                      d = d\<lparr>labels := labels d @ [l], shown := (shown d)(Label n := True, Wrap n := True)\<rparr>
                    in if label_element cfg \<or> inside_label cfg i then d else link_error v i describedBy (lid l) d) v);
          error = (if error \<noteq> [] then error else [n]);
          v2 = (if message \<in> {None, Some []} \<and> success cfg \<noteq> None then
                  on_dom (map_labels (\<lambda>k. k \<in> set error)
                    (\<lambda>l. l\<lparr>ltext := [], lsuccess := lsuccess l \<or> success cfg = Some Add_class\<rparr>)) v1
                else v1)
      in v2\<lparr>toShow := toShow v2 \<union> Label ` set error\<rparr>)"

section \<open>Showing errors\<close>

definition run_mark :: "(validator \<Rightarrow> nat \<Rightarrow> view) option \<Rightarrow> nat \<Rightarrow> validator \<Rightarrow> validator" where
  "run_mark f i v = (case f of None \<Rightarrow> v | Some f \<Rightarrow> v\<lparr>dom := f v i\<rparr>)"

definition invalidElements :: "validator \<Rightarrow> nat list" where
  "invalidElements v = List.map_filter e_element (errorList v)"

definition validElements :: "validator \<Rightarrow> nat list" where
  "validElements v = filter (\<lambda>i. i \<notin> set (invalidElements v)) (currentElements v)"

definition show_one :: "config \<Rightarrow> err \<Rightarrow> validator \<Rightarrow> validator" where
  "show_one cfg e v =
     (case e_element e of None \<Rightarrow> v | Some i \<Rightarrow> showLabel cfg i (Some (e_message e)) (run_mark (highlight cfg) i v))"

definition defaultShowErrors :: "config \<Rightarrow> validator \<Rightarrow> validator" where
  "defaultShowErrors cfg v =
     (let v1 = fold (show_one cfg) (errorList v) v;
          v2 = (if errorList v \<noteq> [] then v1\<lparr>toShow := toShow v1 \<union> boxes cfg\<rparr> else v1);
          v3 = (if success cfg \<noteq> None then fold (\<lambda>i. showLabel cfg i None) (successList v) v2 else v2);
          v4 = fold (run_mark (unhighlight cfg)) (validElements v3) v3;
          v5 = hideErrors cfg (v4\<lparr>toHide := toHide v4 - toShow v4\<rparr>)
      in on_dom (set_shown True (addWrapper cfg (toShow v5))) v5)"

definition display :: "config \<Rightarrow> validator \<Rightarrow> validator" where
  "display cfg v = (case show_errors cfg of Some f \<Rightarrow> v\<lparr>dom := f v\<rparr> | None \<Rightarrow> defaultShowErrors cfg v)"

text \<open>
  \<open>showErrors(errors)\<close>; the names are those of elements of the form (for another name the code fails
  when it marks the element).
\<close>

definition showErrors :: "config \<Rightarrow> (jsstr \<times> jsstr) list option \<Rightarrow> validator \<Rightarrow> validator" where
  "showErrors cfg errors v =
     (case errors of
        None \<Rightarrow> display cfg v
      | Some es \<Rightarrow>
          let map' = extend_with (errorMap v) es;
              entry = (\<lambda>(name, m). \<lparr>e_message = m,
                e_element = (case findByName (controls v) name of [] \<Rightarrow> None | i # _ \<Rightarrow> Some i), e_method = None\<rparr>)
          in display cfg (v\<lparr>errorMap := map', errorList := map entry map',
               successList := filter (\<lambda>i. \<not> has_key (name_of v i) es) (successList v)\<rparr>))"

section \<open>Marks\<close>

definition group_of_field :: "validator \<Rightarrow> nat \<Rightarrow> nat set" where
  "group_of_field v i =
     (if ftype (field_of v i) = ''radio'' then set (findByName (controls v) (name_of v i)) else {i})"

text \<open>The default settings \<open>highlight\<close> and \<open>unhighlight\<close>.\<close>

definition default_highlight :: "validator \<Rightarrow> nat \<Rightarrow> view" where
  "default_highlight v i =
     (let es = group_of_field v i; d = dom v
      in d\<lparr>error_class := \<lambda>j. j \<in> es \<or> error_class d j, valid_class := \<lambda>j. j \<notin> es \<and> valid_class d j\<rparr>)"

definition default_unhighlight :: "validator \<Rightarrow> nat \<Rightarrow> view" where
  "default_unhighlight v i =
     (let es = group_of_field v i; d = dom v
      in d\<lparr>error_class := \<lambda>j. j \<notin> es \<and> error_class d j, valid_class := \<lambda>j. j \<in> es \<or> valid_class d j\<rparr>)"

text \<open>
  Those of \<open>jquery.validate.custom.js\<close>: \<open>part_of\<close> gives the form group an element stands in, if any. The
  error of an element stands in the group of the element.
\<close>

definition custom_highlight :: "(nat \<Rightarrow> nat option) \<Rightarrow> validator \<Rightarrow> nat \<Rightarrow> view" where
  "custom_highlight part_of v i =
     (case part_of i of None \<Rightarrow> dom v | Some g \<Rightarrow> (dom v)\<lparr>group_error := (group_error (dom v))(g := True)\<rparr>)"

text \<open>
  \<open>.not("#" + element.id + "-error")\<close>: the id is put into the selector as it is. With letters, digits and signs of
  names only it means the element's own error; a point in it begins a class that no error has. An id with other
  signs, which make the selector an error, is left out.
\<close>

definition own_error :: "field \<Rightarrow> label \<Rightarrow> bool" where
  "own_error e l \<longleftrightarrow> list_all (\<lambda>c. word_unit c \<or> c > 160) (fid e) \<and> lid l = fid e @ js ''-error''"

definition other_errors :: "(nat \<Rightarrow> nat option) \<Rightarrow> validator \<Rightarrow> nat \<Rightarrow> nat \<Rightarrow> bool" where
  "other_errors part_of v g i =
     list_ex (\<lambda>l. lerror l \<and> ltext l \<noteq> [] \<and> part_of (owner l) = Some g \<and> \<not> own_error (field_of v i) l)
       (labels (dom v))"

definition custom_unhighlight :: "(nat \<Rightarrow> nat option) \<Rightarrow> validator \<Rightarrow> nat \<Rightarrow> view" where
  "custom_unhighlight part_of v i =
     (case part_of i of
        None \<Rightarrow> dom v
      | Some g \<Rightarrow>
          if other_errors part_of v g i then dom v else (dom v)\<lparr>group_error := (group_error (dom v))(g := False)\<rparr>)"

definition custom_placement :: "form_fields \<Rightarrow> (nat \<Rightarrow> bool) \<Rightarrow> (nat \<Rightarrow> bool) \<Rightarrow> nat \<Rightarrow> place" where
  "custom_placement fs select2 in_group i =
     (if checkable (fs ! i) then After_box_row
      else if select2 i then After_last_sibling
      else if in_group i then After_parent else After_element)"

text \<open>With an empty class in the place of the class of valid elements, which the loop below removes.\<close>

definition reset_one :: "config \<Rightarrow> nat \<Rightarrow> validator \<Rightarrow> validator" where
  "reset_one cfg i v =
     on_dom (\<lambda>d. d\<lparr>valid_class := \<lambda>j. j \<notin> set (findByName (controls v) (name_of v i)) \<and> valid_class d j\<rparr>)
       (run_mark (unhighlight cfg) i v)"

definition resetElements :: "config \<Rightarrow> nat list \<Rightarrow> validator \<Rightarrow> validator" where
  "resetElements cfg is v =
     (if \<not> Option.is_none (unhighlight cfg) then fold (reset_one cfg) is v
      else on_dom (\<lambda>d. d\<lparr>error_class := \<lambda>j. j \<notin> set is \<and> error_class d j,
                         valid_class := \<lambda>j. j \<notin> set is \<and> valid_class d j\<rparr>) v)"

section \<open>Preparing a check\<close>

definition resetInternals :: "validator \<Rightarrow> validator" where
  "resetInternals v = v\<lparr>successList := [], errorList := [], errorMap := [], toShow := {}, toHide := {}\<rparr>"

definition reset :: "validator \<Rightarrow> validator" where
  "reset v = (resetInternals v)\<lparr>currentElements := []\<rparr>"

definition prepareForm :: "config \<Rightarrow> validator \<Rightarrow> validator" where
  "prepareForm cfg v = (let v = reset v in v\<lparr>toHide := error_nodes v \<union> boxes cfg\<rparr>)"

definition prepareElement :: "config \<Rightarrow> nat \<Rightarrow> validator \<Rightarrow> validator" where
  "prepareElement cfg i v = (let v = reset v in v\<lparr>toHide := Label ` set (errorsFor cfg v i)\<rparr>)"

definition objectLength :: "('k \<times> 'v) list \<Rightarrow> ('v \<Rightarrow> bool) \<Rightarrow> nat" where
  "objectLength obj true = length (filter (\<lambda>p. true (snd p)) obj)"

definition numberOfInvalids :: "validator \<Rightarrow> nat" where
  "numberOfInvalids v = objectLength (invalid v) js_truthy"

definition valid :: "validator \<Rightarrow> bool" where
  "valid v \<longleftrightarrow> length (errorList v) = 0"

section \<open>The rules of an element\<close>

text \<open>\<open>$(element).rules()\<close>: the rules, and the effects on the marks of the element.\<close>

definition gathered :: "config \<Rightarrow> validator \<Rightarrow> nat \<Rightarrow> rules \<times> bool" where
  "gathered cfg v i =
     (let e = field_of v i
      in normalizeRules (selects cfg) (auto_ranges cfg) i
           (fold (\<lambda>found rs. extend_with rs found)
             [classRules (class_rules cfg) e, attributeRules (method_names cfg) e,
              dataRules (method_names cfg) e, staticRules (s_rules v) e] []))"

definition element_rules :: "config \<Rightarrow> validator \<Rightarrow> nat \<Rightarrow> rules" where
  "element_rules cfg v i = remote_last (required_first (fst (gathered cfg v i)))"

definition rules_effect :: "config \<Rightarrow> nat \<Rightarrow> validator \<Rightarrow> validator" where
  "rules_effect cfg i v =
     (let (rs, dropped) = gathered cfg v i;
          v = (if dropped then resetElements cfg [i] v else v)
      in if (case map_of rs (js ''required'') of Some p \<Rightarrow> param_truthy p | None \<Rightarrow> False)
         then on_dom (\<lambda>d. d\<lparr>aria_required := (aria_required d)(i := True)\<rparr>) v else v)"

text \<open>The first element of each name that has rules, among the controls that are checked at all.\<close>

definition is_control :: "field \<Rightarrow> bool" where
  "is_control e \<longleftrightarrow>
     (node e \<in> {''input'', ''select'', ''textarea''} \<or> editable e) \<and> \<not> skipped e \<and> \<not> ignored e"

fun elements_loop :: "config \<Rightarrow> nat list \<Rightarrow> jsstr list \<Rightarrow> validator \<Rightarrow> nat list \<times> validator" where
  "elements_loop cfg [] cache v = ([], v)"
| "elements_loop cfg (i # is) cache v =
     (if name_of v i \<in> set cache then elements_loop cfg is cache v
      else
        let v' = rules_effect cfg i v
        in if objectLength (element_rules cfg v i) param_truthy = 0 then elements_loop cfg is cache v'
           else let (js, v'') = elements_loop cfg is (name_of v i # cache) v' in (i # js, v''))"

definition elements :: "config \<Rightarrow> validator \<Rightarrow> nat list \<times> validator" where
  "elements cfg v = elements_loop cfg (filter (\<lambda>i. is_control (field_of v i)) [0..<length (controls v)]) [] v"

section \<open>Remote requests\<close>

definition startRequest :: "nat \<Rightarrow> validator \<Rightarrow> validator" where
  "startRequest i v =
     (if name_of v i \<in> set (pending v) then v
      else on_dom (\<lambda>d. d\<lparr>pending_class := (pending_class d)(i := True)\<rparr>)
        (v\<lparr>pendingRequest := pendingRequest v + 1, pending := name_of v i # pending v\<rparr>))"

definition previousValue :: "config \<Rightarrow> nat \<Rightarrow> jsstr \<Rightarrow> validator \<Rightarrow> nat \<times> validator" where
  "previousValue cfg i method v =
     (case previous_of v i of
        Some k \<Rightarrow> (k, v)
      | None \<Rightarrow>
          (length (previous_objs v),
           v\<lparr>previous_of := (previous_of v)(i := Some (length (previous_objs v))),
             previous_objs := previous_objs v @
               [\<lparr>p_old = None, p_valid = True, p_message = defaultMessage cfg v i method None, p_original = None\<rparr>]\<rparr>))"

definition message_truthy :: "message option \<Rightarrow> bool" where
  "message_truthy m = (case m of None \<Rightarrow> False | Some (Says s) \<Rightarrow> s \<noteq> [] | Some (Makes f) \<Rightarrow> True)"

text \<open>\<open>settings.messages[name][method] = m\<close>; on a text the assignment has no effect.\<close>

definition set_message :: "jsstr \<Rightarrow> jsstr \<Rightarrow> message option \<Rightarrow> validator \<Rightarrow> validator" where
  "set_message name method m v =
     (case map_of (s_messages v) name of
        Some (For_methods ms) \<Rightarrow> v\<lparr>s_messages := set_key name (For_methods (set_key method m ms)) (s_messages v)\<rparr>
      | _ \<Rightarrow> v)"

definition own_message :: "validator \<Rightarrow> jsstr \<Rightarrow> jsstr \<Rightarrow> message option" where
  "own_message v name method =
     (case map_of (s_messages v) name of
        Some (For_methods ms) \<Rightarrow> Option.bind (map_of ms method) id
      | _ \<Rightarrow> None)"

definition message_table :: "jsstr \<Rightarrow> validator \<Rightarrow> validator" where
  "message_table name v =
     (if (case map_of (s_messages v) name of None \<Rightarrow> True | Some (For_all s) \<Rightarrow> s = [] | _ \<Rightarrow> False)
      then v\<lparr>s_messages := set_key name (For_methods []) (s_messages v)\<rparr> else v)"

text \<open>The data of the request: the value as \<open>data\<close>, then the data of the parameter.\<close>

definition option_data :: "jval option \<Rightarrow> jval \<Rightarrow> jsstr option" where
  "option_data val param =
     (let own = [(js ''data'', case val of None \<Rightarrow> J_null | Some v \<Rightarrow> v)]
      in jq_param (case param of
           J_obj ps \<Rightarrow> (case map_of ps (js ''data'') of Some (J_obj given) \<Rightarrow> extend_obj own given | _ \<Rightarrow> own)
         | _ \<Rightarrow> own))"

text \<open>A request on the port of the name of the element aborts the one before it.\<close>

definition ajax :: "nat \<Rightarrow> jval option \<Rightarrow> nat \<Rightarrow> validator \<Rightarrow> validator" where
  "ajax i val k v =
     v\<lparr>live := filter (\<lambda>r. name_of v (rq_field r) \<noteq> name_of v i) (live v) @
        [\<lparr>rq_field = i, rq_value = val, rq_prev = k\<rparr>]\<rparr>"

definition remote_name :: jsstr where
  "remote_name = js ''remote''"

definition remote :: "config \<Rightarrow> jval option \<Rightarrow> nat \<Rightarrow> jval \<Rightarrow> validator \<Rightarrow> verdict \<times> validator" where
  "remote cfg val i param v =
     (if optional (selects cfg) (controls v) i then (Mismatch, v)
      else
        let (k, v1) = previousValue cfg i remote_name v;
            v2 = message_table (name_of v i) v1;
            p = previous_objs v2 ! k;
            original = (if message_truthy (p_original p) then p_original p else own_message v2 (name_of v i) remote_name);
            v3 = v2\<lparr>previous_objs := (previous_objs v2)[k := p\<lparr>p_original := original\<rparr>]\<rparr>;
            v4 = set_message (name_of v i) remote_name (Some (Says (p_message p))) v3
        in case option_data val param of
             None \<Rightarrow> (Throws, v4)
           | Some s \<Rightarrow>
               if p_old p = Some s then (of_check (p_valid p), v4)
               else
                 let v5 = v4\<lparr>previous_objs := (previous_objs v4)[k := p\<lparr>p_original := original, p_old := Some s\<rparr>]\<rparr>
                 in (Pending, ajax i val k (startRequest i v5)))"

section \<open>Checking an element\<close>

text \<open>The verdict of a method of the table, \<open>None\<close> for one that is not there.\<close>

definition plain_method :: "config \<Rightarrow> form_fields \<Rightarrow> jval option \<Rightarrow> nat \<Rightarrow> jsstr \<Rightarrow> jval \<Rightarrow> verdict option" where
  "plain_method cfg fs val i method param =
     (let opt_empty = optional (selects cfg) fs i; s = subject val; n = value_size fs val i
      in case extra cfg method of
           Some f \<Rightarrow> Some (f fs val i param)
         | None \<Rightarrow>
             if method = js ''required'' then Some (m_required (selects cfg) fs val i (Some param))
             else if method = js ''email'' then Some (m_email opt_empty s)
             else if method = js ''url'' then Some (m_url opt_empty s)
             else if method = js ''date'' then Some (m_date (valid_date cfg) opt_empty val)
             else if method = js ''dateISO'' then Some (m_dateISO opt_empty s)
             else if method = js ''number'' then Some (m_number opt_empty s)
             else if method = js ''digits'' then Some (m_digits opt_empty s)
             else if method = js ''minlength'' then Some (m_minlength opt_empty n param)
             else if method = js ''maxlength'' then Some (m_maxlength opt_empty n param)
             else if method = js ''rangelength'' then Some (m_rangelength opt_empty n param)
             else if method = js ''min'' then Some (m_min opt_empty val param)
             else if method = js ''max'' then Some (m_max opt_empty val param)
             else if method = js ''range'' then Some (m_range opt_empty val param)
             else if method = js ''step'' then Some (m_step opt_empty (type_attribute (fs ! i)) val param)
             else if method = js ''equalTo'' then Some (m_equalTo (selects cfg) fs val param)
             else None)"

text \<open>\<open>equalTo\<close> also makes the target revalidate the element when it loses the focus, once for each target.\<close>

definition link_blur :: "config \<Rightarrow> nat \<Rightarrow> jval \<Rightarrow> validator \<Rightarrow> validator" where
  "link_blur cfg i param v =
     (let target = selects cfg (to_text param)
      in if onfocusout_set cfg \<and> list_ex (\<lambda>t. t \<notin> fst ` set (blur_links v)) target
         then v\<lparr>blur_links := blur_links v @ map (\<lambda>t. (t, i)) target\<rparr> else v)"

definition run_method :: "config \<Rightarrow> jval option \<Rightarrow> nat \<Rightarrow> jsstr \<Rightarrow> jval \<Rightarrow> validator \<Rightarrow> verdict \<times> validator" where
  "run_method cfg val i method param v =
     (if Option.is_none (extra cfg method) \<and> method = remote_name then remote cfg val i param v
      else case plain_method cfg (controls v) val i method param of
             None \<Rightarrow> (Throws, v)
           | Some r \<Rightarrow>
               (r, if Option.is_none (extra cfg method) \<and> method = js ''equalTo'' then link_blur cfg i param v else v))"

definition value_of_param :: "param \<Rightarrow> jval" where
  "value_of_param p = (case p of Plain v \<Rightarrow> v | _ \<Rightarrow> J_obj [])"

definition drop_errors_of :: "config \<Rightarrow> nat \<Rightarrow> validator \<Rightarrow> validator" where
  "drop_errors_of cfg i v = v\<lparr>toHide := toHide v - Label ` set (errorsFor cfg v i)\<rparr>"

text \<open>
  The loop over the rules: \<open>sole\<close> says that there is one rule only, \<open>mismatch\<close> is
  \<open>dependencyMismatch\<close>. \<open>Pending\<close> and \<open>Mismatch\<close> stand for the result \<open>undefined\<close>.
\<close>

fun check_loop :: "config \<Rightarrow> jval option \<Rightarrow> nat \<Rightarrow> bool \<Rightarrow> bool \<Rightarrow> rules \<Rightarrow> validator \<Rightarrow> verdict \<times> validator" where
  "check_loop cfg val i sole mismatch [] v = (if mismatch then Mismatch else Valid, v)"
| "check_loop cfg val i sole mismatch ((method, p) # rs) v =
     (case run_method cfg val i method (value_of_param p) v of
        (Throws, v') \<Rightarrow> (Throws, v')
      | (Mismatch, v') \<Rightarrow> check_loop cfg val i sole sole rs v'
      | (Pending, v') \<Rightarrow> (Pending, drop_errors_of cfg i v')
      | (Invalid, v') \<Rightarrow> (Invalid, formatAndAdd cfg i method (Some (value_of_param p)) v')
      | (Valid, v') \<Rightarrow> check_loop cfg val i sole False rs v')"

definition normalizer_of :: "rules \<Rightarrow> (jval option \<Rightarrow> jsstr option) option" where
  "normalizer_of rs = (case map_of rs (js ''normalizer'') of Some (Normalizer f) \<Rightarrow> Some f | _ \<Rightarrow> None)"

definition check_target :: "config \<Rightarrow> nat \<Rightarrow> validator \<Rightarrow> verdict \<times> validator" where
  "check_target cfg i v =
     (let rs = element_rules cfg v i; v1 = rules_effect cfg i v; val = elementValue (controls v) i;
          sole = (length rs = 1);
          finish = (\<lambda>rs (r, v'). (r, if r = Valid \<and> objectLength rs param_truthy \<noteq> 0
                                     then v'\<lparr>successList := successList v' @ [i]\<rparr> else v'))
      in case normalizer_of rs of
           None \<Rightarrow> finish rs (check_loop cfg val i sole False rs v1)
         | Some f \<Rightarrow>
             (case f val of
                None \<Rightarrow> (Throws, v1)
              | Some s \<Rightarrow>
                  let rs' = del_key (js ''normalizer'') rs
                  in finish rs' (check_loop cfg (Some (J_str s)) i sole False rs' v1)))"

definition check :: "config \<Rightarrow> nat \<Rightarrow> validator \<Rightarrow> verdict \<times> validator" where
  "check cfg i v =
     (case validationTargetFor (controls v) i of None \<Rightarrow> (Throws, v) | Some j \<Rightarrow> check_target cfg j v)"

section \<open>Checking the form and an element\<close>

text \<open>The loop ends at an error that is thrown; the first result says whether one was.\<close>

fun check_all :: "config \<Rightarrow> nat list \<Rightarrow> validator \<Rightarrow> bool \<times> validator" where
  "check_all cfg [] v = (False, v)"
| "check_all cfg (i # is) v =
     (let (r, v') = check cfg i v in if r = Throws then (True, v') else check_all cfg is v')"

definition checkForm :: "config \<Rightarrow> validator \<Rightarrow> bool \<times> validator" where
  "checkForm cfg v =
     (let (is, v) = elements cfg (prepareForm cfg v)
      in check_all cfg is (v\<lparr>currentElements := is\<rparr>))"

definition record_errors :: "validator \<Rightarrow> validator" where
  "record_errors v =
     (let v = v\<lparr>submitted := fold (List.insert \<circ> fst) (errorMap v) (submitted v),
                invalid := map (\<lambda>(n, m). (n, J_str m)) (errorMap v)\<rparr>
      in if \<not> valid v then v\<lparr>invalid_events := invalid_events v + 1\<rparr> else v)"

text \<open>\<open>None\<close> stands for an error that is thrown.\<close>

definition form :: "config \<Rightarrow> validator \<Rightarrow> bool option \<times> validator" where
  "form cfg v =
     (let (threw, v) = checkForm cfg v
      in if threw then (None, v)
         else (let v = showErrors cfg None (record_errors v) in (Some (valid v), v)))"

text \<open>\<open>r && s\<close> of results: the second is asked for only when the first is true.\<close>

definition mark_invalid :: "nat \<Rightarrow> bool \<Rightarrow> validator \<Rightarrow> validator" where
  "mark_invalid i b v = v\<lparr>invalid := set_key (name_of v i) (J_bool b) (invalid v)\<rparr>"

text \<open>The other elements of the group that have been found invalid before.\<close>

fun check_group :: "config \<Rightarrow> jsstr list \<Rightarrow> verdict \<Rightarrow> validator \<Rightarrow> verdict \<times> validator" where
  "check_group cfg [] r v = (r, v)"
| "check_group cfg (name # names) r v =
     (case findByName (controls v) name of
        [] \<Rightarrow> (Throws, v)
      | i # _ \<Rightarrow>
          (case validationTargetFor (controls v) i of
             None \<Rightarrow> check_group cfg names r v
           | Some j \<Rightarrow>
               if has_key (name_of v j) (invalid v) then
                 let v = v\<lparr>currentElements := currentElements v @ [j]\<rparr>;
                     (r', v') = (if r = Valid then check cfg j v else (r, v))
                 in if r' = Throws then (Throws, v') else check_group cfg names r' v'
               else check_group cfg names r v))"

definition group_names :: "validator \<Rightarrow> jsstr \<Rightarrow> jsstr list" where
  "group_names v name =
     (case map_of (groups v) name of
        None \<Rightarrow> []
      | Some g \<Rightarrow> if g = [] then [] else map fst (filter (\<lambda>(n, g'). g' = g \<and> n \<noteq> name) (groups v)))"

definition element :: "config \<Rightarrow> nat \<Rightarrow> validator \<Rightarrow> verdict \<times> validator" where
  "element cfg i v =
     (case validationTargetFor (controls v) i of
        None \<Rightarrow> (Valid, v\<lparr>invalid := del_key (name_of v i) (invalid v)\<rparr>)
      | Some j \<Rightarrow>
          let v = (prepareElement cfg j v)\<lparr>currentElements := [j]\<rparr>;
              (r, v) = check_group cfg (group_names v (name_of v j)) Valid v
          in if r = Throws then (Throws, v)
             else
               let (own, v) = check cfg j v
               in if own = Throws then (Throws, v)
                  else
                    let rs = (own \<noteq> Invalid);
                        v = mark_invalid j (\<not> rs) v;
                        v = (if numberOfInvalids v = 0 then v\<lparr>toHide := toHide v \<union> boxes cfg\<rparr> else v);
                        v = showErrors cfg None v
                    in (if r = Valid then of_check rs else r,
                        on_dom (\<lambda>d. d\<lparr>aria_invalid := (aria_invalid d)(i := Some (\<not> rs))\<rparr>) v))"

text \<open>\<open>$(elements).valid()\<close> of elements of the form.\<close>

fun valid_loop :: "config \<Rightarrow> nat list \<Rightarrow> verdict \<Rightarrow> err list \<Rightarrow> validator \<Rightarrow> verdict \<times> err list \<times> validator" where
  "valid_loop cfg [] r es v = (r, es, v)"
| "valid_loop cfg (i # is) r es v =
     (case element cfg i v of
        (Throws, v') \<Rightarrow> (Throws, es, v')
      | (r', v') \<Rightarrow>
          let r'' = (if r' = Valid then r else r')
          in valid_loop cfg is r'' (if r'' = Valid then es else es @ errorList v') v')"

definition valid_elements :: "config \<Rightarrow> nat list \<Rightarrow> validator \<Rightarrow> verdict \<times> validator" where
  "valid_elements cfg is v =
     (case valid_loop cfg is Valid [] v of
        (Throws, es, v') \<Rightarrow> (Throws, v')
      | (r, es, v') \<Rightarrow> (r, v'\<lparr>errorList := es\<rparr>))"

definition resetForm :: "config \<Rightarrow> validator \<Rightarrow> validator" where
  "resetForm cfg v =
     (let v = (case reset_plugin cfg of None \<Rightarrow> v | Some f \<Rightarrow> v\<lparr>controls := f (controls v)\<rparr>);
          v = v\<lparr>invalid := [], submitted := []\<rparr>;
          v = hideErrors cfg (prepareForm cfg v);
          (is, v) = elements cfg v;
          v = v\<lparr>previous_of := \<lambda>i. if i \<in> set is then None else previous_of v i\<rparr>;
          v = on_dom (\<lambda>d. d\<lparr>aria_invalid := \<lambda>i. if i \<in> set is then None else aria_invalid d i\<rparr>) v
      in resetElements cfg is v)"

section \<open>Events of the form\<close>

definition focusin :: "config \<Rightarrow> nat \<Rightarrow> validator \<Rightarrow> validator" where
  "focusin cfg i v =
     (let v = v\<lparr>lastActive := Some i\<rparr>
      in if focusCleanup cfg
         then (let v = run_mark (unhighlight cfg) i v
               in on_dom (hideThese cfg (Label ` set (errorsFor cfg v i))) v)
         else v)"

definition drop_verdict :: "verdict \<times> validator \<Rightarrow> validator" where
  "drop_verdict p = snd p"

definition focusout :: "config \<Rightarrow> nat \<Rightarrow> validator \<Rightarrow> validator" where
  "focusout cfg i v =
     (if \<not> checkable (field_of v i) \<and> (name_of v i \<in> set (submitted v) \<or> \<not> optional (selects cfg) (controls v) i)
      then drop_verdict (element cfg i v) else v)"

definition excluded_keys :: "nat list" where
  "excluded_keys = [16, 17, 18, 20, 35, 36, 37, 38, 39, 40, 45, 144, 225]"

definition keyup :: "config \<Rightarrow> nat \<Rightarrow> nat \<Rightarrow> nat \<Rightarrow> validator \<Rightarrow> validator" where
  "keyup cfg i which keyCode v =
     (if which = 9 \<and> elementValue (controls v) i = Some (J_str []) \<or> keyCode \<in> set excluded_keys then v
      else if name_of v i \<in> set (submitted v) \<or> has_key (name_of v i) (invalid v)
      then drop_verdict (element cfg i v) else v)"

text \<open>A click on an option has the select around it as \<open>parent\<close>; an option has no name.\<close>

definition click_field :: "config \<Rightarrow> nat \<Rightarrow> bool \<Rightarrow> validator \<Rightarrow> validator" where
  "click_field cfg i option v =
     (if name_of v i \<in> set (submitted v) then drop_verdict (element cfg i v) else v)"

text \<open>\<open>init\<close> hands the events on to these handlers, where the setting has one and the element is not ignored.\<close>

datatype field_event = Focusin | Focusout | Keyup nat nat | Click bool

definition delegate :: "config \<Rightarrow> field_event \<Rightarrow> nat \<Rightarrow> validator \<Rightarrow> validator" where
  "delegate cfg ev i v =
     (if ignored (field_of v i) then v
      else case ev of
        Focusin \<Rightarrow> if onfocusin_set cfg then focusin cfg i v else v
      | Focusout \<Rightarrow> if onfocusout_set cfg then focusout cfg i v else v
      | Keyup which keyCode \<Rightarrow> if onkeyup_set cfg then keyup cfg i which keyCode v else v
      | Click option \<Rightarrow> if onclick_set cfg then click_field cfg i option v else v)"

definition blur :: "config \<Rightarrow> nat \<Rightarrow> validator \<Rightarrow> validator" where
  "blur cfg t v = fold (\<lambda>(_, i) v. drop_verdict (valid_elements cfg [i] v)) (filter (\<lambda>p. fst p = t) (blur_links v)) v"

definition findLastActive :: "validator \<Rightarrow> nat option" where
  "findLastActive v =
     (case lastActive v of
        None \<Rightarrow> None
      | Some a \<Rightarrow>
          if length (filter (\<lambda>e. \<exists>j \<in> set_option (e_element e). name_of v j = name_of v a) (errorList v)) = 1
          then Some a else None)"

definition focusInvalid :: "config \<Rightarrow> validator \<Rightarrow> validator" where
  "focusInvalid cfg v =
     (if focuses_invalid cfg then
        let target = (case findLastActive v of
              Some i \<Rightarrow> Some i
            | None \<Rightarrow> (case errorList v of [] \<Rightarrow> None | e # _ \<Rightarrow> e_element e))
        in case target of
             None \<Rightarrow> v
           | Some i \<Rightarrow> if fvisible (field_of v i) then delegate cfg Focusin i v else v
      else v)"

section \<open>Submitting\<close>

text \<open>
  \<open>handle()\<close>: whether the browser goes on with the submission. The page's handler sees a hidden element
  with the name and value of the button.
\<close>

definition handle :: "config \<Rightarrow> validator \<Rightarrow> bool \<times> validator" where
  "handle cfg v =
     (case submit_handler cfg of
        None \<Rightarrow> (True, v)
      | Some result \<Rightarrow>
          (case result of Some r \<Rightarrow> r | None \<Rightarrow> False,
           v\<lparr>outbox := outbox v @
              [To_handler (map_option (\<lambda>b. (name_of v b, fvalue (field_of v b))) (submitButton v))]\<rparr>))"

text \<open>The handler of the event \<open>submit\<close>: \<open>None\<close> for an error that is thrown.\<close>

definition on_submit :: "config \<Rightarrow> validator \<Rightarrow> bool option \<times> validator" where
  "on_submit cfg v =
     (if cancelSubmit v then (let (go, v) = handle cfg (v\<lparr>cancelSubmit := False\<rparr>) in (Some go, v))
      else case form cfg v of
        (None, v) \<Rightarrow> (None, v)
      | (Some True, v) \<Rightarrow>
          if pendingRequest v \<noteq> 0 then (Some False, v\<lparr>formSubmitted := True\<rparr>)
          else (let (go, v) = handle cfg v in (Some go, v))
      | (Some False, v) \<Rightarrow> (Some False, focusInvalid cfg v))"

text \<open>
  Who submits: the user, whose submission the browser carries out unless the handler returns false or,
  with \<open>debug\<close>, prevents it (so also when the handler throws), or a call of \<open>submit()\<close>, which an error
  ends. Without the setting \<open>onsubmit\<close> there is no handler.
\<close>

datatype submitter = User | Script

definition submit :: "config \<Rightarrow> submitter \<Rightarrow> validator \<Rightarrow> validator" where
  "submit cfg who v =
     (let (go, v) = (if onsubmit cfg then on_submit cfg v else (Some True, v));
          prevented = (onsubmit cfg \<and> debug cfg);
          sent = (case go of Some b \<Rightarrow> b | None \<Rightarrow> who = User)
      in if sent \<and> \<not> prevented then v\<lparr>outbox := outbox v @ [Native]\<rparr> else v)"

definition click_submit :: "config \<Rightarrow> nat \<Rightarrow> bool \<Rightarrow> bool \<Rightarrow> validator \<Rightarrow> validator" where
  "click_submit cfg i cancel formnovalidate v =
     (if \<not> onsubmit cfg then v
      else
        let v = (if submit_handler cfg \<noteq> None then v\<lparr>submitButton := Some i\<rparr> else v)
        in if cancel \<or> formnovalidate then v\<lparr>cancelSubmit := True\<rparr> else v)"

section \<open>Answers\<close>

definition stop_counting :: "nat \<Rightarrow> validator \<Rightarrow> validator" where
  "stop_counting i v =
     on_dom (\<lambda>d. d\<lparr>pending_class := (pending_class d)(i := False)\<rparr>)
       (v\<lparr>pendingRequest := max 0 (pendingRequest v - 1), pending := removeAll (name_of v i) (pending v)\<rparr>)"

definition stopRequest :: "config \<Rightarrow> nat \<Rightarrow> bool \<Rightarrow> validator \<Rightarrow> validator" where
  "stopRequest cfg i ok v0 =
     (let v = stop_counting i v0
      in if pendingRequest v = 0 \<and> formSubmitted v then
           if ok then
             (case form cfg v of
                (Some True, v) \<Rightarrow>
                  if onsubmit cfg \<and> fst (on_submit cfg v) = None then submit cfg Script v
                  else (submit cfg Script v)\<lparr>formSubmitted := False\<rparr>
              | (_, v) \<Rightarrow> v)
           else v\<lparr>invalid_events := invalid_events v + 1, formSubmitted := False\<rparr>
         else v)"

definition answer_valid :: "jval \<Rightarrow> bool" where
  "answer_valid response \<longleftrightarrow> response = J_bool True \<or> response = J_str (js ''true'')"

definition set_previous :: "nat \<Rightarrow> (previous \<Rightarrow> previous) \<Rightarrow> validator \<Rightarrow> validator" where
  "set_previous k f v = v\<lparr>previous_objs := (previous_objs v)[k := f (previous_objs v ! k)]\<rparr>"

definition accepted :: "config \<Rightarrow> nat \<Rightarrow> validator \<Rightarrow> validator" where
  "accepted cfg i v =
     (let v = resetInternals v;
          v = v\<lparr>toHide := Label ` set (errorsFor cfg v i), successList := successList v @ [i]\<rparr>
      in showErrors cfg None (mark_invalid i False v))"

definition refused_value :: "config \<Rightarrow> request \<Rightarrow> jval \<Rightarrow> validator \<Rightarrow> validator" where
  "refused_value cfg r response v =
     (let i = rq_field r;
          message = (if js_truthy response then to_text response
                     else defaultMessage cfg v i remote_name (rq_value r));
          v = mark_invalid i True (set_previous (rq_prev r) (p_message_update (\<lambda>_. message)) v)
      in showErrors cfg (Some [(name_of v i, message)]) v)"

text \<open>The callback \<open>success\<close> of the request \<open>r\<close>.\<close>

definition on_answer :: "config \<Rightarrow> request \<Rightarrow> jval \<Rightarrow> validator \<Rightarrow> validator" where
  "on_answer cfg r response v =
     (let i = rq_field r; k = rq_prev r; ok = answer_valid response;
          v = set_message (name_of v i) remote_name (p_original (previous_objs v ! k)) v;
          v = (if ok then accepted cfg i v else refused_value cfg r response v);
          v = set_previous k (p_valid_update (\<lambda>_. ok)) v
      in stopRequest cfg i ok v)"

text \<open>The \<open>n\<close>-th of the live requests is answered, or fails: then no callback runs.\<close>

definition drop_request :: "nat \<Rightarrow> validator \<Rightarrow> validator" where
  "drop_request n v = v\<lparr>live := take n (live v) @ drop (Suc n) (live v)\<rparr>"

definition request_answered :: "config \<Rightarrow> nat \<Rightarrow> jval \<Rightarrow> validator \<Rightarrow> validator" where
  "request_answered cfg n response v =
     (if n < length (live v) then on_answer cfg (live v ! n) response (drop_request n v) else v)"

definition request_failed :: "nat \<Rightarrow> validator \<Rightarrow> validator" where
  "request_failed n v = drop_request n v"

section \<open>Setting up\<close>

definition group_table :: "(jsstr \<times> (jsstr + jsstr list)) list \<Rightarrow> (jsstr \<times> jsstr) list" where
  "group_table gs =
     fold (\<lambda>(key, val) t.
       fold (\<lambda>name. set_key name key) (case val of Inl s \<Rightarrow> split_by is_space s | Inr names \<Rightarrow> names) t) gs []"

text \<open>The state before \<open>init\<close> and the document before any label.\<close>

definition no_view :: view where
  "no_view =
     \<lparr>labels = [], shown = \<lambda>_. False, error_class = \<lambda>_. False, valid_class = \<lambda>_. False, pending_class = \<lambda>_. False,
      group_error = \<lambda>_. False, described_by = \<lambda>_. [], aria_invalid = \<lambda>_. None, aria_required = \<lambda>_. False\<rparr>"

definition init :: "config \<Rightarrow> form_fields \<Rightarrow> (jsstr \<times> (jsstr + rules)) list \<Rightarrow> (jsstr \<times> messages) list \<Rightarrow>
    (jsstr \<times> (jsstr + jsstr list)) list \<Rightarrow> validator" where
  "init cfg fs rs ms gs =
     \<lparr>controls = fs,
      s_rules = map (\<lambda>(k, r). (k, Inr (normalizeRule r))) rs,
      s_messages = ms,
      groups = group_table gs,
      submitted = [], invalid = [], pending = [], pendingRequest = 0,
      errorList = [], errorMap = [], successList = [], currentElements = [], toShow = {}, toHide = {},
      formSubmitted = False, cancelSubmit = False, submitButton = None, lastActive = None,
      previous_of = \<lambda>_. None, previous_objs = [], live = [], blur_links = [],
      dom = no_view\<lparr>aria_required := \<lambda>i. i < length fs \<and>
        (map_of (attrs (fs ! i)) (js ''required'') \<noteq> None \<or> map_of (attrs (fs ! i)) (js ''data-rule-required'') \<noteq> None
         \<or> js ''required'' \<in> set (split_on 32 (fclass (fs ! i))))\<rparr>,
      outbox = [], invalid_events = 0\<rparr>"

section \<open>Changing rules\<close>

text \<open>\<open>$(element).rules("add", argument)\<close> and \<open>("remove", argument)\<close>, before the rules are returned.\<close>

definition rules_add :: "nat \<Rightarrow> (jsstr + rules) \<Rightarrow> (jsstr \<times> message option) list option \<Rightarrow> validator \<Rightarrow> validator" where
  "rules_add i argument ms v =
     (let name = name_of v i;
          existing = extend_with (staticRules (s_rules v) (field_of v i)) (normalizeRule argument);
          v = v\<lparr>s_rules := set_key name (Inr (del_key (js ''messages'') existing)) (s_rules v)\<rparr>
      in case ms of
           None \<Rightarrow> v
         | Some ms \<Rightarrow>
             let old = (case map_of (s_messages v) name of Some (For_methods o') \<Rightarrow> o' | _ \<Rightarrow> [])
             in v\<lparr>s_messages := set_key name (For_methods (extend_with old ms)) (s_messages v)\<rparr>)"

definition rules_remove :: "nat \<Rightarrow> jsstr option \<Rightarrow> validator \<Rightarrow> rules \<times> validator" where
  "rules_remove i argument v =
     (let name = name_of v i; existing = staticRules (s_rules v) (field_of v i)
      in if argument \<in> {None, Some []} then (existing, v\<lparr>s_rules := del_key name (s_rules v)\<rparr>)
         else
           let methods = split_by is_space (the argument);
               kept = fold del_key methods existing;
               v = (if has_key name (s_rules v) then v\<lparr>s_rules := set_key name (Inr kept) (s_rules v)\<rparr> else v)
           in (List.map_filter (\<lambda>m. map_option (Pair m) (map_of existing m)) methods,
               if js ''required'' \<in> set methods
               then on_dom (\<lambda>d. d\<lparr>aria_required := (aria_required d)(i := False)\<rparr>) v else v))"

text \<open>
  The plug-in's messages, where a text with a slot is made into a function of the parameter and the
  element, and its settings; then those of the project.
\<close>

definition filled_text :: "string \<Rightarrow> message" where
  "filled_text s = Makes (\<lambda>p i. case p of None \<Rightarrow> js s | Some p \<Rightarrow> format (js s) [p, J_obj []])"

definition plugin_texts :: "(string \<times> message) list" where
  "plugin_texts =
     [(''required'', Says (js ''This field is required.'')),
      (''remote'', Says (js ''Please fix this field.'')),
      (''email'', Says (js ''Please enter a valid email address.'')),
      (''url'', Says (js ''Please enter a valid URL.'')),
      (''date'', Says (js ''Please enter a valid date.'')),
      (''dateISO'', Says (js ''Please enter a valid date ( ISO ).'')),
      (''number'', Says (js ''Please enter a valid number.'')),
      (''digits'', Says (js ''Please enter only digits.'')),
      (''equalTo'', Says (js ''Please enter the same value again.'')),
      (''maxlength'', filled_text ''Please enter no more than {0} characters.''),
      (''minlength'', filled_text ''Please enter at least {0} characters.''),
      (''rangelength'', filled_text ''Please enter a value between {0} and {1} characters long.''),
      (''range'', filled_text ''Please enter a value between {0} and {1}.''),
      (''max'', filled_text ''Please enter a value less than or equal to {0}.''),
      (''min'', filled_text ''Please enter a value greater than or equal to {0}.''),
      (''step'', filled_text ''Please enter a multiple of {0}.'')]"

text \<open>\<open>dates\<close> are the dates of the browser (\<open>valid_date\<close>).\<close>

definition plugin_defaults :: "(jval option \<Rightarrow> bool) \<Rightarrow> config" where
  "plugin_defaults dates =
     \<lparr>selects = \<lambda>_. [],
      method_names = map js [''required'', ''email'', ''url'', ''date'', ''dateISO'', ''number'', ''digits'', ''minlength'',
        ''maxlength'', ''rangelength'', ''min'', ''max'', ''range'', ''step'', ''equalTo'', ''remote''],
      valid_date = dates, extra = \<lambda>_. None,
      class_rules = classRuleSettings,
      default_messages = map_of (map (\<lambda>(m, t). (js m, t)) plugin_texts),
      auto_ranges = False, ignoreTitle = False, debug = False, focusCleanup = False, focuses_invalid = True,
      onsubmit = True, onfocusin_set = True, onfocusout_set = True, onkeyup_set = True, onclick_set = True,
      highlight = Some default_highlight, unhighlight = Some default_unhighlight, show_errors = None,
      success = None, label_element = True, wrapper = False, label_container = False, containers = [],
      error_placement = None, inside_label = \<lambda>_. False, submit_handler = None, reset_plugin = None\<rparr>"

definition project_settings :: "(nat \<Rightarrow> nat option) \<Rightarrow> (nat \<Rightarrow> place) \<Rightarrow> config \<Rightarrow> config" where
  "project_settings part_of placed cfg =
     cfg\<lparr>onkeyup_set := False, highlight := Some (custom_highlight part_of),
         unhighlight := Some (custom_unhighlight part_of), label_element := False, error_placement := Some placed\<rparr>"

section \<open>Adding methods\<close>

definition addClassRules :: "jsstr \<Rightarrow> rules \<Rightarrow> config \<Rightarrow> config" where
  "addClassRules name rs cfg = cfg\<lparr>class_rules := set_key name rs (class_rules cfg)\<rparr>"

text \<open>\<open>arity\<close> is the number of the parameters of the method.\<close>

definition addMethod :: "jsstr \<Rightarrow> nat \<Rightarrow> (form_fields \<Rightarrow> jval option \<Rightarrow> nat \<Rightarrow> jval \<Rightarrow> verdict) \<Rightarrow>
    message option \<Rightarrow> config \<Rightarrow> config" where
  "addMethod name arity f message cfg =
     (let cfg = cfg\<lparr>extra := (extra cfg)(name := Some f),
                    method_names := (if name \<in> set (method_names cfg) then method_names cfg else method_names cfg @ [name]),
                    default_messages := (default_messages cfg)(name := (case message of None \<Rightarrow> default_messages cfg name | Some m \<Rightarrow> Some m))\<rparr>
      in if arity < 3 then addClassRules name (normalizeRule (Inl name)) cfg else cfg)"

end
