(* ===== verification/Validator_Frame.thy ===== *)
theory Validator_Frame
  imports Validator
begin

text \<open>
  What the parts of a check leave alone. \<open>core\<close> forgets the document, the sets of labels to show and
  hide and the handlers of \<open>equalTo\<close>: showing errors keeps the core. \<open>grows\<close> is the effect of a check: names can become pending, but
  none stops being so, nothing is sent, and the books of the requests stay in order (\<open>requests_ok\<close>).
\<close>

section \<open>Effects\<close>

text \<open>A preorder of states that the steps of a loop respect is respected by the loop.\<close>

locale effect =
  fixes rel :: "'s \<Rightarrow> 's \<Rightarrow> bool"
  assumes rel_refl: "rel s s"
    and rel_trans: "rel s t \<Longrightarrow> rel t u \<Longrightarrow> rel s u"
begin

lemma fold_rel: "(\<And>x s. x \<in> set xs \<Longrightarrow> rel s (f x s)) \<Longrightarrow> rel s (fold f xs s)"
proof (induction xs arbitrary: s)
  case (Cons x xs)
  have "rel s (f x s)" using Cons.prems by simp
  moreover have "rel (f x s) (fold f xs (f x s))" using Cons by simp
  ultimately show ?case using rel_trans by simp
qed (simp add: rel_refl)

lemma if_rel: "rel s t \<Longrightarrow> rel s u \<Longrightarrow> rel s (if b then t else u)"
  by simp

end

section \<open>The core of the state\<close>

definition core :: "validator \<Rightarrow> validator" where
  "core v = v\<lparr>dom := no_view, toShow := {}, toHide := {}, blur_links := []\<rparr>"

definition same_core :: "validator \<Rightarrow> validator \<Rightarrow> bool" where
  "same_core v w \<longleftrightarrow> core w = core v"

interpretation same_core: effect same_core
  by unfold_locales (auto simp: same_core_def)

lemma same_coreD:
  assumes "same_core v w"
  shows "controls w = controls v" "s_rules w = s_rules v" "s_messages w = s_messages v" "groups w = groups v"
    "submitted w = submitted v" "invalid w = invalid v" "pending w = pending v" "pendingRequest w = pendingRequest v"
    "errorList w = errorList v" "errorMap w = errorMap v" "successList w = successList v"
    "currentElements w = currentElements v" "formSubmitted w = formSubmitted v" "cancelSubmit w = cancelSubmit v"
    "submitButton w = submitButton v" "lastActive w = lastActive v" "previous_of w = previous_of v"
    "previous_objs w = previous_objs v" "live w = live v" "outbox w = outbox v"
    "invalid_events w = invalid_events v"
  using assms by (cases v, cases w, simp add: same_core_def core_def)+

lemma core_on_dom [simp]: "core (on_dom f v) = core v"
  by (simp add: core_def on_dom_def)

lemma core_run_mark [simp]: "core (run_mark f i v) = core v"
  by (simp add: core_def run_mark_def split: option.splits)

lemma core_toShow [simp]: "core (v\<lparr>toShow := a\<rparr>) = core v"
  and core_toHide [simp]: "core (v\<lparr>toHide := a\<rparr>) = core v"
  and core_dom [simp]: "core (v\<lparr>dom := d\<rparr>) = core v"
  and core_blur [simp]: "core (v\<lparr>blur_links := b\<rparr>) = core v"
  by (simp_all add: core_def)

lemma core_showLabel [simp]: "core (showLabel cfg i m v) = core v"
  by (simp add: showLabel_def Let_def)

lemma core_show_one [simp]: "core (show_one cfg e v) = core v"
  by (simp add: show_one_def split: option.splits)

lemma core_fold: "(\<And>x v. core (f x v) = core v) \<Longrightarrow> core (fold f xs v) = core v"
  using same_core.fold_rel [of xs f v] by (simp add: same_core_def)

lemma core_display [simp]: "core (display cfg v) = core v"
  by (simp add: display_def defaultShowErrors_def hideErrors_def Let_def core_fold split: option.splits)

lemma core_resetElements [simp]: "core (resetElements cfg is v) = core v"
  by (simp add: resetElements_def reset_one_def core_fold)

lemma core_rules_effect [simp]: "core (rules_effect cfg i v) = core v"
  by (simp add: rules_effect_def Let_def split: prod.splits)

lemma same_core_display: "same_core v (display cfg v)"
  and same_core_rules_effect: "same_core v (rules_effect cfg i v)"
  and same_core_resetElements: "same_core v (resetElements cfg is v)"
  by (simp_all add: same_core_def)

lemmas display_simps [simp] = same_coreD [OF same_core_display]
lemmas rules_effect_simps [simp] = same_coreD [OF same_core_rules_effect]
lemmas resetElements_simps [simp] = same_coreD [OF same_core_resetElements]

lemma gathered_core: "same_core v w \<Longrightarrow> gathered cfg w i = gathered cfg v i"
  by (simp add: gathered_def same_coreD)

lemma element_rules_core: "same_core v w \<Longrightarrow> element_rules cfg w i = element_rules cfg v i"
  by (simp add: element_rules_def gathered_core)

lemma elements_loop_core: "core (snd (elements_loop cfg is cache v)) = core v"
proof (induction cfg "is" cache v rule: elements_loop.induct)
  case (2 cfg i "is" cache v)
  show ?case
  proof (cases "name_of v i \<in> set cache")
    case True
    then show ?thesis using 2(1) by simp
  next
    case False
    then show ?thesis using 2(2,3) by (simp add: Let_def case_prod_beta)
  qed
qed simp

lemma elements_core: "same_core v (snd (elements cfg v))"
  by (simp add: same_core_def elements_def elements_loop_core)

text \<open>The elements found depend on the core only, so a purely functional description of them does.\<close>

fun found :: "config \<Rightarrow> validator \<Rightarrow> nat list \<Rightarrow> jsstr list \<Rightarrow> nat list" where
  "found cfg v [] cache = []"
| "found cfg v (i # is) cache =
     (if name_of v i \<in> set cache \<or> objectLength (element_rules cfg v i) param_truthy = 0 then found cfg v is cache
      else i # found cfg v is (name_of v i # cache))"

lemma found_core: "same_core v w \<Longrightarrow> found cfg w is cache = found cfg v is cache"
  by (induction "is" arbitrary: cache) (auto simp: element_rules_core same_coreD)

lemma elements_loop_found: "fst (elements_loop cfg is cache v) = found cfg v is cache"
proof (induction cfg "is" cache v rule: elements_loop.induct)
  case (2 cfg i "is" cache v)
  have e: "found cfg (rules_effect cfg i v) is c = found cfg v is c" for c
    by (rule found_core) (rule same_core_rules_effect)
  show ?case
  proof (cases "name_of v i \<in> set cache")
    case True
    then show ?thesis using 2(1) by simp
  next
    case False
    then show ?thesis using 2(2,3) by (simp add: Let_def case_prod_beta e)
  qed
qed simp

definition checked_elements :: "config \<Rightarrow> validator \<Rightarrow> nat list" where
  "checked_elements cfg v = found cfg v (filter (\<lambda>i. is_control (field_of v i)) [0..<length (controls v)]) []"

lemma elements_found: "fst (elements cfg v) = checked_elements cfg v"
  by (simp add: elements_def checked_elements_def elements_loop_found)

lemma found_subset: "set (found cfg v is cache) \<subseteq> set is"
  by (induction "is" arbitrary: cache) auto

lemma checked_elements_control: "i \<in> set (checked_elements cfg v) \<Longrightarrow> i < length (controls v) \<and> is_control (field_of v i)"
  using found_subset unfolding checked_elements_def by fastforce

lemma checked_target: "i \<in> set (checked_elements cfg v) \<Longrightarrow> \<exists>j. validationTargetFor (controls v) i = Some j"
proof -
  assume "i \<in> set (checked_elements cfg v)"
  then have i: "i < length (controls v)" "\<not> ignored (field_of v i)"
    using checked_elements_control by (auto simp: is_control_def)
  then show ?thesis
    by (auto simp: validationTargetFor_def findByName_def find_None_iff not_None_eq [symmetric])
qed

end
