(* ===== verification/Validator_Check.thy ===== *)
theory Validator_Check
  imports Validator_Frame
begin

text \<open>
  The check of a form whose rules look at values only: the form is valid when every rule of every
  element that is checked accepts, and the errors are the first refusals in the order of the elements.
\<close>

section \<open>Failures\<close>

definition accepts_value :: "config \<Rightarrow> validator \<Rightarrow> nat \<Rightarrow> jsstr \<times> param \<Rightarrow> bool" where
  "accepts_value cfg v j r \<longleftrightarrow>
     plain_method cfg (controls v) (elementValue (controls v) j) j (fst r) (value_of_param (snd r)) \<noteq> Some Invalid"

definition first_refusal :: "config \<Rightarrow> validator \<Rightarrow> nat \<Rightarrow> (jsstr \<times> param) option" where
  "first_refusal cfg v j = List.find (\<lambda>r. \<not> accepts_value cfg v j r) (element_rules cfg v j)"

definition refusal_error :: "config \<Rightarrow> validator \<Rightarrow> nat \<Rightarrow> err option" where
  "refusal_error cfg v j =
     map_option (\<lambda>(m, p). \<lparr>e_message = defaultMessage cfg v j m (Some (value_of_param p)),
       e_element = Some j, e_method = Some m\<rparr>) (first_refusal cfg v j)"

text \<open>The rules of an element look at its value only, and none throws.\<close>

definition looks_at_value :: "config \<Rightarrow> validator \<Rightarrow> nat \<Rightarrow> bool" where
  "looks_at_value cfg v j \<longleftrightarrow>
     normalizer_of (element_rules cfg v j) = None \<and>
     list_all (\<lambda>(m, p). \<not> (Option.is_none (extra cfg m) \<and> m = remote_name) \<and>
       plain_method cfg (controls v) (elementValue (controls v) j) j m (value_of_param p)
         \<in> {Some Valid, Some Invalid, Some Mismatch}) (element_rules cfg v j)"

definition targets :: "config \<Rightarrow> validator \<Rightarrow> nat list" where
  "targets cfg v = List.map_filter (validationTargetFor (controls v)) (checked_elements cfg v)"

section \<open>What a verdict depends on\<close>

definition same_reads :: "validator \<Rightarrow> validator \<Rightarrow> bool" where
  "same_reads v w \<longleftrightarrow> controls w = controls v \<and> s_rules w = s_rules v \<and> s_messages w = s_messages v"

interpretation same_reads: effect same_reads
  by unfold_locales (auto simp: same_reads_def)

lemma same_core_reads: "core w = core v \<Longrightarrow> same_reads v w"
  using same_coreD [of v w] by (simp add: same_core_def same_reads_def)

lemma defaultMessage_reads: "same_reads v w \<Longrightarrow> defaultMessage cfg w i m p = defaultMessage cfg v i m p"
  by (simp add: defaultMessage_def customMessage_def same_reads_def)

lemma element_rules_reads: "same_reads v w \<Longrightarrow> element_rules cfg w i = element_rules cfg v i"
  by (simp add: element_rules_def gathered_def same_reads_def)

lemma refusal_reads:
  assumes "same_reads v w"
  shows "first_refusal cfg w j = first_refusal cfg v j" "refusal_error cfg w j = refusal_error cfg v j"
    "looks_at_value cfg w j = looks_at_value cfg v j"
  using assms element_rules_reads [OF assms] defaultMessage_reads [OF assms]
  by (simp_all add: first_refusal_def refusal_error_def looks_at_value_def accepts_value_def same_reads_def)

section \<open>One element\<close>

lemma run_method_plain:
  assumes "\<not> (Option.is_none (extra cfg m) \<and> m = remote_name)"
    and "plain_method cfg (controls v) val i m p = Some r"
  shows "\<exists>w. run_method cfg val i m p v = (r, w) \<and> core w = core v"
  using assms by (auto simp: run_method_def link_blur_def Let_def)

lemma core_formatAndAdd:
  assumes "core w = core v"
  shows "core (formatAndAdd cfg i m p w) = core (formatAndAdd cfg i m p v)"
proof -
  have m: "defaultMessage cfg w i m p = defaultMessage cfg v i m p"
    using defaultMessage_reads [OF same_core_reads [OF assms]] .
  show ?thesis using assms unfolding formatAndAdd_def Let_def m
    by (cases v, cases w) (simp add: core_def)
qed

text \<open>The loop over rules that look at the value only, seen on the core.\<close>

lemma check_loop_plain:
  assumes "list_all (\<lambda>(m, p). \<not> (Option.is_none (extra cfg m) \<and> m = remote_name) \<and>
      plain_method cfg (controls v) val i m (value_of_param p) \<in> {Some Valid, Some Invalid, Some Mismatch}) rs"
  shows "\<exists>r w. check_loop cfg val i sole mm rs v = (r, w) \<and>
    (case List.find (\<lambda>(m, p). plain_method cfg (controls v) val i m (value_of_param p) = Some Invalid) rs of
       None \<Rightarrow> (r = Valid \<or> r = Mismatch) \<and> core w = core v
     | Some (m, p) \<Rightarrow> r = Invalid \<and> core w = core (formatAndAdd cfg i m (Some (value_of_param p)) v))"
  using assms
proof (induction rs arbitrary: mm v)
  case (Cons mp rs)
  obtain m p where mp: "mp = (m, p)" by (cases mp)
  define q where "q = value_of_param p"
  from Cons.prems obtain r where r: "plain_method cfg (controls v) val i m q = Some r"
    "r = Valid \<or> r = Invalid \<or> r = Mismatch" "\<not> (Option.is_none (extra cfg m) \<and> m = remote_name)"
    by (auto simp: mp q_def)
  obtain w where w: "run_method cfg val i m q v = (r, w)" "core w = core v"
    using run_method_plain [OF r(3,1)] by blast
  have c: "controls w = controls v" using same_core_reads [OF w(2)] by (simp add: same_reads_def)
  have rest: "list_all (\<lambda>(m, p). \<not> (Option.is_none (extra cfg m) \<and> m = remote_name) \<and>
      plain_method cfg (controls w) val i m (value_of_param p) \<in> {Some Valid, Some Invalid, Some Mismatch}) rs"
    using Cons.prems by (simp add: mp c)
  show ?case
  proof (cases "r = Invalid")
    case True
    then show ?thesis using w r core_formatAndAdd [OF w(2), of cfg i m "Some q"] by (simp add: mp q_def [symmetric])
  next
    case False
    define mm' where "mm' = (if r = Valid then False else sole)"
    have l: "check_loop cfg val i sole mm (mp # rs) v = check_loop cfg val i sole mm' rs w"
      using w r(2) False by (auto simp: mp q_def [symmetric] mm'_def)
    have f: "List.find (\<lambda>(m, p). plain_method cfg (controls v) val i m (value_of_param p) = Some Invalid) (mp # rs)
        = List.find (\<lambda>(m, p). plain_method cfg (controls v) val i m (value_of_param p) = Some Invalid) rs"
      using r(1) False by (simp add: mp q_def [symmetric])
    from Cons.IH [OF rest, of mm'] show ?thesis unfolding l f
      using core_formatAndAdd [OF w(2)] w(2) by (auto simp: c split: option.splits)
  qed
qed simp

text \<open>Adding the errors of a list of elements, as far as the rest of the check can see.\<close>

definition adds_errors :: "validator \<Rightarrow> validator \<Rightarrow> err list \<Rightarrow> jsstr set \<Rightarrow> bool" where
  "adds_errors v w es names \<longleftrightarrow>
     same_reads v w \<and> errorList w = errorList v @ es \<and> fst ` set (errorMap w) = fst ` set (errorMap v) \<union> names"

lemma adds_errors_trans:
  "adds_errors u v es ns \<Longrightarrow> adds_errors v w fs ms \<Longrightarrow> adds_errors u w (es @ fs) (ns \<union> ms)"
  by (simp add: adds_errors_def same_reads_def Un_assoc)

lemma adds_errors_core: "core w = core v \<Longrightarrow> adds_errors v w [] {}"
  using same_core_reads [of w v] same_coreD [of v w] by (simp add: adds_errors_def same_core_def)

lemma formatAndAdd_adds:
  "adds_errors v (formatAndAdd cfg i m p v)
     [\<lparr>e_message = defaultMessage cfg v i m p, e_element = Some i, e_method = Some m\<rparr>] {name_of v i}"
  by (simp add: adds_errors_def formatAndAdd_def same_reads_def keys_set_key Let_def)

definition refusal_names :: "config \<Rightarrow> validator \<Rightarrow> nat \<Rightarrow> jsstr set" where
  "refusal_names cfg v j = (if first_refusal cfg v j = None then {} else {name_of v j})"

lemma adds_errors_core_eq: "adds_errors v w es ns \<Longrightarrow> core w' = core w \<Longrightarrow> adds_errors v w' es ns"
  using adds_errors_trans [OF _ adds_errors_core, of v w es ns w'] by simp

lemma check_target_plain:
  assumes "looks_at_value cfg v j"
  shows "\<exists>r w. check_target cfg j v = (r, w) \<and> r \<noteq> Throws \<and> r \<noteq> Pending \<and>
    (r = Invalid \<longleftrightarrow> first_refusal cfg v j \<noteq> None) \<and>
    adds_errors v w (case refusal_error cfg v j of None \<Rightarrow> [] | Some e \<Rightarrow> [e]) (refusal_names cfg v j)"
proof -
  define rs where "rs = element_rules cfg v j"
  define v1 where "v1 = rules_effect cfg j v"
  define val where "val = elementValue (controls v) j"
  have c1: "core v1 = core v" "controls v1 = controls v" by (simp_all add: v1_def)
  have n: "normalizer_of rs = None" using assms by (simp add: looks_at_value_def rs_def)
  have plain: "list_all (\<lambda>(m, p). \<not> (Option.is_none (extra cfg m) \<and> m = remote_name) \<and>
      plain_method cfg (controls v1) val j m (value_of_param p) \<in> {Some Valid, Some Invalid, Some Mismatch}) rs"
    using assms by (simp add: looks_at_value_def rs_def val_def c1)
  have find: "first_refusal cfg v j =
      List.find (\<lambda>(m, p). plain_method cfg (controls v1) val j m (value_of_param p) = Some Invalid) rs"
    by (simp add: first_refusal_def accepts_value_def rs_def val_def c1 case_prod_unfold)
  obtain r w where l: "check_loop cfg val j (length rs = 1) False rs v1 = (r, w)"
    and w: "case first_refusal cfg v j of None \<Rightarrow> (r = Valid \<or> r = Mismatch) \<and> core w = core v1
       | Some (m, p) \<Rightarrow> r = Invalid \<and> core w = core (formatAndAdd cfg j m (Some (value_of_param p)) v1)"
    using check_loop_plain [OF plain] unfolding find by blast
  have ct: "check_target cfg j v = (r, if r = Valid \<and> objectLength rs param_truthy \<noteq> 0
      then w\<lparr>successList := successList w @ [j]\<rparr> else w)"
    unfolding check_target_def Let_def rs_def [symmetric] v1_def [symmetric] val_def [symmetric] n by (simp only: l option.case prod.case)
  have more: "adds_errors v w es ns \<Longrightarrow> adds_errors v (if b then w\<lparr>successList := xs\<rparr> else w) es ns" for es ns b xs
    by (simp add: adds_errors_def same_reads_def)
  show ?thesis
  proof (cases "first_refusal cfg v j")
    case None
    then have "core w = core v" "r = Valid \<or> r = Mismatch" using w c1 by simp_all
    then show ?thesis using ct None more [OF adds_errors_core]
      by (auto simp: refusal_error_def refusal_names_def)
  next
    case (Some mp)
    obtain m p where mp: "mp = (m, p)" by (cases mp)
    have cw: "r = Invalid" "core w = core (formatAndAdd cfg j m (Some (value_of_param p)) v)"
      using w Some mp core_formatAndAdd [OF c1(1)] by simp_all
    show ?thesis using ct Some cw adds_errors_core_eq [OF formatAndAdd_adds cw(2)]
      by (auto simp: refusal_error_def refusal_names_def mp)
  qed
qed

lemma check_all_plain:
  assumes "\<And>i. i \<in> set is \<Longrightarrow> validationTargetFor (controls v) i \<noteq> None"
    and "\<And>j. j \<in> set (List.map_filter (validationTargetFor (controls v)) is) \<Longrightarrow> looks_at_value cfg v j"
  shows "\<exists>w. check_all cfg is v = (False, w) \<and>
    adds_errors v w (List.map_filter (refusal_error cfg v) (List.map_filter (validationTargetFor (controls v)) is))
      (\<Union> (refusal_names cfg v ` set (List.map_filter (validationTargetFor (controls v)) is)))"
  using assms
proof (induction "is" arbitrary: v)
  case Nil
  then show ?case using adds_errors_core [of v v] by (simp add: List.map_filter_def)
next
  case (Cons i "is")
  obtain j where j: "validationTargetFor (controls v) i = Some j" using Cons.prems(1) by fastforce
  have "looks_at_value cfg v j" using Cons.prems(2) j by (simp add: List.map_filter_def)
  then obtain r w where w: "check_target cfg j v = (r, w)" "r \<noteq> Throws"
    "adds_errors v w (case refusal_error cfg v j of None \<Rightarrow> [] | Some e \<Rightarrow> [e]) (refusal_names cfg v j)"
    using check_target_plain by blast
  have sr: "same_reads v w" using w(3) by (simp add: adds_errors_def)
  have c: "controls w = controls v" using sr by (simp add: same_reads_def)
  have eq: "refusal_error cfg w = refusal_error cfg v" "refusal_names cfg w = refusal_names cfg v"
    using refusal_reads [OF sr] by (simp_all add: fun_eq_iff refusal_names_def c)
  obtain u where u: "check_all cfg is w = (False, u)"
    "adds_errors w u (List.map_filter (refusal_error cfg v) (List.map_filter (validationTargetFor (controls v)) is))
      (\<Union> (refusal_names cfg v ` set (List.map_filter (validationTargetFor (controls v)) is)))"
    using Cons.IH [of w] Cons.prems refusal_reads(3) [OF sr] unfolding eq c
    by (force simp: List.map_filter_def)
  have "check_all cfg (i # is) v = (False, u)" using w(1,2) u(1) j by (simp add: check_def)
  moreover have "adds_errors v u (List.map_filter (refusal_error cfg v) (List.map_filter (validationTargetFor (controls v)) (i # is)))
      (\<Union> (refusal_names cfg v ` set (List.map_filter (validationTargetFor (controls v)) (i # is))))"
    using adds_errors_trans [OF w(3) u(2)] j by (simp add: List.map_filter_def split: option.splits)
  ultimately show ?case by blast
qed

section \<open>The form\<close>

lemma prepareForm_reads: "same_reads v (prepareForm cfg v)"
  by (simp add: same_reads_def prepareForm_def reset_def resetInternals_def Let_def)

lemma checked_elements_reads: "same_reads v w \<Longrightarrow> checked_elements cfg w = checked_elements cfg v"
proof -
  assume r: "same_reads v w"
  have "found cfg w is cache = found cfg v is cache" for "is" cache
    by (induction "is" arbitrary: cache) (use r in \<open>simp_all add: element_rules_reads [OF r] same_reads_def\<close>)
  with r show ?thesis by (simp add: checked_elements_def same_reads_def)
qed

lemma targets_reads:
  assumes "same_reads v w"
  shows "targets cfg w = targets cfg v"
  using assms unfolding targets_def checked_elements_reads [OF assms] same_reads_def by simp

lemma checkForm_plain:
  assumes "\<And>j. j \<in> set (targets cfg v) \<Longrightarrow> looks_at_value cfg v j"
  shows "\<exists>w. checkForm cfg v = (False, w) \<and> same_reads v w \<and>
    errorList w = List.map_filter (refusal_error cfg v) (targets cfg v) \<and>
    fst ` set (errorMap w) = \<Union> (refusal_names cfg v ` set (targets cfg v))"
proof -
  define u where "u = snd (elements cfg (prepareForm cfg v))"
  define u' where "u' = u\<lparr>currentElements := checked_elements cfg v\<rparr>"
  have r: "same_reads v u"
    unfolding u_def
    by (rule same_reads.rel_trans [OF prepareForm_reads same_core_reads])
      (rule elements_core [unfolded same_core_def])
  then have r': "same_reads v u'" by (simp add: u'_def same_reads_def)
  have c: "controls u' = controls v" using r' by (simp add: same_reads_def)
  have e: "fst (elements cfg (prepareForm cfg v)) = checked_elements cfg v"
    by (simp add: elements_found checked_elements_reads [OF prepareForm_reads])
  have empty: "errorList u' = []" "errorMap u' = []"
    using same_coreD [OF elements_core, of cfg "prepareForm cfg v"]
    by (simp_all add: u'_def u_def prepareForm_def reset_def resetInternals_def Let_def)
  have cf: "checkForm cfg v = check_all cfg (checked_elements cfg v) u'"
    unfolding checkForm_def Let_def case_prod_beta e u_def [symmetric] u'_def ..
  have eq: "refusal_error cfg u' = refusal_error cfg v" "refusal_names cfg u' = refusal_names cfg v"
    using refusal_reads [OF r'] by (simp_all add: fun_eq_iff refusal_names_def c)
  have t: "List.map_filter (validationTargetFor (controls u')) (checked_elements cfg v) = targets cfg v"
    by (simp add: targets_def c)
  obtain w where w: "check_all cfg (checked_elements cfg v) u' = (False, w)"
    "adds_errors u' w (List.map_filter (refusal_error cfg v) (targets cfg v)) (\<Union> (refusal_names cfg v ` set (targets cfg v)))"
    using check_all_plain [of "checked_elements cfg v" u' cfg] checked_target [of _ cfg v] assms refusal_reads(3) [OF r']
    unfolding eq t by (force simp: c)
  have "same_reads v w" using w(2) r' same_reads.rel_trans unfolding adds_errors_def by blast
  then show ?thesis using w empty cf by (auto simp: adds_errors_def)
qed

lemma refusal_error_none: "List.map_filter (refusal_error cfg v) ts = [] \<longleftrightarrow> list_all (\<lambda>j. first_refusal cfg v j = None) ts"
  by (induction ts) (simp_all add: refusal_error_def split: option.splits)

lemma first_refusal_none: "first_refusal cfg v j = None \<longleftrightarrow> list_all (accepts_value cfg v j) (element_rules cfg v j)"
  by (auto simp: first_refusal_def find_None_iff list_all_iff)

end
