(* ===== verification/Validator_Requests.thy ===== *)
theory Validator_Requests
  imports Validator_Frame
begin

text \<open>
  The remote requests of a form over any sequence of submissions, edits, events, answers and failures:
  the counter of pending requests is the number of the names that wait, whatever the order of the
  answers, and no name stops waiting but by an answer to a request of its own.
\<close>

section \<open>The books\<close>

definition waiting_names :: "validator \<Rightarrow> jsstr list" where
  "waiting_names v = map (\<lambda>r. name_of v (rq_field r)) (live v)"

definition requests_ok :: "validator \<Rightarrow> bool" where
  "requests_ok v \<longleftrightarrow>
     pendingRequest v = int (length (pending v)) \<and> distinct (pending v) \<and>
     distinct (waiting_names v) \<and> set (waiting_names v) \<subseteq> set (pending v)"

text \<open>The effect of a check.\<close>

definition grows :: "validator \<Rightarrow> validator \<Rightarrow> bool" where
  "grows v w \<longleftrightarrow>
     controls w = controls v \<and> outbox w = outbox v \<and> formSubmitted w = formSubmitted v \<and>
     cancelSubmit w = cancelSubmit v \<and> set (pending v) \<subseteq> set (pending w) \<and> (requests_ok v \<longrightarrow> requests_ok w)"

interpretation grows: effect grows
  by unfold_locales (auto simp: grows_def)

lemma requests_ok_cong:
  "controls w = controls v \<Longrightarrow> pendingRequest w = pendingRequest v \<Longrightarrow> pending w = pending v \<Longrightarrow> live w = live v \<Longrightarrow>
    requests_ok w = requests_ok v"
  by (simp add: requests_ok_def waiting_names_def)

lemma growsI:
  "controls w = controls v \<Longrightarrow> pendingRequest w = pendingRequest v \<Longrightarrow> pending w = pending v \<Longrightarrow> live w = live v \<Longrightarrow>
    outbox w = outbox v \<Longrightarrow> formSubmitted w = formSubmitted v \<Longrightarrow> cancelSubmit w = cancelSubmit v \<Longrightarrow> grows v w"
  using requests_ok_cong [of w v] by (simp add: grows_def)

lemma grows_core: "core w = core v \<Longrightarrow> grows v w"
  using same_coreD [of v w] by (intro growsI) (simp_all add: same_core_def)

lemmas grows_trans = grows.rel_trans

section \<open>Checks\<close>

lemma grows_formatAndAdd: "grows v (formatAndAdd cfg i m p v)"
  by (rule growsI) (simp_all add: formatAndAdd_def Let_def)

lemma on_dom_simps [simp]:
  "controls (on_dom f v) = controls v" "pendingRequest (on_dom f v) = pendingRequest v" "pending (on_dom f v) = pending v"
  "live (on_dom f v) = live v" "outbox (on_dom f v) = outbox v" "formSubmitted (on_dom f v) = formSubmitted v"
  "cancelSubmit (on_dom f v) = cancelSubmit v" "previous_objs (on_dom f v) = previous_objs v"
  by (simp_all add: on_dom_def)

lemma grows_startRequest: "grows v (startRequest i v)"
  by (auto simp: grows_def startRequest_def requests_ok_def waiting_names_def)

lemma pending_startRequest: "name_of v i \<in> set (pending (startRequest i v))"
  by (simp add: startRequest_def)

lemma grows_ajax:
  assumes "name_of v i \<in> set (pending v)"
  shows "grows v (ajax i val k v)"
proof -
  have m: "map (\<lambda>r. name_of v (rq_field r)) (filter (\<lambda>r. name_of v (rq_field r) \<noteq> n) rs)
      = filter (\<lambda>m. m \<noteq> n) (map (\<lambda>r. name_of v (rq_field r)) rs)" for n rs
    by (induction rs) auto
  show ?thesis using assms by (auto simp: grows_def ajax_def requests_ok_def waiting_names_def m)
qed

lemma grows_previousValue: "grows v (snd (previousValue cfg i m v))"
  by (rule growsI) (simp_all add: previousValue_def split: option.splits)

lemma grows_message_table: "grows v (message_table n v)"
  by (rule growsI) (simp_all add: message_table_def)

lemma grows_set_message: "grows v (set_message n m t v)"
  by (rule growsI) (simp_all add: set_message_def split: option.splits messages.splits)

lemma grows_previous_objs: "grows v (v\<lparr>previous_objs := ps\<rparr>)"
  by (rule growsI) simp_all

lemma grows_remote: "grows v (snd (remote cfg val i param v))"
proof (cases "optional (selects cfg) (controls v) i")
  case False
  define k where "k = fst (previousValue cfg i remote_name v)"
  define v1 where "v1 = snd (previousValue cfg i remote_name v)"
  define v2 where "v2 = message_table (name_of v i) v1"
  define p where "p = previous_objs v2 ! k"
  define q where "q = (if message_truthy (p_original p) then p_original p else own_message v2 (name_of v i) remote_name)"
  define v3 where "v3 = v2\<lparr>previous_objs := (previous_objs v2)[k := p\<lparr>p_original := q\<rparr>]\<rparr>"
  define v4 where "v4 = set_message (name_of v i) remote_name (Some (Says (p_message p))) v3"
  have r: "remote cfg val i param v =
      (case option_data val param of
         None \<Rightarrow> (Throws, v4)
       | Some s \<Rightarrow>
           if p_old p = Some s then (of_check (p_valid p), v4)
           else (Pending, ajax i val k (startRequest i
                  (v4\<lparr>previous_objs := (previous_objs v4)[k := p\<lparr>p_original := q, p_old := Some s\<rparr>]\<rparr>))))"
    using False unfolding remote_def v4_def v3_def q_def p_def v2_def v1_def k_def
    by (simp only: if_False Let_def case_prod_beta)
  have g: "grows v v4"
    unfolding v4_def v3_def v2_def v1_def
    using grows_previousValue grows_message_table grows_previous_objs grows_set_message by (meson grows_trans)
  show ?thesis
  proof (cases "option_data val param")
    case None
    then show ?thesis using g by (simp add: r)
  next
    case (Some s)
    define v5 where "v5 = v4\<lparr>previous_objs := (previous_objs v4)[k := p\<lparr>p_original := q, p_old := Some s\<rparr>]\<rparr>"
    have g5: "grows v (startRequest i v5)"
      using grows_trans [OF g grows_trans [OF grows_previous_objs grows_startRequest]] by (simp add: v5_def)
    have c: "controls (startRequest i v5) = controls v5" using grows_startRequest by (simp add: grows_def)
    have "grows (startRequest i v5) (ajax i val k (startRequest i v5))"
      by (rule grows_ajax) (use pending_startRequest [of v5 i] in \<open>simp add: c\<close>)
    then show ?thesis using Some g grows_trans [OF g5] by (simp add: r v5_def [symmetric])
  qed
qed (simp add: remote_def grows.rel_refl)

lemma grows_run_method: "grows v (snd (run_method cfg val i m p v))"
proof (cases "Option.is_none (extra cfg m) \<and> m = remote_name")
  case True
  show ?thesis unfolding run_method_def if_P [OF True] by (rule grows_remote)
next
  case False
  have "grows v (link_blur cfg i p v)" by (rule growsI) (simp_all add: link_blur_def Let_def)
  with False show ?thesis by (auto simp: run_method_def grows.rel_refl split: option.splits)
qed

lemma grows_drop_errors_of: "grows v (drop_errors_of cfg i v)"
  by (rule growsI) (simp_all add: drop_errors_of_def)

lemma grows_check_loop: "grows v (snd (check_loop cfg val i sole mm rs v))"
proof (induction rs arbitrary: mm v)
  case (Cons mp rs)
  obtain m p where mp: "mp = (m, p)" by (cases mp)
  obtain r w where w: "run_method cfg val i m (value_of_param p) v = (r, w)" by fastforce
  have g: "grows v w" using grows_run_method [of v cfg val i m "value_of_param p"] by (simp add: w)
  show ?case
    using g grows_trans [OF g Cons.IH] grows_trans [OF g grows_drop_errors_of] grows_trans [OF g grows_formatAndAdd]
    by (cases r) (simp_all add: mp w)
qed (simp add: grows.rel_refl)

lemma grows_successList: "grows v w \<Longrightarrow> grows v (w\<lparr>successList := xs\<rparr>)"
  using grows_trans [of v w "w\<lparr>successList := xs\<rparr>"] growsI [of "w\<lparr>successList := xs\<rparr>" w] by simp

lemma grows_check_target: "grows v (snd (check_target cfg i v))"
proof -
  define v1 where "v1 = rules_effect cfg i v"
  have g: "grows v v1" unfolding v1_def by (rule grows_core) simp
  show ?thesis
    unfolding check_target_def Let_def v1_def [symmetric]
    using g grows_trans [OF g grows_check_loop] grows_successList
    by (simp add: case_prod_beta split: option.splits)
qed

lemma grows_check: "grows v (snd (check cfg i v))"
  using grows_check_target grows.rel_refl by (simp add: check_def split: option.splits)

lemma grows_check_all: "grows v (snd (check_all cfg is v))"
proof (induction "is" arbitrary: v)
  case (Cons i "is")
  have g: "grows v (snd (check cfg i v))" by (rule grows_check)
  show ?case using g grows_trans [OF g Cons.IH] by (simp add: Let_def case_prod_beta)
qed (simp add: grows.rel_refl)

lemma grows_elements: "grows v (snd (elements cfg v))"
  using elements_core by (intro grows_core) (simp add: same_core_def)

lemma grows_checkForm: "grows v (snd (checkForm cfg v))"
proof -
  have p: "grows v (prepareForm cfg v)"
    by (rule growsI) (simp_all add: prepareForm_def reset_def resetInternals_def Let_def)
  define w where "w = snd (elements cfg (prepareForm cfg v))"
  have g: "grows v w" unfolding w_def by (rule grows_trans [OF p grows_elements])
  have "grows w (w\<lparr>currentElements := is\<rparr>)" for "is" by (rule growsI) simp_all
  then show ?thesis using grows_trans [OF grows_trans [OF g] grows_check_all]
    by (simp add: checkForm_def Let_def case_prod_beta w_def)
qed

lemma grows_showErrors: "grows v (showErrors cfg es v)"
proof (cases es)
  case None
  then show ?thesis by (simp add: showErrors_def grows_core)
next
  case (Some es')
  have "grows v (v\<lparr>errorMap := a, errorList := b, successList := c\<rparr>)" for a b c by (rule growsI) simp_all
  then show ?thesis using grows_trans [OF _ grows_core [OF core_display]] by (simp add: Some showErrors_def Let_def)
qed

lemma grows_record_errors: "grows v (record_errors v)"
  by (rule growsI) (simp_all add: record_errors_def Let_def)

lemma grows_form: "grows v (snd (form cfg v))"
proof -
  have g: "grows v (snd (checkForm cfg v))" by (rule grows_checkForm)
  have "grows v (showErrors cfg None (record_errors (snd (checkForm cfg v))))"
    by (rule grows_trans [OF g grows_trans [OF grows_record_errors grows_showErrors]])
  with g show ?thesis by (simp add: form_def Let_def case_prod_beta)
qed

lemma grows_prepareElement: "grows v (prepareElement cfg i v)"
  by (rule growsI) (simp_all add: prepareElement_def reset_def resetInternals_def Let_def)

lemma grows_currentElements: "grows v (v\<lparr>currentElements := xs\<rparr>)"
  by (rule growsI) simp_all

lemma grows_group_loop: "grows v (snd (check_group cfg names r v))"
proof (induction names arbitrary: r v)
  case (Cons name names)
  show ?case
  proof (cases "findByName (controls v) name")
    case Nil
    then show ?thesis by (simp add: grows.rel_refl)
  next
    case (Cons i "is")
    show ?thesis
    proof (cases "validationTargetFor (controls v) i")
      case None
      then show ?thesis using Cons Cons.IH by simp
    next
      case (Some j)
      define u where "u = v\<lparr>currentElements := currentElements v @ [j]\<rparr>"
      define p where "p = (if r = Valid then check cfg j u else (r, u))"
      have u: "grows v u" unfolding u_def by (rule grows_currentElements)
      have p: "grows v (snd p)" using u grows_trans [OF u grows_check] by (simp add: p_def)
      have "check_group cfg (name # names) r v =
          (if has_key (name_of v j) (invalid v)
           then (if fst p = Throws then (Throws, snd p) else check_group cfg names (fst p) (snd p))
           else check_group cfg names r v)"
        by (simp add: Cons Some p_def u_def Let_def case_prod_beta)
      then show ?thesis using Cons.IH p grows_trans [OF p Cons.IH] by simp
    qed
  qed
qed (simp add: grows.rel_refl)

lemma grows_mark_invalid: "grows v (mark_invalid i b v)"
  by (rule growsI) (simp_all add: mark_invalid_def)

text \<open>What follows the check of the element itself.\<close>

lemma grows_element: "grows v (snd (element cfg i v))"
proof (cases "validationTargetFor (controls v) i")
  case None
  have "grows v (v\<lparr>invalid := x\<rparr>)" for x by (rule growsI) simp_all
  with None show ?thesis by (simp add: element_def)
next
  case (Some j)
  define v1 where "v1 = (prepareElement cfg j v)\<lparr>currentElements := [j]\<rparr>"
  define v2 where "v2 = snd (check_group cfg (group_names v1 (name_of v1 j)) Valid v1)"
  define v3 where "v3 = snd (check cfg j v2)"
  define own where "own = fst (check cfg j v2)"
  define v4 where "v4 = mark_invalid j (own = Invalid) v3"
  have g1: "grows v v1" unfolding v1_def by (rule grows_trans [OF grows_prepareElement grows_currentElements])
  have g2: "grows v v2" unfolding v2_def by (rule grows_trans [OF g1 grows_group_loop])
  have g3: "grows v v3" unfolding v3_def by (rule grows_trans [OF g2 grows_check])
  have g4: "grows v v4" unfolding v4_def by (rule grows_trans [OF g3 grows_mark_invalid])
  have hide: "grows v (w\<lparr>toHide := x\<rparr>)" if "grows v w" for w x
    using grows_trans [OF that] by (simp add: growsI)
  have g5: "grows v (on_dom f (showErrors cfg None (if b then v4\<lparr>toHide := x\<rparr> else v4)))" for f b x
    using hide [OF g4] g4 grows_trans [OF grows_trans [OF _ grows_showErrors] grows_core [OF core_on_dom]]
    by simp
  have e: "element cfg i v = (if fst (check_group cfg (group_names v1 (name_of v1 j)) Valid v1) = Throws then (Throws, v2)
      else if own = Throws then (Throws, v3)
      else (if fst (check_group cfg (group_names v1 (name_of v1 j)) Valid v1) = Valid then of_check (own \<noteq> Invalid)
              else fst (check_group cfg (group_names v1 (name_of v1 j)) Valid v1),
            on_dom (\<lambda>d. d\<lparr>aria_invalid := (aria_invalid d)(i := Some (own = Invalid))\<rparr>)
              (showErrors cfg None (if numberOfInvalids v4 = 0 then v4\<lparr>toHide := toHide v4 \<union> boxes cfg\<rparr> else v4))))"
    unfolding element_def Some v4_def own_def v3_def v2_def v1_def
    by (simp only: option.case Let_def case_prod_beta not_not)
  show ?thesis unfolding e using g2 g3 g5 by simp
qed

lemma grows_valid_loop: "grows v (snd (snd (valid_loop cfg is r es v)))"
proof (induction "is" arbitrary: r es v)
  case (Cons i "is")
  obtain r' w where w: "element cfg i v = (r', w)" by fastforce
  have g: "grows v w" using grows_element [of v cfg i] by (simp add: w)
  show ?case using g grows_trans [OF g Cons.IH] by (cases r') (simp_all add: w Let_def)
qed (simp add: grows.rel_refl)

lemma grows_valid_elements: "grows v (snd (valid_elements cfg is v))"
proof -
  obtain r es w where w: "valid_loop cfg is Valid [] v = (r, es, w)" by (metis surj_pair)
  have g: "grows v w" using grows_valid_loop [of v cfg "is" Valid "[]"] by (simp add: w)
  have "grows w (w\<lparr>errorList := es\<rparr>)" by (rule growsI) simp_all
  with g show ?thesis using grows_trans [OF g] by (cases r) (simp_all add: valid_elements_def w)
qed

section \<open>Events\<close>

lemma grows_lastActive: "grows v (v\<lparr>lastActive := x\<rparr>)"
  by (rule growsI) simp_all

lemma grows_focusin: "grows v (focusin cfg i v)"
  using grows_trans [OF grows_lastActive grows_core] grows_lastActive by (simp add: focusin_def Let_def)

lemma grows_delegate: "grows v (delegate cfg ev i v)"
  using grows_element grows_focusin grows.rel_refl
  by (cases ev) (simp_all add: delegate_def focusout_def keyup_def click_field_def drop_verdict_def)

lemma grows_blur: "grows v (blur cfg t v)"
  unfolding blur_def
  by (rule grows.fold_rel) (use grows_valid_elements in \<open>auto simp: drop_verdict_def\<close>)

lemma grows_focusInvalid: "grows v (focusInvalid cfg v)"
  using grows_delegate grows.rel_refl by (simp add: focusInvalid_def Let_def split: option.splits)

section \<open>Submissions\<close>

definition keeps_books :: "validator \<Rightarrow> validator \<Rightarrow> bool" where
  "keeps_books v w \<longleftrightarrow>
     map fname (controls w) = map fname (controls v) \<and> set (pending v) \<subseteq> set (pending w) \<and> (requests_ok v \<longrightarrow> requests_ok w)"

interpretation keeps_books: effect keeps_books
  by unfold_locales (auto simp: keeps_books_def)

lemmas keeps_trans = keeps_books.rel_trans

lemma names_nth:
  fixes fs gs :: form_fields
  shows "map fname fs = map fname gs \<Longrightarrow> fname (fs ! i) = fname (gs ! i)"
proof (induction fs arbitrary: gs i)
  case (Cons f fs)
  then obtain g gs' where gs: "gs = g # gs'" by auto
  with Cons show ?case by (cases i) auto
qed auto

lemma requests_ok_names:
  assumes "map fname (controls w) = map fname (controls v)" "pendingRequest w = pendingRequest v"
    "pending w = pending v" "live w = live v"
  shows "requests_ok w = requests_ok v"
  using assms names_nth [OF assms(1)] by (simp add: requests_ok_def waiting_names_def)

lemma keepsI:
  "map fname (controls w) = map fname (controls v) \<Longrightarrow> pendingRequest w = pendingRequest v \<Longrightarrow> pending w = pending v \<Longrightarrow>
    live w = live v \<Longrightarrow> keeps_books v w"
  using requests_ok_names [of w v] by (simp add: keeps_books_def)

lemma grows_keeps: "grows v w \<Longrightarrow> keeps_books v w"
  by (simp add: grows_def keeps_books_def)

lemma keeps_handle: "keeps_books v (snd (handle cfg v))"
  by (rule keepsI) (simp_all add: handle_def split: option.splits)

lemma on_submit_cases:
  assumes "\<not> cancelSubmit v"
  shows "on_submit cfg v =
    (case fst (form cfg v) of
       None \<Rightarrow> (None, snd (form cfg v))
     | Some ok \<Rightarrow>
         if \<not> ok then (Some False, focusInvalid cfg (snd (form cfg v)))
         else if pendingRequest (snd (form cfg v)) \<noteq> 0 then (Some False, (snd (form cfg v))\<lparr>formSubmitted := True\<rparr>)
         else (Some (fst (handle cfg (snd (form cfg v)))), snd (handle cfg (snd (form cfg v)))))"
  using assms unfolding on_submit_def
  by (cases "form cfg v") (simp add: case_prod_beta split: option.splits bool.splits)

lemma keeps_on_submit: "keeps_books v (snd (on_submit cfg v))"
proof (cases "cancelSubmit v")
  case True
  have "keeps_books v (v\<lparr>cancelSubmit := False\<rparr>)" by (rule keepsI) simp_all
  with True show ?thesis using keeps_trans [OF _ keeps_handle] by (simp add: on_submit_def case_prod_beta)
next
  case False
  have f: "keeps_books v (snd (form cfg v))" by (rule grows_keeps [OF grows_form])
  have s: "keeps_books w (w\<lparr>formSubmitted := b\<rparr>)" for w b by (rule keepsI) simp_all
  show ?thesis
    unfolding on_submit_cases [OF False]
    using f keeps_trans [OF f s] keeps_trans [OF f keeps_handle] keeps_trans [OF f grows_keeps [OF grows_focusInvalid]]
    by (auto split: option.splits)
qed

lemma submit_eq: "submit cfg who v =
    (let r = (if onsubmit cfg then on_submit cfg v else (Some True, v))
     in if (case fst r of Some b \<Rightarrow> b | None \<Rightarrow> who = User) \<and> \<not> (onsubmit cfg \<and> debug cfg)
        then (snd r)\<lparr>outbox := outbox (snd r) @ [Native]\<rparr> else snd r)"
  by (simp add: submit_def Let_def case_prod_beta)

lemma keeps_submit: "keeps_books v (submit cfg who v)"
proof -
  have s: "keeps_books w (w\<lparr>outbox := b\<rparr>)" for w b by (rule keepsI) simp_all
  show ?thesis unfolding submit_eq Let_def
    using keeps_on_submit keeps_trans [OF keeps_on_submit s] s keeps_books.rel_refl by simp
qed

lemma keeps_click_submit: "keeps_books v (click_submit cfg i c n v)"
  by (rule keepsI) (simp_all add: click_submit_def Let_def)

section \<open>Answers\<close>

lemma waiting_drop: "waiting_names (drop_request n v) = take n (waiting_names v) @ drop (Suc n) (waiting_names v)"
  by (simp add: drop_request_def waiting_names_def take_map drop_map)

lemma drop_request_ok:
  assumes "requests_ok v" "n < length (live v)"
  shows "requests_ok (drop_request n v)"
    and "name_of v (rq_field (live v ! n)) \<in> set (pending v)"
    and "name_of v (rq_field (live v ! n)) \<notin> set (waiting_names (drop_request n v))"
proof -
  have len: "n < length (waiting_names v)" using assms(2) by (simp add: waiting_names_def)
  have nth: "waiting_names v ! n = name_of v (rq_field (live v ! n))" using assms(2) by (simp add: waiting_names_def)
  have split: "waiting_names v = take n (waiting_names v) @ waiting_names v ! n # drop (Suc n) (waiting_names v)"
    using len by (rule id_take_nth_drop)
  have d: "distinct (waiting_names v)" "set (waiting_names v) \<subseteq> set (pending v)" using assms(1) by (auto simp: requests_ok_def)
  from d(1) have "distinct (take n (waiting_names v) @ drop (Suc n) (waiting_names v))"
    "waiting_names v ! n \<notin> set (take n (waiting_names v) @ drop (Suc n) (waiting_names v))"
    by (subst (asm) split, simp)+
  moreover have "set (take n (waiting_names v) @ drop (Suc n) (waiting_names v)) \<subseteq> set (pending v)"
    using d(2) set_take_subset [of n "waiting_names v"] set_drop_subset [of "Suc n" "waiting_names v"] by auto
  moreover have "pending (drop_request n v) = pending v" "pendingRequest (drop_request n v) = pendingRequest v"
    by (simp_all add: drop_request_def)
  ultimately show "requests_ok (drop_request n v)"
    "name_of v (rq_field (live v ! n)) \<notin> set (waiting_names (drop_request n v))"
    using assms(1) nth by (simp_all add: requests_ok_def waiting_drop)
  show "name_of v (rq_field (live v ! n)) \<in> set (pending v)"
    using d(2) len nth nth_mem [OF len] by auto
qed

text \<open>The state in which an answer stops being counted.\<close>

definition after_answer :: "config \<Rightarrow> request \<Rightarrow> jval \<Rightarrow> validator \<Rightarrow> validator" where
  "after_answer cfg r response v =
     (let v = set_message (name_of v (rq_field r)) remote_name (p_original (previous_objs v ! rq_prev r)) v;
          v = (if answer_valid response then accepted cfg (rq_field r) v else refused_value cfg r response v)
      in set_previous (rq_prev r) (p_valid_update (\<lambda>_. answer_valid response)) v)"

lemma on_answer_eq: "on_answer cfg r response v = stopRequest cfg (rq_field r) (answer_valid response) (after_answer cfg r response v)"
  by (simp add: on_answer_def after_answer_def Let_def)

text \<open>An answer is shown without starting a request.\<close>

lemma after_answer_same [simp]:
  "controls (after_answer cfg r response v) = controls v"
  "pending (after_answer cfg r response v) = pending v"
  "pendingRequest (after_answer cfg r response v) = pendingRequest v"
  "live (after_answer cfg r response v) = live v"
  "outbox (after_answer cfg r response v) = outbox v"
  "formSubmitted (after_answer cfg r response v) = formSubmitted v"
  "cancelSubmit (after_answer cfg r response v) = cancelSubmit v"
  by (simp_all add: after_answer_def accepted_def refused_value_def resetInternals_def mark_invalid_def set_previous_def
    set_message_def showErrors_def Let_def split: option.splits messages.splits)

lemma stop_counting_ok:
  assumes "requests_ok v" "name_of v i \<in> set (pending v)" "name_of v i \<notin> set (waiting_names v)"
  shows "requests_ok (stop_counting i v)"
    and "set (pending (stop_counting i v)) = set (pending v) - {name_of v i}"
    and "0 \<le> pendingRequest v - 1"
proof -
  have d: "distinct (pending v)" "pendingRequest v = int (length (pending v))" using assms(1) by (auto simp: requests_ok_def)
  have pos: "0 < length (pending v)" using assms(2) by (auto simp: length_greater_0_conv)
  have len: "length (removeAll (name_of v i) (pending v)) = length (pending v) - 1"
    using distinct_remove1_removeAll [OF d(1), of "name_of v i"] length_remove1 [of "name_of v i" "pending v"] assms(2) by simp
  show "0 \<le> pendingRequest v - 1" using pos d(2) by simp
  show "set (pending (stop_counting i v)) = set (pending v) - {name_of v i}" by (simp add: stop_counting_def)
  have w: "waiting_names (stop_counting i v) = waiting_names v" by (simp add: stop_counting_def waiting_names_def)
  show "requests_ok (stop_counting i v)"
    using assms pos d len int_ops(6) [of "length (pending v)" 1] unfolding requests_ok_def w
    by (auto simp: stop_counting_def distinct_removeAll)
qed

lemma keeps_stopRequest: "keeps_books (stop_counting i v) (stopRequest cfg i ok v)"
proof -
  define w where "w = stop_counting i v"
  have s: "keeps_books u (u\<lparr>formSubmitted := b\<rparr>)" for u b by (rule keepsI) simp_all
  have e: "keeps_books u (u\<lparr>invalid_events := n, formSubmitted := b\<rparr>)" for u b n by (rule keepsI) simp_all
  have f: "keeps_books w (snd (form cfg w))" by (rule grows_keeps [OF grows_form])
  obtain r u where u: "form cfg w = (r, u)" by fastforce
  have "keeps_books w u" using f by (simp add: u)
  then show ?thesis
    using keeps_trans [of w u, OF _ keeps_submit] keeps_trans [of w u, OF _ keeps_trans [OF keeps_submit s]]
      keeps_books.rel_refl [of w] e [of w]
    unfolding stopRequest_def Let_def w_def [symmetric] u by (simp split: option.splits bool.splits)
qed

lemma on_answer_ok:
  assumes "requests_ok v" "n < length (live v)"
  shows "requests_ok (request_answered cfg n response v)"
    and "set (pending v) - {name_of v (rq_field (live v ! n))} \<subseteq> set (pending (request_answered cfg n response v))"
    and "map fname (controls (request_answered cfg n response v)) = map fname (controls v)"
proof -
  define r where "r = live v ! n"
  define u where "u = after_answer cfg r response (drop_request n v)"
  have c: "controls u = controls v" "pending u = pending v" "waiting_names u = waiting_names (drop_request n v)"
    by (simp_all add: u_def drop_request_def waiting_names_def)
  have ok: "requests_ok u"
    using drop_request_ok(1) [OF assms] by (rule requests_ok_cong [THEN iffD2, rotated 4]) (simp_all add: u_def)
  have q: "requests_ok (stop_counting (rq_field r) u)" "set (pending (stop_counting (rq_field r) u)) = set (pending v) - {name_of v (rq_field r)}"
    using stop_counting_ok [OF ok, of "rq_field r"] drop_request_ok(2,3) [OF assms] by (simp_all add: c r_def)
  have k: "keeps_books (stop_counting (rq_field r) u) (request_answered cfg n response v)"
    using keeps_stopRequest assms(2) by (simp add: request_answered_def on_answer_eq r_def u_def)
  have "controls (stop_counting (rq_field r) u) = controls v" by (simp add: stop_counting_def c)
  then show "requests_ok (request_answered cfg n response v)"
    "set (pending v) - {name_of v (rq_field (live v ! n))} \<subseteq> set (pending (request_answered cfg n response v))"
    "map fname (controls (request_answered cfg n response v)) = map fname (controls v)"
    using k q by (simp_all add: keeps_books_def r_def)
qed

section \<open>The life of a page\<close>

text \<open>
  What can happen to a form: the user submits it, presses a button, works on its elements or edits them;
  a script validates elements, changes rules, submits or resets the form; requests are answered or fail.
\<close>

datatype happening =
    Submits submitter
  | Presses nat bool bool
  | Works field_event nat
  | Blurs nat
  | Edits form_fields
  | Answered nat jval
  | Failed nat
  | Validates "nat list"
  | Adds_rules nat "jsstr + rules" "(jsstr \<times> message option) list option"
  | Removes_rules nat "jsstr option"
  | Resets

inductive page_step :: "config \<Rightarrow> happening \<Rightarrow> validator \<Rightarrow> validator \<Rightarrow> bool" for cfg where
  submits: "page_step cfg (Submits who) v (submit cfg who v)"
| presses: "page_step cfg (Presses i c n) v (click_submit cfg i c n v)"
| works: "page_step cfg (Works ev i) v (delegate cfg ev i v)"
| blurs: "page_step cfg (Blurs t) v (blur cfg t v)"
| edits: "map fname fs = map fname (controls v) \<Longrightarrow> page_step cfg (Edits fs) v (v\<lparr>controls := fs\<rparr>)"
| answered: "n < length (live v) \<Longrightarrow> page_step cfg (Answered n r) v (request_answered cfg n r v)"
| failed: "n < length (live v) \<Longrightarrow> page_step cfg (Failed n) v (request_failed n v)"
| validates: "page_step cfg (Validates is) v (snd (valid_elements cfg is v))"
| adds_rules: "page_step cfg (Adds_rules i a ms) v (rules_add i a ms v)"
| removes_rules: "page_step cfg (Removes_rules i a) v (snd (rules_remove i a v))"
| resets: "map fname (controls (resetForm cfg v)) = map fname (controls v) \<Longrightarrow> page_step cfg Resets v (resetForm cfg v)"

inductive_cases page_stepE: "page_step cfg h v w"

inductive page_reach :: "config \<Rightarrow> validator \<Rightarrow> validator \<Rightarrow> bool" for cfg v where
  here: "page_reach cfg v v"
| onward: "page_reach cfg v w \<Longrightarrow> page_step cfg h w u \<Longrightarrow> page_reach cfg v u"

lemma keeps_resetForm:
  assumes "map fname (controls (resetForm cfg v)) = map fname (controls v)"
  shows "keeps_books v (resetForm cfg v)"
proof -
  have "pending (resetForm cfg v) = pending v" "pendingRequest (resetForm cfg v) = pendingRequest v" "live (resetForm cfg v) = live v"
    using same_coreD [OF elements_core]
    by (simp_all add: resetForm_def hideErrors_def prepareForm_def reset_def resetInternals_def Let_def case_prod_beta split: option.splits)
  with assms show ?thesis by (intro keepsI)
qed

lemma keeps_rules_add: "keeps_books v (rules_add i a ms v)"
  by (rule keepsI) (simp_all add: rules_add_def Let_def split: option.splits)

lemma keeps_rules_remove: "keeps_books v (snd (rules_remove i a v))"
  by (rule keepsI) (simp_all add: rules_remove_def Let_def)

text \<open>Every step but an answer or a failure keeps the books and the names that wait.\<close>

lemma quiet_step_keeps:
  assumes "page_step cfg h v w" "\<forall>n r. h \<noteq> Answered n r" "\<forall>n. h \<noteq> Failed n"
  shows "keeps_books v w"
  using assms(1)
proof (cases rule: page_step.cases)
  case (edits fs)
  then show ?thesis using keepsI [of w v] by simp
qed (use assms(2,3) grows_keeps [OF grows_delegate] grows_keeps [OF grows_blur] grows_keeps [OF grows_valid_elements]
      keeps_submit keeps_click_submit keeps_rules_add keeps_rules_remove keeps_resetForm in auto)

lemma failed_step:
  assumes "requests_ok v" "n < length (live v)"
  shows "requests_ok (request_failed n v) \<and> pending (request_failed n v) = pending v \<and>
    map fname (controls (request_failed n v)) = map fname (controls v)"
  using drop_request_ok(1) [OF assms] by (simp add: request_failed_def) (simp add: drop_request_def)

lemma page_step_ok:
  assumes "page_step cfg h v w" "requests_ok v"
  shows "requests_ok w"
proof (cases h)
  case (Answered n r)
  with assms show ?thesis by (auto elim: page_stepE intro: on_answer_ok(1))
next
  case (Failed n)
  with assms show ?thesis using failed_step by (auto elim: page_stepE)
qed (use quiet_step_keeps [OF assms(1)] assms(2) in \<open>auto simp: keeps_books_def\<close>)

lemma page_reach_ok:
  assumes "page_reach cfg v w" "requests_ok v"
  shows "requests_ok w"
  using assms by (induction rule: page_reach.induct) (auto intro: page_step_ok)

lemma init_ok: "requests_ok (init cfg fs rs ms gs)"
  by (simp add: requests_ok_def init_def waiting_names_def)

section \<open>Lost answers\<close>

text \<open>A step that lets the check of the form be skipped, fail with an error, or hears of the name.\<close>

definition passes_by :: "config \<Rightarrow> jsstr \<Rightarrow> happening \<Rightarrow> validator \<Rightarrow> bool" where
  "passes_by cfg name h v \<longleftrightarrow>
     (case h of
        Answered n r \<Rightarrow> name_of v (rq_field (live v ! n)) = name
      | Presses i c n \<Rightarrow> c \<or> n
      | Submits who \<Rightarrow> fst (on_submit cfg v) = None
      | _ \<Rightarrow> False)"

inductive quietly :: "config \<Rightarrow> jsstr \<Rightarrow> validator \<Rightarrow> validator \<Rightarrow> bool" for cfg name v where
  stays: "quietly cfg name v v"
| goes_on: "quietly cfg name v w \<Longrightarrow> page_step cfg h w u \<Longrightarrow> \<not> passes_by cfg name h w \<Longrightarrow> quietly cfg name v u"

definition held_back :: "jsstr \<Rightarrow> sending list \<Rightarrow> validator \<Rightarrow> bool" where
  "held_back name sent v \<longleftrightarrow> requests_ok v \<and> name \<in> set (pending v) \<and> \<not> cancelSubmit v \<and> outbox v = sent"

lemma form_same:
  "outbox (snd (form cfg v)) = outbox v" "cancelSubmit (snd (form cfg v)) = cancelSubmit v"
  "set (pending v) \<subseteq> set (pending (snd (form cfg v)))" "requests_ok v \<Longrightarrow> requests_ok (snd (form cfg v))"
  using grows_form [of v cfg] by (simp_all add: grows_def)

lemma held_back_submit:
  assumes "held_back name sent v" "onsubmit cfg" "fst (on_submit cfg v) \<noteq> None"
  shows "held_back name sent (submit cfg who v)"
proof -
  define w where "w = snd (form cfg v)"
  have w: "outbox w = sent" "\<not> cancelSubmit w" "name \<in> set (pending w)" "requests_ok w" "\<not> cancelSubmit v"
    using assms(1) form_same [where cfg = cfg and v = v] by (auto simp: held_back_def w_def)
  then have p: "pendingRequest w \<noteq> 0" by (auto simp: requests_ok_def)
  have f: "outbox (focusInvalid cfg w) = sent" "\<not> cancelSubmit (focusInvalid cfg w)"
    "name \<in> set (pending (focusInvalid cfg w))" "requests_ok (focusInvalid cfg w)"
    using grows_focusInvalid [of w cfg] w by (auto simp: grows_def)
  have s: "requests_ok (w\<lparr>formSubmitted := True\<rparr>)" using w(4) by (simp add: requests_ok_def waiting_names_def)
  show ?thesis
    using assms(2,3) w f s p unfolding submit_eq on_submit_cases [OF w(5)] w_def [symmetric]
    by (cases "fst (form cfg v)") (auto simp: held_back_def)
qed

lemma held_back_grows: "held_back name sent v \<Longrightarrow> grows v w \<Longrightarrow> held_back name sent w"
  by (auto simp: held_back_def grows_def)

lemma held_back_keeps:
  "held_back name sent v \<Longrightarrow> keeps_books v w \<Longrightarrow> outbox w = outbox v \<Longrightarrow> cancelSubmit w = cancelSubmit v \<Longrightarrow> held_back name sent w"
  by (auto simp: held_back_def keeps_books_def)

lemma held_back_answer:
  assumes "held_back name sent v" "n < length (live v)" "name_of v (rq_field (live v ! n)) \<noteq> name"
  shows "held_back name sent (request_answered cfg n r v)"
proof -
  define i where "i = rq_field (live v ! n)"
  define u where "u = after_answer cfg (live v ! n) r (drop_request n v)"
  have ok: "requests_ok v" and name: "name \<in> set (pending v)" using assms(1) by (auto simp: held_back_def)
  have u: "controls u = controls v" "pending u = pending v" "outbox u = outbox v" "cancelSubmit u = cancelSubmit v"
    by (simp_all add: u_def drop_request_def)
  have left: "name \<in> set (pending (stop_counting i u))"
    using name assms(3) by (simp add: stop_counting_def u i_def)
  have n: "requests_ok (request_answered cfg n r v)" by (rule on_answer_ok(1) [OF ok assms(2)])
  have "pendingRequest (stop_counting i u) \<noteq> 0"
  proof -
    have "requests_ok u"
      using drop_request_ok(1) [OF ok assms(2)] by (rule requests_ok_cong [THEN iffD2, rotated 4]) (simp_all add: u_def)
    then have "requests_ok (stop_counting i u)"
      using stop_counting_ok(1) [of u i] drop_request_ok(2,3) [OF ok assms(2)]
      by (simp add: u i_def) (simp add: u_def waiting_names_def drop_request_def)
    then show ?thesis using left by (auto simp: requests_ok_def)
  qed
  then have "request_answered cfg n r v = stop_counting i u"
    using assms(2) by (simp add: request_answered_def on_answer_eq stopRequest_def u_def i_def Let_def)
  then show ?thesis using left n assms(1) by (simp add: held_back_def) (simp add: stop_counting_def u)
qed

lemma held_back_step:
  assumes "page_step cfg h v w" "held_back name sent v" "\<not> passes_by cfg name h v" "onsubmit cfg"
  shows "held_back name sent w"
  using assms(1)
proof (cases rule: page_step.cases)
  case (submits who)
  then show ?thesis using held_back_submit assms(2-4) by (simp add: passes_by_def)
next
  case (presses i c n)
  then show ?thesis using assms(2,3) held_back_keeps [OF assms(2) keeps_click_submit]
    by (simp add: passes_by_def click_submit_def Let_def)
next
  case (edits fs)
  then show ?thesis using held_back_keeps [OF assms(2) keepsI] by simp
next
  case (answered n r)
  then show ?thesis using held_back_answer [OF assms(2)] assms(3) by (simp add: passes_by_def)
next
  case (failed n)
  then show ?thesis using failed_step [of v n] assms(2)
    by (simp add: held_back_def) (simp add: request_failed_def drop_request_def)
next
  case (adds_rules i a ms)
  then show ?thesis using held_back_keeps [OF assms(2) keeps_rules_add]
    by (simp add: rules_add_def Let_def split: option.splits)
next
  case (removes_rules i a)
  then show ?thesis using held_back_keeps [OF assms(2) keeps_rules_remove] by (simp add: rules_remove_def Let_def)
next
  case resets
  have "outbox (resetForm cfg v) = outbox v" "cancelSubmit (resetForm cfg v) = cancelSubmit v"
    using same_coreD [OF elements_core]
    by (simp_all add: resetForm_def hideErrors_def prepareForm_def reset_def resetInternals_def Let_def case_prod_beta split: option.splits)
  then show ?thesis using held_back_keeps [OF assms(2) keeps_resetForm] resets by simp
qed (use held_back_grows [OF assms(2)] grows_delegate grows_blur grows_valid_elements in auto)

lemma held_back_quietly:
  assumes "quietly cfg name v w" "held_back name sent v" "onsubmit cfg"
  shows "held_back name sent w"
  using assms by (induction rule: quietly.induct) (auto intro: held_back_step)

end
