(* ===== verification/Validator_Late.thy ===== *)
theory Validator_Late
  imports Validator_Check Validator_Requests
begin

text \<open>
  Forms that are found valid without asking the server, because the fields with remote rules are empty, and what
  an answer does to such a form when the user has reset it in between.
\<close>

section \<open>Rules that pass\<close>

definition rule_passes :: "config \<Rightarrow> form_fields \<Rightarrow> nat \<Rightarrow> jsstr \<times> param \<Rightarrow> bool" where
  "rule_passes cfg fs j r \<longleftrightarrow>
     (if Option.is_none (extra cfg (fst r)) \<and> fst r = remote_name then optional (selects cfg) fs j
      else plain_method cfg fs (elementValue fs j) j (fst r) (value_of_param (snd r)) \<in> {Some Valid, Some Mismatch})"

definition passes :: "config \<Rightarrow> validator \<Rightarrow> nat \<Rightarrow> bool" where
  "passes cfg v j \<longleftrightarrow> normalizer_of (element_rules cfg v j) = None
     \<and> list_all (rule_passes cfg (controls v) j) (element_rules cfg v j)"

text \<open>What a check that passes leaves as it is.\<close>

definition calm :: "validator \<Rightarrow> validator \<Rightarrow> bool" where
  "calm v w \<longleftrightarrow> controls w = controls v \<and> s_rules w = s_rules v \<and> pendingRequest w = pendingRequest v \<and>
     errorList w = errorList v \<and> outbox w = outbox v \<and> cancelSubmit w = cancelSubmit v"

interpretation calm: effect calm
  by unfold_locales (auto simp: calm_def)

lemma calm_core: "core w = core v \<Longrightarrow> calm v w"
  using same_coreD [of v w] by (simp add: calm_def same_core_def)

lemma rules_same_form: "controls w = controls v \<Longrightarrow> s_rules w = s_rules v \<Longrightarrow> element_rules cfg w i = element_rules cfg v i"
  by (simp add: element_rules_def gathered_def)

lemma passes_same_form:
  assumes "controls w = controls v" "s_rules w = s_rules v"
  shows "passes cfg w j = passes cfg v j"
  unfolding passes_def rules_same_form [OF assms] assms(1) ..

lemma checked_same_form:
  assumes "controls w = controls v" "s_rules w = s_rules v"
  shows "checked_elements cfg w = checked_elements cfg v"
proof -
  have "found cfg w is cache = found cfg v is cache" for "is" cache
    by (induction "is" arbitrary: cache) (simp_all add: assms rules_same_form [OF assms])
  with assms show ?thesis by (simp add: checked_elements_def)
qed

lemma targets_same_form:
  assumes "controls w = controls v" "s_rules w = s_rules v"
  shows "targets cfg w = targets cfg v"
  unfolding targets_def checked_same_form [OF assms] assms(1) ..

section \<open>Checks that pass\<close>

lemma run_method_passes:
  assumes "rule_passes cfg (controls v) j (m, p)"
  shows "\<exists>r w. run_method cfg (elementValue (controls v) j) j m (value_of_param p) v = (r, w) \<and> (r = Valid \<or> r = Mismatch) \<and> core w = core v"
  using assms by (auto simp: rule_passes_def run_method_def remote_def link_blur_def Let_def split: if_splits)

lemma check_loop_passes:
  assumes "list_all (rule_passes cfg (controls v) j) rs"
  shows "\<exists>r w. check_loop cfg (elementValue (controls v) j) j sole mm rs v = (r, w) \<and> (r = Valid \<or> r = Mismatch) \<and> core w = core v"
  using assms
proof (induction rs arbitrary: mm v)
  case (Cons mp rs)
  obtain m p where mp: "mp = (m, p)" by (cases mp)
  obtain r w where w: "run_method cfg (elementValue (controls v) j) j m (value_of_param p) v = (r, w)"
    "r = Valid \<or> r = Mismatch" "core w = core v"
    using run_method_passes [of cfg v j m p] Cons.prems by (auto simp: mp)
  have c: "controls w = controls v" using calm_core [OF w(3)] by (simp add: calm_def)
  have "list_all (rule_passes cfg (controls w) j) rs" using Cons.prems by (simp add: c)
  from Cons.IH [OF this] show ?case using w by (auto simp: mp c)
qed simp

lemma check_target_passes:
  assumes "passes cfg v j"
  shows "\<exists>r w. check_target cfg j v = (r, w) \<and> r \<noteq> Throws \<and> calm v w"
proof -
  define rs where "rs = element_rules cfg v j"
  define v1 where "v1 = rules_effect cfg j v"
  define val where "val = elementValue (controls v) j"
  have c1: "core v1 = core v" "controls v1 = controls v" by (simp_all add: v1_def)
  have n: "normalizer_of rs = None" using assms by (simp add: passes_def rs_def)
  obtain r w where l: "check_loop cfg val j (length rs = 1) False rs v1 = (r, w)" "r = Valid \<or> r = Mismatch" "core w = core v"
    using check_loop_passes [of cfg v1 j rs "length rs = 1" False] assms c1 by (auto simp: passes_def rs_def val_def)
  have "check_target cfg j v = (r, if r = Valid \<and> objectLength rs param_truthy \<noteq> 0
      then w\<lparr>successList := successList w @ [j]\<rparr> else w)"
    unfolding check_target_def Let_def rs_def [symmetric] v1_def [symmetric] val_def [symmetric] n by (simp only: l(1) option.case prod.case)
  moreover have "calm v w" using l(3) by (rule calm_core)
  moreover from this have "calm v (w\<lparr>successList := xs\<rparr>)" for xs by (simp add: calm_def)
  ultimately show ?thesis using l(2) by auto
qed

lemma check_all_passes:
  assumes "\<And>i. i \<in> set is \<Longrightarrow> \<exists>j. validationTargetFor (controls v) i = Some j \<and> passes cfg v j"
  shows "\<exists>w. check_all cfg is v = (False, w) \<and> calm v w"
  using assms
proof (induction "is" arbitrary: v)
  case (Cons i "is")
  obtain j where j: "validationTargetFor (controls v) i = Some j" "passes cfg v j" using Cons.prems by auto
  obtain r w where w: "check_target cfg j v = (r, w)" "r \<noteq> Throws" "calm v w" using check_target_passes [OF j(2)] by blast
  have s: "controls w = controls v" "s_rules w = s_rules v" using w(3) by (simp_all add: calm_def)
  have "\<exists>u. check_all cfg is w = (False, u) \<and> calm w u"
    using Cons.prems by (intro Cons.IH) (simp add: s(1) passes_same_form [OF s])
  then show ?case using w j(1) calm.rel_trans by (auto simp: check_def)
qed (simp add: calm.rel_refl)

lemma form_passes:
  assumes "\<forall>j \<in> set (targets cfg v). passes cfg v j"
  shows "fst (form cfg v) = Some True \<and> controls (snd (form cfg v)) = controls v \<and> s_rules (snd (form cfg v)) = s_rules v
    \<and> pendingRequest (snd (form cfg v)) = pendingRequest v \<and> outbox (snd (form cfg v)) = outbox v
    \<and> cancelSubmit (snd (form cfg v)) = cancelSubmit v"
proof -
  define u where "u = (snd (elements cfg (prepareForm cfg v)))\<lparr>currentElements := checked_elements cfg v\<rparr>"
  have p: "calm (v\<lparr>errorList := []\<rparr>) (prepareForm cfg v)"
    by (simp add: calm_def prepareForm_def reset_def resetInternals_def Let_def)
  have "calm (v\<lparr>errorList := []\<rparr>) (snd (elements cfg (prepareForm cfg v)))"
    by (rule calm.rel_trans [OF p calm_core]) (rule elements_core [unfolded same_core_def])
  then have u: "calm (v\<lparr>errorList := []\<rparr>) u" by (simp add: u_def calm_def)
  have s: "controls u = controls v" "s_rules u = s_rules v" using u by (simp_all add: calm_def)
  have e: "fst (elements cfg (prepareForm cfg v)) = checked_elements cfg v"
    using checked_same_form [of "prepareForm cfg v" v] p by (simp add: elements_found calm_def)
  have "\<exists>j. validationTargetFor (controls u) i = Some j \<and> passes cfg u j" if "i \<in> set (checked_elements cfg v)" for i
    using checked_target [OF that] that assms unfolding passes_same_form [OF s] s(1)
    by (force simp: targets_def List.map_filter_def)
  then obtain w where w: "check_all cfg (checked_elements cfg v) u = (False, w)" "calm u w" using check_all_passes by blast
  have "checkForm cfg v = (False, w)"
    unfolding checkForm_def Let_def case_prod_beta e u_def [symmetric] by (rule w(1))
  moreover have "calm (v\<lparr>errorList := []\<rparr>) w" using u w(2) by (rule calm.rel_trans)
  ultimately show ?thesis by (simp add: form_def Let_def showErrors_def record_errors_def valid_def calm_def)
qed

text \<open>A valid form that nobody waits for is submitted.\<close>

lemma submit_passes:
  assumes "\<forall>j \<in> set (targets cfg v). passes cfg v j" "pendingRequest v = 0" "\<not> cancelSubmit v"
    and "onsubmit cfg" "\<not> debug cfg" "submit_handler cfg = None"
  shows "outbox (submit cfg who v) = outbox v @ [Native]" "fst (on_submit cfg v) = Some True"
  using form_passes [OF assms(1)] assms(2-) by (simp_all add: submit_eq on_submit_cases [OF assms(3)] handle_def)

section \<open>Answers after a reset\<close>

lemma reset_keeps:
  "formSubmitted (resetForm cfg v) = formSubmitted v" "pendingRequest (resetForm cfg v) = pendingRequest v"
  "live (resetForm cfg v) = live v" "s_rules (resetForm cfg v) = s_rules v" "outbox (resetForm cfg v) = outbox v"
  "cancelSubmit (resetForm cfg v) = cancelSubmit v"
  using same_coreD [OF elements_core]
  by (simp_all add: resetForm_def hideErrors_def prepareForm_def reset_def resetInternals_def on_dom_def Let_def case_prod_beta
    split: option.splits)

lemma after_answer_rules [simp]: "s_rules (after_answer cfg r response v) = s_rules v"
  by (simp add: after_answer_def accepted_def refused_value_def resetInternals_def mark_invalid_def set_previous_def
    set_message_def showErrors_def Let_def split: option.splits messages.splits)

lemma answer_submits:
  assumes "n < length (live v)" "pendingRequest v = 1" "formSubmitted v" "\<not> cancelSubmit v" "answer_valid response"
    and "onsubmit cfg" "\<not> debug cfg" "submit_handler cfg = None"
    and "\<forall>j \<in> set (targets cfg v). passes cfg v j"
  shows "outbox (request_answered cfg n response v) = outbox v @ [Native] \<and> \<not> formSubmitted (request_answered cfg n response v)"
proof -
  define u where "u = stop_counting (rq_field (live v ! n)) (after_answer cfg (live v ! n) response (drop_request n v))"
  have u: "controls u = controls v" "s_rules u = s_rules v" "pendingRequest u = 0" "formSubmitted u" "\<not> cancelSubmit u"
    "outbox u = outbox v"
    using assms(2-4) by (simp_all add: u_def stop_counting_def drop_request_def on_dom_def)
  have p: "\<forall>j \<in> set (targets cfg u). passes cfg u j"
    using assms(9) by (simp add: targets_same_form [OF u(1,2)] passes_same_form [OF u(1,2)])
  note f = form_passes [OF p]
  define w where "w = snd (form cfg u)"
  have fw: "form cfg u = (Some True, w)" using f by (simp add: w_def prod_eq_iff)
  have w: "controls w = controls u" "s_rules w = s_rules u" "pendingRequest w = 0" "\<not> cancelSubmit w" "outbox w = outbox v"
    using f u(3-6) by (simp_all add: w_def)
  have "\<forall>j \<in> set (targets cfg w). passes cfg w j"
    using p by (simp add: targets_same_form [OF w(1,2)] passes_same_form [OF w(1,2)])
  note s = submit_passes [OF this w(3,4) assms(6-8)]
  have "request_answered cfg n response v = (submit cfg Script w)\<lparr>formSubmitted := False\<rparr>"
    unfolding request_answered_def on_answer_eq stopRequest_def Let_def u_def [symmetric]
    using assms(1,5) u(3,4) by (simp add: fw s(2) u_def [symmetric])
  then show ?thesis using s(1) w(5) by simp
qed

end
