(* ===== verification/Validator_Contract.thy ===== *)
theory Validator_Contract
  imports Validator_Late
begin

text \<open>
  What a page can rely on in the validator, and where it cannot: forms with wrong and unanswered fields,
  the order of rules, answers that come when the page has moved on, the marks of the project's settings.
\<close>

section \<open>Forms for the examples\<close>

lemma map_key_other: "k \<noteq> m \<Longrightarrow> map_key k f [(m, p)] = [(m, p)]"
  by (simp add: map_key_def)

lemma normalizeRules_sole:
  assumes "v \<noteq> J_bool False" "m \<notin> set (map js [''minlength'', ''maxlength'', ''rangelength'', ''range''])"
  shows "normalizeRules sel False i [(m, Plain v)] = ([(m, Plain v)], False)"
proof -
  have d: "depended sel i (Plain v) = Some (Plain v)" "drops_rule sel i (Plain v) = False" "evaluated i m (Plain v) = Plain v"
    using assms(1) by (simp_all add: depended_def drops_rule_def evaluated_def)
  have k: "map_key k f [(m, Plain v)] = [(m, Plain v)]"
    if "k \<in> set (map js [''minlength'', ''maxlength'', ''rangelength'', ''range''])" for k f
    using that assms(2) by (intro map_key_other) auto
  show ?thesis unfolding normalizeRules_def Let_def
    by (simp add: d k del: js_Cons)
qed

lemma required_remote_sole: "remote_last (required_first [(m, p)]) = [(m, p)]"
  by (simp add: remote_last_def required_first_def del_key_def extend_with_def del: js_Cons)

lemma element_rules_sole:
  assumes "method_names cfg = []" "fclass (field_of v i) = []" "auto_ranges cfg = False"
    "staticRules (s_rules v) (field_of v i) = [(m, Plain a)]" "a \<noteq> J_bool False"
    "m \<notin> set (map js [''minlength'', ''maxlength'', ''rangelength'', ''range''])"
  shows "element_rules cfg v i = [(m, Plain a)]"
proof -
  have "gathered cfg v i = ([(m, Plain a)], False)"
    using normalizeRules_sole [OF assms(5,6)] assms(1-4)
    by (simp add: gathered_def classRules_def attributeRules_def dataRules_def extend_with_def del: js_Cons)
  then show ?thesis by (simp add: element_rules_def required_remote_sole)
qed

definition demo_field :: "jsstr \<Rightarrow> jsstr \<Rightarrow> field" where
  "demo_field name val =
     \<lparr>fname = name, fid = name, node = ''input'', ftype = ''text'', fvalue = J_str val, fchecked = False, chosen = 0,
      bad_input = None, editable = False, ftext = [], skipped = False, ignored = False, fvisible = True, fclass = [],
      ftitle = [], attrs = [], fdata = []\<rparr>"

definition demo_config :: config where
  "demo_config = (plugin_defaults (\<lambda>_. True))\<lparr>method_names := []\<rparr>"

text \<open>An empty field that is required, and a letter where digits are asked for.\<close>

definition demo_form :: validator where
  "demo_form = init demo_config [demo_field [1] [], demo_field [2] [97]]
     [([1], Inl (js ''required'')), ([2], Inl (js ''digits''))] [] []"

text \<open>A field whose value the server checks.\<close>

definition remote_form :: validator where
  "remote_form = init demo_config [demo_field [2] [97]] [([2], Inr [(remote_name, Plain (J_str [47]))])] [] []"

lemma demo_config_simps [simp]:
  "method_names demo_config = []" "auto_ranges demo_config = False" "extra demo_config m = None" "onsubmit demo_config"
  "debug demo_config = False" "unhighlight demo_config = Some default_unhighlight" "show_errors demo_config = None"
  "success demo_config = None" "selects demo_config s = []" "reset_plugin demo_config = None"
  by (simp_all add: demo_config_def plugin_defaults_def)

lemma demo_field_simps [simp]:
  "fname (demo_field n x) = n" "ftype (demo_field n x) = ''text''" "node (demo_field n x) = ''input''"
  "fvalue (demo_field n x) = J_str x" "skipped (demo_field n x) = False" "ignored (demo_field n x) = False"
  "editable (demo_field n x) = False" "fclass (demo_field n x) = []" "checkable (demo_field n x) = False"
  by (simp_all add: demo_field_def checkable_def)

lemma demo_controls [simp]: "controls demo_form = [demo_field [1] [], demo_field [2] [97]]"
  "controls remote_form = [demo_field [2] [97]]"
  by (simp_all add: demo_form_def remote_form_def init_def)

lemma one_word_rule: "list_all (\<lambda>c. \<not> is_space c) w \<Longrightarrow> normalizeRule (Inl w) = [(w, Plain (J_bool True))]"
proof -
  assume w: "list_all (\<lambda>c. \<not> is_space c) w"
  have "split_by is_space w = [w]" using w by (induction w) auto
  then show ?thesis by (simp add: normalizeRule_def)
qed

lemma demo_rules:
  "element_rules demo_config demo_form 0 = [(js ''required'', Plain (J_bool True))]"
  "element_rules demo_config demo_form (Suc 0) = [(js ''digits'', Plain (J_bool True))]"
  "element_rules demo_config remote_form 0 = [(remote_name, Plain (J_str [47]))]"
proof -
  have w: "normalizeRule (Inl (js ''required'')) = [(js ''required'', Plain (J_bool True))]"
    "normalizeRule (Inl (js ''digits'')) = [(js ''digits'', Plain (J_bool True))]"
    by (rule one_word_rule, simp add: is_space_def)+
  have s: "s_rules demo_form = [([1], Inr [(js ''required'', Plain (J_bool True))]), ([2], Inr [(js ''digits'', Plain (J_bool True))])]"
    "s_rules remote_form = [([2], Inr [(remote_name, Plain (J_str [47]))])]"
    using w by (simp_all add: demo_form_def remote_form_def init_def) (simp add: normalizeRule_def)
  show "element_rules demo_config demo_form 0 = [(js ''required'', Plain (J_bool True))]"
    by (rule element_rules_sole) (simp_all add: s staticRules_def normalizeRule_def)
  show "element_rules demo_config demo_form (Suc 0) = [(js ''digits'', Plain (J_bool True))]"
    by (rule element_rules_sole) (simp_all add: s staticRules_def normalizeRule_def)
  show "element_rules demo_config remote_form 0 = [(remote_name, Plain (J_str [47]))]"
    by (rule element_rules_sole) (simp_all add: s staticRules_def normalizeRule_def remote_name_def)
qed

lemma demo_checked: "checked_elements demo_config demo_form = [0, 1]" "checked_elements demo_config remote_form = [0]"
  by (simp_all add: checked_elements_def upt_rec is_control_def objectLength_def demo_rules)

lemma demo_target: "validationTargetFor [demo_field a b] 0 = Some 0"
  "validationTargetFor [demo_field a b, demo_field c d] 0 = Some 0"
  "validationTargetFor [demo_field a b, demo_field c d] (Suc 0) = Some (Suc 0)"
  by (simp_all add: validationTargetFor_def)

lemma demo_value: "i < length fs \<Longrightarrow> fs ! i = demo_field n x \<Longrightarrow> elementValue fs i = Some (J_str (replace_all 13 [] x))"
  by (simp add: elementValue_def demo_field_def checkable_def)

section \<open>Checking a form\<close>

text \<open>C6. A form whose rules look at values only is valid exactly if every rule of every element that is
  checked accepts the value; the errors are the first refusals, one for each element that has one and in
  the order of the elements, and the names recorded as invalid are those of these elements.
\<close>

theorem form_is_conjunction:
  assumes "list_all (looks_at_value cfg v) (targets cfg v)"
  shows "fst (form cfg v) = Some (list_all (\<lambda>j. list_all (accepts_value cfg v j) (element_rules cfg v j)) (targets cfg v)) \<and>
    errorList (snd (form cfg v)) = List.map_filter (refusal_error cfg v) (targets cfg v) \<and>
    fst ` set (invalid (snd (form cfg v))) = name_of v ` {j \<in> set (targets cfg v). first_refusal cfg v j \<noteq> None}"
proof -
  obtain w where w: "checkForm cfg v = (False, w)" "errorList w = List.map_filter (refusal_error cfg v) (targets cfg v)"
    "fst ` set (errorMap w) = \<Union> (refusal_names cfg v ` set (targets cfg v))"
    using checkForm_plain [of cfg v] assms by (auto simp: list_all_iff)
  have v: "valid w \<longleftrightarrow> list_all (\<lambda>j. first_refusal cfg v j = None) (targets cfg v)"
    using w(2) by (simp add: valid_def refusal_error_none)
  have f: "fst (form cfg v) = Some (valid w)" "errorList (snd (form cfg v)) = errorList w"
    "fst ` set (invalid (snd (form cfg v))) = fst ` set (errorMap w)"
    by (simp_all add: form_def w(1) Let_def showErrors_def valid_def record_errors_def image_image case_prod_beta)
  have "\<Union> (refusal_names cfg v ` set (targets cfg v)) = name_of v ` {j \<in> set (targets cfg v). first_refusal cfg v j \<noteq> None}"
    by (auto simp: refusal_names_def split: if_splits)
  then show ?thesis using f v w by (simp add: first_refusal_none)
qed

lemma demo_verdicts:
  "plain_method demo_config (controls demo_form) (elementValue (controls demo_form) 0) 0 (js ''required'') (J_bool True) = Some Invalid"
  "plain_method demo_config (controls demo_form) (elementValue (controls demo_form) (Suc 0)) (Suc 0) (js ''digits'') (J_bool True) = Some Invalid"
proof -
  have v: "elementValue (controls demo_form) 0 = Some (J_str [])" "elementValue (controls demo_form) (Suc 0) = Some (J_str [97])"
    by (simp_all add: demo_value replace_all_def)
  show "plain_method demo_config (controls demo_form) (elementValue (controls demo_form) 0) 0 (js ''required'') (J_bool True) = Some Invalid"
    unfolding v by (simp add: plain_method_def Let_def m_required_def depend_def jval_length_def of_check_def)
  have "m_digits False [97] = Invalid" by code_simp
  moreover have "optional (selects demo_config) (controls demo_form) (Suc 0) = False"
    using v by (simp add: optional_def m_required_def depend_def jval_length_def of_check_def)
  ultimately show "plain_method demo_config (controls demo_form) (elementValue (controls demo_form) (Suc 0)) (Suc 0) (js ''digits'') (J_bool True) = Some Invalid"
    unfolding v by (simp add: plain_method_def Let_def subject_def)
qed

theorem form_is_conjunction_witness:
  "fst (form demo_config demo_form) = Some False \<and>
   map e_method (errorList (snd (form demo_config demo_form))) = [Some (js ''required''), Some (js ''digits'')]"
proof -
  have t: "targets demo_config demo_form = [0, 1]"
    by (simp add: targets_def demo_checked demo_target)
  have l: "list_all (looks_at_value demo_config demo_form) (targets demo_config demo_form)"
    unfolding t using demo_verdicts
    by (simp add: looks_at_value_def demo_rules normalizer_of_def value_of_param_def remote_name_def)
  show ?thesis
    using form_is_conjunction [OF l] demo_verdicts unfolding t
    by (simp add: demo_rules accepts_value_def value_of_param_def refusal_error_def first_refusal_def)
qed

section \<open>Requests\<close>

text \<open>C2. In every state a page can reach, the counter of pending requests is the number of the names that
  wait, the requests under way are for different names, and each of these names waits. So an answer
  never takes the counter below 0, and the repair in \<open>stopRequest\<close> is never needed.
\<close>

theorem pending_counted:
  assumes "page_reach cfg (init cfg fs rs ms gs) v"
  shows "pendingRequest v = int (length (pending v)) \<and> distinct (pending v) \<and> distinct (waiting_names v) \<and>
    set (waiting_names v) \<subseteq> set (pending v) \<and> (live v = [] \<or> 0 \<le> pendingRequest v - 1)"
proof -
  have ok: "requests_ok v" using page_reach_ok [OF assms init_ok] .
  have "0 \<le> pendingRequest v - 1" if "live v \<noteq> []"
  proof -
    have "name_of v (rq_field (live v ! 0)) \<in> set (pending v)" using drop_request_ok(2) [OF ok, of 0] that by simp
    then have "0 < length (pending v)" by (auto simp: length_greater_0_conv)
    then show ?thesis using ok by (simp add: requests_ok_def)
  qed
  then show ?thesis using ok by (auto simp: requests_ok_def)
qed

theorem pending_counted_witness:
  "pendingRequest (submit demo_config User remote_form) = int (length (pending (submit demo_config User remote_form)))"
proof -
  have "page_reach demo_config (init demo_config [demo_field [2] [97]] [([2], Inr [(remote_name, Plain (J_str [47]))])] [] [])
      (submit demo_config User remote_form)"
    unfolding remote_form_def by (rule onward [OF here submits])
  from pending_counted [OF this] show ?thesis by blast
qed

text \<open>C9. A name whose request has been sent and never gets an answer blocks the form: it goes on waiting,
  and nothing leaves the page, whatever else happens (submissions, edits, answers for other names,
  failures, a reset of the form), as long as no answer for the name comes, no button skips the check and
  no method throws.
\<close>

theorem lost_answer_blocks:
  assumes "page_reach cfg (init cfg fs rs ms gs) v" "name \<in> set (pending v)" "\<not> cancelSubmit v" "onsubmit cfg"
    and "quietly cfg name v w"
  shows "name \<in> set (pending w) \<and> outbox w = outbox v"
proof -
  have "held_back name (outbox v) v" using page_reach_ok [OF assms(1) init_ok] assms(2,3) by (simp add: held_back_def)
  then have "held_back name (outbox v) w" by (rule held_back_quietly [OF assms(5) _ assms(4)])
  then show ?thesis by (simp add: held_back_def)
qed

text \<open>The request of the example is sent when the form is submitted.\<close>

lemma remote_waits:
  assumes "\<not> optional (selects cfg) (controls v) i" "option_data val param = Some s" "previous_of v i = None"
  shows "name_of v i \<in> set (pending (snd (remote cfg val i param v)))"
proof -
  define k where "k = fst (previousValue cfg i remote_name v)"
  define v2 where "v2 = message_table (name_of v i) (snd (previousValue cfg i remote_name v))"
  have "previous_objs v2 ! k = \<lparr>p_old = None, p_valid = True, p_message = defaultMessage cfg v i remote_name None, p_original = None\<rparr>"
    using assms(3) by (simp add: v2_def k_def message_table_def previousValue_def)
  then have old: "p_old (previous_objs v2 ! k) = None" by simp
  have c: "controls v2 = controls v"
    using grows_trans [OF grows_previousValue grows_message_table] by (simp add: v2_def grows_def)
  define q where "q = (if message_truthy (p_original (previous_objs v2 ! k)) then p_original (previous_objs v2 ! k)
    else own_message v2 (name_of v i) remote_name)"
  define v4 where "v4 = set_message (name_of v i) remote_name (Some (Says (p_message (previous_objs v2 ! k))))
    (v2\<lparr>previous_objs := (previous_objs v2)[k := (previous_objs v2 ! k)\<lparr>p_original := q\<rparr>]\<rparr>)"
  have c4: "controls v4 = controls v"
    using grows_trans [OF grows_previous_objs grows_set_message] c by (simp add: v4_def grows_def)
  have "snd (remote cfg val i param v) = ajax i val k (startRequest i
      (v4\<lparr>previous_objs := (previous_objs v4)[k := (previous_objs v2 ! k)\<lparr>p_original := q, p_old := Some s\<rparr>]\<rparr>))"
    using assms(1,2) old unfolding remote_def v4_def q_def v2_def k_def
    by (simp only: if_False Let_def case_prod_beta option.case option.distinct snd_conv)
  then show ?thesis
    using pending_startRequest [of "v4\<lparr>previous_objs := ps\<rparr>" i for ps] by (simp add: ajax_def c4)
qed

lemma sole_remote_waits:
  assumes "validationTargetFor (controls v) j = Some j" "element_rules cfg v j = [(remote_name, Plain a)]"
    "extra cfg remote_name = None" "\<not> optional (selects cfg) (controls v) j"
    "option_data (elementValue (controls v) j) a = Some s" "previous_of v j = None"
  shows "name_of v j \<in> set (pending (snd (check cfg j v)))"
proof -
  define v1 where "v1 = rules_effect cfg j v"
  define val where "val = elementValue (controls v) j"
  have n: "normalizer_of [(remote_name, Plain a)] = None" by (simp add: normalizer_of_def)
  have c: "controls v1 = controls v" "previous_of v1 = previous_of v" by (simp_all add: v1_def)
  obtain r w where w: "remote cfg val j a v1 = (r, w)" by fastforce
  have p: "name_of v j \<in> set (pending w)"
    using remote_waits [of cfg v1 j val a s] assms(4-6) by (simp add: c val_def [symmetric] w)
  have "name_of v j \<in> set (pending (snd (check_loop cfg val j True False [(remote_name, Plain a)] v1)))"
    using p assms(3) w
    by (cases r) (simp_all add: run_method_def value_of_param_def drop_errors_of_def formatAndAdd_def Let_def)
  then show ?thesis
    unfolding check_def assms(1) option.case check_target_def assms(2) Let_def n v1_def [symmetric] val_def [symmetric]
    by (simp add: case_prod_beta)
qed

lemma form_waits:
  assumes "checked_elements cfg v = [j]" "validationTargetFor (controls v) j = Some j"
    "element_rules cfg v j = [(remote_name, Plain a)]" "extra cfg remote_name = None"
    "\<not> optional (selects cfg) (controls v) j" "option_data (elementValue (controls v) j) a = Some s" "previous_of v j = None"
  shows "name_of v j \<in> set (pending (snd (form cfg v)))"
proof -
  define u where "u = (snd (elements cfg (prepareForm cfg v)))\<lparr>currentElements := [j]\<rparr>"
  have r: "same_reads v u"
    using same_reads.rel_trans [OF prepareForm_reads same_core_reads [OF elements_core [unfolded same_core_def]]]
    by (simp add: u_def same_reads_def)
  have c: "controls u = controls v" using r by (simp add: same_reads_def)
  have "previous_of u = previous_of v"
    using same_coreD [OF elements_core, of cfg "prepareForm cfg v"]
    by (simp add: u_def prepareForm_def reset_def resetInternals_def Let_def)
  then have p: "name_of v j \<in> set (pending (snd (check cfg j u)))"
    using sole_remote_waits [of u j cfg a s] assms(2-) element_rules_reads [OF r] by (simp add: c)
  have e: "fst (elements cfg (prepareForm cfg v)) = [j]"
    by (simp add: elements_found checked_elements_reads [OF prepareForm_reads] assms(1))
  have "snd (checkForm cfg v) = snd (check cfg j u)"
    unfolding checkForm_def Let_def case_prod_beta e u_def [symmetric] by (simp add: Let_def case_prod_beta)
  then show ?thesis using p by (simp add: form_def Let_def case_prod_beta showErrors_def record_errors_def)
qed

lemma submit_keeps_form:
  assumes "\<not> cancelSubmit v" "onsubmit cfg"
  shows "set (pending (snd (form cfg v))) \<subseteq> set (pending (submit cfg who v))" and "\<not> cancelSubmit (submit cfg who v)"
proof -
  define w where "w = snd (form cfg v)"
  have f: "set (pending w) \<subseteq> set (pending (focusInvalid cfg w))" "cancelSubmit (focusInvalid cfg w) = cancelSubmit w"
    using grows_focusInvalid [of w cfg] by (simp_all add: grows_def)
  have h: "pending (snd (handle cfg w)) = pending w" "cancelSubmit (snd (handle cfg w)) = cancelSubmit w"
    by (simp_all add: handle_def split: option.splits)
  have c: "\<not> cancelSubmit w" using form_same(2) [of cfg v] assms(1) by (simp add: w_def)
  have "set (pending w) \<subseteq> set (pending (submit cfg who v)) \<and> \<not> cancelSubmit (submit cfg who v)"
    using assms(2) f h c unfolding submit_eq on_submit_cases [OF assms(1)] w_def [symmetric]
    by (cases "fst (form cfg v)") (simp_all add: Let_def)
  then show "set (pending (snd (form cfg v))) \<subseteq> set (pending (submit cfg who v))" "\<not> cancelSubmit (submit cfg who v)"
    by (simp_all add: w_def)
qed

lemma remote_form_waits: "[2] \<in> set (pending (submit demo_config User remote_form))"
proof -
  have v: "elementValue (controls remote_form) 0 = Some (J_str [97])" by (simp add: demo_value replace_all_def)
  have "\<not> optional (selects demo_config) (controls remote_form) 0"
    using v by (simp add: optional_def m_required_def depend_def jval_length_def of_check_def)
  moreover have "option_data (Some (J_str [97])) (J_str [47]) = Some [100, 97, 116, 97, 61, 97]" by code_simp
  ultimately have "name_of remote_form 0 \<in> set (pending (snd (form demo_config remote_form)))"
    using v by (intro form_waits) (simp_all add: demo_checked demo_target demo_rules, simp_all add: remote_form_def init_def)
  then show ?thesis using submit_keeps_form(1) [of remote_form demo_config User] by (auto simp: remote_form_def init_def)
qed

theorem lost_answer_blocks_witness:
  "[2] \<in> set (pending (resetForm demo_config (submit demo_config User remote_form))) \<and>
   outbox (resetForm demo_config (submit demo_config User remote_form)) = outbox (submit demo_config User remote_form)"
proof -
  define v where "v = submit demo_config User remote_form"
  have r: "page_reach demo_config (init demo_config [demo_field [2] [97]] [([2], Inr [(remote_name, Plain (J_str [47]))])] [] []) v"
    unfolding v_def remote_form_def by (rule onward [OF here submits])
  have c: "\<not> cancelSubmit v" unfolding v_def by (rule submit_keeps_form) (simp_all add: remote_form_def init_def)
  have "controls (resetForm demo_config v) = controls v"
    using same_coreD [OF elements_core]
    by (simp add: resetForm_def hideErrors_def prepareForm_def reset_def resetInternals_def Let_def case_prod_beta)
  then have q: "quietly demo_config [2] v (resetForm demo_config v)"
    by (intro goes_on [OF stays resets]) (simp_all add: passes_by_def)
  show ?thesis
    using lost_answer_blocks [OF r _ c _ q] remote_form_waits by (simp add: v_def)
qed

section \<open>Answers\<close>

text \<open>C16. What an answer does to a form that waits to be submitted: while other names wait, and when nobody
  has submitted the form, nothing is sent; a refusal ends the waiting; an acceptance has the form checked
  and, if it is valid, submitted; if the form is not valid by then, nothing is sent but the form goes on
  waiting, so that a later acceptance sends it without a new submission by the user.
\<close>

theorem answer_outcomes:
  assumes "n < length (live v)"
  shows "let u = stop_counting (rq_field (live v ! n)) (after_answer cfg (live v ! n) response (drop_request n v));
      w = request_answered cfg n response v
    in (if pendingRequest u \<noteq> 0 \<or> \<not> formSubmitted v then outbox w = outbox v \<and> formSubmitted w = formSubmitted v
        else if \<not> answer_valid response then outbox w = outbox v \<and> \<not> formSubmitted w
        else if fst (form cfg u) \<noteq> Some True then outbox w = outbox v \<and> formSubmitted w
        else outbox w = outbox (submit cfg Script (snd (form cfg u))))"
proof -
  define u where "u = stop_counting (rq_field (live v ! n)) (after_answer cfg (live v ! n) response (drop_request n v))"
  have s: "outbox u = outbox v" "formSubmitted u = formSubmitted v"
    by (simp_all add: u_def stop_counting_def drop_request_def)
  have f: "outbox (snd (form cfg u)) = outbox v" "formSubmitted (snd (form cfg u)) = formSubmitted v"
    using grows_form [of u cfg] s by (simp_all add: grows_def)
  have w: "request_answered cfg n response v =
      (if pendingRequest u = 0 \<and> formSubmitted u then
         if answer_valid response then
           (if fst (form cfg u) = Some True
            then (let x = snd (form cfg u)
                  in if onsubmit cfg \<and> fst (on_submit cfg x) = None then submit cfg Script x
                     else (submit cfg Script x)\<lparr>formSubmitted := False\<rparr>)
            else snd (form cfg u))
         else u\<lparr>invalid_events := invalid_events u + 1, formSubmitted := False\<rparr>
       else u)"
    using assms unfolding request_answered_def on_answer_eq stopRequest_def Let_def u_def
    by (cases "form cfg u") (auto simp: u_def split: option.splits bool.splits)
  show ?thesis using s f unfolding Let_def u_def [symmetric] w by simp
qed

definition waiting_form :: validator where
  "waiting_form = remote_form\<lparr>live := [\<lparr>rq_field = 0, rq_value = Some (J_str [97]), rq_prev = 0\<rparr>],
     pending := [[2]], pendingRequest := 1, formSubmitted := True\<rparr>"

theorem answer_outcomes_witness:
  "outbox (request_answered demo_config 0 (J_bool False) waiting_form) = [] \<and>
   \<not> formSubmitted (request_answered demo_config 0 (J_bool False) waiting_form)"
  using answer_outcomes [of 0 waiting_form demo_config "J_bool False"]
  by (simp add: waiting_form_def answer_valid_def Let_def stop_counting_def drop_request_def remote_form_def init_def)

text \<open>C39. A reset does not call off a submission that waits: when the user has submitted the form, one request is
  under way, the form is reset and emptied (\<open>fs\<close> are its fields then) and passes as it is now, for instance because
  an empty field with a remote rule is optional, then an answer that accepts the old value submits the new,
  empty form, without another act of the user.
\<close>

theorem late_answer_submits:
  assumes "n < length (live v)" "pendingRequest v = 1" "formSubmitted v" "\<not> cancelSubmit v" "answer_valid response"
    and "onsubmit cfg" "\<not> debug cfg" "submit_handler cfg = None"
    and "\<forall>j \<in> set (targets cfg (v\<lparr>controls := fs\<rparr>)). passes cfg (v\<lparr>controls := fs\<rparr>) j"
  shows "outbox (request_answered cfg n response ((resetForm cfg v)\<lparr>controls := fs\<rparr>)) = outbox v @ [Native] \<and>
    \<not> formSubmitted (request_answered cfg n response ((resetForm cfg v)\<lparr>controls := fs\<rparr>))"
proof -
  define w where "w = (resetForm cfg v)\<lparr>controls := fs\<rparr>"
  have w: "controls w = controls (v\<lparr>controls := fs\<rparr>)" "s_rules w = s_rules (v\<lparr>controls := fs\<rparr>)"
    by (simp_all add: w_def reset_keeps)
  have "\<forall>j \<in> set (targets cfg w). passes cfg w j"
    using assms(9) unfolding targets_same_form [OF w] passes_same_form [OF w] .
  then show ?thesis
    using answer_submits [of n w response cfg] assms(1-8) by (simp add: w_def reset_keeps)
qed

lemma late_answer_submits_witness:
  "outbox (request_answered demo_config 0 (J_bool True) ((resetForm demo_config waiting_form)\<lparr>controls := [demo_field [2] []]\<rparr>))
    = [Native]"
proof -
  define v where "v = waiting_form\<lparr>controls := [demo_field [2] []]\<rparr>"
  have c: "controls v = [demo_field [2] []]" by (simp add: v_def)
  have s: "s_rules v = [([2], Inr [(remote_name, Plain (J_str [47]))])]"
    by (simp add: v_def waiting_form_def remote_form_def init_def) (simp add: normalizeRule_def)
  have r: "element_rules demo_config v 0 = [(remote_name, Plain (J_str [47]))]"
    by (rule element_rules_sole) (simp_all add: s c staticRules_def normalizeRule_def remote_name_def)
  have t: "targets demo_config v = [0]"
    by (simp add: targets_def checked_elements_def is_control_def objectLength_def c r demo_target)
  have "elementValue (controls v) 0 = Some (J_str [])" using c by (simp add: demo_value replace_all_def)
  then have "optional (selects demo_config) (controls v) 0"
    using c by (simp add: optional_def m_required_def depend_def jval_length_def of_check_def)
  then have p: "\<forall>j \<in> set (targets demo_config v). passes demo_config v j"
    by (simp add: t passes_def r normalizer_of_def rule_passes_def remote_name_def)
  have "outbox (request_answered demo_config 0 (J_bool True) ((resetForm demo_config waiting_form)\<lparr>controls := [demo_field [2] []]\<rparr>))
      = outbox waiting_form @ [Native]"
    by (rule conjunct1 [OF late_answer_submits]) (use p in \<open>simp_all add: v_def\<close>,
      simp_all add: waiting_form_def answer_valid_def demo_config_def plugin_defaults_def remote_form_def init_def)
  then show ?thesis by (simp add: waiting_form_def remote_form_def init_def)
qed

section \<open>Marks\<close>

lemma error_class_label [simp]: "error_class (dom (showLabel cfg i m v)) = error_class (dom v)"
  by (simp add: showLabel_def on_dom_def map_labels_def link_error_def Let_def split: option.splits)

lemma error_class_labels: "error_class (dom (fold (\<lambda>i. showLabel cfg i m) is v)) = error_class (dom v)"
  by (induction "is" arbitrary: v) simp_all

lemma unmarked_stays:
  "\<not> error_class (dom v) i \<Longrightarrow> \<not> error_class (dom (fold (run_mark (Some default_unhighlight)) is v)) i"
proof (induction "is" arbitrary: v)
  case (Cons j "is")
  have "\<not> error_class (dom (run_mark (Some default_unhighlight) j v)) i"
    using Cons.prems by (simp add: run_mark_def default_unhighlight_def Let_def)
  then show ?case using Cons.IH by simp
qed simp

lemma unmarked:
  "i \<in> set is \<Longrightarrow> i < length (controls v) \<Longrightarrow> \<not> error_class (dom (fold (run_mark (Some default_unhighlight)) is v)) i"
proof (induction "is" arbitrary: v)
  case (Cons j "is")
  show ?case
  proof (cases "i = j")
    case True
    then have "\<not> error_class (dom (run_mark (Some default_unhighlight) j v)) i"
      using Cons.prems(2) by (simp add: run_mark_def default_unhighlight_def group_of_field_def findByName_def Let_def)
    then show ?thesis using unmarked_stays by simp
  next
    case False
    then show ?thesis using Cons by (simp add: run_mark_def)
  qed
qed simp

text \<open>C31. When the server accepts the value of one element, every element of the last check loses its error
  mark, also one that is still recorded as invalid: the errors are dropped before the marks are shown.
\<close>

theorem accepted_unmarks:
  assumes "unhighlight cfg = Some default_unhighlight" "show_errors cfg = None" "i \<in> set (currentElements v)"
    "i < length (controls v)" "name_of v i \<noteq> name_of v j"
  shows "\<not> error_class (dom (accepted cfg j v)) i \<and>
    map_of (invalid (accepted cfg j v)) (name_of v i) = map_of (invalid v) (name_of v i)"
proof -
  define w where "w = mark_invalid j False ((resetInternals v)\<lparr>toHide := Label ` set (errorsFor cfg (resetInternals v) j),
    successList := successList (resetInternals v) @ [j]\<rparr>)"
  have a: "accepted cfg j v = defaultShowErrors cfg w"
    by (simp add: accepted_def showErrors_def display_def assms(2) w_def Let_def)
  have w: "errorList w = []" "currentElements w = currentElements v" "controls w = controls v"
    by (simp_all add: w_def mark_invalid_def resetInternals_def)
  define x where "x = (if success cfg \<noteq> None then fold (\<lambda>i. showLabel cfg i None) (successList w) w else w)"
  have cx: "core x = core w" by (simp add: x_def core_fold)
  have x: "validElements x = currentElements v" "controls x = controls v"
    using same_coreD [of w x] cx w by (simp_all add: same_core_def validElements_def invalidElements_def)
  have "\<not> error_class (dom (fold (run_mark (Some default_unhighlight)) (validElements x) x)) i"
    using assms(3,4) x by (intro unmarked) simp_all
  moreover define y where "y = fold (run_mark (Some default_unhighlight)) (validElements x) x"
  moreover have "defaultShowErrors cfg w =
      (let v5 = hideErrors cfg (y\<lparr>toHide := toHide y - toShow y\<rparr>)
       in on_dom (set_shown True (addWrapper cfg (toShow v5))) v5)"
    unfolding y_def x_def
    by (simp only: defaultShowErrors_def w(1) assms(1) Let_def fold.simps(1) id_apply simp_thms if_False)
  ultimately have "\<not> error_class (dom (defaultShowErrors cfg w)) i"
    by (simp add: Let_def on_dom_def hideErrors_def set_shown_def hideThese_def map_labels_def)
  moreover have "core (defaultShowErrors cfg w) = core w"
    using core_display [of cfg w] by (simp add: display_def assms(2))
  then have "invalid (defaultShowErrors cfg w) = invalid w"
    using same_coreD(6) [of w "defaultShowErrors cfg w"] by (simp add: same_core_def)
  ultimately show ?thesis using assms(5) by (simp add: a) (simp add: w_def mark_invalid_def resetInternals_def)
qed

theorem accepted_unmarks_witness:
  "\<not> error_class (dom (accepted demo_config 1 (demo_form\<lparr>currentElements := [0, 1], invalid := [([1], J_str [33])]\<rparr>))) 0 \<and>
   map_of (invalid (accepted demo_config 1 (demo_form\<lparr>currentElements := [0, 1], invalid := [([1], J_str [33])]\<rparr>))) [1]
     = Some (J_str [33])"
  using accepted_unmarks [of demo_config 0 "demo_form\<lparr>currentElements := [0, 1], invalid := [([1], J_str [33])]\<rparr>" 1]
  by simp

section \<open>Methods that are not there\<close>

lemma throwing_form:
  assumes "checked_elements cfg v = i # is" "validationTargetFor (controls v) i = Some j"
    "element_rules cfg v j = (m, p) # rs" "normalizer_of (element_rules cfg v j) = None" "extra cfg m = None" "m \<noteq> remote_name"
    "plain_method cfg (controls v) (elementValue (controls v) j) j m (value_of_param p) = None"
  shows "fst (form cfg v) = None"
proof -
  define u where "u = (snd (elements cfg (prepareForm cfg v)))\<lparr>currentElements := i # is\<rparr>"
  have r: "same_reads v u"
    using same_reads.rel_trans [OF prepareForm_reads same_core_reads [OF elements_core [unfolded same_core_def]]]
    by (simp add: u_def same_reads_def)
  have c: "controls u = controls v" using r by (simp add: same_reads_def)
  have e: "fst (elements cfg (prepareForm cfg v)) = i # is"
    by (simp add: elements_found checked_elements_reads [OF prepareForm_reads] assms(1))
  have n: "normalizer_of ((m, p) # rs) = None" using assms(3,4) by simp
  have "fst (check cfg i u) = Throws"
    unfolding check_def c assms(2) option.case check_target_def element_rules_reads [OF r] assms(3) Let_def n
    using assms(5-7) by (simp add: run_method_def c case_prod_beta)
  then have "fst (checkForm cfg v)"
    unfolding checkForm_def Let_def case_prod_beta e u_def [symmetric] by (simp add: Let_def case_prod_beta)
  then show ?thesis by (simp add: form_def Let_def case_prod_beta)
qed

text \<open>C32. When the first rule of the first checked element names a method that is not there, the handler of
  the submission throws, and the browser sends the form that nobody has checked.
\<close>

theorem unknown_method_submits:
  assumes "checked_elements cfg v = i # is" "validationTargetFor (controls v) i = Some j"
    "element_rules cfg v j = (m, p) # rs" "normalizer_of (element_rules cfg v j) = None" "extra cfg m = None" "m \<noteq> remote_name"
    "plain_method cfg (controls v) (elementValue (controls v) j) j m (value_of_param p) = None"
    "onsubmit cfg" "\<not> debug cfg" "\<not> cancelSubmit v"
  shows "outbox (submit cfg User v) = outbox v @ [Native]"
proof -
  have n: "fst (form cfg v) = None" using throwing_form [OF assms(1-7)] .
  show ?thesis
    using assms(8,9) form_same(1) [of cfg v] unfolding submit_eq on_submit_cases [OF assms(10)] n by (simp add: Let_def)
qed

text \<open>The class \<open>creditcard\<close> is in the table of the plug-in, the method is not.\<close>

definition creditcard_form :: validator where
  "creditcard_form = init demo_config [(demo_field [1] [97])\<lparr>fclass := js ''creditcard''\<rparr>] [] [] []"

theorem unknown_method_submits_witness:
  "outbox (submit demo_config User creditcard_form) = [Native]"
proof -
  have c: "controls creditcard_form = [(demo_field [1] [97])\<lparr>fclass := js ''creditcard''\<rparr>]" "s_rules creditcard_form = []"
    "outbox creditcard_form = []" "\<not> cancelSubmit creditcard_form"
    by (simp_all add: creditcard_form_def init_def)
  have s: "split_on 32 (js ''creditcard'') = [js ''creditcard'']" by simp
  have k: "class_rules demo_config = classRuleSettings" by (simp add: demo_config_def plugin_defaults_def)
  have t: "map_of classRuleSettings (js ''creditcard'') = Some [(js ''creditcard'', Plain (J_bool True))]"
    by (simp add: classRuleSettings_def)
  have "classRules (class_rules demo_config) (field_of creditcard_form 0) = [(js ''creditcard'', Plain (J_bool True))]"
    unfolding classRules_def c k by (simp add: s [simplified] t [simplified] extend_with_def)
  moreover have "normalizeRules (selects demo_config) False 0 [(js ''creditcard'', Plain (J_bool True))]
      = ([(js ''creditcard'', Plain (J_bool True))], False)"
    by (rule normalizeRules_sole) simp_all
  ultimately have "gathered demo_config creditcard_form 0 = ([(js ''creditcard'', Plain (J_bool True))], False)"
    by (simp add: gathered_def c attributeRules_def dataRules_def staticRules_def extend_with_def del: js_Cons)
  then have r: "element_rules demo_config creditcard_form 0 = [(js ''creditcard'', Plain (J_bool True))]"
    by (simp only: element_rules_def fst_conv required_remote_sole)
  have "checked_elements demo_config creditcard_form = [0]"
    by (simp add: checked_elements_def c is_control_def r objectLength_def demo_field_def)
  then show ?thesis
    using unknown_method_submits [of demo_config creditcard_form 0 "[]" 0 "js ''creditcard''" "Plain (J_bool True)" "[]"] r c
    by (simp add: validationTargetFor_def normalizer_of_def remote_name_def plain_method_def checkable_def demo_field_def Let_def)
qed

section \<open>The order of rules\<close>

lemma required_first_eq:
  assumes "distinct (map fst rs)" "map_of rs (js ''required'') = Some p" "param_truthy p"
  shows "required_first rs = (js ''required'', p) # del_key (js ''required'') rs"
proof -
  have "extend_with [(js ''required'', p)] (del_key (js ''required'') rs) = [(js ''required'', p)] @ del_key (js ''required'') rs"
    using distinct_del_key [OF assms(1)] keys_del_key [of "js ''required''" rs]
    by (intro extend_with_new) (auto simp del: js_Cons)
  then show ?thesis using assms(2,3) by (simp add: required_first_def del: js_Cons)
qed

lemma remote_last_eq:
  assumes "map_of rs (js ''remote'') = Some p" "param_truthy p"
  shows "remote_last rs = del_key (js ''remote'') rs @ [(js ''remote'', p)]"
  using assms keys_del_key [of "js ''remote''" rs]
  by (simp add: remote_last_def extend_with_def set_key_new del: js_Cons)

lemma required_first_same:
  "map_of rs (js ''required'') = None \<or> (\<exists>p. map_of rs (js ''required'') = Some p \<and> \<not> param_truthy p) \<Longrightarrow> required_first rs = rs"
  by (auto simp: required_first_def simp del: js_Cons)

lemma remote_last_same:
  "map_of rs (js ''remote'') = None \<or> (\<exists>p. map_of rs (js ''remote'') = Some p \<and> \<not> param_truthy p) \<Longrightarrow> remote_last rs = rs"
  by (auto simp: remote_last_def simp del: js_Cons)

text \<open>Putting the rules of an element in order loses none and changes no parameter; \<open>required\<close> comes
  first and \<open>remote\<close> last where their parameters are true.
\<close>

theorem rules_in_order:
  assumes "distinct (map fst rs)" "map_of rs (js ''required'') = Some p" "param_truthy p"
    "map_of rs (js ''remote'') = Some q" "param_truthy q"
  shows "map_of (remote_last (required_first rs)) = map_of rs \<and>
    hd (remote_last (required_first rs)) = (js ''required'', p) \<and> last (remote_last (required_first rs)) = (js ''remote'', q) \<and>
    length (remote_last (required_first rs)) = length rs"
proof -
  define r m where "r = js ''required''" and "m = js ''remote''"
  have d: "r \<noteq> m" by (simp add: r_def m_def)
  note assms = assms [folded r_def m_def]
  have a: "required_first rs = (r, p) # del_key r rs" using required_first_eq [folded r_def, OF assms(1-3)] .
  have "map_of (required_first rs) m = Some q" using assms(4) d by (simp add: a)
  moreover have "del_key m ((r, p) # del_key r rs) = (r, p) # del_key m (del_key r rs)" using d by (simp add: del_key_def)
  ultimately have b: "remote_last (required_first rs) = (r, p) # del_key m (del_key r rs) @ [(m, q)]"
    using remote_last_eq [folded m_def] assms(5) a by simp
  have one: "distinct (map fst xs) \<Longrightarrow> map_of xs k = Some x \<Longrightarrow> Suc (length (del_key k xs)) = length xs" for xs :: rules and k x
  proof (induction xs)
    case (Cons y ys)
    have n: "fst y \<notin> fst ` set ys" using Cons.prems(1) by simp
    have "del_key k ys = ys" if "fst y = k" unfolding del_key_def by (rule filter_True) (use that n in \<open>metis image_eqI\<close>)
    with Cons show ?case by (auto simp: del_key_def split: if_splits)
  qed simp
  have l: "Suc (length (del_key m (del_key r rs))) = length (del_key r rs)"
    using one [OF distinct_del_key [OF assms(1)], of r m q] assms(4) d by simp
  have "map_of (remote_last (required_first rs)) = map_of rs"
    unfolding b using assms(2,4) d by (auto simp: fun_eq_iff map_add_def split: option.splits)
  then show ?thesis
    using d l one [OF assms(1,2)] unfolding r_def [symmetric] m_def [symmetric] b
    by simp
qed

theorem rules_in_order_witness:
  "hd (remote_last (required_first [(js ''remote'', Plain (J_str [47])), (js ''required'', Plain (J_bool True))]))
     = (js ''required'', Plain (J_bool True))"
proof -
  have "hd (remote_last (required_first [(js ''remote'', Plain (J_str [47])), (js ''required'', Plain (J_bool True))]))
     = (js ''required'', Plain (J_bool True)) \<and> True"
    using rules_in_order [of "[(js ''remote'', Plain (J_str [47])), (js ''required'', Plain (J_bool True))]" "Plain (J_bool True)" "Plain (J_str [47])"]
    by simp
  then show ?thesis by simp
qed

section \<open>Messages\<close>

text \<open>A text with slots, as its parts, and the text with the slots below \<open>k\<close> filled.\<close>

datatype part = Words jsstr | Slot nat

fun part_text :: "nat \<Rightarrow> jval list \<Rightarrow> part \<Rightarrow> jsstr" where
  "part_text k xs (Words s) = s"
| "part_text k xs (Slot i) = (if i < k then to_text (xs ! i) else slot i)"

definition text_of_parts :: "nat \<Rightarrow> jval list \<Rightarrow> part list \<Rightarrow> jsstr" where
  "text_of_parts k xs ps = concat (map (part_text k xs) ps)"

fun plain_part :: "nat \<Rightarrow> part \<Rightarrow> bool" where
  "plain_part n (Words s) = (123 \<notin> set s)"
| "plain_part n (Slot i) = (i < n)"

lemma replace_text_Nil [simp]: "replace_text p r [] = []"
  by (simp add: replace_text.simps)

lemma replace_text_skip: "c \<notin> set s \<Longrightarrow> replace_text (c # p) r (s @ t) = s @ replace_text (c # p) r t"
proof (induction s)
  case (Cons d s)
  then show ?case by (subst replace_text.simps) simp
qed simp

lemma replace_text_hit: "p \<noteq> [] \<Longrightarrow> replace_text p r (p @ t) = r @ replace_text p r t"
  by (subst replace_text.simps) (cases p; simp)

lemma digits_brace: "125 \<notin> set (string_of_nat i)" "123 \<notin> set (string_of_nat i)"
  using string_of_nat_plain [of _ i] by force+

lemma same_slot: "take (length (slot k)) (slot i @ t) = slot k \<longleftrightarrow> i = k"
proof
  assume "take (length (slot k)) (slot i @ t) = slot k"
  then have "slot i @ t = slot k @ drop (length (slot k)) (slot i @ t)" by (metis append_take_drop_id)
  then have e: "string_of_nat i @ 125 # t = string_of_nat k @ 125 # drop (length (slot k)) (slot i @ t)" by (simp add: slot_def)
  have w: "125 \<notin> set s \<Longrightarrow> takeWhile (\<lambda>c. c \<noteq> 125) (s @ 125 # u) = s" for s u :: jsstr by (induction s) auto
  have "string_of_nat i = string_of_nat k"
    using arg_cong [OF e, of "takeWhile (\<lambda>c. c \<noteq> 125)"] w [OF digits_brace(1)] by metis
  then show "i = k" using string_of_nat_digits [of i] string_of_nat_digits [of k] by metis
qed simp

lemma replace_other_slot: "i \<noteq> k \<Longrightarrow> replace_text (slot k) r (slot i @ t) = slot i @ replace_text (slot k) r t"
proof -
  assume "i \<noteq> k"
  then have n: "take (length (slot k)) (slot i @ t) \<noteq> slot k" using same_slot by simp
  have "replace_text (slot k) r (slot i @ t) = 123 # replace_text (slot k) r ((string_of_nat i @ [125]) @ t)"
    using n by (subst replace_text.simps) (simp add: slot_def)
  also have "\<dots> = 123 # (string_of_nat i @ [125]) @ replace_text (slot k) r t"
    using replace_text_skip [of 123 "string_of_nat i @ [125]" "string_of_nat k @ [125]" r t] digits_brace(2)
    by (simp add: slot_def)
  finally show ?thesis by (simp add: slot_def)
qed

lemma fill_one:
  assumes "list_all (plain_part n) ps" "k < n" "\<And>i. i < n \<Longrightarrow> 123 \<notin> set (to_text (xs ! i))"
  shows "replace_text (slot k) (to_text (xs ! k)) (text_of_parts k xs ps) = text_of_parts (Suc k) xs ps"
  using assms(1)
proof (induction ps)
  case (Cons p ps)
  then have IH: "replace_text (slot k) (to_text (xs ! k)) (text_of_parts k xs ps) = text_of_parts (Suc k) xs ps" by simp
  have skip: "123 \<notin> set s \<Longrightarrow> replace_text (slot k) r (s @ t) = s @ replace_text (slot k) r t" for s r t
    using replace_text_skip [of 123 s "string_of_nat k @ [125]"] by (simp add: slot_def)
  have split: "text_of_parts m xs (p # ps) = part_text m xs p @ text_of_parts m xs ps" for m
    by (simp add: text_of_parts_def)
  show ?case
  proof (cases p)
    case (Words s)
    then show ?thesis using Cons.prems IH skip unfolding split unfolding Words by simp
  next
    case (Slot i)
    then have i: "i < n" using Cons.prems by simp
    consider "i < k" | "i = k" | "k < i" by linarith
    then show ?thesis
    proof cases
      case 1
      then show ?thesis using IH skip assms(3) [OF i] unfolding split unfolding Slot by simp
    next
      case 2
      then show ?thesis using IH replace_text_hit [of "slot k"] unfolding split unfolding Slot by (simp add: slot_def)
    next
      case 3
      then show ?thesis using IH replace_other_slot [of i k] unfolding split unfolding Slot by simp
    qed
  qed
qed (simp add: text_of_parts_def)

text \<open>A message whose slots have parameters, and whose words hold no brace, is the text with each slot
  replaced by its parameter, provided that no parameter holds a brace itself (the slots are filled one
  after the other, also in what was filled in before).
\<close>

theorem message_filled:
  assumes "list_all (plain_part (length xs)) ps" "list_all (\<lambda>x. 123 \<notin> set (to_text x)) xs"
  shows "format (text_of_parts 0 [] ps) [J_arr xs] = text_of_parts (length xs) xs ps"
proof -
  have main: "fold (\<lambda>(i, n). replace_text (slot i) (to_text n)) (enumerate 0 (take k xs)) (text_of_parts 0 xs ps) = text_of_parts k xs ps"
    if "k \<le> length xs" for k
    using that
  proof (induction k)
    case (Suc k)
    then have "enumerate 0 (take (Suc k) xs) = enumerate 0 (take k xs) @ [(k, xs ! k)]"
      by (simp add: take_Suc_conv_app_nth enumerate_append_eq)
    then show ?case
      using Suc fill_one [OF assms(1), of k xs] assms(2) by (simp add: list_all_length)
  qed simp
  have "text_of_parts 0 [] ps = text_of_parts 0 xs ps"
    unfolding text_of_parts_def by (intro arg_cong [of _ _ concat] map_cong refl) (metis part.exhaust part_text.simps not_less_zero)
  with main [of "length xs"] show ?thesis by (simp add: format_def format_params_def)
qed

theorem message_filled_witness:
  "format (text_of_parts 0 [] [Words [97], Slot 1, Slot 0]) [J_arr [J_str [98], J_str [99]]] = [97, 99, 98]"
proof -
  have "format (text_of_parts 0 [] [Words [97], Slot 1, Slot 0]) [J_arr [J_str [98], J_str [99]]]
      = text_of_parts (length [J_str [98], J_str [99]]) [J_str [98], J_str [99]] [Words [97], Slot 1, Slot 0]"
    by (rule message_filled) simp_all
  then show ?thesis by (simp add: text_of_parts_def)
qed

section \<open>Names of files\<close>

lemma after_last_found: "c \<notin> set b \<Longrightarrow> after_last c (a @ c # b) = Some b"
proof -
  assume b: "c \<notin> set b"
  define s where "s = a @ c # b"
  have "filter (\<lambda>j. s ! j = c) [0..<length s] = filter (\<lambda>j. s ! j = c) [0..<length a] @ [length a]"
  proof -
    have "[0..<length s] = [0..<length a] @ [length a..<length s]"
      using upt_add_eq_append [of 0 "length a" "length s - length a"] by (simp add: s_def)
    moreover have "[length a..<length s] = length a # [Suc (length a)..<length s]"
      by (rule upt_conv_Cons) (simp add: s_def)
    ultimately have "[0..<length s] = [0..<length a] @ [length a] @ [Suc (length a)..<length s]" by simp
    moreover have "filter (\<lambda>j. s ! j = c) [Suc (length a)..<length s] = []"
      using b nth_mem [of _ b] by (auto simp: filter_empty_conv s_def nth_append nth_Cons')
    ultimately show ?thesis by (simp add: s_def)
  qed
  then have "last_index c s (length s) = int (length a)"
    by (cases "filter (\<lambda>j. s ! j = c) [0..<length a]") (simp_all add: last_index_def)
  then show ?thesis by (simp add: after_last_def Let_def s_def)
qed

lemma after_last_absent: "c \<notin> set s \<Longrightarrow> after_last c s = None"
proof -
  assume "c \<notin> set s"
  then have "filter (\<lambda>j. s ! j = c) [0..<length s] = []" using nth_mem [of _ s] by (auto simp: filter_empty_conv)
  then have "last_index c s (length s) = -1" by (simp add: last_index_def)
  then show ?thesis by (simp add: after_last_def)
qed

text \<open>The value of a field for a file is the name of the file: what follows the last slash, without a
  slash what follows the last backslash, the whole text without either, and what follows the made-up
  directory of modern browsers.
\<close>

theorem file_name_correct:
  assumes "47 \<notin> set base" "substr (dir @ [sep] @ base) 0 12 \<noteq> fake_path" "substr base 0 12 \<noteq> fake_path"
  shows "file_name (fake_path @ any) = any \<and>
    (if sep = 47 then file_name (dir @ [sep] @ base) = base
     else if sep = 92 \<and> 92 \<notin> set base \<and> 47 \<notin> set dir then file_name (dir @ [sep] @ base) = base
     else if 92 \<notin> set base then file_name base = base else True)"
proof -
  have f: "file_name (fake_path @ any) = any" by (simp add: file_name_def substr_def fake_path_def)
  have u: "file_name (dir @ [47] @ base) = base" if "substr (dir @ [47] @ base) 0 12 \<noteq> fake_path"
    using after_last_found [OF assms(1), of dir] that by (simp add: file_name_def)
  have w: "file_name (dir @ [92] @ base) = base"
    if "substr (dir @ [92] @ base) 0 12 \<noteq> fake_path" "92 \<notin> set base" "47 \<notin> set dir"
    using after_last_found [OF that(2), of dir] after_last_absent [of 47 "dir @ [92] @ base"] that assms(1)
    by (simp add: file_name_def)
  have n: "file_name base = base" if "92 \<notin> set base"
    using after_last_absent [OF assms(1)] after_last_absent [OF that] assms(3) by (simp add: file_name_def)
  show ?thesis using f u w n assms(2) by auto
qed

theorem file_name_correct_witness:
  "file_name (js ''/a/b.txt'') = js ''b.txt''"
proof -
  have "js ''/a/b.txt'' = js ''/a'' @ [47] @ js ''b.txt''" by simp
  moreover have "file_name (js ''/a'' @ [47] @ js ''b.txt'') = js ''b.txt''"
    using file_name_correct [of "js ''b.txt''" "js ''/a''" 47 "[]"] by (simp add: substr_def fake_path_def)
  ultimately show ?thesis by (simp only:)
qed

section \<open>The marks of the project\<close>

lemma custom_unhighlight_keeps:
  assumes "la \<in> set (labels (dom v))" "lb \<in> set (labels (dom v))" "lerror la" "lerror lb" "ltext la \<noteq> []" "ltext lb \<noteq> []"
    "part_of (owner la) = Some g" "part_of (owner lb) = Some g" "lid la \<noteq> lid lb"
  shows "group_error (dom (run_mark (Some (custom_unhighlight part_of)) i v)) g = group_error (dom v) g \<and>
    labels (dom (run_mark (Some (custom_unhighlight part_of)) i v)) = labels (dom v)"
proof (cases "part_of i = Some g")
  case True
  have "other_errors part_of v g i"
  proof -
    have "\<not> own_error (field_of v i) la \<or> \<not> own_error (field_of v i) lb" using assms(9) by (auto simp: own_error_def)
    then show ?thesis unfolding other_errors_def list_ex_iff using assms(1-8) by blast
  qed
  then show ?thesis using True by (simp add: run_mark_def custom_unhighlight_def)
next
  case False
  then show ?thesis by (auto simp: run_mark_def custom_unhighlight_def split: option.splits)
qed

lemma custom_unhighlights_keep:
  assumes "la \<in> set (labels (dom v))" "lb \<in> set (labels (dom v))" "lerror la" "lerror lb" "ltext la \<noteq> []" "ltext lb \<noteq> []"
    "part_of (owner la) = Some g" "part_of (owner lb) = Some g" "lid la \<noteq> lid lb"
  shows "group_error (dom (fold (run_mark (Some (custom_unhighlight part_of))) is v)) g = group_error (dom v) g \<and>
    labels (dom (fold (run_mark (Some (custom_unhighlight part_of))) is v)) = labels (dom v)"
  using assms(1,2)
proof (induction "is" arbitrary: v)
  case (Cons i "is")
  have k: "group_error (dom (run_mark (Some (custom_unhighlight part_of)) i v)) g = group_error (dom v) g"
    "labels (dom (run_mark (Some (custom_unhighlight part_of)) i v)) = labels (dom v)"
    using custom_unhighlight_keeps [OF Cons.prems assms(3-9)] by simp_all
  show ?case using Cons.IH [of "run_mark (Some (custom_unhighlight part_of)) i v"] Cons.prems k by simp
qed simp

text \<open>C36. With the settings of the project, a form group in which two fields have been in error keeps its
  error mark when both are found valid in one check of the form: when the marks are taken off, the texts
  of both errors are still there, and each stands for the other. The texts are emptied afterwards, so the
  group stays marked with no error shown.
\<close>

theorem group_stays_marked:
  assumes "unhighlight cfg = Some (custom_unhighlight part_of)" "show_errors cfg = None" "success cfg = None"
    "errorList v = []" "toShow v = {}" "containers cfg = []"
    "ka < length (labels (dom v))" "kb < length (labels (dom v))"
    "lerror (labels (dom v) ! ka)" "lerror (labels (dom v) ! kb)"
    "ltext (labels (dom v) ! ka) \<noteq> []" "ltext (labels (dom v) ! kb) \<noteq> []"
    "part_of (owner (labels (dom v) ! ka)) = Some g" "part_of (owner (labels (dom v) ! kb)) = Some g"
    "lid (labels (dom v) ! ka) \<noteq> lid (labels (dom v) ! kb)"
    "Label ka \<in> toHide v" "Label kb \<in> toHide v"
  shows "group_error (dom (display cfg v)) g = group_error (dom v) g \<and>
    ltext (labels (dom (display cfg v)) ! ka) = [] \<and> ltext (labels (dom (display cfg v)) ! kb) = []"
proof -
  define y where "y = fold (run_mark (Some (custom_unhighlight part_of))) (validElements v) v"
  have y: "group_error (dom y) g = group_error (dom v) g" "labels (dom y) = labels (dom v)"
    unfolding y_def
    using custom_unhighlights_keep [of "labels (dom v) ! ka" v "labels (dom v) ! kb" part_of g] assms(7-15) by simp_all
  have "toHide (fold (run_mark f) is w) = toHide w \<and> toShow (fold (run_mark f) is w) = toShow w" for f "is" w
    by (induction "is" arbitrary: w) (simp_all add: run_mark_def split: option.splits)
  then have t: "toHide y = toHide v" "toShow y = toShow v" by (simp_all add: y_def)
  have d: "display cfg v =
      (let v5 = hideErrors cfg (y\<lparr>toHide := toHide y - toShow y\<rparr>)
       in on_dom (set_shown True (addWrapper cfg (toShow v5))) v5)"
    unfolding y_def display_def
    by (simp only: assms(1-4) defaultShowErrors_def Let_def fold.simps(1) id_apply simp_thms if_False option.case)
  show ?thesis
    unfolding d using y t assms(5-8,16,17)
    by (simp add: Let_def on_dom_def hideErrors_def set_shown_def hideThese_def map_labels_def boxes_def nth_enumerate_eq)
qed

definition demo_label :: "nat \<Rightarrow> label" where
  "demo_label i = \<lparr>lid = [Suc i] @ js ''-error'', lfor = None, ltext = [33], lerror = True, lvalid = False,
     lsuccess = False, owner = i, lplace = After_element\<rparr>"

text \<open>Two fields of one group, both in error before the check that finds them valid.\<close>

definition grouped_form :: validator where
  "grouped_form = demo_form\<lparr>currentElements := [0, 1], toHide := {Label 0, Label 1},
     dom := no_view\<lparr>labels := [demo_label 0, demo_label 1], group_error := \<lambda>_. True\<rparr>\<rparr>"

definition grouped_config :: config where
  "grouped_config = project_settings (\<lambda>_. Some 0) (\<lambda>_. After_element) (plugin_defaults (\<lambda>_. True))"

theorem group_stays_marked_witness:
  "group_error (dom (display grouped_config grouped_form)) 0 \<and>
   ltext (labels (dom (display grouped_config grouped_form)) ! 0) = [] \<and>
   ltext (labels (dom (display grouped_config grouped_form)) ! 1) = []"
proof -
  have v: "labels (dom grouped_form) = [demo_label 0, demo_label 1]" "errorList grouped_form = []" "toShow grouped_form = {}"
    "toHide grouped_form = {Label 0, Label 1}" "group_error (dom grouped_form) 0"
    by (simp_all add: grouped_form_def demo_form_def init_def no_view_def)
  have c: "unhighlight grouped_config = Some (custom_unhighlight (\<lambda>_. Some 0))" "show_errors grouped_config = None"
    "success grouped_config = None" "containers grouped_config = []"
    by (simp_all add: grouped_config_def project_settings_def plugin_defaults_def)
  have l: "lerror (demo_label i)" "ltext (demo_label i) \<noteq> []" "lid (demo_label 0) \<noteq> lid (demo_label 1)" for i
    by (simp_all add: demo_label_def)
  have "group_error (dom (display grouped_config grouped_form)) 0 = group_error (dom grouped_form) 0 \<and>
      ltext (labels (dom (display grouped_config grouped_form)) ! 0) = [] \<and>
      ltext (labels (dom (display grouped_config grouped_form)) ! 1) = []"
    by (rule group_stays_marked [OF c(1-3) v(2,3) c(4)]) (use l in \<open>simp_all add: v\<close>)
  with v(5) show ?thesis by simp
qed

end
