(* ===== verification/Upload_Files.thy ===== *)
theory Upload_Files
  imports Page_Url
begin

text \<open>
  The files of \<open>assets/plugins/jquery-file-upload/js/jquery.fileupload.js\<close>: how a selection is collected,
  from fields and from dropped folders, how it is divided into uploads (\<open>_onAdd\<close>), and how one file is sent
  in chunks (\<open>_chunkedUpload\<close>). Limits of 0 are limits that are not set. Sizes are numbers of bytes; \<open>None\<close>
  stands for \<open>undefined\<close> and, in sums, for \<open>NaN\<close>.
\<close>

section \<open>Files\<close>

record up_file =
  up_name :: jsstr
  up_type :: jsstr
  up_size :: "nat option"

text \<open>\<open>file.size || 1\<close>\<close>

definition size_or_1 :: "up_file \<Rightarrow> nat" where
  "size_or_1 f = (case up_size f of None \<Rightarrow> 1 | Some n \<Rightarrow> if n = 0 then 1 else n)"

definition getTotal :: "up_file list \<Rightarrow> nat" where
  "getTotal files = fold (\<lambda>f acc. acc + size_or_1 f) files 0"

text \<open>What the browser supports, and the settings that choose the transport.\<close>

record transport =
  forceIframeTransport :: bool
  multipart :: bool
  xhrFileUpload :: bool
  xhrFormDataFileUpload :: bool

definition isXHRUpload :: "transport \<Rightarrow> bool" where
  "isXHRUpload t \<longleftrightarrow> \<not> forceIframeTransport t \<and> ((\<not> multipart t \<and> xhrFileUpload t) \<or> xhrFormDataFileUpload t)"

text \<open>The parameter name: a text, or a list of texts. The fields of files are given by their names and the number of their files, if the browser knows it.\<close>

datatype param_name = One_name jsstr | Names "jsstr list"

definition name_or_files :: "jsstr \<Rightarrow> jsstr" where
  "name_or_files s = (if s = [] then js ''files[]'' else s)"

definition getParamName :: "param_name option \<Rightarrow> (jsstr \<times> nat option) list \<Rightarrow> jsstr list" where
  "getParamName given inputs =
    (if given = None \<or> given = Some (One_name []) then
       let names = concat (map (\<lambda>(name, n). replicate (case n of None \<Rightarrow> 1 | Some k \<Rightarrow> k) (name_or_files name)) inputs)
       in if names = [] then [case inputs of [] \<Rightarrow> js ''files[]'' | (name, _) # _ \<Rightarrow> name_or_files name] else names
     else case given of Some (One_name s) \<Rightarrow> [s] | Some (Names ns) \<Rightarrow> ns | None \<Rightarrow> [])"

section \<open>Uploads of a selection\<close>

record batch_settings =
  singleFileUploads :: bool
  limitMultiFileUploads :: nat
  limitMultiFileUploadSize :: nat
  limitMultiFileUploadSizeOverhead :: nat

type_synonym file_set = "up_file list \<times> param_name option"

text \<open>\<open>paramName.slice(i, i + n)\<close>, or all names if that is empty\<close>

definition name_slice :: "jsstr list \<Rightarrow> nat \<Rightarrow> nat \<Rightarrow> param_name option" where
  "name_slice names i n = (let s = take n (drop i names) in Some (Names (if s = [] then names else s)))"

function limit_sets :: "nat \<Rightarrow> jsstr list \<Rightarrow> nat \<Rightarrow> up_file list \<Rightarrow> file_set list" where
  "limit_sets limit names i files =
    (if files = [] \<or> limit = 0 then []
     else (take limit files, name_slice names i limit) # limit_sets limit names (i + limit) (drop limit files))"
  by pat_completeness auto
termination by (relation "measure (\<lambda>(limit, names, i, files). length files)") auto

declare limit_sets.simps [simp del]

text \<open>Sums with \<open>undefined\<close> are \<open>NaN\<close>, and \<open>NaN\<close> is greater than nothing.\<close>

definition add_size :: "nat option \<Rightarrow> up_file \<Rightarrow> nat \<Rightarrow> nat option" where
  "add_size acc f overhead = (case (acc, up_size f) of (Some a, Some b) \<Rightarrow> Some (a + b + overhead) | _ \<Rightarrow> None)"

definition exceeds :: "nat option \<Rightarrow> nat \<Rightarrow> bool" where
  "exceeds acc most \<longleftrightarrow> (case acc of None \<Rightarrow> False | Some n \<Rightarrow> n > most)"

text \<open>\<open>cur\<close> are the files \<open>j..i-1\<close> of the set that is being collected, \<open>acc\<close> is \<open>batchSize\<close>.\<close>

fun size_sets :: "batch_settings \<Rightarrow> jsstr list \<Rightarrow> nat \<Rightarrow> up_file list \<Rightarrow> nat option \<Rightarrow> up_file list \<Rightarrow> file_set list" where
  "size_sets st names j cur acc [] = []"
| "size_sets st names j cur acc (f # rest) =
    (let ov = limitMultiFileUploadSizeOverhead st;
         acc' = add_size acc f ov; cur' = cur @ [f] in
     if rest = [] \<or> exceeds (add_size acc' (hd rest) ov) (limitMultiFileUploadSize st)
       \<or> (limitMultiFileUploads st \<noteq> 0 \<and> length cur' \<ge> limitMultiFileUploads st)
     then (cur', name_slice names j (length cur')) # size_sets st names (j + length cur') [] (Some 0) rest
     else size_sets st names j cur' acc' rest)"

definition file_sets :: "batch_settings \<Rightarrow> bool \<Rightarrow> jsstr list \<Rightarrow> up_file list \<Rightarrow> file_set list" where
  "file_sets st xhr names files =
    (let limit = limitMultiFileUploads st;
         limitSize = (if files \<noteq> [] \<and> up_size (hd files) = None then 0 else limitMultiFileUploadSize st) in
     if \<not> (singleFileUploads st \<or> limit \<noteq> 0 \<or> limitSize \<noteq> 0) \<or> \<not> xhr then [(files, Some (Names names))]
     else if \<not> (singleFileUploads st \<or> limitSize \<noteq> 0) \<and> limit \<noteq> 0 then limit_sets limit names 0 files
     else if \<not> singleFileUploads st \<and> limitSize \<noteq> 0 then size_sets st names 0 [] (Some 0) files
     else map (\<lambda>i. ([files ! i], if i < length names then Some (One_name (names ! i)) else None)) [0..<length files])"

text \<open>\<open>$.each\<close> ends when the handler of \<open>add\<close> returns \<open>false\<close>.\<close>

fun add_each :: "(file_set \<Rightarrow> 's \<Rightarrow> bool \<times> 's) \<Rightarrow> file_set list \<Rightarrow> bool \<times> 's \<Rightarrow> bool \<times> 's" where
  "add_each h [] r = r"
| "add_each h (fs # sets) (_, s) = (let (ok, s') = h fs s in if ok then add_each h sets (True, s') else (False, s'))"

definition onAdd :: "(file_set \<Rightarrow> 's \<Rightarrow> bool \<times> 's) \<Rightarrow> batch_settings \<Rightarrow> bool \<Rightarrow> jsstr list \<Rightarrow> up_file list \<Rightarrow> 's \<Rightarrow> bool \<times> 's" where
  "onAdd h st xhr names files s = (if files = [] then (False, s) else add_each h (file_sets st xhr names files) (True, s))"

section \<open>Chunks\<close>

text \<open>
  \<open>parseInt\<close> is the one of \<open>ecma.script.plus.js\<close>. It returns an infinite text as it is, to which 1 is added as a
  text; the result is no number, which \<open>FNaN\<close> stands for.
\<close>

definition getUploadedBytes :: "jsstr option \<Rightarrow> jsf option" where
  "getUploadedBytes rng = (case rng of None \<Rightarrow> None
    | Some s \<Rightarrow> let parts = split_on 45 s in
        if length parts > 1 then
          (case parseInt (A_str (parts ! 1)) 10 of
             A_num (Fin x) \<Rightarrow> if x = 0 then None else Some (round64 (x + 1))
           | A_num (FInf neg) \<Rightarrow> Some (FInf neg)
           | A_num FNaN \<Rightarrow> None
           | _ \<Rightarrow> Some FNaN)
        else None)"

text \<open>The bytes sent after an answer; \<open>fs\<close> for numbers that are not below it.\<close>

definition bytes_after :: "jsstr option \<Rightarrow> nat \<Rightarrow> nat \<Rightarrow> nat" where
  "bytes_after rng next_byte fs = (case getUploadedBytes rng of
     None \<Rightarrow> next_byte | Some (Fin x) \<Rightarrow> nat \<lfloor>x\<rfloor> | Some _ \<Rightarrow> fs)"

text \<open>Whether \<open>_chunkedUpload\<close> sends the file in chunks: \<open>can_slice\<close> says that the browser can, \<open>has_data\<close> that \<open>options.data\<close> is set.\<close>

definition chunked :: "bool \<Rightarrow> bool \<Rightarrow> bool \<Rightarrow> nat \<Rightarrow> nat \<Rightarrow> nat \<Rightarrow> bool" where
  "chunked xhr can_slice has_data maxChunkSize ub fs \<longleftrightarrow>
    (let mcs = if maxChunkSize = 0 then fs else maxChunkSize in
     xhr \<and> can_slice \<and> (ub \<noteq> 0 \<or> mcs < fs) \<and> \<not> has_data)"

definition contentRange :: "nat \<Rightarrow> nat \<Rightarrow> nat \<Rightarrow> jsstr" where
  "contentRange ub n fs = js ''bytes '' @ string_of_nat ub @ js ''-'' @ string_of_num (Num (int ub + int n - 1)) @ js ''/'' @ string_of_nat fs"

text \<open>The answers to the chunks, in their order: a failure, or the header \<open>Range\<close>.\<close>

datatype chunk_answer = Chunk_failed | Chunk_done "jsstr option"

datatype chunk_end = All_sent | Refused | Bytes_exceed_file | Waits

text \<open>The result has the first byte and the size of each chunk that is sent.\<close>

fun upload_chunks :: "nat \<Rightarrow> nat \<Rightarrow> nat \<Rightarrow> chunk_answer list \<Rightarrow> (nat \<times> nat) list \<times> chunk_end" where
  "upload_chunks mcs fs ub answers =
    (let n = min (ub + mcs) fs - ub in
     case answers of
       [] \<Rightarrow> ([(ub, n)], Waits)
     | Chunk_failed # _ \<Rightarrow> ([(ub, n)], Refused)
     | Chunk_done rng # rest \<Rightarrow>
         let ub' = bytes_after rng (ub + n) fs in
         if ub' < fs then let (sent, e) = upload_chunks mcs fs ub' rest in ((ub, n) # sent, e)
         else ([(ub, n)], All_sent))"

declare upload_chunks.simps [simp del]

definition chunkedUpload :: "nat \<Rightarrow> nat \<Rightarrow> nat \<Rightarrow> chunk_answer list \<Rightarrow> (nat \<times> nat) list \<times> chunk_end" where
  "chunkedUpload maxChunkSize fs ub answers =
    (if ub \<ge> fs then ([], Bytes_exceed_file)
     else upload_chunks (if maxChunkSize = 0 then fs else maxChunkSize) fs ub answers)"

section \<open>Requests\<close>

datatype form_data = Fd_function "(jsstr \<times> jsstr) list" | Fd_array "(jsstr \<times> jsstr) list" | Fd_object "(jsstr \<times> jsstr) list" | Fd_other

text \<open>A function is given by what it returns for the form of the field.\<close>

definition getFormData :: "form_data \<Rightarrow> (jsstr \<times> jsstr) list" where
  "getFormData fd = (case fd of
      Fd_function fs \<Rightarrow> fs
    | Fd_array fs \<Rightarrow> fs
    | Fd_object pairs \<Rightarrow> fold (\<lambda>(name, value) r. r @ [(name, value)]) pairs []
    | Fd_other \<Rightarrow> [])"

definition upper :: "jsstr \<Rightarrow> jsstr" where
  "upper s = map (\<lambda>c. if 97 \<le> c \<and> c \<le> 122 then c - 32 else c) s"

text \<open>The method of the request: from the settings, else from the form.\<close>

definition request_type :: "jsstr \<Rightarrow> jsstr option \<Rightarrow> jsstr" where
  "request_type given form_method =
    (let t = upper (if given \<noteq> [] then given else case form_method of None \<Rightarrow> [] | Some m \<Rightarrow> m) in
     if t \<noteq> js ''POST'' \<and> t \<noteq> js ''PUT'' \<and> t \<noteq> js ''PATCH'' then js ''POST'' else t)"

text \<open>
  The body of a request: the file alone, or a list of parts. A part is a field of the form, a file with its number, or the
  chunk that is sent, with the name of the file unless the form is posted as a message. Form data that is an object
  of class \<open>FormData\<close> is left out. \<open>is_file\<close> and \<open>is_blob\<close> say which
  of the files are objects of these classes.
\<close>

datatype part = Field jsstr | File_part nat | Chunk_part

datatype body = No_body | Raw_file | Raw_chunk | Parts "(jsstr \<times> part \<times> jsstr option) list"

definition part_name :: "param_name option \<Rightarrow> nat \<Rightarrow> jsstr option" where
  "part_name names i = (case names of
      Some (Names ns) \<Rightarrow> if i < length ns \<and> ns ! i \<noteq> [] then Some (ns ! i) else if ns = [] then None else Some (hd ns)
    | Some (One_name s) \<Rightarrow> Some s
    | None \<Rightarrow> None)"

definition js_name :: "jsstr option \<Rightarrow> jsstr" where
  "js_name s = (case s of None \<Rightarrow> js ''undefined'' | Some s \<Rightarrow> s)"

definition whole_multipart :: "transport \<Rightarrow> bool" where
  "whole_multipart t \<longleftrightarrow> multipart t \<or> \<not> xhrFileUpload t"

definition first_name :: "param_name option \<Rightarrow> jsstr option" where
  "first_name names = (case names of Some (Names (n # _)) \<Rightarrow> Some n | Some (One_name s) \<Rightarrow> Some s | _ \<Rightarrow> None)"

definition request_body :: "transport \<Rightarrow> bool \<Rightarrow> bool \<Rightarrow> param_name option \<Rightarrow> form_data \<Rightarrow> (nat \<Rightarrow> bool) \<Rightarrow> up_file list \<Rightarrow> body" where
  "request_body t postMessage chunk names fd is_file files =
    (let fs = map (\<lambda>(n, v). (n, Field v, None)) (getFormData fd);
         one = js_name (first_name names) in
     if \<not> whole_multipart t then (if chunk then Raw_chunk else Raw_file)
     else if \<not> xhrFormDataFileUpload t then No_body
     else if postMessage then
       Parts (fs @ (if chunk then [(one, Chunk_part, None)]
         else map (\<lambda>i. (js_name (part_name names i), File_part i, None)) [0..<length files]))
     else
       Parts (fs @ (if chunk then [(one, Chunk_part, Some (up_name (hd files)))]
         else map (\<lambda>i. (js_name (part_name names i), File_part i, Some (up_name (files ! i))))
           (filter is_file [0..<length files]))))"

text \<open>The headers \<open>Content-Range\<close> and \<open>Content-Disposition\<close>, the latter with \<open>encodeURI\<close> of the name (\<open>enc\<close>).\<close>

definition disposition :: "transport \<Rightarrow> bool \<Rightarrow> bool \<Rightarrow> jsstr \<Rightarrow> jsstr option" where
  "disposition t chunk first_is_file enc =
    (if \<not> whole_multipart t \<or> chunk \<or> \<not> first_is_file
     then Some (js ''attachment; filename=\"'' @ enc @ js ''\"'') else None)"

definition body_type :: "transport \<Rightarrow> up_file \<Rightarrow> jsstr option" where
  "body_type t f = (if \<not> whole_multipart t then Some (if up_type f = [] then js ''application/octet-stream'' else up_type f) else None)"

section \<open>Collecting files\<close>

text \<open>
  Entries of a file system as the browser gives them: reading a folder gives lists of entries until an empty one,
  or fails. A leaf that cannot be read gives its error.
\<close>

datatype entry = File_entry jsstr | Unreadable jsstr | Dir_entry jsstr "entry list list" bool | Other_entry

text \<open>The file with the path of its folder, or an error with the name of the entry.\<close>

datatype found = Found jsstr jsstr | Failed_entry jsstr

text \<open>\<open>readEntries\<close>: the reads up to the first empty one.\<close>

definition entry_name :: "entry \<Rightarrow> jsstr" where
  "entry_name e = (case e of File_entry n \<Rightarrow> n | Unreadable n \<Rightarrow> n | Dir_entry n _ _ \<Rightarrow> n | Other_entry \<Rightarrow> [])"

fun readEntries :: "'a list list \<Rightarrow> 'a list" where
  "readEntries [] = []"
| "readEntries (r # rs) = (if r = [] then [] else r @ readEntries rs)"

lemma readEntries_size: "x \<in> set (readEntries rs) \<Longrightarrow> \<exists>r \<in> set rs. x \<in> set r"
  by (induction rs) (auto split: if_splits)

function (sequential) handleFileTreeEntry :: "jsstr \<Rightarrow> entry \<Rightarrow> found list" where
  "handleFileTreeEntry path (File_entry n) = [Found path n]"
| "handleFileTreeEntry path (Unreadable n) = [Failed_entry n]"
| "handleFileTreeEntry path (Dir_entry n reads fails) =
    (if fails then [Failed_entry n]
     else concat (map (handleFileTreeEntry (path @ n @ [47])) (readEntries reads)))"
| "handleFileTreeEntry path Other_entry = []"
  by pat_completeness auto
termination
proof (relation "measure (\<lambda>(path, e). size e)")
  fix path n :: jsstr and reads :: "entry list list" and fails :: bool and e :: entry
  assume "\<not> fails" "e \<in> set (readEntries reads)"
  then obtain r where "r \<in> set reads" "e \<in> set r" using readEntries_size by metis
  then have "size e < Suc (size_list (size_list size) reads)"
    using size_list_estimation' [of r reads "size_list size r" "size_list size"]
      size_list_estimation' [of e r "size e" size] by simp
  then show "((path @ n @ [47], e), path, Dir_entry n reads fails) \<in> measure (\<lambda>(path, e). size e)" by simp
qed simp

definition handleFileTreeEntries :: "jsstr \<Rightarrow> entry list \<Rightarrow> found list" where
  "handleFileTreeEntries path entries = concat (map (handleFileTreeEntry path) entries)"

text \<open>\<open>value.replace(/^.*\\/, '')\<close>, for a value without line breaks\<close>

definition without_path :: "jsstr \<Rightarrow> jsstr" where
  "without_path s = (let i = last_index 92 s (length s) in if i \<ge> 0 then drop (nat i + 1) s else s)"

text \<open>The files of one field: what the browser has in \<open>files\<close>, else one made of the value; fields with entries of a file system are those above.\<close>

definition getSingleFileInputFiles :: "up_file list \<Rightarrow> jsstr \<Rightarrow> up_file list" where
  "getSingleFileInputFiles files val =
    (if files = [] then (if val = [] then [] else [\<lparr>up_name = without_path val, up_type = [], up_size = None\<rparr>]) else files)"

definition getFileInputFiles :: "(up_file list \<times> jsstr) list \<Rightarrow> up_file list" where
  "getFileInputFiles inputs = concat (map (\<lambda>(files, val). getSingleFileInputFiles files val) inputs)"

text \<open>The items of the clipboard that are files.\<close>

definition pasted_files :: "up_file option list \<Rightarrow> up_file list" where
  "pasted_files items = fold (\<lambda>i r. case i of Some f \<Rightarrow> r @ [f] | None \<Rightarrow> r) items []"

text \<open>
  Handlers of \<open>change\<close>, \<open>paste\<close> and \<open>drop\<close>: the event of the widget may veto; then nothing is added. \<open>add\<close> is \<open>onAdd\<close>
  with the settings of the widget. The method \<open>add\<close> does nothing in a widget that is disabled.
\<close>

definition onChange :: "bool \<Rightarrow> (up_file list \<Rightarrow> 's \<Rightarrow> bool \<times> 's) \<Rightarrow> (up_file list \<times> jsstr) list \<Rightarrow> 's \<Rightarrow> 's" where
  "onChange veto add inputs s = (if veto then s else snd (add (getFileInputFiles inputs) s))"

definition onPaste :: "bool \<Rightarrow> (up_file list \<Rightarrow> 's \<Rightarrow> bool \<times> 's) \<Rightarrow> up_file option list \<Rightarrow> 's \<Rightarrow> 's" where
  "onPaste veto add items s = (if items = [] \<or> veto then s else snd (add (pasted_files items) s))"

definition add_method :: "bool \<Rightarrow> (up_file list \<Rightarrow> 's \<Rightarrow> bool \<times> 's) \<Rightarrow> up_file list \<Rightarrow> 's \<Rightarrow> 's" where
  "add_method disabled add files s = (if disabled then s else snd (add files s))"

section \<open>Settings in attributes\<close>

text \<open>A text \<open>/p/flags\<close> is a regular expression: its pattern and its flags.\<close>

definition getRegExp :: "jsstr \<Rightarrow> jsstr \<times> jsstr" where
  "getRegExp s = (let parts = split_on 47 s in (join_with [47] (tl (butlast parts)), last parts))"

definition isRegExpOption :: "jsstr \<Rightarrow> jsstr \<Rightarrow> bool" where
  "isRegExpOption key v \<longleftrightarrow> key \<noteq> js ''url'' \<and>
    (let parts = split_on 47 v in
     2 < length parts \<and> hd parts = [] \<and> length (last parts) \<le> 3 \<and> set (last parts) \<subseteq> {105, 103, 109}
     \<and> set v \<inter> {10, 13, 0x2028, 0x2029} = {})"

text \<open>\<open>key.replace(/-[a-z]/g, ...)\<close>: a letter after a hyphen becomes a capital, and the hyphen goes.\<close>

fun camel :: "jsstr \<Rightarrow> jsstr" where
  "camel (c # d # s) = (if c = 45 \<and> 97 \<le> d \<and> d \<le> 122 then (d - 32) # camel s else c # camel (d # s))"
| "camel s = s"

definition data_option :: "jsstr \<Rightarrow> jsstr option" where
  "data_option attr = (let key = lower attr in
    if take 5 key = js ''data-'' then Some (camel (drop 5 key)) else None)"

end
