(* ===== verification/Upload_Queue.thy ===== *)
theory Upload_Queue
  imports Js_Float
begin

text \<open>
  The queue of uploads in \<open>assets/plugins/jquery-file-upload/js/jquery.fileupload.js\<close>: \<open>_onSend\<close> with its
  counters \<open>_active\<close> and \<open>_sending\<close>, the waiting uploads in \<open>_slots\<close> and in the promise \<open>_sequence\<close>, the
  progress of one and of all uploads, and the callbacks \<open>start\<close>, \<open>send\<close>, \<open>done\<close>, \<open>fail\<close>, \<open>always\<close> and
  \<open>stop\<close>, which are logged; the entry of \<open>start\<close> has the number of the upload that caused it. Uploads are
  known by their number and sent whole. The deferreds of the library
  call their handlers at once; handlers of the page do not call the widget.
\<close>

section \<open>The state\<close>

datatype ending = Success | Failure | Abort

datatype up_phase = Queued | Flying | Over ending

record transfer =
  got :: nat
  need :: nat
  up_phase :: up_phase

datatype queue_event = Start_ev nat | Send_ev nat | Progress_ev nat | Done_ev nat | Fail_ev nat | Always_ev nat | Stop_ev

text \<open>
  \<open>chain\<close> are the uploads whose \<open>send\<close> waits for \<open>_sequence\<close>, and \<open>chain_runs\<close> the upload that the sequence
  waits for; \<open>None\<close> if it is settled.
\<close>

record queue =
  transfers :: "transfer list"
  active :: nat
  sending :: nat
  slots :: "nat list"
  chain :: "nat list"
  chain_runs :: "nat option"
  all_got :: int
  all_need :: int
  queue_log :: "queue_event list"

text \<open>The settings; a limit of 0 is none. \<open>vetoes k\<close> says that the handler of \<open>send\<close> returns \<open>false\<close> for upload \<open>k\<close>.\<close>

record queue_settings =
  sequentialUploads :: bool
  limitConcurrentUploads :: nat
  recalculateProgress :: bool
  vetoes :: "nat \<Rightarrow> bool"

definition queue_create :: queue where
  "queue_create = \<lparr>transfers = [], active = 0, sending = 0, slots = [], chain = [], chain_runs = None,
     all_got = 0, all_need = 0, queue_log = []\<rparr>"

definition phase_of :: "queue \<Rightarrow> nat \<Rightarrow> up_phase" where
  "phase_of q k = transfer.up_phase (transfers q ! k)"

definition log_event :: "queue_event \<Rightarrow> queue \<Rightarrow> queue" where
  "log_event ev q = q\<lparr>queue_log := queue_log q @ [ev]\<rparr>"

definition change_transfer :: "nat \<Rightarrow> (transfer \<Rightarrow> transfer) \<Rightarrow> queue \<Rightarrow> queue" where
  "change_transfer k f q = q\<lparr>transfers := (transfers q)[k := f (transfers q ! k)]\<rparr>"

section \<open>Progress\<close>

text \<open>\<open>Math.floor(e.loaded / e.total * data._progress.total)\<close>\<close>

fun rat_of_jsf :: "jsf \<Rightarrow> rat" where
  "rat_of_jsf (Fin r) = r"
| "rat_of_jsf _ = 0"

definition scaled_bytes :: "nat \<Rightarrow> nat \<Rightarrow> nat \<Rightarrow> nat" where
  "scaled_bytes l t n = nat \<lfloor>rat_of_jsf (round64 (rat_of_jsf (round64 (of_nat l / of_nat t)) * of_nat n))\<rfloor>"

text \<open>
  An event of the browser has \<open>lengthComputable\<close> set when its total is not 0. \<open>soon\<close> says that the last
  event was handled less than \<open>progressInterval\<close> ago.
\<close>

definition onProgress :: "bool \<Rightarrow> nat \<Rightarrow> nat \<Rightarrow> nat \<Rightarrow> queue \<Rightarrow> queue" where
  "onProgress soon l t k q =
    (if t = 0 \<or> (soon \<and> l \<noteq> t) then q
     else let tr = transfers q ! k; n = scaled_bytes l t (need tr) in
       log_event (Progress_ev k) (change_transfer k (got_update (\<lambda>_. n))
         (q\<lparr>all_got := all_got q + (int n - int (got tr))\<rparr>)))"

section \<open>Sending and ending\<close>

text \<open>\<open>_onDone\<close>, \<open>_onFail\<close>\<close>

definition onDone :: "nat \<Rightarrow> queue \<Rightarrow> queue" where
  "onDone k q = (let tr = transfers q ! k;
      q' = if got tr < need tr then onProgress False (need tr) (need tr) k q else q
    in log_event (Done_ev k) q')"

definition onFail :: "queue_settings \<Rightarrow> nat \<Rightarrow> queue \<Rightarrow> queue" where
  "onFail st k q = (let tr = transfers q ! k;
      q' = if recalculateProgress st
           then q\<lparr>all_got := all_got q - int (got tr), all_need := all_need q - int (need tr)\<rparr> else q
    in log_event (Fail_ev k) q')"

text \<open>The callbacks of a request up to the counters.\<close>

definition count_down :: "queue_settings \<Rightarrow> nat \<Rightarrow> ending \<Rightarrow> queue \<Rightarrow> queue" where
  "count_down st k e q =
    (let q1 = change_transfer k (transfer.up_phase_update (\<lambda>_. Over e)) q;
         q2 = log_event (Always_ev k) (if e = Success then onDone k q1 else onFail st k q1)
     in q2\<lparr>sending := sending q2 - 1, active := active q2 - 1\<rparr>)"

text \<open>\<open>_slots.shift()\<close> until a slot is pending\<close>

definition next_slot :: "queue \<Rightarrow> nat option \<times> queue" where
  "next_slot q = (case dropWhile (\<lambda>k. phase_of q k \<noteq> Queued) (slots q) of
      [] \<Rightarrow> (None, q\<lparr>slots := []\<rparr>)
    | k # ks \<Rightarrow> (Some k, q\<lparr>slots := ks\<rparr>))"

definition stop_when_idle :: "queue \<Rightarrow> queue" where
  "stop_when_idle q = (if active q = 0 then log_event Stop_ev q else q)"

definition settled :: "queue \<Rightarrow> nat \<Rightarrow> bool" where
  "settled q k \<longleftrightarrow> phase_of q k \<noteq> Queued \<and> phase_of q k \<noteq> Flying"

lemma slots_count_down [simp]: "slots (count_down st k e q) = slots q"
  by (simp add: count_down_def Let_def onDone_def onFail_def onProgress_def log_event_def change_transfer_def)

lemma next_slot_shorter: "next_slot q = (Some n, q') \<Longrightarrow> length (slots q') < length (slots q)"
proof -
  assume a: "next_slot q = (Some n, q')"
  then have "dropWhile (\<lambda>k. phase_of q k \<noteq> Queued) (slots q) = n # slots q'"
    by (auto simp: next_slot_def split: list.splits)
  then have "length (n # slots q') \<le> length (slots q)"
    using length_dropWhile_le [of "\<lambda>k. phase_of q k \<noteq> Queued" "slots q"] by simp
  then show ?thesis by simp
qed

text \<open>
  \<open>send\<close>: \<open>jqXHR = jqXHR || (...)\<close> keeps a request that is there, so that the callbacks are not registered
  again. \<open>ab\<close> is the variable \<open>aborted\<close>. \<open>finish\<close> are the callbacks of the request.
\<close>

function send :: "queue_settings \<Rightarrow> bool \<Rightarrow> nat \<Rightarrow> queue \<Rightarrow> queue"
  and finish :: "queue_settings \<Rightarrow> nat \<Rightarrow> ending \<Rightarrow> queue \<Rightarrow> queue" where
  "send st ab k q =
    (let q1 = q\<lparr>sending := sending q + 1\<rparr> in
     if phase_of q1 k \<noteq> Queued then q1
     else if ab then finish st k Abort q1
     else let q2 = log_event (Send_ev k) q1 in
       if vetoes st k then finish st k Failure q2
       else change_transfer k (transfer.up_phase_update (\<lambda>_. Flying)) q2)"
| "finish st k e q =
    (let q1 = count_down st k e q in
     stop_when_idle
       (if limitConcurrentUploads st \<noteq> 0 \<and> limitConcurrentUploads st > sending q1
        then (case next_slot q1 of (None, q2) \<Rightarrow> q2 | (Some n, q2) \<Rightarrow> send st False n q2)
        else q1))"
  by pat_completeness auto
termination
  by (relation "measure (\<lambda>x. case x of Inl (st, ab, k, q) \<Rightarrow> 2 * length (slots q) + 2
      | Inr (st, k, e, q) \<Rightarrow> 2 * length (slots q) + 1)")
    (auto simp: log_event_def dest!: next_slot_shorter [OF sym])

declare send.simps [simp del] finish.simps [simp del]

text \<open>The sequence: when the promise it waits for is settled, the next \<open>send\<close> runs.\<close>

fun run_chain :: "queue_settings \<Rightarrow> nat list \<Rightarrow> queue \<Rightarrow> queue" where
  "run_chain st [] q = q\<lparr>chain := [], chain_runs := None\<rparr>"
| "run_chain st (k # ks) q =
    (let q1 = send st False k (q\<lparr>chain := ks, chain_runs := None\<rparr>) in
     if phase_of q1 k = Flying then q1\<lparr>chain_runs := Some k\<rparr> else run_chain st ks q1)"

definition beforeSend :: "nat \<Rightarrow> queue \<Rightarrow> queue" where
  "beforeSend n q =
    (let q1 = if active q = 0 then (log_event (Start_ev (length (transfers q))) q)\<lparr>all_got := 0, all_need := 0\<rparr> else q
     in q1\<lparr>transfers := transfers q1 @ [\<lparr>got = 0, need = n, up_phase = Queued\<rparr>],
           active := active q1 + 1, all_need := all_need q1 + int n\<rparr>)"

definition onSend :: "queue_settings \<Rightarrow> nat \<Rightarrow> queue \<Rightarrow> queue" where
  "onSend st n q =
    (let k = length (transfers q); q1 = beforeSend n q; lim = limitConcurrentUploads st in
     if sequentialUploads st \<or> lim \<noteq> 0 \<and> lim \<le> sending q1 then
       if lim > 1 then q1\<lparr>slots := slots q1 @ [k]\<rparr>
       else if chain_runs q1 = None then run_chain st [k] q1
       else q1\<lparr>chain := chain q1 @ [k]\<rparr>
     else send st False k q1)"

text \<open>The end of a request that is under way: its callbacks, then those of the sequence.\<close>

definition end_request :: "queue_settings \<Rightarrow> nat \<Rightarrow> ending \<Rightarrow> queue \<Rightarrow> queue" where
  "end_request st k e q =
    (let q1 = finish st k e q in
     if chain_runs q = Some k then run_chain st (chain q1) q1 else q1)"

text \<open>\<open>abort\<close> of the promise that \<open>_onSend\<close> returned\<close>

definition abort_upload :: "queue_settings \<Rightarrow> nat \<Rightarrow> queue \<Rightarrow> queue" where
  "abort_upload st k q = (case phase_of q k of
      Queued \<Rightarrow> send st True k q
    | Flying \<Rightarrow> end_request st k Abort q
    | Over _ \<Rightarrow> q)"

section \<open>What can happen\<close>

datatype queue_act = Upload nat | Answer nat bool | Cancel nat | Report nat bool nat nat

fun queue_step :: "queue_settings \<Rightarrow> queue_act \<Rightarrow> queue \<Rightarrow> queue" where
  "queue_step st (Upload n) q = onSend st (max n 1) q"
| "queue_step st (Answer k ok) q =
    (if k < length (transfers q) \<and> phase_of q k = Flying
     then end_request st k (if ok then Success else Failure) q else q)"
| "queue_step st (Cancel k) q = (if k < length (transfers q) then abort_upload st k q else q)"
| "queue_step st (Report k soon l t) q =
    (if k < length (transfers q) \<and> phase_of q k = Flying \<and> l \<le> t then onProgress soon l t k q else q)"

definition queue_run :: "queue_settings \<Rightarrow> queue_act list \<Rightarrow> queue" where
  "queue_run st acts = fold (queue_step st) acts queue_create"

end
