(* ===== verification/Gallery.thy ===== *)
theory Gallery
  imports Upload_Files Upload_Queue
begin

text \<open>
  \<open>assets/plugins/jquery-file-upload/js/jquery.fileupload-ui.custom.gallery.js\<close>: the gallery of pictures of a
  page. Its state are the items in the order of the document (the button that adds pictures, class \<open>gallery-new\<close>, and
  the pictures with their file), the bars of progress, and what the page has shown to the user and the console.
\<close>

section \<open>The state\<close>

text \<open>A file of the server's answer; \<open>pic_id\<close> is the identity of the object.\<close>

record picture =
  pic_id :: nat
  pic_name :: jsstr
  fileUrl :: jsstr
  thumbnailUrl :: jsstr

text \<open>\<open>item_file\<close> is the data \<open>file\<close> of the item; the button has none.\<close>

record gallery_item =
  is_new :: bool
  item_file :: "picture option"
  visible :: bool

record gallery =
  gallery_items :: "gallery_item list"
  bars :: nat
  alerts :: "jsstr list"
  console :: "jsstr list"
  submitted :: "file_set list"

text \<open>The settings. \<open>fileTypes\<close> is the text of the pattern with what it accepts.\<close>

record gallery_settings =
  fileTypes :: "(jsstr \<times> (jsstr \<Rightarrow> bool)) option"
  maxFileSize :: "nat option"
  single :: bool
  addButtonPosition :: jsstr
  removable :: bool
  imageItemClasses :: jsstr
  urlContext :: jsstr

text \<open>\<open>/^image\/(gif|jpg|jpeg|png|bmp)$/i\<close>\<close>

definition image_type :: "jsstr \<Rightarrow> bool" where
  "image_type s \<longleftrightarrow> lower s \<in> set (map (\<lambda>t. js ''image/'' @ js t) [''gif'', ''jpg'', ''jpeg'', ''png'', ''bmp''])"

definition image_pattern :: jsstr where
  "image_pattern = js ''/^image'' @ [92] @ js ''/(gif|jpg|jpeg|png|bmp)$/i''"

definition gallery_defaults :: gallery_settings where
  "gallery_defaults = \<lparr>fileTypes = Some (image_pattern, image_type), maxFileSize = Some 10000000, single = False,
     addButtonPosition = js ''head'', removable = True, imageItemClasses = js ''thumbnail'', urlContext = js ''undefined''\<rparr>"

section \<open>Items\<close>

definition gallery_files :: "gallery \<Rightarrow> picture list" where
  "gallery_files g = fold (\<lambda>i r. case item_file i of Some f \<Rightarrow> r @ [f] | None \<Rightarrow> r) (gallery_items g) []"

definition renderPhoto :: "picture \<Rightarrow> gallery \<Rightarrow> gallery" where
  "renderPhoto f g = g\<lparr>gallery_items := gallery_items g @ [\<lparr>is_new = False, item_file = Some f, visible = True\<rparr>]\<rparr>"

definition hide_new :: "gallery_item list \<Rightarrow> gallery_item list" where
  "hide_new is = map (\<lambda>i. if is_new i then i\<lparr>visible := False\<rparr> else i) is"

definition renderAddButton :: "gallery_settings \<Rightarrow> gallery \<Rightarrow> gallery" where
  "renderAddButton st g =
    (let pos = lower (if addButtonPosition st = [] then js ''head'' else addButtonPosition st);
         buttons = filter is_new (gallery_items g); others = filter (\<lambda>i. \<not> is_new i) (gallery_items g);
         is = (if pos = js ''head'' then buttons @ others
               else if pos = js ''tail'' then others @ buttons
               else hide_new (gallery_items g))
     in g\<lparr>gallery_items := if single st \<and> others \<noteq> [] then hide_new is else is\<rparr>)"

text \<open>A click on the cross of item \<open>i\<close>.\<close>

definition show_first :: "gallery_item list \<Rightarrow> gallery_item list" where
  "show_first is = (case is of [] \<Rightarrow> [] | i # r \<Rightarrow> i\<lparr>visible := True\<rparr> # r)"

definition remove_item :: "gallery_settings \<Rightarrow> nat \<Rightarrow> gallery \<Rightarrow> gallery" where
  "remove_item st i g =
    (let is = (if single st then show_first (gallery_items g) else gallery_items g)
     in g\<lparr>gallery_items := take i is @ drop (i + 1) is\<rparr>)"

text \<open>The markup of a picture.\<close>

definition photo_head :: "gallery_settings \<Rightarrow> picture \<Rightarrow> jsstr" where
  "photo_head st f = js ''<div class=\"gallery-item '' @ imageItemClasses st @ js ''\">''
    @ js ''<img src=\"'' @ urlContext st @ thumbnailUrl f @ js ''\" title=\"''"

definition photo_markup :: "gallery_settings \<Rightarrow> picture \<Rightarrow> jsstr" where
  "photo_markup st f = photo_head st f @ pic_name f @ js ''\" class=\"gallery-img\">''
    @ js ''<a href=\"javascript:\" class=\"action remove\" style=\"'' @ (if removable st then [] else js ''display:none'')
    @ js ''\"><i class=\"fa fa-fw fa-times-circle\"></i></a>'' @ js ''</div>''"

text \<open>What a click on a picture shows: all pictures, and the number of the first to be shown.\<close>

definition view_photos :: "gallery_settings \<Rightarrow> picture \<Rightarrow> gallery \<Rightarrow> (jsstr \<times> nat \<times> jsstr \<times> jsstr) list \<times> nat" where
  "view_photos st this g =
    fold (\<lambda>(index, f) (views, start).
        (views @ [(pic_name f, index, urlContext st @ fileUrl f, urlContext st @ thumbnailUrl f)],
         if pic_id f = pic_id this then index else start))
      (zip [0..<length (gallery_files g)] (gallery_files g)) ([], 0)"

section \<open>Progress\<close>

definition renderProgress :: "gallery \<Rightarrow> gallery" where
  "renderProgress g = g\<lparr>bars := bars g + 1\<rparr>"

definition removeProgress :: "gallery \<Rightarrow> gallery" where
  "removeProgress g = g\<lparr>bars := 0\<rparr>"

text \<open>\<open>parseInt(data.loaded / data.total * 100, 10)\<close>, with the \<open>parseInt\<close> of \<open>ecma.script.plus.js\<close>\<close>

definition progress_percent :: "nat \<Rightarrow> nat \<Rightarrow> jsarg" where
  "progress_percent loaded whole =
    parseInt (A_num (round64 (rat_of_jsf (round64 (of_nat loaded / of_nat whole)) * 100))) 10"

section \<open>Answers\<close>

definition say :: "jsstr \<Rightarrow> gallery \<Rightarrow> gallery" where
  "say msg g = g\<lparr>alerts := alerts g @ [msg]\<rparr>"

text \<open>The answer to an upload: the files, or the message of a failure.\<close>

definition gallery_done :: "gallery_settings \<Rightarrow> picture list + jsstr \<Rightarrow> gallery \<Rightarrow> gallery" where
  "gallery_done st answer g = (case answer of
      Inl files \<Rightarrow> renderAddButton st (fold renderPhoto files g)
    | Inr msg \<Rightarrow> say msg g)"

text \<open>The texts of the code: wrong format, file too large, upload failed.\<close>

definition text_format :: jsstr where
  "text_format = [0x6587, 0x4EF6, 0x683C, 0x5F0F, 0x5FC5, 0x987B, 0x4E3A]"

definition text_size :: jsstr where
  "text_size = [0x6587, 0x4EF6, 0x5927, 0x5C0F, 0x4E0D, 0x80FD, 0x8D85, 0x8FC7]"

definition text_failed :: jsstr where
  "text_failed = [0x4E0A, 0x4F20, 0x5931, 0x8D25]"

text \<open>
  The handler of \<open>fail\<close>. Its call of \<open>data.abort()\<close> aborts the request, which has ended, if there is one; without a
  request \<open>abort\<close> triggers \<open>fail\<close>, so that the handler calls itself: \<open>None\<close> is the overflow of the stack.
  \<open>reason\<close> is \<open>data.errorThrown\<close> or else the text for an unknown error; \<open>$.each\<close> passes the index of a file
  first, which has no \<open>error\<close>.
\<close>

partial_function (option) gallery_fail :: "bool \<Rightarrow> jsstr \<Rightarrow> nat \<Rightarrow> gallery \<Rightarrow> gallery option" where
  "gallery_fail has_request reason n g =
    Option.bind (if has_request then Some g else gallery_fail has_request (js ''abort'') n g)
      (\<lambda>g'. Some ((say text_failed g')\<lparr>console := console g' @ replicate n reason\<rparr>))"

text \<open>\<open>data.abort()\<close> of files whose request has not been made\<close>

definition gallery_abort :: "file_set \<Rightarrow> gallery \<Rightarrow> gallery option" where
  "gallery_abort fs g = gallery_fail False (js ''abort'') (length (fst fs)) g"

section \<open>Adding files\<close>

text \<open>The text between the first and the last parenthesis of a pattern.\<close>

definition pattern_types :: "jsstr \<Rightarrow> jsstr" where
  "pattern_types s = substring s (index_of s (js ''('') + 1) (last_index 41 s (length s))"

definition refusal :: "gallery_settings \<Rightarrow> up_file \<Rightarrow> jsstr option" where
  "refusal st f =
    (case fileTypes st of
       Some (pat, ok) \<Rightarrow> if up_type f \<noteq> [] \<and> \<not> ok (up_type f) then Some (text_format @ pattern_types pat) else None
     | None \<Rightarrow> None)"

definition too_large :: "gallery_settings \<Rightarrow> up_file \<Rightarrow> jsstr option" where
  "too_large st f =
    (case (maxFileSize st, up_size f) of
       (Some most, Some n) \<Rightarrow> if n > most then Some (text_size @ formatFileSize (A_num (Fin (of_nat most)))) else None
     | _ \<Rightarrow> None)"

fun check_files :: "gallery_settings \<Rightarrow> up_file list \<Rightarrow> jsstr option" where
  "check_files st [] = None"
| "check_files st (f # fs) = (case refusal st f of
      Some msg \<Rightarrow> Some msg
    | None \<Rightarrow> (case too_large st f of Some msg \<Rightarrow> Some msg | None \<Rightarrow> check_files st fs))"

text \<open>
  The handler of \<open>add\<close>; \<open>veto\<close> says that the handler of \<open>added\<close> returns \<open>false\<close>. The result \<open>None\<close> is an
  exception, in the state it leaves.
\<close>

definition gallery_add :: "gallery_settings \<Rightarrow> (file_set \<Rightarrow> bool) \<Rightarrow> file_set \<Rightarrow> gallery \<Rightarrow> gallery \<times> bool" where
  "gallery_add st veto fs g =
    (case check_files st (fst fs) of
       None \<Rightarrow> (if veto fs then g else g\<lparr>submitted := submitted g @ [fs]\<rparr>, True)
     | Some msg \<Rightarrow> let g' = say msg g in
         (case gallery_abort fs g' of None \<Rightarrow> (g', False) | Some g'' \<Rightarrow> (g'', True)))"

text \<open>All uploads of a selection: an exception ends \<open>_onAdd\<close>; the handler itself never returns \<open>false\<close>.\<close>

fun gallery_add_all :: "gallery_settings \<Rightarrow> (file_set \<Rightarrow> bool) \<Rightarrow> file_set list \<Rightarrow> gallery \<Rightarrow> gallery \<times> bool" where
  "gallery_add_all st veto [] g = (g, True)"
| "gallery_add_all st veto (fs # sets) g =
    (case gallery_add st veto fs g of (g', ok) \<Rightarrow> if ok then gallery_add_all st veto sets g' else (g', False))"

definition gallery_select :: "gallery_settings \<Rightarrow> batch_settings \<Rightarrow> bool \<Rightarrow> (file_set \<Rightarrow> bool) \<Rightarrow> jsstr list \<Rightarrow> up_file list \<Rightarrow> gallery \<Rightarrow> gallery \<times> bool" where
  "gallery_select st bst xhr veto names files g =
    (if files = [] then (g, True) else gallery_add_all st veto (file_sets bst xhr names files) g)"

section \<open>Callbacks of the queue\<close>

definition gallery_event :: "queue_event \<Rightarrow> gallery \<Rightarrow> gallery" where
  "gallery_event ev g = (case ev of Start_ev _ \<Rightarrow> renderProgress g | Stop_ev \<Rightarrow> removeProgress g | _ \<Rightarrow> g)"

end
