(* ===== verification/Upload_Queue_Frame.thy ===== *)
theory Upload_Queue_Frame
  imports Upload_Queue
begin

text \<open>
  What every operation of the queue keeps. \<open>send\<close> and the callbacks of a request are made of a few changes of
  the state; a property that each of these keeps holds in every state the widget reaches. The locale
  \<open>queue_effect\<close> has these changes as its laws.
\<close>

section \<open>Fields\<close>

lemma fields_log_event [simp]:
  "transfers (log_event ev q) = transfers q" "active (log_event ev q) = active q"
  "sending (log_event ev q) = sending q" "slots (log_event ev q) = slots q"
  "chain (log_event ev q) = chain q" "chain_runs (log_event ev q) = chain_runs q"
  "all_got (log_event ev q) = all_got q" "all_need (log_event ev q) = all_need q"
  "queue_log (log_event ev q) = queue_log q @ [ev]"
  by (simp_all add: log_event_def)

lemma fields_change_transfer [simp]:
  "transfers (change_transfer k f q) = (transfers q)[k := f (transfers q ! k)]"
  "active (change_transfer k f q) = active q"
  "sending (change_transfer k f q) = sending q" "slots (change_transfer k f q) = slots q"
  "chain (change_transfer k f q) = chain q" "chain_runs (change_transfer k f q) = chain_runs q"
  "all_got (change_transfer k f q) = all_got q" "all_need (change_transfer k f q) = all_need q"
  "queue_log (change_transfer k f q) = queue_log q"
  by (simp_all add: change_transfer_def)

lemma fields_onProgress [simp]:
  "length (transfers (onProgress soon l t k q)) = length (transfers q)"
  "active (onProgress soon l t k q) = active q"
  "sending (onProgress soon l t k q) = sending q" "slots (onProgress soon l t k q) = slots q"
  "chain (onProgress soon l t k q) = chain q" "chain_runs (onProgress soon l t k q) = chain_runs q"
  "all_need (onProgress soon l t k q) = all_need q"
  by (simp_all add: onProgress_def Let_def)

lemma fields_count_down [simp]:
  "length (transfers (count_down st k e q)) = length (transfers q)"
  "active (count_down st k e q) = active q - 1"
  "sending (count_down st k e q) = sending q - 1"
  "chain (count_down st k e q) = chain q" "chain_runs (count_down st k e q) = chain_runs q"
  by (simp_all add: count_down_def Let_def onDone_def onFail_def)

section \<open>Changes of the state\<close>

definition ids_ok :: "queue \<Rightarrow> bool" where
  "ids_ok q \<longleftrightarrow> set (slots q) \<subseteq> {..<length (transfers q)} \<and> set (chain q) \<subseteq> {..<length (transfers q)}
     \<and> (\<forall>k. chain_runs q = Some k \<longrightarrow> k < length (transfers q))"

lemma next_slot_cases:
  obtains "next_slot q = (None, q\<lparr>slots := []\<rparr>)" "\<forall>k \<in> set (slots q). phase_of q k \<noteq> Queued"
  | us n ks where "slots q = us @ n # ks" "\<forall>k \<in> set us. phase_of q k \<noteq> Queued" "phase_of q n = Queued"
      "next_slot q = (Some n, q\<lparr>slots := ks\<rparr>)"
proof (cases "dropWhile (\<lambda>k. phase_of q k \<noteq> Queued) (slots q)")
  case Nil
  have "next_slot q = (None, q\<lparr>slots := []\<rparr>)" unfolding next_slot_def Nil by simp
  moreover have "\<forall>k \<in> set (slots q). phase_of q k \<noteq> Queued" using Nil by (simp add: dropWhile_eq_Nil_conv)
  ultimately show thesis by (rule that(1))
next
  case (Cons n ks)
  have "slots q = takeWhile (\<lambda>k. phase_of q k \<noteq> Queued) (slots q) @ n # ks"
    using takeWhile_dropWhile_id [of "\<lambda>k. phase_of q k \<noteq> Queued" "slots q"] unfolding Cons by (rule sym)
  moreover have "\<forall>k \<in> set (takeWhile (\<lambda>k. phase_of q k \<noteq> Queued) (slots q)). phase_of q k \<noteq> Queued"
    by (blast dest: set_takeWhileD)
  moreover have "phase_of q n = Queued"
    using hd_dropWhile [of "\<lambda>k. phase_of q k \<noteq> Queued" "slots q"] unfolding Cons by simp
  moreover have "next_slot q = (Some n, q\<lparr>slots := ks\<rparr>)" unfolding next_slot_def Cons by simp
  ultimately show thesis by (rule that(2))
qed

locale queue_effect =
  fixes st :: queue_settings and I :: "queue \<Rightarrow> bool"
  assumes create: "I queue_create"
    and counters: "I q \<Longrightarrow> I (q\<lparr>sending := n\<rparr>)"
    and lists: "I q \<Longrightarrow> I (q\<lparr>slots := ks\<rparr>)" "I q \<Longrightarrow> I (q\<lparr>chain := ks, chain_runs := r\<rparr>)"
    and send_log: "I q \<Longrightarrow> k < length (transfers q) \<Longrightarrow> phase_of q k = Queued \<Longrightarrow> I (log_event (Send_ev k) q)"
    and stop_log: "I q \<Longrightarrow> active q = 0 \<Longrightarrow> I (log_event Stop_ev q)"
    and fly: "I q \<Longrightarrow> k < length (transfers q) \<Longrightarrow> phase_of q k = Queued
      \<Longrightarrow> I (change_transfer k (transfer.up_phase_update (\<lambda>_. Flying)) q)"
    and ended: "I q \<Longrightarrow> k < length (transfers q) \<Longrightarrow> \<not> settled q k \<Longrightarrow> I (count_down st k e q)"
    and added: "I q \<Longrightarrow> 1 \<le> n \<Longrightarrow> I (beforeSend n q)"
    and reported: "I q \<Longrightarrow> k < length (transfers q) \<Longrightarrow> phase_of q k = Flying \<Longrightarrow> l \<le> t
      \<Longrightarrow> I (onProgress soon l t k q)"
begin

lemma chain_only: "I q \<Longrightarrow> I (q\<lparr>chain := ks\<rparr>)" "I q \<Longrightarrow> I (q\<lparr>chain_runs := r\<rparr>)"
proof -
  have "q\<lparr>chain := ks\<rparr> = q\<lparr>chain := ks, chain_runs := chain_runs q\<rparr>"
    "q\<lparr>chain_runs := r\<rparr> = q\<lparr>chain := chain q, chain_runs := r\<rparr>" by (cases q; simp)+
  then show "I q \<Longrightarrow> I (q\<lparr>chain := ks\<rparr>)" "I q \<Longrightarrow> I (q\<lparr>chain_runs := r\<rparr>)"
    using lists(2) by metis+
qed

definition good :: "nat \<Rightarrow> queue \<Rightarrow> bool" where
  "good len q \<longleftrightarrow> I q \<and> ids_ok q \<and> length (transfers q) = len"

lemma good_simps:
  "good len q \<Longrightarrow> good len (q\<lparr>sending := n\<rparr>)"
  "good len q \<Longrightarrow> set ks \<subseteq> {..<len} \<Longrightarrow> good len (q\<lparr>slots := ks\<rparr>)"
  "good len q \<Longrightarrow> k < len \<Longrightarrow> phase_of q k = Queued \<Longrightarrow> good len (log_event (Send_ev k) q)"
  "good len q \<Longrightarrow> k < len \<Longrightarrow> \<not> settled q k \<Longrightarrow> good len (count_down st k e q)"
  "good len q \<Longrightarrow> k < len \<Longrightarrow> phase_of q k = Queued
    \<Longrightarrow> good len (change_transfer k (transfer.up_phase_update (\<lambda>_. Flying)) q)"
  by (auto simp: good_def ids_ok_def counters lists send_log ended fly)

lemma good_stop: "good len q \<Longrightarrow> good len (stop_when_idle q)"
  by (auto simp: stop_when_idle_def good_def ids_ok_def stop_log)

lemma send_finish_good:
  "st' = st \<Longrightarrow> good len q \<Longrightarrow> k < len \<Longrightarrow> good len (send st' ab k q)"
  "st' = st \<Longrightarrow> good len q \<Longrightarrow> k < len \<Longrightarrow> \<not> settled q k \<Longrightarrow> good len (finish st' k e q)"
proof (induction st' ab k q and st' k e q rule: send_finish.induct)
  case (1 st' ab k q)
  define q1 where "q1 = q\<lparr>sending := sending q + 1\<rparr>"
  have g: "good len q1" using 1 unfolding q1_def by (auto intro: good_simps)
  have g2: "good len (log_event (Send_ev k) q1)" if "phase_of q1 k = Queued"
    using g that 1 by (intro good_simps)
  show ?case
    using 1 g g2 unfolding send.simps [of st'] q1_def [symmetric] Let_def
    by (auto simp: q1_def settled_def phase_of_def intro: good_simps)
next
  case (2 st' k e q)
  define q1 where "q1 = count_down st' k e q"
  have g: "good len q1" using 2 unfolding q1_def by (auto intro: good_simps)
  then have lt: "set (slots q1) \<subseteq> {..<len}" by (auto simp: good_def ids_ok_def)
  show ?case
  proof (rule next_slot_cases [of q1])
    assume "next_slot q1 = (None, q1\<lparr>slots := []\<rparr>)"
    then show ?thesis
      using g unfolding finish.simps [of st'] q1_def [symmetric] Let_def
      by (auto intro!: good_stop good_simps)
  next
    fix us n ks
    assume a: "slots q1 = us @ n # ks" "next_slot q1 = (Some n, q1\<lparr>slots := ks\<rparr>)"
    have "good len (q1\<lparr>slots := ks\<rparr>)" "n < len" using g lt a(1) by (auto intro!: good_simps)
    then show ?thesis
      using g 2 a(2) unfolding finish.simps [of st'] q1_def [symmetric] Let_def
      by (auto intro!: good_stop simp: a(2) q1_def)
  qed
qed

lemma run_chain_good: "good len q \<Longrightarrow> set ks \<subseteq> {..<len} \<Longrightarrow> good len (run_chain st ks q)"
proof (induction ks arbitrary: q)
  case Nil
  then show ?case by (auto simp: good_def ids_ok_def lists)
next
  case (Cons k ks)
  have "good len (q\<lparr>chain := ks, chain_runs := None\<rparr>)" using Cons.prems by (auto simp: good_def ids_ok_def lists)
  then have g: "good len (send st False k (q\<lparr>chain := ks, chain_runs := None\<rparr>))"
    using Cons.prems by (intro send_finish_good) auto
  then have "good len ((send st False k (q\<lparr>chain := ks, chain_runs := None\<rparr>))\<lparr>chain_runs := Some k\<rparr>)"
    using Cons.prems by (auto simp: good_def ids_ok_def chain_only)
  then show ?case using g Cons by (auto simp: Let_def)
qed

lemma onSend_good:
  assumes "I q" and "ids_ok q" and "1 \<le> n"
  shows "I (onSend st n q) \<and> ids_ok (onSend st n q)"
proof -
  define q1 where "q1 = beforeSend n q"
  define k where "k = length (transfers q)"
  have len: "length (transfers q1) = k + 1" and same: "slots q1 = slots q" "chain q1 = chain q" "chain_runs q1 = chain_runs q"
    by (auto simp: q1_def k_def beforeSend_def Let_def)
  have "{..<k} \<subseteq> {..<k + 1}" by auto
  moreover have "set (slots q) \<subseteq> {..<k}" "set (chain q) \<subseteq> {..<k}" "\<forall>j. chain_runs q = Some j \<longrightarrow> j < k + 1"
    using assms(2) by (auto simp: ids_ok_def k_def)
  ultimately have "ids_ok q1" unfolding ids_ok_def same len by (metis subset_trans)
  then have g: "good (k + 1) q1" using assms added [of q n] len by (simp add: good_def q1_def)
  have ids: "set (slots q1) \<subseteq> {..<k + 1}" "set (chain q1) \<subseteq> {..<k + 1}"
    using g by (auto simp: good_def ids_ok_def)
  have "good (k + 1) (q1\<lparr>slots := slots q1 @ [k]\<rparr>)" using g ids by (auto intro!: good_simps)
  moreover have "good (k + 1) (q1\<lparr>chain := chain q1 @ [k]\<rparr>)"
    using g ids by (auto simp: good_def ids_ok_def chain_only)
  moreover have "good (k + 1) (run_chain st [k] q1)" using g by (intro run_chain_good) auto
  moreover have "good (k + 1) (send st False k q1)" using g by (intro send_finish_good) auto
  ultimately have "good (k + 1) (onSend st n q)"
    unfolding onSend_def k_def [symmetric] q1_def [symmetric] Let_def by (simp del: run_chain.simps)
  then show ?thesis by (simp add: good_def)
qed

lemma end_request_good:
  assumes "I q" and "ids_ok q" and "k < length (transfers q)" and "phase_of q k = Flying"
  shows "I (end_request st k e q) \<and> ids_ok (end_request st k e q)"
proof -
  have g: "good (length (transfers q)) (finish st k e q)"
    using assms by (intro send_finish_good) (auto simp: good_def settled_def)
  then have "set (chain (finish st k e q)) \<subseteq> {..<length (transfers q)}" by (auto simp: good_def ids_ok_def)
  then have "good (length (transfers q)) (run_chain st (chain (finish st k e q)) (finish st k e q))"
    using g by (rule run_chain_good [rotated])
  then show ?thesis using g by (auto simp: end_request_def Let_def good_def)
qed

lemma step_good: "I q \<Longrightarrow> ids_ok q \<Longrightarrow> I (queue_step st a q) \<and> ids_ok (queue_step st a q)"
proof (cases a)
  case (Cancel k)
  assume "I q" "ids_ok q"
  then show ?thesis
    using Cancel end_request_good [of q k Abort] send_finish_good(1) [OF refl, of "length (transfers q)" q k True]
    by (auto simp: abort_upload_def good_def split: up_phase.split)
next
  case (Report k soon l t)
  assume "I q" "ids_ok q"
  then show ?thesis using Report reported [of q k l t soon] by (auto simp: ids_ok_def)
qed (auto simp: onSend_good end_request_good)

lemma always: "I (queue_run st acts) \<and> ids_ok (queue_run st acts)"
proof (induction acts rule: rev_induct)
  case Nil
  then show ?case using create by (auto simp: queue_run_def queue_create_def ids_ok_def)
qed (auto simp: queue_run_def step_good)

end

text \<open>The numbers in the lists are those of uploads.\<close>

interpretation keeps: queue_effect st "\<lambda>q. True" for st
  by unfold_locales auto

end
