(* ===== verification/Upload_Queue_Books.thy ===== *)
theory Upload_Queue_Books
  imports Upload_Queue_Frame
begin

text \<open>
  The books of the queue, in every state it reaches and for all settings: \<open>_active\<close> is the number of the
  uploads that are not over, an upload never counts more bytes than it has, and the progress of all
  uploads is the sum over the uploads since the last \<open>start\<close>.
\<close>

section \<open>Scaled bytes\<close>

lemma of_nat_small: "n < 2 ^ 53 \<Longrightarrow> round64 (of_nat n) = Fin (of_nat n)"
  using round64_int [of "int n"] by simp

lemma scaled_bytes_le:
  assumes "l \<le> t" and "n < 2 ^ 53"
  shows "scaled_bytes l t n \<le> n"
proof -
  have "(of_nat l :: rat) / of_nat t \<le> 1" using assms(1) by (cases "t = 0") auto
  then obtain r where r: "round64 (of_nat l / of_nat t) = Fin r" "0 \<le> r" "r \<le> 1"
    using round64_between [of "of_nat l / of_nat t" 1] by auto
  then have "r * of_nat n \<le> of_nat n" "0 \<le> r * of_nat n" by (auto simp: mult_left_le_one_le)
  then obtain s where "round64 (r * of_nat n) = Fin s" "0 \<le> s" "s \<le> of_nat n"
    using round64_between assms(2) by blast
  then show ?thesis using r floor_mono [of s "of_nat n"] by (simp add: scaled_bytes_def)
qed

lemma scaled_bytes_all: "0 < t \<Longrightarrow> n < 2 ^ 53 \<Longrightarrow> scaled_bytes t t n = n"
  using of_nat_small [of 1] of_nat_small [of n] by (simp add: scaled_bytes_def)

section \<open>The counter of active uploads\<close>

definition unsettled :: "queue \<Rightarrow> nat set" where
  "unsettled q = {k. k < length (transfers q) \<and> \<not> settled q k}"

lemma finite_unsettled [simp]: "finite (unsettled q)"
  by (simp add: unsettled_def)

lemma unsettled_fields [simp]:
  "unsettled (q\<lparr>sending := n\<rparr>) = unsettled q" "unsettled (q\<lparr>slots := ks\<rparr>) = unsettled q"
  "unsettled (q\<lparr>chain := ks, chain_runs := r\<rparr>) = unsettled q" "unsettled (log_event ev q) = unsettled q"
  by (simp_all add: unsettled_def settled_def phase_of_def)

lemma phase_change:
  "j < length (transfers q) \<Longrightarrow> phase_of (change_transfer k f q) j
    = (if j = k then transfer.up_phase (f (transfers q ! k)) else phase_of q j)"
  by (simp add: phase_of_def nth_list_update)

lemma phase_onProgress [simp]:
  "j < length (transfers q) \<Longrightarrow> phase_of (onProgress soon l t k q) j = phase_of q j"
  by (cases "k = j") (auto simp: onProgress_def Let_def phase_of_def)

lemma phase_count_down:
  "j < length (transfers q) \<Longrightarrow> phase_of (count_down st k e q) j = (if j = k then Over e else phase_of q j)"
  by (cases "k = j") (auto simp: count_down_def onDone_def onFail_def Let_def phase_of_def onProgress_def)

lemma unsettled_count_down: "unsettled (count_down st k e q) = unsettled q - {k}"
  by (auto simp: unsettled_def settled_def phase_count_down split: if_splits)

lemma transfers_beforeSend: "transfers (beforeSend n q) = transfers q @ [\<lparr>got = 0, need = n, up_phase = Queued\<rparr>]"
  by (simp add: beforeSend_def Let_def)

lemma active_beforeSend: "active (beforeSend n q) = active q + 1"
  by (simp add: beforeSend_def Let_def)

lemma unsettled_beforeSend: "unsettled (beforeSend n q) = insert (length (transfers q)) (unsettled q)"
  by (auto simp: unsettled_def settled_def phase_of_def transfers_beforeSend nth_append)

lemma unsettled_onProgress [simp]: "unsettled (onProgress soon l t k q) = unsettled q"
  by (auto simp: unsettled_def settled_def)

lemma unsettled_fly:
  "phase_of q k = Queued \<Longrightarrow> unsettled (change_transfer k (transfer.up_phase_update (\<lambda>_. Flying)) q) = unsettled q"
  by (auto simp: unsettled_def settled_def phase_change split: if_splits)

definition counted_ok :: "queue \<Rightarrow> bool" where
  "counted_ok q \<longleftrightarrow> active q = card (unsettled q)"

interpretation counting: queue_effect st counted_ok for st
proof
  show "counted_ok (count_down st k e q)"
    if "counted_ok q" "k < length (transfers q)" "\<not> settled q k" for q k e
  proof -
    have "k \<in> unsettled q" using that by (simp add: unsettled_def)
    then show ?thesis using that(1) by (simp add: counted_ok_def unsettled_count_down)
  qed
  show "counted_ok (beforeSend n q)" if "counted_ok q" "1 \<le> n" for q n
  proof -
    have "length (transfers q) \<notin> unsettled q" by (simp add: unsettled_def)
    then show ?thesis using that by (simp add: counted_ok_def unsettled_beforeSend active_beforeSend)
  qed
qed (auto simp: counted_ok_def unsettled_fly, simp add: queue_create_def unsettled_def)

section \<open>The bytes of one upload\<close>

definition load_ok :: "transfer \<Rightarrow> bool" where
  "load_ok tr \<longleftrightarrow> need tr < 2 ^ 53 \<longrightarrow>
    1 \<le> need tr \<and> got tr \<le> need tr \<and> (transfer.up_phase tr = Over Success \<longrightarrow> got tr = need tr)"

definition loads_ok :: "queue \<Rightarrow> bool" where
  "loads_ok q \<longleftrightarrow> list_all load_ok (transfers q)"

lemma loads_change:
  "loads_ok q \<Longrightarrow> (k < length (transfers q) \<Longrightarrow> load_ok (transfers q ! k) \<Longrightarrow> load_ok (f (transfers q ! k)))
    \<Longrightarrow> loads_ok (change_transfer k f q)"
  by (cases "k < length (transfers q)")
    (auto simp: loads_ok_def list_update_beyond intro!: list_all_update, simp add: list_all_length)

lemma loads_fields [simp]: "loads_ok (log_event ev q) = loads_ok q" "loads_ok (q\<lparr>all_got := m\<rparr>) = loads_ok q"
  by (simp_all add: loads_ok_def)

lemma loads_onProgress:
  assumes "loads_ok q" and "l \<le> t" and "transfer.up_phase (transfers q ! k) \<noteq> Over Success"
  shows "loads_ok (onProgress soon l t k q)"
proof -
  define n where "n = scaled_bytes l t (need (transfers q ! k))"
  have "loads_ok (change_transfer k (got_update (\<lambda>_. n)) (q\<lparr>all_got := m\<rparr>))" for m
    using assms scaled_bytes_le [OF assms(2)]
    by (intro loads_change) (auto simp: load_ok_def n_def)
  then show ?thesis using assms(1)
    by (simp add: onProgress_def Let_def n_def [symmetric])
qed

lemma loads_ended:
  assumes "loads_ok q" and "k < length (transfers q)"
  shows "loads_ok (count_down st k e q)"
proof -
  have old: "load_ok (transfers q ! k)" using assms by (simp add: loads_ok_def list_all_length)
  define full where "full = (transfers q)[k := (transfers q ! k)\<lparr>up_phase := Over e,
      got := if e = Success \<and> got (transfers q ! k) < need (transfers q ! k)
             then scaled_bytes (need (transfers q ! k)) (need (transfers q ! k)) (need (transfers q ! k))
             else got (transfers q ! k)\<rparr>]"
  have "transfers (count_down st k e q) = full"
    using assms(2) by (auto simp: count_down_def onDone_def onFail_def onProgress_def Let_def full_def)
  moreover have "list_all load_ok full"
    unfolding full_def using assms old scaled_bytes_all [of "need (transfers q ! k)" "need (transfers q ! k)"]
    by (intro list_all_update) (auto simp: loads_ok_def load_ok_def)
  ultimately show ?thesis by (simp add: loads_ok_def)
qed

interpretation loading: queue_effect st loads_ok for st
proof
  show "loads_ok (onProgress soon l t k q)"
    if "loads_ok q" "k < length (transfers q)" "phase_of q k = Flying" "l \<le> t" for q k l t soon
    using that by (intro loads_onProgress) (auto simp: phase_of_def)
  show "loads_ok (change_transfer k (transfer.up_phase_update (\<lambda>_. Flying)) q)" if "loads_ok q" for q k
    using that by (rule loads_change) (simp add: load_ok_def)
qed (auto simp: loads_ended, auto simp: loads_ok_def queue_create_def transfers_beforeSend load_ok_def)

section \<open>The progress of all uploads\<close>

text \<open>\<open>batch\<close> is the number of the upload that caused the last \<open>start\<close>.\<close>

definition batch :: "queue \<Rightarrow> nat" where
  "batch q = fold (\<lambda>ev b. case ev of Start_ev n \<Rightarrow> n | _ \<Rightarrow> b) (queue_log q) 0"

lemma batch_fields [simp]:
  "batch (q\<lparr>sending := n\<rparr>) = batch q" "batch (q\<lparr>slots := ks\<rparr>) = batch q"
  "batch (q\<lparr>chain := ks, chain_runs := r\<rparr>) = batch q" "batch (change_transfer k f q) = batch q"
  "batch (log_event ev q) = (case ev of Start_ev n \<Rightarrow> n | _ \<Rightarrow> batch q)"
  "batch (onProgress soon l t k q) = batch q"
  by (simp_all add: batch_def onProgress_def Let_def log_event_def change_transfer_def split: queue_event.split)

definition counts :: "queue_settings \<Rightarrow> transfer \<Rightarrow> bool" where
  "counts st tr \<longleftrightarrow> \<not> (recalculateProgress st \<and> transfer.up_phase tr \<in> {Over Failure, Over Abort})"

definition batch_sum :: "queue_settings \<Rightarrow> (transfer \<Rightarrow> nat) \<Rightarrow> nat \<Rightarrow> transfer list \<Rightarrow> int" where
  "batch_sum st f b trs = (\<Sum>i = b..<length trs. if counts st (trs ! i) then int (f (trs ! i)) else 0)"

definition sums_ok :: "queue_settings \<Rightarrow> queue \<Rightarrow> bool" where
  "sums_ok st q \<longleftrightarrow> counted_ok q \<and> batch q \<le> length (transfers q) \<and> (\<forall>i < batch q. settled q i)
     \<and> all_got q = batch_sum st got (batch q) (transfers q)
     \<and> all_need q = batch_sum st need (batch q) (transfers q)"

lemma batch_sum_update:
  assumes "b \<le> k" and "k < length trs"
  shows "batch_sum st f b (trs[k := tr]) = batch_sum st f b trs
    - (if counts st (trs ! k) then int (f (trs ! k)) else 0) + (if counts st tr then int (f tr) else 0)"
proof -
  define g where "g = (\<lambda>tr. if counts st tr then int (f tr) else 0)"
  have k: "k \<in> {b..<length trs}" using assms by simp
  have "(\<Sum>i \<in> {b..<length trs} - {k}. g (trs[k := tr] ! i)) = (\<Sum>i \<in> {b..<length trs} - {k}. g (trs ! i))"
    by (rule sum.cong) auto
  then show ?thesis
    using sum.remove [OF _ k, of "\<lambda>i. g (trs[k := tr] ! i)"] sum.remove [OF _ k, of "\<lambda>i. g (trs ! i)"] assms
    by (simp add: batch_sum_def g_def)
qed

lemma batch_sum_append: "b \<le> length trs \<Longrightarrow> batch_sum st f b (trs @ [tr])
    = batch_sum st f b trs + (if counts st tr then int (f tr) else 0)"
proof -
  assume b: "b \<le> length trs"
  have "(\<Sum>i = b..<length trs. if counts st ((trs @ [tr]) ! i) then int (f ((trs @ [tr]) ! i)) else 0)
    = batch_sum st f b trs"
    unfolding batch_sum_def by (rule sum.cong) (auto simp: nth_append)
  then show ?thesis using b by (simp add: batch_sum_def)
qed

lemma batch_sum_empty [simp]: "batch_sum st f (length trs) trs = 0"
  by (simp add: batch_sum_def)

lemma counts_flying: "\<not> settled q k \<Longrightarrow> counts st (transfers q ! k)"
  by (auto simp: counts_def settled_def phase_of_def)

lemma counts_same [simp]: "counts st (tr\<lparr>got := n\<rparr>) = counts st tr"
  by (simp add: counts_def)

text \<open>What a change of an upload of this batch does to the sums.\<close>

lemma settled_change_transfer:
  "i < length (transfers q) \<Longrightarrow> i \<noteq> k \<Longrightarrow> settled (change_transfer k f q) i = settled q i"
  by (simp add: settled_def phase_of_def)

lemma batch_le: "sums_ok st q \<Longrightarrow> \<not> settled q k \<Longrightarrow> batch q \<le> k"
  unfolding sums_ok_def by (meson not_le)

lemma sums_onProgress:
  assumes "sums_ok st q" and "k < length (transfers q)" and "\<not> settled q k"
  shows "sums_ok st (onProgress soon l t k q)"
proof -
  note b = batch_le [OF assms(1,3)]
  show ?thesis
  proof (cases "t = 0 \<or> soon \<and> l \<noteq> t")
    case True
    then show ?thesis using assms(1) by (simp add: onProgress_def)
  next
    case False
    define n where "n = scaled_bytes l t (need (transfers q ! k))"
    have trs: "transfers (onProgress soon l t k q) = (transfers q)[k := (transfers q ! k)\<lparr>got := n\<rparr>]"
      and g: "all_got (onProgress soon l t k q) = all_got q + (int n - int (got (transfers q ! k)))"
      using False by (auto simp: onProgress_def Let_def n_def)
    have se: "\<forall>i < batch q. settled (onProgress soon l t k q) i"
      using assms by (auto simp: sums_ok_def settled_def)
    have c: "counted_ok (onProgress soon l t k q)" using assms(1) by (simp add: sums_ok_def counted_ok_def)
    show ?thesis
      using assms(1,2) se c counts_flying [OF assms(3)]
      unfolding sums_ok_def g batch_fields fields_onProgress trs batch_sum_update [OF b assms(2)] by simp
  qed
qed

lemma sums_fly:
  assumes "sums_ok st q" and "k < length (transfers q)" and "phase_of q k = Queued"
  shows "sums_ok st (change_transfer k (transfer.up_phase_update (\<lambda>_. Flying)) q)"
proof -
  have un: "\<not> settled q k" using assms(3) by (simp add: settled_def)
  note k = batch_le [OF assms(1) un]
  have "counts st ((transfers q ! k)\<lparr>up_phase := Flying\<rparr>)" by (simp add: counts_def)
  then show ?thesis
    using assms k counts_flying [OF un, of st] counting.fly [OF _ assms(2,3)] settled_change_transfer [of _ q k]
    by (auto simp: sums_ok_def batch_sum_update [OF k assms(2)])
qed

lemma sums_log: "sums_ok st (log_event ev q) = sums_ok st q" if "\<And>n. ev \<noteq> Start_ev n"
  using that by (cases ev) (auto simp: sums_ok_def counted_ok_def settled_def phase_of_def)

text \<open>The callbacks that end an upload: the bytes still missing count on success, all are taken back on failure.\<close>

lemma sums_ended:
  assumes s: "sums_ok st q" and k: "k < length (transfers q)" and un: "\<not> settled q k"
  shows "sums_ok st (count_down st k e q)"
proof -
  note b = batch_le [OF s un]
  define tr where "tr = transfers q ! k"
  define q1 where "q1 = change_transfer k (transfer.up_phase_update (\<lambda>_. Over e)) q"
  define n where "n = (if e = Success \<and> got tr < need tr then scaled_bytes (need tr) (need tr) (need tr) else got tr)"
  have trs: "transfers (count_down st k e q) = (transfers q)[k := tr\<lparr>up_phase := Over e, got := n\<rparr>]"
    using k by (auto simp: count_down_def onDone_def onFail_def onProgress_def Let_def tr_def n_def)
  have same: "batch (count_down st k e q) = batch q"
    by (auto simp: count_down_def onDone_def onFail_def onProgress_def Let_def batch_def)
  have c: "counted_ok (count_down st k e q)" using counting.ended [OF _ k un] s by (simp add: sums_ok_def)
  have se: "\<forall>i < batch q. settled (count_down st k e q) i"
  proof (intro allI impI)
    fix i assume i: "i < batch q"
    then have "i < length (transfers q)" "settled q i" using s by (auto simp: sums_ok_def)
    then show "settled (count_down st k e q) i" by (simp add: settled_def phase_count_down)
  qed
  have cnt: "counts st tr" using counts_flying [OF un] by (simp add: tr_def)
  have cnt': "counts st (tr\<lparr>up_phase := Over e, got := n\<rparr>) = (e = Success \<or> \<not> recalculateProgress st)"
    by (cases e) (auto simp: counts_def)
  have new: "batch_sum st f (batch q) (transfers (count_down st k e q)) = batch_sum st f (batch q) (transfers q)
      - int (f tr) + (if e = Success \<or> \<not> recalculateProgress st then int (f (tr\<lparr>up_phase := Over e, got := n\<rparr>)) else 0)" for f
    unfolding trs batch_sum_update [OF b k] cnt' using cnt by (simp add: tr_def)
  have g: "all_got (count_down st k e q) = all_got q - int (got tr)
      + (if e = Success \<or> \<not> recalculateProgress st then int n else 0)"
    using k by (auto simp: count_down_def onDone_def onFail_def onProgress_def Let_def tr_def n_def)
  have m: "all_need (count_down st k e q) = all_need q - int (need tr)
      + (if e = Success \<or> \<not> recalculateProgress st then int (need tr) else 0)"
    using k by (auto simp: count_down_def onDone_def onFail_def onProgress_def Let_def tr_def)
  show ?thesis using s b k c se unfolding sums_ok_def same g m new by simp
qed

lemma sums_added:
  assumes s: "sums_ok st q"
  shows "sums_ok st (beforeSend n q)"
proof (cases "active q = 0")
  case True
  then have "unsettled q = {}" using s by (simp add: sums_ok_def counted_ok_def)
  then have old: "settled q i" if "i < length (transfers q)" for i using that by (auto simp: unsettled_def)
  have "settled (beforeSend n q) i" if "i < length (transfers q)" for i
    using old [OF that] that by (simp add: settled_def phase_of_def transfers_beforeSend nth_append)
  moreover have "batch (beforeSend n q) = length (transfers q)" using True by (simp add: beforeSend_def Let_def batch_def)
  moreover have "counted_ok (beforeSend n q)"
    using s by (simp add: sums_ok_def counted_ok_def unsettled_beforeSend active_beforeSend) (simp add: unsettled_def)
  ultimately show ?thesis
    using True batch_sum_append [of "length (transfers q)" "transfers q"]
    by (simp add: sums_ok_def transfers_beforeSend counts_def) (simp add: beforeSend_def)
next
  case False
  have "settled (beforeSend n q) i" if "i < batch q" for i
    using s that by (auto simp: sums_ok_def settled_def phase_of_def transfers_beforeSend nth_append)
  moreover have "batch (beforeSend n q) = batch q" using False by (simp add: beforeSend_def Let_def batch_def)
  moreover have "counted_ok (beforeSend n q)"
    using s by (simp add: sums_ok_def counted_ok_def unsettled_beforeSend active_beforeSend) (simp add: unsettled_def)
  ultimately show ?thesis
    using s False batch_sum_append [of "batch q" "transfers q"]
    by (simp add: sums_ok_def transfers_beforeSend counts_def) (simp add: beforeSend_def)
qed

lemma sums_fields:
  "sums_ok st (q\<lparr>sending := n\<rparr>) = sums_ok st q" "sums_ok st (q\<lparr>slots := ks\<rparr>) = sums_ok st q"
  "sums_ok st (q\<lparr>chain := ks, chain_runs := r\<rparr>) = sums_ok st q"
  by (simp_all add: sums_ok_def counted_ok_def settled_def phase_of_def)

interpretation summing: queue_effect st "sums_ok st" for st
proof
  show "sums_ok st queue_create"
    using counting.create by (simp add: sums_ok_def queue_create_def batch_def batch_sum_def)
  show "sums_ok st (onProgress soon l t k q)"
    if "sums_ok st q" "k < length (transfers q)" "phase_of q k = Flying" for q k l t soon
    using that by (intro sums_onProgress) (auto simp: settled_def)
qed (auto simp: sums_fields sums_log sums_fly sums_ended sums_added)

end
