(* ===== verification/Upload_Queue_Order.thy ===== *)
theory Upload_Queue_Order
  imports Upload_Queue_Books
begin

text \<open>
  Uploads without \<open>sequentialUploads\<close> and with a limit other than 1: \<open>_sending\<close> is the number of the requests
  under way and never passes the limit, the waiting uploads are sent in their order as soon as one may be,
  and \<open>start\<close> and \<open>stop\<close> come in turn, around each time in which uploads are active.
\<close>

section \<open>Phases\<close>

definition flying :: "queue \<Rightarrow> nat set" where
  "flying q = {k. k < length (transfers q) \<and> phase_of q k = Flying}"

definition queued :: "queue \<Rightarrow> nat set" where
  "queued q = {k. k < length (transfers q) \<and> phase_of q k = Queued}"

lemma finite_phases [simp]: "finite (flying q)" "finite (queued q)"
  by (simp_all add: flying_def queued_def)

lemma unsettled_phases: "unsettled q = flying q \<union> queued q"
  by (auto simp: unsettled_def settled_def flying_def queued_def)

lemma phases_disjoint: "flying q \<inter> queued q = {}"
  by (auto simp: flying_def queued_def)

lemma phases_fields [simp]:
  "flying (q\<lparr>sending := n\<rparr>) = flying q" "queued (q\<lparr>sending := n\<rparr>) = queued q"
  "flying (q\<lparr>slots := ks\<rparr>) = flying q" "queued (q\<lparr>slots := ks\<rparr>) = queued q"
  "flying (q\<lparr>chain := ks, chain_runs := r\<rparr>) = flying q" "queued (q\<lparr>chain := ks, chain_runs := r\<rparr>) = queued q"
  "flying (q\<lparr>chain := ks\<rparr>) = flying q" "queued (q\<lparr>chain := ks\<rparr>) = queued q"
  "flying (q\<lparr>chain_runs := r\<rparr>) = flying q" "queued (q\<lparr>chain_runs := r\<rparr>) = queued q"
  "flying (log_event ev q) = flying q" "queued (log_event ev q) = queued q"
  "flying (onProgress soon l t k q) = flying q" "queued (onProgress soon l t k q) = queued q"
  "flying (stop_when_idle q) = flying q" "queued (stop_when_idle q) = queued q"
  by (auto simp: flying_def queued_def phase_of_def stop_when_idle_def phase_onProgress [unfolded phase_of_def])

lemma phases_count_down [simp]:
  "flying (count_down st k e q) = flying q - {k}" "queued (count_down st k e q) = queued q - {k}"
  by (auto simp: flying_def queued_def phase_count_down split: if_splits)

lemma phases_fly [simp]:
  "k < length (transfers q) \<Longrightarrow> flying (change_transfer k (transfer.up_phase_update (\<lambda>_. Flying)) q) = insert k (flying q)"
  "k < length (transfers q) \<Longrightarrow> queued (change_transfer k (transfer.up_phase_update (\<lambda>_. Flying)) q) = queued q - {k}"
  by (auto simp: flying_def queued_def phase_change split: if_splits)

lemma phases_beforeSend [simp]:
  "flying (beforeSend n q) = flying q" "queued (beforeSend n q) = insert (length (transfers q)) (queued q)"
  by (auto simp: flying_def queued_def phase_of_def transfers_beforeSend nth_append)

section \<open>Starts and stops\<close>

definition mark_of :: "queue_event \<Rightarrow> bool list" where
  "mark_of ev = (case ev of Start_ev n \<Rightarrow> [True] | Stop_ev \<Rightarrow> [False] | _ \<Rightarrow> [])"

definition marks :: "queue \<Rightarrow> bool list" where
  "marks q = concat (map mark_of (queue_log q))"

lemma marks_fields [simp]:
  "marks (q\<lparr>sending := n\<rparr>) = marks q" "marks (q\<lparr>slots := ks\<rparr>) = marks q"
  "marks (q\<lparr>chain := ks, chain_runs := r\<rparr>) = marks q"
  "marks (q\<lparr>chain := ks\<rparr>) = marks q" "marks (q\<lparr>chain_runs := r\<rparr>) = marks q"
  "marks (change_transfer k f q) = marks q"
  "marks (log_event ev q) = marks q @ mark_of ev"
  "marks (onProgress soon l t k q) = marks q" "marks (count_down st k e q) = marks q"
  by (simp_all add: marks_def mark_of_def onProgress_def Let_def log_event_def change_transfer_def
      count_down_def onDone_def onFail_def)

text \<open>\<open>b\<close> says whether uploads are active.\<close>

definition in_turn :: "bool \<Rightarrow> queue \<Rightarrow> bool" where
  "in_turn b q \<longleftrightarrow> (\<exists>n. marks q = concat (replicate n [True, False]) @ (if b then [True] else []))"

lemma in_turn_fields [simp]:
  "in_turn b (q\<lparr>sending := n\<rparr>) = in_turn b q" "in_turn b (q\<lparr>slots := ks\<rparr>) = in_turn b q"
  "in_turn b (q\<lparr>chain := ks, chain_runs := r\<rparr>) = in_turn b q"
  "in_turn b (q\<lparr>chain := ks\<rparr>) = in_turn b q" "in_turn b (q\<lparr>chain_runs := r\<rparr>) = in_turn b q"
  "in_turn b (change_transfer k f q) = in_turn b q"
  "in_turn b (log_event (Send_ev k) q) = in_turn b q"
  "in_turn b (onProgress soon l t k q) = in_turn b q" "in_turn b (count_down st k e q) = in_turn b q"
  by (simp_all add: in_turn_def mark_of_def)

lemma in_turn_stop: "in_turn True q \<Longrightarrow> in_turn False (log_event Stop_ev q)"
proof -
  assume "in_turn True q"
  then obtain n where "marks q = concat (replicate n [True, False]) @ [True]" by (auto simp: in_turn_def)
  then have "marks (log_event Stop_ev q) = concat (replicate (n + 1) [True, False])"
    by (simp add: mark_of_def replicate_append_same [symmetric])
  then show ?thesis unfolding in_turn_def by (intro exI [of _ "n + 1"]) simp
qed

lemma in_turn_beforeSend: "in_turn (active q \<noteq> 0) q \<Longrightarrow> in_turn True (beforeSend n q)"
  by (auto simp: in_turn_def beforeSend_def Let_def marks_def mark_of_def)

section \<open>Limits and order\<close>

definition slot_mode :: "queue_settings \<Rightarrow> bool" where
  "slot_mode st \<longleftrightarrow> \<not> sequentialUploads st \<and> limitConcurrentUploads st \<noteq> 1"

text \<open>\<open>Q\<close> are the waiting uploads, \<open>n\<close> is the number of the requests under way.\<close>

definition room_ok :: "queue_settings \<Rightarrow> nat set \<Rightarrow> nat \<Rightarrow> bool" where
  "room_ok st Q n \<longleftrightarrow> (if limitConcurrentUploads st = 0 then Q = {}
     else n \<le> limitConcurrentUploads st \<and> (Q \<noteq> {} \<longrightarrow> n = limitConcurrentUploads st))"

definition waits_ok :: "nat set \<Rightarrow> queue \<Rightarrow> bool" where
  "waits_ok Q q \<longleftrightarrow> Q \<subseteq> set (slots q) \<and> sorted_wrt (<) (slots q) \<and> set (slots q) \<subseteq> {..<length (transfers q)}
     \<and> (\<forall>j. Send_ev j \<in> set (queue_log q) \<longrightarrow> j < length (transfers q) \<and> (\<forall>i \<in> Q. j < i))
     \<and> chain_runs q = None \<and> counted_ok q"

definition steady :: "queue_settings \<Rightarrow> queue \<Rightarrow> bool" where
  "steady st q \<longleftrightarrow> sending q = card (flying q) \<and> room_ok st (queued q) (card (flying q))
     \<and> waits_ok (queued q) q \<and> in_turn (active q \<noteq> 0) q"

text \<open>Before the request of \<open>k\<close> ends, and before \<open>k\<close> is sent.\<close>

definition about_to_end :: "queue_settings \<Rightarrow> nat \<Rightarrow> queue \<Rightarrow> bool" where
  "about_to_end st k q \<longleftrightarrow> k \<in> unsettled q \<and> sending q = card (flying q - {k}) + 1 \<and> in_turn True q
     \<and> waits_ok (queued q - {k}) q
     \<and> (if limitConcurrentUploads st = 0 then queued q - {k} = {}
        else card (flying q - {k}) \<le> limitConcurrentUploads st
          \<and> (queued q - {k} \<noteq> {} \<longrightarrow> limitConcurrentUploads st \<le> card (flying q - {k}) + 1))"

definition ready :: "queue_settings \<Rightarrow> nat \<Rightarrow> queue \<Rightarrow> bool" where
  "ready st k q \<longleftrightarrow> k \<in> queued q \<and> sending q = card (flying q) \<and> in_turn True q
     \<and> waits_ok (queued q - {k}) q \<and> (\<forall>i \<in> queued q - {k}. k < i)
     \<and> (if limitConcurrentUploads st = 0 then queued q - {k} = {}
        else card (flying q) < limitConcurrentUploads st
          \<and> (queued q - {k} \<noteq> {} \<longrightarrow> limitConcurrentUploads st = card (flying q) + 1))"

lemma waits_fields [simp]:
  "waits_ok Q (q\<lparr>sending := n\<rparr>) = waits_ok Q q"
  by (simp add: waits_ok_def counted_ok_def)

lemma sent_count_down [simp]: "Send_ev j \<in> set (queue_log (count_down st k e q)) \<longleftrightarrow> Send_ev j \<in> set (queue_log q)"
  by (simp add: count_down_def onDone_def onFail_def onProgress_def Let_def)

lemma waits_count_down: "waits_ok Q q \<Longrightarrow> k \<in> unsettled q \<Longrightarrow> waits_ok Q (count_down st k e q)"
  using counting.ended [of q k st e] by (auto simp: waits_ok_def unsettled_def)

lemma waits_stop: "waits_ok Q q \<Longrightarrow> waits_ok Q (stop_when_idle q)"
  by (auto simp: waits_ok_def stop_when_idle_def counted_ok_def)

lemma waits_sent: "waits_ok Q q \<Longrightarrow> k < length (transfers q) \<Longrightarrow> \<forall>i \<in> Q. k < i \<Longrightarrow> waits_ok Q (log_event (Send_ev k) q)"
  by (auto simp: waits_ok_def counted_ok_def)

lemma waits_fly: "waits_ok Q q \<Longrightarrow> k \<in> queued q \<Longrightarrow> waits_ok Q (change_transfer k (transfer.up_phase_update (\<lambda>_. Flying)) q)"
  using counting.fly [of q k] by (auto simp: waits_ok_def queued_def)

lemma steady_stop:
  assumes "sending q = card (flying q)" and "room_ok st (queued q) (card (flying q))"
    and "waits_ok (queued q) q" and "in_turn True q"
  shows "steady st (stop_when_idle q)"
  using assms waits_stop [OF assms(3)] in_turn_stop [OF assms(4)]
  by (auto simp: steady_def stop_when_idle_def waits_ok_def)

lemma active_flying: "counted_ok q \<Longrightarrow> flying q \<noteq> {} \<Longrightarrow> active q \<noteq> 0"
  by (auto simp: counted_ok_def unsettled_phases)

lemma ready_flies:
  assumes r: "ready st k q"
  shows "steady st (change_transfer k (transfer.up_phase_update (\<lambda>_. Flying)) (log_event (Send_ev k) (q\<lparr>sending := sending q + 1\<rparr>)))"
    (is "steady st ?q")
proof -
  have k: "k \<in> queued q" "k < length (transfers q)" "k \<notin> flying q"
    using r phases_disjoint [of q] by (auto simp: ready_def queued_def)
  have "waits_ok (queued q - {k}) (log_event (Send_ev k) (q\<lparr>sending := sending q + 1\<rparr>))"
    using r k by (intro waits_sent) (auto simp: ready_def)
  then have w: "waits_ok (queued q - {k}) ?q" using k by (intro waits_fly) simp_all
  then have "active ?q \<noteq> 0" using k by (intro active_flying) (auto simp: waits_ok_def)
  then show ?thesis
    using r w k by (auto simp: steady_def ready_def room_ok_def split: if_splits)
qed

lemma ready_ends:
  assumes "ready st k q"
  shows "about_to_end st k (log_event (Send_ev k) (q\<lparr>sending := sending q + 1\<rparr>))"
proof -
  have k: "k \<in> queued q" "k < length (transfers q)" "flying q - {k} = flying q"
    using assms phases_disjoint [of q] by (auto simp: ready_def queued_def)
  have "waits_ok (queued q - {k}) (log_event (Send_ev k) (q\<lparr>sending := sending q + 1\<rparr>))"
    using assms k by (intro waits_sent) (auto simp: ready_def)
  then show ?thesis
    using assms k by (auto simp: about_to_end_def ready_def unsettled_phases split: if_splits)
qed

lemma end_ready:
  assumes a: "about_to_end st k q" and room: "limitConcurrentUploads st > sending (count_down st k e q)"
    and nx: "slots q = us @ n # ks" "\<forall>j \<in> set us. phase_of (count_down st k e q) j \<noteq> Queued"
      "phase_of (count_down st k e q) n = Queued"
  shows "ready st n ((count_down st k e q)\<lparr>slots := ks\<rparr>)"
proof -
  define q1 where "q1 = count_down st k e q"
  have ph: "flying q1 = flying q - {k}" "queued q1 = queued q - {k}" by (auto simp: q1_def)
  have w: "waits_ok (queued q1) q1"
    using a unfolding ph unfolding q1_def by (intro waits_count_down) (auto simp: about_to_end_def)
  have n: "n \<in> queued q1" using w nx by (auto simp: waits_ok_def queued_def q1_def [symmetric]) (auto simp: q1_def)
  have se: "sending q1 = card (flying q1)" using a by (simp add: ph about_to_end_def) (simp add: q1_def)
  have sorted: "\<forall>j \<in> set ks. n < j" "sorted_wrt (<) ks" "set ks \<subseteq> set (slots q1)"
    using w nx(1) by (auto simp: waits_ok_def q1_def sorted_wrt_append)
  have "queued q1 \<subseteq> set (n # ks)"
  proof
    fix j assume j: "j \<in> queued q1"
    then have "j \<in> set (slots q)" using w by (auto simp: waits_ok_def q1_def)
    then show "j \<in> set (n # ks)" using j nx by (auto simp: queued_def q1_def)
  qed
  then have rest: "queued q1 - {n} \<subseteq> set ks" by auto
  then have "waits_ok (queued q1 - {n}) (q1\<lparr>slots := ks\<rparr>)"
    using w sorted by (auto simp: waits_ok_def counted_ok_def)
  moreover have "in_turn True (q1\<lparr>slots := ks\<rparr>)" using a by (simp add: about_to_end_def q1_def)
  moreover have "card (flying q1) < limitConcurrentUploads st" using room se by (simp add: q1_def)
  moreover have "limitConcurrentUploads st \<le> card (flying q1) + 1"
    using a n unfolding ph by (auto simp: about_to_end_def split: if_splits)
  ultimately show ?thesis
    unfolding q1_def [symmetric] using n se rest sorted by (auto simp: ready_def)
qed

lemma send_finish_slots:
  assumes "slot_mode st"
  shows "st' = st \<Longrightarrow> \<not> ab \<Longrightarrow> ready st k q \<Longrightarrow> steady st (send st' ab k q) \<and> flying q \<subseteq> flying (send st' ab k q)"
    and "st' = st \<Longrightarrow> about_to_end st k q
      \<Longrightarrow> steady st (finish st' k e q) \<and> flying q - {k} \<subseteq> flying (finish st' k e q)"
proof (induction st' ab k q and st' k e q rule: send_finish.induct)
  case (1 st' ab k q)
  define q2 where "q2 = log_event (Send_ev k) (q\<lparr>sending := sending q + 1\<rparr>)"
  have k: "k \<in> queued q" "k < length (transfers q)" "phase_of q k = Queued"
    using 1(5) by (auto simp: ready_def queued_def)
  then have se: "send st' ab k q = (if vetoes st k then finish st k Failure q2
      else change_transfer k (transfer.up_phase_update (\<lambda>_. Flying)) q2)"
    using 1(3,4) unfolding send.simps [of st'] q2_def Let_def by (simp add: phase_of_def)
  have fl: "flying q2 - {k} = flying q" "flying q \<subseteq> insert k (flying q2)" "k < length (transfers q2)"
    using k phases_disjoint [of q] by (auto simp: q2_def)
  show ?case
  proof (cases "vetoes st k")
    case True
    have "about_to_end st k q2" unfolding q2_def using 1(5) by (rule ready_ends)
    then show ?thesis
      using 1(2) [OF refl _ 1(4) refl] k True fl se 1(3) by (auto simp: q2_def phase_of_def)
  next
    case False
    then show ?thesis using ready_flies [OF 1(5)] se fl by (simp add: q2_def)
  qed
next
  case (2 st' k e q)
  define q1 where "q1 = count_down st k e q"
  have ph: "flying q1 = flying q - {k}" "queued q1 = queued q - {k}" by (auto simp: q1_def)
  have w: "waits_ok (queued q1) q1"
    using 2(3) unfolding ph unfolding q1_def by (intro waits_count_down) (auto simp: about_to_end_def)
  have se: "sending q1 = card (flying q1)" using 2(3) by (simp add: ph about_to_end_def) (simp add: q1_def)
  have turn: "in_turn True q1" using 2(3) by (simp add: about_to_end_def q1_def)
  have fin: "finish st' k e q = stop_when_idle
       (if limitConcurrentUploads st \<noteq> 0 \<and> limitConcurrentUploads st > sending q1
        then (case next_slot q1 of (None, q2) \<Rightarrow> q2 | (Some n, q2) \<Rightarrow> send st False n q2)
        else q1)"
    unfolding 2(2) finish.simps [of st] q1_def Let_def ..
  show ?case
  proof (cases "limitConcurrentUploads st \<noteq> 0 \<and> limitConcurrentUploads st > sending q1")
    case False
    then have "room_ok st (queued q1) (card (flying q1))"
      using 2(3) se by (auto simp: room_ok_def ph about_to_end_def)
    then have "steady st (stop_when_idle q1)" using se w turn by (intro steady_stop)
    moreover have "finish st' k e q = stop_when_idle q1" unfolding fin if_not_P [OF False] ..
    ultimately show ?thesis using ph by simp
  next
    case True
    show ?thesis
    proof (rule next_slot_cases [of q1])
      assume nx: "next_slot q1 = (None, q1\<lparr>slots := []\<rparr>)" "\<forall>k \<in> set (slots q1). phase_of q1 k \<noteq> Queued"
      have "queued q1 = {}" using w nx(2) by (auto simp: waits_ok_def queued_def)
      then have "steady st (stop_when_idle (q1\<lparr>slots := []\<rparr>))"
        using True se w turn by (intro steady_stop) (auto simp: room_ok_def waits_ok_def counted_ok_def)
      moreover have "finish st' k e q = stop_when_idle (q1\<lparr>slots := []\<rparr>)" unfolding fin if_P [OF True] nx(1) by simp
      ultimately show ?thesis using ph by simp
    next
      fix us n ks
      assume nx: "slots q1 = us @ n # ks" "\<forall>k \<in> set us. phase_of q1 k \<noteq> Queued" "phase_of q1 n = Queued"
        "next_slot q1 = (Some n, q1\<lparr>slots := ks\<rparr>)"
      have r: "ready st n (q1\<lparr>slots := ks\<rparr>)"
        unfolding q1_def using 2(3) True nx by (intro end_ready) (auto simp: q1_def)
      define q3 where "q3 = send st False n (q1\<lparr>slots := ks\<rparr>)"
      have q1': "q1 = count_down st' k e q" by (simp add: q1_def 2(2))
      have s3: "steady st q3" "flying q1 \<subseteq> flying q3"
        using 2(1) [OF q1' _ nx(4) [symmetric] refl 2(2) _ r] True 2(2) unfolding q3_def by simp_all
      have "queued q - {k} \<noteq> {}" using r by (auto simp: ready_def ph)
      then have "limitConcurrentUploads st \<le> card (flying q1) + 1"
        using 2(3) True by (auto simp: about_to_end_def ph)
      moreover have "limitConcurrentUploads st \<ge> 2" using assms True by (auto simp: slot_mode_def)
      ultimately have "card (flying q1) \<noteq> 0" by linarith
      then have "flying q1 \<noteq> {}" by auto
      then have "active q3 \<noteq> 0"
        using s3 by (intro active_flying) (auto simp: steady_def waits_ok_def)
      then have "stop_when_idle q3 = q3" by (simp add: stop_when_idle_def)
      then have "finish st' k e q = q3" unfolding fin if_P [OF True] nx(4) by (simp add: q3_def)
      then show ?thesis using s3 ph by simp
    qed
  qed
qed

section \<open>Every run\<close>

lemma abort_ready:
  assumes s: "steady st q" and k: "k < length (transfers q)" and p: "phase_of q k = Queued"
  shows "about_to_end st k (q\<lparr>sending := sending q + 1\<rparr>)"
proof -
  have "k \<in> queued q" "flying q - {k} = flying q" using k p by (auto simp: queued_def flying_def)
  moreover have "active q \<noteq> 0"
    using s \<open>k \<in> queued q\<close> by (auto simp: steady_def waits_ok_def counted_ok_def unsettled_phases)
  ultimately show ?thesis
    using s unfolding steady_def about_to_end_def room_ok_def waits_ok_def
    by (auto simp: unsettled_phases counted_ok_def split: if_splits)
qed

lemma end_flying:
  assumes s: "steady st q" and k: "k < length (transfers q)" and p: "phase_of q k = Flying"
  shows "about_to_end st k q"
proof -
  have f: "k \<in> flying q" using k p by (simp add: flying_def)
  have c: "card (flying q - {k}) + 1 = card (flying q)" using card_Suc_Diff1 [OF _ f] by simp
  have "queued q - {k} = queued q" using p by (auto simp: queued_def)
  moreover have "active q \<noteq> 0" using s f by (auto simp: steady_def waits_ok_def counted_ok_def unsettled_phases)
  ultimately show ?thesis
    using s f c unfolding steady_def about_to_end_def room_ok_def by (auto simp: unsettled_phases split: if_splits)
qed

lemma steady_end:
  assumes m: "slot_mode st" and s: "steady st q" and k: "k < length (transfers q)" and p: "phase_of q k = Flying"
  shows "steady st (end_request st k e q)"
proof -
  have "chain_runs q = None" using s by (simp add: steady_def waits_ok_def)
  then have "end_request st k e q = finish st k e q" by (simp add: end_request_def Let_def)
  then show ?thesis using send_finish_slots(2) [OF m refl end_flying [OF s k p]] by simp
qed

lemma steady_abort:
  assumes m: "slot_mode st" and s: "steady st q" and k: "k < length (transfers q)"
  shows "steady st (abort_upload st k q)"
proof (cases "phase_of q k")
  case Queued
  then have "send st True k q = finish st k Abort (q\<lparr>sending := sending q + 1\<rparr>)"
    unfolding send.simps [of st] Let_def by (simp add: phase_of_def)
  then show ?thesis
    using send_finish_slots(2) [OF m refl abort_ready [OF s k Queued]] Queued by (simp add: abort_upload_def)
next
  case Flying
  then show ?thesis using steady_end [OF m s k] by (simp add: abort_upload_def)
qed (simp add: abort_upload_def s)

lemma steady_onSend:
  assumes m: "slot_mode st" and s: "steady st q" and n: "1 \<le> n"
  shows "steady st (onSend st n q)"
proof -
  define q1 where "q1 = beforeSend n q"
  define k where "k = length (transfers q)"
  have len: "length (transfers q1) = k + 1" by (simp add: q1_def k_def transfers_beforeSend)
  have same: "slots q1 = slots q" "sending q1 = sending q" "chain_runs q1 = chain_runs q"
    by (auto simp: q1_def beforeSend_def Let_def)
  have log: "Send_ev j \<in> set (queue_log q1) \<longleftrightarrow> Send_ev j \<in> set (queue_log q)" for j
    by (auto simp: q1_def beforeSend_def Let_def)
  have ph: "flying q1 = flying q" "queued q1 = insert k (queued q)" by (auto simp: q1_def k_def)
  have new: "k \<notin> flying q" "k \<notin> queued q" "phase_of q1 k = Queued"
    by (auto simp: flying_def queued_def k_def q1_def phase_of_def transfers_beforeSend)
  have c: "counted_ok q1" using s counting.added [of q n] n by (simp add: steady_def waits_ok_def q1_def)
  have turn: "in_turn True q1" using s in_turn_beforeSend by (simp add: steady_def q1_def)
  have act: "active q1 \<noteq> 0" by (simp add: q1_def active_beforeSend)
  note w = s [unfolded steady_def waits_ok_def, folded k_def]
  let ?lim = "limitConcurrentUploads st"
  show ?thesis
  proof (cases "?lim \<noteq> 0 \<and> ?lim \<le> sending q1")
    case True
    then have big: "?lim > 1" using m by (auto simp: slot_mode_def)
    have "onSend st n q = q1\<lparr>slots := slots q1 @ [k]\<rparr>"
      using True big by (simp add: onSend_def q1_def k_def Let_def)
    moreover have "waits_ok (queued q1) (q1\<lparr>slots := slots q1 @ [k]\<rparr>)"
      using w c unfolding waits_ok_def ph by (auto simp: same len log counted_ok_def sorted_wrt_append less_Suc_eq)
    moreover have "room_ok st (queued q1) (card (flying q1))"
      using s True same by (auto simp: room_ok_def steady_def ph)
    ultimately show ?thesis using s turn act by (simp add: steady_def ph same)
  next
    case False
    have "onSend st n q = send st False k q1"
      using False m by (auto simp: onSend_def q1_def [symmetric] k_def Let_def slot_mode_def)
    moreover have "queued q = {}" using s False same by (auto simp: steady_def room_ok_def split: if_splits)
    then have e: "queued q1 - {k} = {}" and "k \<in> queued q1" by (auto simp: ph)
    moreover have "waits_ok {} q1"
      using w c by (auto simp: waits_ok_def same len log less_Suc_eq)
    moreover have "sending q1 = card (flying q1)" using s same ph by (simp add: steady_def)
    ultimately have "onSend st n q = send st False k q1" "ready st k q1"
      using False turn unfolding ready_def e by auto
    then show ?thesis using send_finish_slots(1) [OF m refl, of False k q1] by simp
  qed
qed

lemma steady_progress: "steady st q \<Longrightarrow> steady st (onProgress soon l t k q)"
proof -
  have "Send_ev j \<in> set (queue_log (onProgress soon l t k q)) \<longleftrightarrow> Send_ev j \<in> set (queue_log q)" for j
    by (auto simp: onProgress_def Let_def)
  moreover have "counted_ok (onProgress soon l t k q) = counted_ok q" by (simp add: counted_ok_def)
  ultimately show "steady st q \<Longrightarrow> steady st (onProgress soon l t k q)"
    by (simp add: steady_def waits_ok_def)
qed

lemma steady_step: "slot_mode st \<Longrightarrow> steady st q \<Longrightarrow> steady st (queue_step st a q)"
  by (cases a) (auto simp: steady_onSend steady_end steady_abort steady_progress)

lemma steady_create: "steady st queue_create"
  using counting.create
  by (auto simp: steady_def room_ok_def waits_ok_def in_turn_def marks_def flying_def queued_def queue_create_def)

lemma steady_run: "slot_mode st \<Longrightarrow> steady st (queue_run st acts)"
proof (induction acts rule: rev_induct)
  case Nil
  then show ?case using steady_create by (simp add: queue_run_def)
qed (simp add: queue_run_def steady_step)

end
