(* ===== verification/Upload_Queue_Chain.thy ===== *)
theory Upload_Queue_Chain
  imports Upload_Queue_Order
begin

text \<open>
  Uploads that wait for the promise \<open>_sequence\<close> (\<open>sequentialUploads\<close> or a limit of 1), the settings under
  which nothing is ever sent, and the end of every upload in the other cases.
\<close>

section \<open>One after the other\<close>

definition chain_mode :: "queue_settings \<Rightarrow> bool" where
  "chain_mode st \<longleftrightarrow> limitConcurrentUploads st \<le> 1 \<and> (sequentialUploads st \<or> limitConcurrentUploads st = 1)"

text \<open>Requests outside the sequence: one at most, and none with \<open>sequentialUploads\<close>.\<close>

definition direct :: "queue_settings \<Rightarrow> nat" where
  "direct st = (if sequentialUploads st then 0 else 1)"

definition base_ok :: "queue_settings \<Rightarrow> queue \<Rightarrow> bool" where
  "base_ok st q \<longleftrightarrow> slots q = [] \<and> counted_ok q \<and> card (flying q) \<le> sending q \<and> in_turn (active q \<noteq> 0) q"

definition chained :: "queue_settings \<Rightarrow> queue \<Rightarrow> bool" where
  "chained st q \<longleftrightarrow> base_ok st q \<and> queued q \<subseteq> set (chain q) \<and> set (chain q) \<subseteq> {..<length (transfers q)}
     \<and> (case chain_runs q of None \<Rightarrow> chain q = [] \<and> card (flying q) \<le> direct st
        | Some k \<Rightarrow> k \<in> flying q \<and> card (flying q - {k}) \<le> direct st)"

lemma finish_no_slots: "slots q = [] \<Longrightarrow> finish st k e q = stop_when_idle (count_down st k e q)"
proof -
  assume "slots q = []"
  then have "next_slot (count_down st k e q) = (None, count_down st k e q)"
    by (simp add: next_slot_def)
  then show ?thesis unfolding finish.simps [of st] Let_def by simp
qed

lemma stop_fields [simp]:
  "transfers (stop_when_idle q) = transfers q" "slots (stop_when_idle q) = slots q" "chain (stop_when_idle q) = chain q"
  "chain_runs (stop_when_idle q) = chain_runs q" "sending (stop_when_idle q) = sending q" "active (stop_when_idle q) = active q"
  by (simp_all add: stop_when_idle_def)

lemma base_fields [simp]:
  "base_ok st (q\<lparr>chain := ks, chain_runs := r\<rparr>) = base_ok st q"
  "base_ok st (q\<lparr>chain := ks\<rparr>) = base_ok st q" "base_ok st (q\<lparr>chain_runs := r\<rparr>) = base_ok st q"
  by (simp_all add: base_ok_def counted_ok_def unsettled_phases)

lemma counted_fields [simp]:
  "counted_ok (q\<lparr>sending := n\<rparr>) = counted_ok q" "counted_ok (q\<lparr>slots := ks\<rparr>) = counted_ok q"
  "counted_ok (q\<lparr>chain := ks\<rparr>) = counted_ok q" "counted_ok (q\<lparr>chain_runs := r\<rparr>) = counted_ok q"
  "counted_ok (log_event ev q) = counted_ok q" "counted_ok (onProgress soon l t k q) = counted_ok q"
  by (simp_all add: counted_ok_def unsettled_phases)

text \<open>The end of a request that was counted in \<open>_sending\<close>.\<close>

lemma base_finish:
  assumes "slots q = []" "counted_ok q" "k \<in> unsettled q" "card (flying q - {k}) + 1 \<le> sending q" "in_turn True q"
  shows "base_ok st (finish st k e q)" "flying (finish st k e q) = flying q - {k}" "queued (finish st k e q) = queued q - {k}"
    "length (transfers (finish st k e q)) = length (transfers q)" "chain (finish st k e q) = chain q"
    "chain_runs (finish st k e q) = chain_runs q"
proof -
  have fin: "finish st k e q = stop_when_idle (count_down st k e q)" using assms(1) by (rule finish_no_slots)
  have c: "counted_ok (count_down st k e q)"
    using counting.ended [OF assms(2)] assms(3) by (simp add: unsettled_def)
  then have "counted_ok (finish st k e q)" unfolding fin by (simp add: counted_ok_def stop_when_idle_def)
  moreover have "in_turn (active (finish st k e q) \<noteq> 0) (finish st k e q)"
    using assms(5) in_turn_stop [of "count_down st k e q"] unfolding fin by (simp add: stop_when_idle_def)
  ultimately show "base_ok st (finish st k e q)" using assms(1,4) unfolding base_ok_def fin by simp
qed (simp_all add: finish_no_slots [OF assms(1)])

lemma send_chain:
  assumes b: "base_ok st q" and k: "k < length (transfers q)"
  shows "base_ok st (send st False k q)"
    and "flying (send st False k q) = (if phase_of q k = Queued \<and> \<not> vetoes st k then insert k (flying q) else flying q)"
    and "queued (send st False k q) = queued q - {k}"
    and "length (transfers (send st False k q)) = length (transfers q)"
    and "chain (send st False k q) = chain q" "chain_runs (send st False k q) = chain_runs q"
proof -
  define q1 where "q1 = q\<lparr>sending := sending q + 1\<rparr>"
  define q2 where "q2 = log_event (Send_ev k) q1"
  have se: "send st False k q = (if phase_of q k \<noteq> Queued then q1 else if vetoes st k then finish st k Failure q2
      else change_transfer k (transfer.up_phase_update (\<lambda>_. Flying)) q2)"
    unfolding send.simps [of st] q2_def q1_def by (simp add: phase_of_def Let_def)
  have b2: "slots q2 = []" "counted_ok q2" "card (flying q2) + 1 \<le> sending q2" "in_turn (active q2 \<noteq> 0) q2"
    using b by (auto simp: base_ok_def q1_def q2_def)
  have b1: "base_ok st q1" using b by (auto simp: base_ok_def q1_def)
  have all: "base_ok st (send st False k q)
    \<and> flying (send st False k q) = (if phase_of q k = Queued \<and> \<not> vetoes st k then insert k (flying q) else flying q)
    \<and> queued (send st False k q) = queued q - {k} \<and> length (transfers (send st False k q)) = length (transfers q)
    \<and> chain (send st False k q) = chain q \<and> chain_runs (send st False k q) = chain_runs q"
  proof (cases "phase_of q k = Queued")
    case False
    then show ?thesis using se b1 by (auto simp: q1_def queued_def phase_of_def)
  next
    case True
    have u: "k \<in> unsettled q2" "k \<in> queued q2" using True k by (auto simp: unsettled_phases queued_def q2_def q1_def phase_of_def)
    then have a: "active q2 \<noteq> 0" using b2(2) by (auto simp: counted_ok_def)
    have f: "flying q2 - {k} = flying q" using True by (auto simp: q2_def q1_def flying_def phase_of_def)
    have "card (flying q2 - {k}) + 1 \<le> sending q2" using b2(3) by (simp add: f) (simp add: q2_def q1_def)
    then have pre: "slots q2 = []" "counted_ok q2" "k \<in> unsettled q2" "card (flying q2 - {k}) + 1 \<le> sending q2" "in_turn True q2"
      using b2 u(1) a by simp_all
    note fin = base_finish [OF pre, of st Failure]
    have len: "k < length (transfers q2)" using k by (simp add: q2_def q1_def)
    have "counted_ok (change_transfer k (transfer.up_phase_update (\<lambda>_. Flying)) q2)"
      using b2(2) u(2) by (intro counting.fly) (auto simp: queued_def)
    moreover have "card (insert k (flying q)) \<le> card (flying q) + 1" by (simp add: card_insert_le_m1 card_insert_if)
    ultimately have "base_ok st (change_transfer k (transfer.up_phase_update (\<lambda>_. Flying)) q2)"
      using b2 a len unfolding base_ok_def by (simp add: q2_def q1_def)
    then show ?thesis using se True fin f len by (auto simp: q2_def q1_def)
  qed
  then show "base_ok st (send st False k q)"
    and "flying (send st False k q) = (if phase_of q k = Queued \<and> \<not> vetoes st k then insert k (flying q) else flying q)"
    and "queued (send st False k q) = queued q - {k}"
    and "length (transfers (send st False k q)) = length (transfers q)"
    and "chain (send st False k q) = chain q" "chain_runs (send st False k q) = chain_runs q" by blast+
qed

lemma run_chain_chained:
  assumes "base_ok st q" and "queued q \<subseteq> set ks" and "set ks \<subseteq> {..<length (transfers q)}"
    and "card (flying q) \<le> direct st"
  shows "chained st (run_chain st ks q) \<and> flying q \<subseteq> flying (run_chain st ks q)"
  using assms
proof (induction ks arbitrary: q)
  case Nil
  then show ?case by (simp add: chained_def)
next
  case (Cons k ks)
  define q0 where "q0 = q\<lparr>chain := ks, chain_runs := None\<rparr>"
  define q1 where "q1 = send st False k q0"
  have k: "k < length (transfers q0)" and b: "base_ok st q0" using Cons.prems by (auto simp: q0_def)
  note se = send_chain [OF b k, folded q1_def]
  have q1: "queued q1 \<subseteq> set ks" "set ks \<subseteq> {..<length (transfers q1)}"
    using Cons.prems by (auto simp: se q0_def)
  have mono: "flying q \<subseteq> flying q1" by (auto simp: se q0_def)
  have step: "run_chain st (k # ks) q = (if phase_of q1 k = Flying then q1\<lparr>chain_runs := Some k\<rparr> else run_chain st ks q1)"
    by (simp add: q1_def q0_def Let_def)
  show ?case
  proof (cases "phase_of q1 k = Flying")
    case True
    have "flying q1 - {k} \<subseteq> flying q" by (auto simp: se q0_def)
    then have "card (flying q1 - {k}) \<le> card (flying q)" by (intro card_mono) auto
    then have "chained st (q1\<lparr>chain_runs := Some k\<rparr>)"
      using se(1) q1 True Cons.prems k se(4,5) unfolding chained_def
      by (simp add: flying_def [of q1]) (simp add: q0_def phase_of_def)
    then show ?thesis using step True mono by simp
  next
    case False
    have "k \<notin> flying q1" using False by (simp add: flying_def)
    then have "flying q1 = flying q" using se(2) by (auto simp: q0_def split: if_splits)
    then have "chained st (run_chain st ks q1) \<and> flying q1 \<subseteq> flying (run_chain st ks q1)"
      using se(1) q1 Cons.prems by (intro Cons.IH) auto
    then show ?thesis using step False mono by auto
  qed
qed

section \<open>Every run of the sequence\<close>

lemma chained_active: "chained st q \<Longrightarrow> k \<in> unsettled q \<Longrightarrow> active q \<noteq> 0"
  by (auto simp: chained_def base_ok_def counted_ok_def)

lemma chained_end:
  assumes c: "chained st q" and k: "k \<in> flying q"
  shows "chained st (end_request st k e q)"
proof -
  have card: "card (flying q - {k}) + 1 = card (flying q)" using card_Suc_Diff1 [OF _ k] by simp
  have u: "k \<in> unsettled q" using k by (simp add: unsettled_phases)
  have pre: "slots q = []" "counted_ok q" "k \<in> unsettled q" "card (flying q - {k}) + 1 \<le> sending q" "in_turn True q"
    using c u card chained_active [OF c u] by (simp_all add: chained_def base_ok_def)
  note fin = base_finish [OF pre, of st e]
  show ?thesis
  proof (cases "chain_runs q = Some k")
    case True
    have "chained st (run_chain st (chain (finish st k e q)) (finish st k e q))"
      using c True fin by (intro conjunct1 [OF run_chain_chained]) (auto simp: chained_def)
    then show ?thesis using True by (simp add: end_request_def Let_def)
  next
    case False
    then have e: "end_request st k e q = finish st k e q" by (simp add: end_request_def Let_def)
    show ?thesis
    proof (cases "chain_runs q")
      case None
      then show ?thesis using c fin e card by (auto simp: chained_def)
    next
      case (Some j)
      have "card (flying q - {k} - {j}) \<le> card (flying q - {j})" by (intro card_mono) auto
      then show ?thesis using c fin e Some False by (auto simp: chained_def)
    qed
  qed
qed

lemma chained_abort:
  assumes c: "chained st q" and k: "k < length (transfers q)"
  shows "chained st (abort_upload st k q)"
proof (cases "phase_of q k")
  case Queued
  define q1 where "q1 = q\<lparr>sending := sending q + 1\<rparr>"
  have u: "k \<in> unsettled q" "k \<notin> flying q" using k Queued by (auto simp: unsettled_phases queued_def flying_def)
  have ph: "flying q1 = flying q" "queued q1 = queued q" "unsettled q1 = unsettled q" "flying q - {k} = flying q"
    using u by (auto simp: q1_def unsettled_phases)
  have pre: "slots q1 = []" "counted_ok q1" "k \<in> unsettled q1" "card (flying q1 - {k}) + 1 \<le> sending q1" "in_turn True q1"
    using c u ph chained_active [OF c u(1)] by (simp_all add: chained_def base_ok_def q1_def)
  note fin = base_finish [OF pre, of st Abort]
  have "send st True k q = finish st k Abort q1"
    using Queued unfolding send.simps [of st] Let_def q1_def by (simp add: phase_of_def)
  moreover have "chained st (finish st k Abort q1)"
    using c fin u by (auto simp: chained_def q1_def split: option.splits)
  ultimately show ?thesis using Queued by (simp add: abort_upload_def)
next
  case Flying
  then show ?thesis using chained_end [OF c] k by (simp add: abort_upload_def flying_def)
qed (simp add: abort_upload_def c)

lemma chained_onSend:
  assumes m: "chain_mode st" and c: "chained st q" and n: "1 \<le> n"
  shows "chained st (onSend st n q)"
proof -
  define q1 where "q1 = beforeSend n q"
  define k where "k = length (transfers q)"
  have same: "slots q1 = slots q" "sending q1 = sending q" "chain_runs q1 = chain_runs q" "chain q1 = chain q"
    "length (transfers q1) = k + 1"
    by (auto simp: q1_def beforeSend_def Let_def k_def)
  have ph: "flying q1 = flying q" "queued q1 = insert k (queued q)" by (auto simp: q1_def k_def)
  have new: "k \<notin> flying q" by (simp add: flying_def k_def)
  have "in_turn True q1" using c in_turn_beforeSend by (simp add: chained_def base_ok_def q1_def)
  moreover have "active q1 \<noteq> 0" by (simp add: q1_def active_beforeSend)
  moreover have "counted_ok q1" using c n counting.added [of q n] by (simp add: chained_def base_ok_def q1_def)
  ultimately have b: "base_ok st q1" using c by (simp add: chained_def base_ok_def same ph)
  have ids: "set (chain q) \<subseteq> {..<k}" "queued q \<subseteq> set (chain q)" using c by (auto simp: chained_def k_def)
  let ?lim = "limitConcurrentUploads st"
  show ?thesis
  proof (cases "sequentialUploads st \<or> ?lim \<noteq> 0 \<and> ?lim \<le> sending q1")
    case True
    then have e: "onSend st n q = (if chain_runs q1 = None then run_chain st [k] q1 else q1\<lparr>chain := chain q1 @ [k]\<rparr>)"
      using m by (simp add: onSend_def q1_def [symmetric] k_def [symmetric] Let_def chain_mode_def del: run_chain.simps)
    show ?thesis
    proof (cases "chain_runs q1")
      case None
      then have "chained st (run_chain st [k] q1)"
        using c b ids by (intro conjunct1 [OF run_chain_chained]) (auto simp: chained_def same ph)
      then show ?thesis using e None by simp
    next
      case (Some j)
      have "queued q1 \<subseteq> set (chain q1 @ [k])" "set (chain q1 @ [k]) \<subseteq> {..<k + 1}" using ids by (auto simp: ph same)
      then show ?thesis using e Some b c unfolding chained_def by (auto simp: same ph)
    qed
  next
    case False
    have e: "onSend st n q = send st False k q1"
      unfolding onSend_def q1_def [symmetric] k_def [symmetric] Let_def if_not_P [OF False] ..
    have "?lim = 1" "\<not> sequentialUploads st" using m False by (auto simp: chain_mode_def)
    then have "sending q = 0" "direct st = 1" using False same by (auto simp: direct_def)
    then have none: "flying q = {}" using c by (simp add: chained_def base_ok_def)
    then have "chain_runs q = None" "chain q = []" "queued q = {}" using c ids by (auto simp: chained_def split: option.splits)
    then show ?thesis
      using send_chain [OF b, of k] none \<open>direct st = 1\<close> unfolding e chained_def by (simp add: same ph)
  qed
qed

lemma chained_progress: "chained st q \<Longrightarrow> chained st (onProgress soon l t k q)"
  by (auto simp: chained_def base_ok_def split: option.splits)

lemma chained_step: "chain_mode st \<Longrightarrow> chained st q \<Longrightarrow> chained st (queue_step st a q)"
  by (cases a) (auto simp: chained_onSend chained_end chained_abort chained_progress flying_def)

lemma chained_run: "chain_mode st \<Longrightarrow> chained st (queue_run st acts)"
proof (induction acts rule: rev_induct)
  case Nil
  have "chained st queue_create"
    using counting.create
    by (auto simp: chained_def base_ok_def in_turn_def marks_def flying_def queued_def queue_create_def)
  then show ?case by (simp add: queue_run_def)
qed (simp add: queue_run_def chained_step)

section \<open>Uploads that are never sent\<close>

lemma stuck_run:
  assumes "sequentialUploads st" and "limitConcurrentUploads st > 1" and "\<forall>k. Cancel k \<notin> set acts"
  shows "flying (queue_run st acts) = {} \<and> (\<forall>k. Send_ev k \<notin> set (queue_log (queue_run st acts)))
    \<and> unsettled (queue_run st acts) = {..<length (transfers (queue_run st acts))}"
  using assms(3)
proof (induction acts rule: rev_induct)
  case Nil
  then show ?case by (simp add: queue_run_def queue_create_def flying_def unsettled_def)
next
  case (snoc a acts)
  define q where "q = queue_run st acts"
  have IH: "flying q = {}" "\<forall>k. Send_ev k \<notin> set (queue_log q)" "unsettled q = {..<length (transfers q)}"
    using snoc by (auto simp: q_def)
  then have no: "phase_of q k \<noteq> Flying" if "k < length (transfers q)" for k using that by (auto simp: flying_def)
  have "queue_run st (acts @ [a]) = queue_step st a q" by (simp add: queue_run_def q_def)
  moreover have "flying (queue_step st a q) = {} \<and> (\<forall>k. Send_ev k \<notin> set (queue_log (queue_step st a q)))
    \<and> unsettled (queue_step st a q) = {..<length (transfers (queue_step st a q))}"
  proof (cases a)
    case (Upload n)
    then have "queue_step st a q = (beforeSend (max n 1) q)\<lparr>slots := slots (beforeSend (max n 1) q) @ [length (transfers q)]\<rparr>"
      using assms(1,2) by (simp add: onSend_def Let_def)
    then show ?thesis
      using IH by (auto simp: transfers_beforeSend unsettled_beforeSend lessThan_Suc) (auto simp: beforeSend_def Let_def split: if_splits)
  qed (use IH no snoc.prems in auto)
  ultimately show ?case by simp
qed

section \<open>Every upload ends\<close>

definition orderly :: "queue_settings \<Rightarrow> bool" where
  "orderly st \<longleftrightarrow> \<not> (sequentialUploads st \<and> limitConcurrentUploads st > 1)"

lemma orderly_modes: "orderly st \<Longrightarrow> slot_mode st \<or> chain_mode st"
  by (auto simp: orderly_def slot_mode_def chain_mode_def)

lemma active_flies:
  assumes "orderly st" and "active (queue_run st acts) \<noteq> 0"
  shows "flying (queue_run st acts) \<noteq> {}"
  using orderly_modes [OF assms(1)]
proof
  assume "slot_mode st"
  then have "steady st (queue_run st acts)" by (rule steady_run)
  then show ?thesis using assms(2)
    by (auto simp: steady_def waits_ok_def room_ok_def counted_ok_def unsettled_phases split: if_splits)
next
  assume "chain_mode st"
  then have "chained st (queue_run st acts)" by (rule chained_run)
  then show ?thesis using assms(2)
    by (auto simp: chained_def base_ok_def counted_ok_def unsettled_phases split: option.splits)
qed

lemma unsettled_fields2 [simp]:
  "unsettled (stop_when_idle q) = unsettled q" "unsettled (q\<lparr>chain_runs := r\<rparr>) = unsettled q"
  "unsettled (q\<lparr>chain := ks\<rparr>) = unsettled q"
  by (simp_all add: unsettled_phases)

lemma send_finish_unsettled:
  "k < length (transfers q) \<Longrightarrow> ids_ok q \<Longrightarrow> unsettled (send st ab k q) \<subseteq> unsettled q"
  "k < length (transfers q) \<Longrightarrow> ids_ok q \<Longrightarrow> unsettled (finish st k e q) \<subseteq> unsettled q - {k}"
proof (induction st ab k q and st k e q rule: send_finish.induct)
  case (1 st ab k q)
  have ids: "ids_ok (q\<lparr>sending := n\<rparr>)" "ids_ok (log_event ev (q\<lparr>sending := n\<rparr>))" for n ev
    using 1(4) by (auto simp: ids_ok_def)
  show ?case
    unfolding send.simps [of st] Let_def using 1 ids
    by (auto simp: phase_of_def unsettled_fly subset_iff)
next
  case (2 st k e q)
  have ids: "ids_ok (count_down st k e q)" using 2(3) by (auto simp: ids_ok_def)
  show ?case
  proof (rule next_slot_cases [of "count_down st k e q"])
    assume "next_slot (count_down st k e q) = (None, (count_down st k e q)\<lparr>slots := []\<rparr>)"
    then show ?thesis unfolding finish.simps [of st] Let_def by (simp add: unsettled_count_down)
  next
    fix us n ks
    assume nx: "slots (count_down st k e q) = us @ n # ks"
      "next_slot (count_down st k e q) = (Some n, (count_down st k e q)\<lparr>slots := ks\<rparr>)"
    then have "n < length (transfers q)" "ids_ok ((count_down st k e q)\<lparr>slots := ks\<rparr>)"
      using ids by (auto simp: ids_ok_def)
    then show ?thesis
      using 2(1) [OF refl _ nx(2) [symmetric] refl] nx(2) unfolding finish.simps [of st] Let_def
      by (simp add: unsettled_count_down)
  qed
qed

lemma run_chain_unsettled:
  "ids_ok q \<Longrightarrow> set ks \<subseteq> {..<length (transfers q)} \<Longrightarrow> unsettled (run_chain st ks q) \<subseteq> unsettled q"
proof (induction ks arbitrary: q)
  case Nil
  then show ?case by simp
next
  case (Cons k ks)
  define q0 where "q0 = q\<lparr>chain := ks, chain_runs := None\<rparr>"
  have q0: "ids_ok q0" "unsettled q0 = unsettled q" "k < length (transfers q0)" "length (transfers q0) = length (transfers q)"
    using Cons.prems by (auto simp: q0_def ids_ok_def)
  have "ids_ok (send st False k q0) \<and> length (transfers (send st False k q0)) = length (transfers q0)"
    using keeps.send_finish_good(1) [OF refl, of "length (transfers q0)" q0 k st False] q0 by (simp add: keeps.good_def)
  moreover have "unsettled (send st False k q0) \<subseteq> unsettled q" using send_finish_unsettled(1) [of k q0 st False] q0 by simp
  ultimately show ?case
    using Cons.IH [of "send st False k q0"] Cons.prems q0(4) by (auto simp: Let_def q0_def [symmetric])
qed

lemma end_unsettled:
  assumes "ids_ok q" and "k < length (transfers q)" and "\<not> settled q k"
  shows "unsettled (end_request st k e q) \<subseteq> unsettled q - {k}"
proof -
  have g: "ids_ok (finish st k e q)" "length (transfers (finish st k e q)) = length (transfers q)"
    using keeps.send_finish_good(2) [OF refl, of "length (transfers q)" q k st e] assms by (simp_all add: keeps.good_def)
  then have "unsettled (run_chain st (chain (finish st k e q)) (finish st k e q)) \<subseteq> unsettled (finish st k e q)"
    by (intro run_chain_unsettled) (auto simp: ids_ok_def)
  moreover have "unsettled (finish st k e q) \<subseteq> unsettled q - {k}" using assms by (intro send_finish_unsettled)
  ultimately show ?thesis by (auto simp: end_request_def Let_def)
qed

text \<open>The server answers the requests under way, one after the other, with success or failure.\<close>

definition first_flying :: "queue \<Rightarrow> nat option" where
  "first_flying q = find (\<lambda>k. phase_of q k = Flying) [0..<length (transfers q)]"

fun drain :: "queue_settings \<Rightarrow> bool list \<Rightarrow> queue \<Rightarrow> queue" where
  "drain st [] q = q"
| "drain st (ok # oks) q = (case first_flying q of None \<Rightarrow> q
    | Some k \<Rightarrow> drain st oks (queue_step st (Answer k ok) q))"

lemma first_flying_iff:
  "first_flying q = None \<longleftrightarrow> flying q = {}"
  "first_flying q = Some k \<Longrightarrow> k \<in> flying q"
proof -
  show "first_flying q = None \<longleftrightarrow> flying q = {}"
    by (auto simp: first_flying_def find_None_iff flying_def)
  show "first_flying q = Some k \<Longrightarrow> k \<in> flying q"
    by (auto simp: first_flying_def find_Some_iff flying_def)
qed

lemma drain_idle: "active q = 0 \<Longrightarrow> counted_ok q \<Longrightarrow> drain st oks q = q"
proof -
  assume "active q = 0" "counted_ok q"
  then have "flying q = {}" by (simp add: counted_ok_def unsettled_phases)
  then show ?thesis by (cases oks) (simp_all add: first_flying_iff(1) [symmetric])
qed

lemma drained:
  assumes "orderly st" and "active (queue_run st acts) \<le> length oks"
  shows "active (drain st oks (queue_run st acts)) = 0"
  using assms(2)
proof (induction oks arbitrary: acts)
  case Nil
  then show ?case by simp
next
  case (Cons ok oks)
  define q where "q = queue_run st acts"
  have ok: "counted_ok q" "ids_ok q" using counting.always unfolding q_def by blast+
  show ?case
  proof (cases "active q = 0")
    case True
    then show ?thesis using drain_idle [OF True ok(1), of st "ok # oks"] unfolding q_def by (simp only:)
  next
    case False
    then obtain k where k: "first_flying q = Some k"
      using active_flies [OF assms(1), of acts] first_flying_iff(1) [of q] by (auto simp: q_def)
    then have f: "k \<in> flying q" by (rule first_flying_iff)
    define q' where "q' = queue_run st (acts @ [Answer k ok])"
    have q': "q' = end_request st k (if ok then Success else Failure) q" "q' = queue_step st (Answer k ok) q"
      using f by (simp_all add: q'_def queue_run_def q_def [unfolded queue_run_def] flying_def)
    have "unsettled q' \<subseteq> unsettled q - {k}"
      unfolding q'(1) using ok(2) f by (intro end_unsettled) (auto simp: flying_def settled_def)
    then have "card (unsettled q') < card (unsettled q)"
      using f by (intro psubset_card_mono) (auto simp: unsettled_phases)
    moreover have "counted_ok q'" using counting.always unfolding q'_def by blast
    ultimately have "active q' \<le> length oks"
      using Cons.prems ok(1) by (simp add: counted_ok_def q_def [symmetric])
    then have "active (drain st oks q') = 0" unfolding q'_def by (rule Cons.IH)
    then show ?thesis using k q'(2) by (simp add: q_def [symmetric])
  qed
qed

end
