(* ===== verification/Upload_Lemmas.thy ===== *)
theory Upload_Lemmas
  imports Gallery Upload_Queue_Chain
begin

text \<open>
  Lemmas on the files of the uploads and on the gallery: the sets a selection is divided into, chunks and ranges,
  the handlers of the gallery.
\<close>

section \<open>Turns\<close>

lemma orderly_turns: "orderly st \<Longrightarrow> in_turn (active (queue_run st acts) \<noteq> 0) (queue_run st acts)"
  using orderly_modes [of st] steady_run [of st acts] chained_run [of st acts]
  by (auto simp: steady_def chained_def base_ok_def)

lemma bars_marks:
  "bars (fold gallery_event evs g) = fold (\<lambda>b n. if b then n + 1 else 0) (concat (map mark_of evs)) (bars g)"
  by (induction evs arbitrary: g)
    (auto simp: gallery_event_def mark_of_def renderProgress_def removeProgress_def split: queue_event.split)

lemma bars_turns: "fold (\<lambda>b n. if b then n + 1 else 0) (concat (replicate k [True, False])) (0 :: nat) = 0"
  by (induction k) auto

section \<open>Sets of files\<close>

definition set_bytes :: "nat \<Rightarrow> up_file list \<Rightarrow> nat" where
  "set_bytes overhead fs = sum_list (map (\<lambda>f. the (up_size f) + overhead) fs)"

lemma limit_sets_files: "0 < limit \<Longrightarrow> concat (map fst (limit_sets limit names i files)) = files"
proof (induction limit names i files rule: limit_sets.induct)
  case (1 limit names i files)
  then show ?case by (subst limit_sets.simps) auto
qed

lemma limit_sets_sizes:
  "0 < limit \<Longrightarrow> x \<in> set (limit_sets limit names i files) \<Longrightarrow> fst x \<noteq> [] \<and> length (fst x) \<le> limit"
proof (induction limit names i files rule: limit_sets.induct)
  case (1 limit names i files)
  have some: "\<not> (files = [] \<or> limit = 0)" using 1(3) by (subst (asm) limit_sets.simps) (auto split: if_splits)
  then have "x = (take limit files, name_slice names i limit) \<or> x \<in> set (limit_sets limit names (i + limit) (drop limit files))"
    using 1(3) by (subst (asm) limit_sets.simps) auto
  then show ?case using some 1(1) [OF some 1(2)] by auto
qed

lemma size_sets_files: "concat (map fst (size_sets st names j cur acc files)) = (if files = [] then [] else cur @ files)"
  by (induction st names j cur acc files rule: size_sets.induct) (auto simp: Let_def)

lemma size_sets_sizes:
  assumes "\<forall>f \<in> set files. up_size f \<noteq> None" and "acc = Some (set_bytes (limitMultiFileUploadSizeOverhead st) cur)"
    and "cur \<noteq> [] \<Longrightarrow> files \<noteq> [] \<Longrightarrow>
      set_bytes (limitMultiFileUploadSizeOverhead st) (cur @ [hd files]) \<le> limitMultiFileUploadSize st"
    and "limitMultiFileUploads st \<noteq> 0 \<Longrightarrow> length cur < limitMultiFileUploads st"
    and "x \<in> set (size_sets st names j cur acc files)"
  shows "fst x \<noteq> [] \<and> (limitMultiFileUploads st \<noteq> 0 \<longrightarrow> length (fst x) \<le> limitMultiFileUploads st)
    \<and> (length (fst x) = 1 \<or> set_bytes (limitMultiFileUploadSizeOverhead st) (fst x) \<le> limitMultiFileUploadSize st)"
  using assms
proof (induction st names j cur acc files rule: size_sets.induct)
  case (1 st names j cur acc)
  then show ?case by simp
next
  case (2 st names j cur acc f rest)
  let ?ov = "limitMultiFileUploadSizeOverhead st"
  define cur' where "cur' = cur @ [f]"
  define acc' where "acc' = add_size acc f ?ov"
  have acc': "acc' = Some (set_bytes ?ov cur')"
    using 2(3,4) by (auto simp: acc'_def cur'_def add_size_def set_bytes_def)
  define cut where "cut \<longleftrightarrow> rest = [] \<or> exceeds (add_size acc' (hd rest) ?ov) (limitMultiFileUploadSize st)
       \<or> (limitMultiFileUploads st \<noteq> 0 \<and> length cur' \<ge> limitMultiFileUploads st)"
  have sets: "size_sets st names j cur acc (f # rest) =
     (if cut then (cur', name_slice names j (length cur')) # size_sets st names (j + length cur') [] (Some 0) rest
     else size_sets st names j cur' acc' rest)"
    unfolding size_sets.simps(2) Let_def cur'_def [symmetric] acc'_def [symmetric] cut_def ..
  have this_ok: "cur' \<noteq> []" "limitMultiFileUploads st \<noteq> 0 \<Longrightarrow> length cur' \<le> limitMultiFileUploads st"
    "length cur' = 1 \<or> set_bytes ?ov cur' \<le> limitMultiFileUploadSize st"
    using 2(5,6) by (auto simp: cur'_def)
  show ?case
  proof (cases cut)
    case True
    from 2(7) consider "x = (cur', name_slice names j (length cur'))"
      | "x \<in> set (size_sets st names (j + length cur') [] (Some 0) rest)"
      unfolding sets using True by auto
    then show ?thesis
    proof cases
      case 1
      then show ?thesis using this_ok by auto
    next
      case b: 2
      show ?thesis
        by (rule 2(1) [OF refl refl refl True [unfolded cut_def cur'_def acc'_def], folded cur'_def])
          (use b 2(3) in \<open>auto simp: set_bytes_def\<close>)
    qed
  next
    case False
    then have "rest \<noteq> []" by (simp add: cut_def)
    then have hd: "hd rest \<in> set rest" by simp
    then obtain n where n: "up_size (hd rest) = Some n" using 2(3) by auto
    have "set_bytes ?ov (cur' @ [hd rest]) \<le> limitMultiFileUploadSize st"
      using False n by (auto simp: cut_def acc' add_size_def exceeds_def set_bytes_def not_less)
    moreover have "x \<in> set (size_sets st names j cur' acc' rest)" using 2(7) False unfolding sets by simp
    ultimately show ?thesis
      using 2(3) acc' False
      by (intro 2(2) [OF refl refl refl False [unfolded cut_def cur'_def acc'_def], folded cur'_def acc'_def])
        (auto simp: cut_def)
  qed
qed

lemma file_sets_files: "files \<noteq> [] \<Longrightarrow> concat (map fst (file_sets st xhr names files)) = files"
  by (auto simp: file_sets_def Let_def limit_sets_files size_sets_files comp_def map_nth)

section \<open>Chunks\<close>

text \<open>Without the header \<open>Range\<close> the chunks follow each other to the end of the file.\<close>

lemma chunks_follow:
  assumes "ub + m * mcs < fs" and "fs \<le> ub + Suc m * mcs"
  shows "upload_chunks mcs fs ub (replicate (Suc m) (Chunk_done None))
    = (map (\<lambda>i. (ub + i * mcs, min mcs (fs - (ub + i * mcs)))) [0..<Suc m], All_sent)"
  using assms
proof (induction m arbitrary: ub)
  case 0
  then show ?case by (subst upload_chunks.simps) (auto simp: bytes_after_def getUploadedBytes_def Let_def min_def)
next
  case (Suc m)
  have next_one: "ub + mcs + m * mcs < fs" "fs \<le> ub + mcs + Suc m * mcs" using Suc.prems by auto
  have n: "min (ub + mcs) fs - ub = mcs" "ub + mcs < fs" using next_one(1) by auto
  have "upload_chunks mcs fs ub (replicate (Suc (Suc m)) (Chunk_done None))
    = (let (sent, e) = upload_chunks mcs fs (ub + mcs) (replicate (Suc m) (Chunk_done None)) in ((ub, mcs) # sent, e))"
    using n by (subst upload_chunks.simps) (simp add: bytes_after_def getUploadedBytes_def Let_def)
  also have "\<dots> = ((ub, mcs) # map (\<lambda>i. (ub + mcs + i * mcs, min mcs (fs - (ub + mcs + i * mcs)))) [0..<Suc m], All_sent)"
    unfolding Suc.IH [OF next_one] by simp
  also have "[0..<Suc (Suc m)] = 0 # map Suc [0..<Suc m]" by (simp add: map_Suc_upt upt_conv_Cons del: upt_Suc)
  then have "(ub, mcs) # map (\<lambda>i. (ub + mcs + i * mcs, min mcs (fs - (ub + mcs + i * mcs)))) [0..<Suc m]
    = map (\<lambda>i. (ub + i * mcs, min mcs (fs - (ub + i * mcs)))) [0..<Suc (Suc m)]"
    using n(2) by (simp add: add.assoc del: upt_Suc)
  finally show ?case .
qed

lemma chunk_inside: "x \<in> set (fst (upload_chunks mcs fs ub answers)) \<Longrightarrow> ub < fs \<Longrightarrow> 0 < mcs
    \<Longrightarrow> 0 < snd x \<and> snd x \<le> mcs \<and> fst x + snd x \<le> fs"
proof (induction mcs fs ub answers rule: upload_chunks.induct)
  case (1 mcs fs ub answers)
  define n where "n = min (ub + mcs) fs - ub"
  have n: "0 < n" "n \<le> mcs" "ub + n \<le> fs" using 1(3,4) by (auto simp: n_def)
  show ?case
  proof (cases "x = (ub, n)")
    case True
    then show ?thesis using n by simp
  next
    case False
    then obtain rng rest where a: "answers = Chunk_done rng # rest"
      using 1(2) by (subst (asm) upload_chunks.simps) (auto simp: Let_def n_def split: list.splits chunk_answer.splits)
    define ub' where "ub' = bytes_after rng (ub + n) fs"
    have "ub' < fs \<and> x \<in> set (fst (upload_chunks mcs fs ub' rest))"
      using 1(2) False unfolding a
      by (subst (asm) upload_chunks.simps) (auto simp: Let_def n_def [symmetric] ub'_def [symmetric] split: if_splits prod.splits)
    then show ?thesis using 1(1) [OF n_def a refl ub'_def] 1(4) by simp
  qed
qed

section \<open>Ranges\<close>

lemma int_below:
  assumes "b < 2 ^ 53"
  shows "int b < 2 ^ 53"
proof -
  have "int b < int (2 ^ 53)" using assms by (simp only: of_nat_less_iff)
  then show ?thesis by simp
qed

lemma parse_number:
  assumes "b < 2 ^ 53"
  shows "parseInt (A_str (string_of_nat b)) 10 = A_num (Fin (of_nat b))"
proof -
  obtain c cs where s: "string_of_nat b = c # cs"
    using parse_digits_string_of_nat [of b] by (cases "string_of_nat b") (auto simp: parse_digits_def)
  then have "48 \<le> c" "c \<le> 57" using string_of_nat_plain [of c b] by auto
  then have "\<not> is_space c" "c \<noteq> 45" "c \<noteq> 43" by (auto simp: is_space_def)
  then have n: "native_parseInt (string_of_nat b) 10 = Num (int b)"
    using parse_digits_string_of_nat [of b] by (simp add: native_parseInt_def s)
  have t: "string_of_nat b = string_of_num (Num (int b))" by (simp add: string_of_num_def)
  have b: "\<bar>int b\<bar> \<le> 2 ^ 53" using int_below [OF assms] by simp
  have "\<not> is_infinite (A_str (string_of_nat b))" unfolding t is_infinite_def int_text_num [OF b] by simp
  moreover have "\<not> absent (A_str (string_of_nat b))" by (simp add: absent_def s)
  moreover have "keep_number (string_of_nat b) = string_of_nat b" unfolding t by (rule keep_number_int)
  ultimately show ?thesis using round64_int [OF b] by (simp add: parseInt_def n num_to_jsf_def)
qed

lemma range_bytes:
  assumes "45 \<notin> set w" and "b < 2 ^ 53"
  shows "bytes_after (Some (w @ 45 # string_of_nat b)) next_byte fs = (if b = 0 then next_byte else b + 1)"
proof -
  have "45 \<notin> set (string_of_nat b)" using string_of_nat_plain [of 45 b] by auto
  then have "split_on 45 (w @ 45 # string_of_nat b) = [w, string_of_nat b]"
    using assms(1) by (simp add: split_on_append split_on_no_sep)
  moreover have "round64 (of_nat b + 1) = Fin (of_nat b + 1)"
    using round64_int [of "int b + 1"] int_below [OF assms(2)] by simp
  moreover have "nat \<lfloor>of_nat b + 1 :: rat\<rfloor> = b + 1" by (simp add: nat_add_distrib)
  ultimately show ?thesis using assms(2) by (simp add: bytes_after_def getUploadedBytes_def parse_number)
qed

lemma chunk_again:
  assumes "\<And>next_byte. bytes_after rng next_byte fs = ub" and "ub < fs"
  shows "upload_chunks mcs fs ub (replicate n (Chunk_done rng)) = (replicate (n + 1) (ub, min (ub + mcs) fs - ub), Waits)"
proof (induction n)
  case 0
  show ?case by (subst upload_chunks.simps) (simp add: Let_def)
next
  case (Suc n)
  then show ?case using assms by (subst upload_chunks.simps) (simp add: Let_def)
qed

section \<open>Patterns in attributes\<close>

lemma split_on_snoc: "sep \<notin> set t \<Longrightarrow> split_on sep (s @ sep # t) = split_on sep s @ [t]"
  by (induction s) (auto simp: split_on_no_sep neq_Nil_conv split: list.splits)

lemma join_split: "join_with [sep] (split_on sep s) = s"
proof (induction s)
  case (Cons c s)
  then show ?case by (cases "split_on sep s") (auto simp: join_with_Cons, metis append_Cons join_with.simps(2,3) neq_Nil_conv)
qed simp

section \<open>The gallery\<close>

lemma gallery_fail_returns:
  assumes "gallery_fail has_request reason n g = Some g'"
  shows has_request
proof (rule gallery_fail.raw_induct [where P = "\<lambda>h r n g g'. h", OF _ assms])
  fix f h r n g g'
  assume IH: "\<And>h r n g g'. f h r n g = Some g' \<Longrightarrow> h"
    and step: "Option.bind (if h then Some g else f h (js ''abort'') n g)
      (\<lambda>g'. Some ((say text_failed g')\<lparr>console := console g' @ replicate n r\<rparr>)) = Some g'"
  show h
  proof (rule ccontr)
    assume "\<not> h"
    then obtain y where "f h (js ''abort'') n g = Some y" using step by (auto simp: bind_eq_Some_conv)
    then show False using IH \<open>\<not> h\<close> by blast
  qed
qed

lemma gallery_abort_throws: "gallery_abort fs g = None"
  unfolding gallery_abort_def using gallery_fail_returns [of False] by (metis not_None_eq)

definition has_file :: "gallery_item \<Rightarrow> picture list" where
  "has_file i = (case item_file i of None \<Rightarrow> [] | Some f \<Rightarrow> [f])"

lemma gallery_files_alt: "gallery_files g = concat (map has_file (gallery_items g))"
proof -
  have "(\<lambda>i r. case item_file i of Some f \<Rightarrow> r @ [f] | None \<Rightarrow> r) = (\<lambda>i r. r @ has_file i)"
    by (intro ext) (simp add: has_file_def split: option.split)
  then show ?thesis by (simp add: gallery_files_def fold_collect)
qed

text \<open>The button has no file.\<close>

definition buttons_empty :: "gallery_item list \<Rightarrow> bool" where
  "buttons_empty is \<longleftrightarrow> (\<forall>i \<in> set is. is_new i \<longrightarrow> item_file i = None)"

lemma files_of_others: "buttons_empty is \<Longrightarrow> concat (map has_file (filter is_new is)) = []
    \<and> concat (map has_file (filter (\<lambda>i. \<not> is_new i) is)) = concat (map has_file is)"
  by (induction "is") (auto simp: buttons_empty_def has_file_def)

lemma files_hide_new: "concat (map has_file (hide_new is)) = concat (map has_file is)"
  by (induction "is") (auto simp: hide_new_def has_file_def)

lemma buttons_hide_new [simp]: "buttons_empty (hide_new is) = buttons_empty is"
  unfolding buttons_empty_def hide_new_def by (induction "is") simp_all

lemma files_renderAddButton:
  assumes "buttons_empty (gallery_items g)"
  shows "gallery_files (renderAddButton st g) = gallery_files g" "buttons_empty (gallery_items (renderAddButton st g))"
  using files_of_others [OF assms] assms
  by (auto simp: renderAddButton_def Let_def gallery_files_alt files_hide_new) (auto simp: buttons_empty_def)

lemma items_renderPhotos: "gallery_items (fold renderPhoto fs g)
    = gallery_items g @ map (\<lambda>f. \<lparr>is_new = False, item_file = Some f, visible = True\<rparr>) fs"
  by (induction fs arbitrary: g) (auto simp: renderPhoto_def)

lemma gallery_add_all_submits:
  assumes "\<And>fs. \<not> veto fs"
  shows "submitted (fst (gallery_add_all st veto sets g)) = submitted g @ takeWhile (\<lambda>fs. check_files st (fst fs) = None) sets
    \<and> snd (gallery_add_all st veto sets g) = (\<forall>fs \<in> set sets. check_files st (fst fs) = None)"
proof (induction sets arbitrary: g)
  case (Cons fs sets)
  then show ?case
    using assms by (auto simp: gallery_add_def gallery_abort_throws Let_def say_def split: option.splits)
qed simp

lemma show_first_simps [simp]:
  "show_first [] = []" "show_first (i # r) = i\<lparr>visible := True\<rparr> # r"
  "length (show_first ps) = length ps" "concat (map has_file (show_first ps)) = concat (map has_file ps)"
  by (auto simp: show_first_def has_file_def split: list.splits)

lemma show_first_append: "ps \<noteq> [] \<Longrightarrow> show_first (ps @ qs) = show_first ps @ qs"
  by (cases ps) auto

lemma show_first_new: "\<forall>p \<in> set ps. \<not> is_new p \<Longrightarrow> \<forall>p \<in> set (show_first ps). \<not> is_new p"
  by (cases ps) auto

end
