(* ===== verification/Upload_Contract.thy ===== *)
theory Upload_Contract
  imports Upload_Lemmas
begin

text \<open>
  What a page that uploads files may rely on: how many requests are under way, that every upload ends, what is
  counted as progress, what becomes of a selection, and where the gallery surprises. The properties of
  \<open>jquery.fileupload.js\<close> and of the project's \<open>jquery.fileupload-ui.custom.gallery.js\<close>.
\<close>

section \<open>The queue\<close>

definition demo_queue :: "nat \<Rightarrow> bool \<Rightarrow> queue_settings" where
  "demo_queue limit one_by_one = \<lparr>sequentialUploads = one_by_one, limitConcurrentUploads = limit,
     recalculateProgress = True, vetoes = (\<lambda>k. False)\<rparr>"

text \<open>A page with three uploads, of which one has failed, one is half-way and one has been sent in the place of the first; and the page after the answers to both.\<close>

definition demo_acts :: "queue_act list" where
  "demo_acts = [Upload 10, Upload 20, Upload 30, Answer 0 False, Report 1 False 20 20]"

definition demo_answers :: "queue_act list" where
  "demo_answers = [Answer 1 True, Answer 2 False]"

lemma demo_queue_simps [simp]:
  "sequentialUploads (demo_queue l b) = b" "limitConcurrentUploads (demo_queue l b) = l" "recalculateProgress (demo_queue l b)"
  "\<not> vetoes (demo_queue l b) k"
  by (simp_all add: demo_queue_def)

lemmas queue_eval = queue_run_def queue_create_def onSend_def beforeSend_def send.simps finish.simps end_request_def
  count_down_def next_slot_def stop_when_idle_def phase_of_def change_transfer_def log_event_def onDone_def onFail_def
  onProgress_def scaled_bytes_all Let_def

lemma demo_run: "queue_run (demo_queue 2 False) demo_acts =
    \<lparr>transfers = [\<lparr>got = 0, need = 10, up_phase = Over Failure\<rparr>, \<lparr>got = 20, need = 20, up_phase = Flying\<rparr>,
       \<lparr>got = 0, need = 30, up_phase = Flying\<rparr>],
     active = 2, sending = 2, slots = [], chain = [], chain_runs = None, all_got = 20, all_need = 50,
     queue_log = [Start_ev 0, Send_ev 0, Send_ev 1, Fail_ev 0, Always_ev 0, Send_ev 2, Progress_ev 1]\<rparr>"
  by (simp add: demo_acts_def queue_eval)

definition demo_half :: queue where
  "demo_half = \<lparr>transfers = [\<lparr>got = 0, need = 10, up_phase = Over Failure\<rparr>, \<lparr>got = 20, need = 20, up_phase = Over Success\<rparr>,
       \<lparr>got = 0, need = 30, up_phase = Flying\<rparr>],
     active = 1, sending = 1, slots = [], chain = [], chain_runs = None, all_got = 20, all_need = 50,
     queue_log = [Start_ev 0, Send_ev 0, Send_ev 1, Fail_ev 0, Always_ev 0, Send_ev 2, Progress_ev 1, Done_ev 1, Always_ev 1]\<rparr>"

lemma demo_first_answer: "queue_step (demo_queue 2 False) (Answer 1 True) (queue_run (demo_queue 2 False) demo_acts) = demo_half"
  unfolding demo_run demo_half_def
  by (simp add: phase_of_def end_request_def, simp add: finish.simps, simp add: queue_eval)

lemma demo_second_answer: "queue_step (demo_queue 2 False) (Answer 2 False) demo_half =
    \<lparr>transfers = [\<lparr>got = 0, need = 10, up_phase = Over Failure\<rparr>, \<lparr>got = 20, need = 20, up_phase = Over Success\<rparr>,
       \<lparr>got = 0, need = 30, up_phase = Over Failure\<rparr>],
     active = 0, sending = 0, slots = [], chain = [], chain_runs = None, all_got = 20, all_need = 20,
     queue_log = [Start_ev 0, Send_ev 0, Send_ev 1, Fail_ev 0, Always_ev 0, Send_ev 2, Progress_ev 1, Done_ev 1, Always_ev 1,
       Fail_ev 2, Always_ev 2, Stop_ev]\<rparr>"
  unfolding demo_half_def
  by (simp add: phase_of_def end_request_def, simp add: finish.simps, simp add: queue_eval)

lemma demo_end: "queue_run (demo_queue 2 False) (demo_acts @ demo_answers) =
    \<lparr>transfers = [\<lparr>got = 0, need = 10, up_phase = Over Failure\<rparr>, \<lparr>got = 20, need = 20, up_phase = Over Success\<rparr>,
       \<lparr>got = 0, need = 30, up_phase = Over Failure\<rparr>],
     active = 0, sending = 0, slots = [], chain = [], chain_runs = None, all_got = 20, all_need = 20,
     queue_log = [Start_ev 0, Send_ev 0, Send_ev 1, Fail_ev 0, Always_ev 0, Send_ev 2, Progress_ev 1, Done_ev 1, Always_ev 1,
       Fail_ev 2, Always_ev 2, Stop_ev]\<rparr>"
proof -
  have "queue_run (demo_queue 2 False) (demo_acts @ demo_answers)
      = fold (queue_step (demo_queue 2 False)) demo_answers (queue_run (demo_queue 2 False) demo_acts)"
    unfolding queue_run_def by simp
  then show ?thesis unfolding demo_answers_def fold_simps demo_first_answer demo_second_answer .
qed

text \<open>C3. With a limit of two or more and without \<open>sequentialUploads\<close>, the counter of requests is exact, the limit is never passed, uploads wait only while the limit is reached, and no upload is sent before one that was added earlier.\<close>
theorem limit_respected:
  assumes "\<not> sequentialUploads st" and "limitConcurrentUploads st \<ge> 2"
  shows "sending (queue_run st acts) = card (flying (queue_run st acts))
    \<and> card (flying (queue_run st acts)) \<le> limitConcurrentUploads st
    \<and> (queued (queue_run st acts) \<noteq> {} \<longrightarrow> card (flying (queue_run st acts)) = limitConcurrentUploads st)
    \<and> (\<forall>i \<in> queued (queue_run st acts). \<forall>j. Send_ev j \<in> set (queue_log (queue_run st acts)) \<longrightarrow> j < i)"
proof -
  have "slot_mode st" using assms by (simp add: slot_mode_def)
  then have "steady st (queue_run st acts)" by (rule steady_run)
  then show ?thesis using assms(2) by (auto simp: steady_def room_ok_def waits_ok_def)
qed

lemma limit_respected_witness:
  "card (flying (queue_run (demo_queue 2 False) [Upload 10, Upload 20, Upload 30, Answer 0 True])) \<le> 2"
  using limit_respected [of "demo_queue 2 False" "[Upload 10, Upload 20, Upload 30, Answer 0 True]"]
  by (simp add: demo_queue_def)

text \<open>C19. The page shows one bar of progress while uploads are active and none otherwise: \<open>start\<close> and \<open>stop\<close> come in turn, whatever is added, answered and cancelled, unless uploads are sequential with a limit of two or more.\<close>
theorem one_progress_bar:
  assumes "\<not> (sequentialUploads st \<and> limitConcurrentUploads st > 1)" and "bars g = 0"
  shows "bars (fold gallery_event (queue_log (queue_run st acts)) g) = (if active (queue_run st acts) = 0 then 0 else 1)"
proof -
  obtain n where "concat (map mark_of (queue_log (queue_run st acts)))
      = concat (replicate n [True, False]) @ (if active (queue_run st acts) \<noteq> 0 then [True] else [])"
    using orderly_turns [of st acts] assms(1) by (auto simp: orderly_def in_turn_def marks_def)
  then show ?thesis using assms(2) by (simp add: bars_marks bars_turns)
qed

definition empty_gallery :: gallery where
  "empty_gallery = \<lparr>gallery_items = [\<lparr>is_new = True, item_file = None, visible = True\<rparr>], bars = 0, alerts = [],
     console = [], submitted = []\<rparr>"

lemma one_progress_bar_witness:
  "Start_ev 0 \<in> set (queue_log (queue_run (demo_queue 2 False) demo_acts))
    \<and> bars (fold gallery_event (queue_log (queue_run (demo_queue 2 False) demo_acts)) empty_gallery) = 1
    \<and> Stop_ev \<in> set (queue_log (queue_run (demo_queue 2 False) (demo_acts @ demo_answers)))
    \<and> bars (fold gallery_event (queue_log (queue_run (demo_queue 2 False) (demo_acts @ demo_answers))) empty_gallery) = 0"
proof -
  have h: "\<not> (sequentialUploads (demo_queue 2 False) \<and> limitConcurrentUploads (demo_queue 2 False) > 1)" "bars empty_gallery = 0"
    by (simp_all add: demo_queue_def empty_gallery_def)
  show ?thesis
    unfolding one_progress_bar [OF h, of demo_acts] one_progress_bar [OF h, of "demo_acts @ demo_answers"]
    by (simp add: demo_run demo_end)
qed

lemma batch_sum_mono:
  assumes "\<And>i. b \<le> i \<Longrightarrow> i < length trs \<Longrightarrow> counts st (trs ! i) \<Longrightarrow> f (trs ! i) \<le> g (trs ! i)"
  shows "batch_sum st f b trs \<le> batch_sum st g b trs"
  unfolding batch_sum_def using assms by (intro sum_mono) auto

text \<open>C11. For uploads of fewer than \<open>2 ^ 53\<close> bytes, the bytes counted for all uploads are the sum over the uploads since the last \<open>start\<close>, never more than there are to send, and equal to them once nothing is active and failures are taken back.\<close>
theorem progress_adds_up:
  assumes "\<forall>tr \<in> set (transfers (queue_run st acts)). need tr < 2 ^ 53"
  shows "all_got (queue_run st acts) = batch_sum st got (batch (queue_run st acts)) (transfers (queue_run st acts))
    \<and> all_got (queue_run st acts) \<le> all_need (queue_run st acts)
    \<and> (active (queue_run st acts) = 0 \<and> recalculateProgress st \<longrightarrow> all_got (queue_run st acts) = all_need (queue_run st acts))"
proof -
  define q where "q = queue_run st acts"
  have s: "sums_ok st q" and l: "loads_ok q"
    using summing.always [of st acts] loading.always [of st acts] by (simp_all add: q_def)
  have each: "got (transfers q ! i) \<le> need (transfers q ! i)" if "i < length (transfers q)" for i
    using l assms that by (auto simp: loads_ok_def list_all_length load_ok_def q_def [symmetric])
  have "got (transfers q ! i) = need (transfers q ! i)"
    if "active q = 0" "recalculateProgress st" "i < length (transfers q)" "counts st (transfers q ! i)" for i
  proof -
    have "unsettled q = {}" using s that(1) by (simp add: sums_ok_def counted_ok_def)
    then have "settled q i" using that(3) by (auto simp: unsettled_def)
    then have "transfer.up_phase (transfers q ! i) = Over Success"
      using that(2,4) by (cases "transfer.up_phase (transfers q ! i)")
        (auto simp: settled_def phase_of_def counts_def, metis ending.exhaust)
    then show ?thesis using l assms that by (auto simp: loads_ok_def list_all_length load_ok_def q_def [symmetric])
  qed
  then have "batch_sum st got (batch q) (transfers q) = batch_sum st need (batch q) (transfers q)"
    if "active q = 0" "recalculateProgress st"
    unfolding batch_sum_def using that by (intro sum.cong) auto
  then show ?thesis
    using s batch_sum_mono [of "batch q" "transfers q" st got need] each
    by (auto simp: sums_ok_def q_def [symmetric])
qed

lemma progress_adds_up_witness:
  "batch_sum (demo_queue 2 False) got (batch (queue_run (demo_queue 2 False) demo_acts))
      (transfers (queue_run (demo_queue 2 False) demo_acts)) = 20
    \<and> all_need (queue_run (demo_queue 2 False) demo_acts) = 50
    \<and> active (queue_run (demo_queue 2 False) (demo_acts @ demo_answers)) = 0
    \<and> all_need (queue_run (demo_queue 2 False) (demo_acts @ demo_answers)) = 20
    \<and> all_got (queue_run (demo_queue 2 False) (demo_acts @ demo_answers)) = 20"
proof -
  have h: "\<forall>tr \<in> set (transfers (queue_run (demo_queue 2 False) demo_acts)). need tr < 2 ^ 53"
    "\<forall>tr \<in> set (transfers (queue_run (demo_queue 2 False) (demo_acts @ demo_answers))). need tr < 2 ^ 53"
    by (simp_all add: demo_run demo_end)
  have "batch_sum (demo_queue 2 False) got (batch (queue_run (demo_queue 2 False) demo_acts))
      (transfers (queue_run (demo_queue 2 False) demo_acts)) = all_got (queue_run (demo_queue 2 False) demo_acts)"
    using progress_adds_up [OF h(1)] by simp
  moreover have "all_got (queue_run (demo_queue 2 False) (demo_acts @ demo_answers))
      = all_need (queue_run (demo_queue 2 False) (demo_acts @ demo_answers))"
    by (rule conjunct2 [OF conjunct2 [OF progress_adds_up [OF h(2)]], rule_format]) (simp add: demo_end)
  ultimately show ?thesis by (simp add: demo_run demo_end)
qed

text \<open>C8. When the server answers the requests under way one after the other, with success or failure, every upload ends after at most as many answers as uploads are active, unless uploads are sequential with a limit of two or more.\<close>
theorem uploads_end:
  assumes "\<not> (sequentialUploads st \<and> limitConcurrentUploads st > 1)" and "active (queue_run st acts) \<le> length oks"
  shows "active (drain st oks (queue_run st acts)) = 0"
  using assms by (intro drained) (auto simp: orderly_def)

lemma uploads_end_witness:
  "active (queue_run (demo_queue 2 False) demo_acts) = 2 \<and> flying (queue_run (demo_queue 2 False) demo_acts) \<noteq> {}
    \<and> active (drain (demo_queue 2 False) [True, False] (queue_run (demo_queue 2 False) demo_acts)) = 0"
proof -
  have "active (drain (demo_queue 2 False) [True, False] (queue_run (demo_queue 2 False) demo_acts)) = 0"
    by (rule uploads_end) (simp_all add: demo_run)
  moreover have "1 \<in> flying (queue_run (demo_queue 2 False) demo_acts)"
    by (simp add: demo_run flying_def phase_of_def)
  ultimately show ?thesis by (auto simp: demo_run)
qed

text \<open>C34. With \<open>sequentialUploads\<close> and a limit of two or more nothing is ever sent, unless the user cancels an upload.\<close>
theorem sequential_never_sends:
  assumes "sequentialUploads st" and "limitConcurrentUploads st > 1" and "\<forall>k. Cancel k \<notin> set acts"
  shows "flying (queue_run st acts) = {}
    \<and> (\<forall>k. Send_ev k \<notin> set (queue_log (queue_run st acts)))
    \<and> active (queue_run st acts) = length (transfers (queue_run st acts))"
  using stuck_run [OF assms] counting.always [of st acts] by (simp add: counted_ok_def)

lemma sequential_never_sends_witness:
  "flying (queue_run (demo_queue 3 True) [Upload 10, Upload 20, Answer 0 True]) = {}"
  using sequential_never_sends [of "demo_queue 3 True" "[Upload 10, Upload 20, Answer 0 True]"]
  by (simp add: demo_queue_def)

text \<open>C33. A limit of one lets two requests run at the same time, and never more; with \<open>sequentialUploads\<close> it is one.\<close>
theorem limit_one_sends_two:
  assumes "limitConcurrentUploads st = 1" and "\<not> vetoes st 0" and "\<not> vetoes st 1"
  shows "card (flying (queue_run st acts)) \<le> (if sequentialUploads st then 1 else 2)
    \<and> flying (queue_run st [Upload a, Upload b]) = (if sequentialUploads st then {0} else {0, 1})"
proof
  have m: "chain_mode st" using assms by (simp add: chain_mode_def)
  have c: "chained st (queue_run st acts)" using m by (rule chained_run)
  show "card (flying (queue_run st acts)) \<le> (if sequentialUploads st then 1 else 2)"
  proof (cases "chain_runs (queue_run st acts)")
    case None
    then show ?thesis using c by (simp add: chained_def direct_def split: if_splits)
  next
    case (Some k)
    then have k: "k \<in> flying (queue_run st acts)" and d: "card (flying (queue_run st acts) - {k}) \<le> direct st"
      using c unfolding chained_def by auto
    from d card_Suc_Diff1 [OF finite_phases(1) k] have "card (flying (queue_run st acts)) \<le> direct st + 1" by linarith
    then show ?thesis by (simp add: direct_def split: if_splits)
  qed
  show "flying (queue_run st [Upload a, Upload b]) = (if sequentialUploads st then {0} else {0, 1})"
    using assms
    by (simp add: queue_run_def onSend_def queue_create_def Let_def beforeSend_def send.simps phase_of_def
        flying_def change_transfer_def log_event_def) (auto simp: less_Suc_eq)
qed

lemma limit_one_sends_two_witness: "flying (queue_run (demo_queue 1 False) [Upload 10, Upload 20]) = {0, 1}"
  using limit_one_sends_two [of "demo_queue 1 False" "[]" 10 20] by (simp add: demo_queue_def)

section \<open>Selections and chunks\<close>

definition demo_file :: "nat \<Rightarrow> up_file" where
  "demo_file n = \<lparr>up_name = js ''a.png'', up_type = js ''image/png'', up_size = Some n\<rparr>"

text \<open>C25. A selection is divided without loss and in order; with limits of number and size, each set keeps both, except that a file that is too large is sent alone.\<close>
theorem selection_divided:
  assumes "files \<noteq> []" and "\<forall>f \<in> set files. up_size f \<noteq> None" and "x \<in> set (file_sets st True names files)"
    and "\<not> singleFileUploads st" and "limitMultiFileUploadSize st \<noteq> 0"
  shows "concat (map fst (file_sets st True names files)) = files \<and> fst x \<noteq> []
    \<and> (limitMultiFileUploads st \<noteq> 0 \<longrightarrow> length (fst x) \<le> limitMultiFileUploads st)
    \<and> (length (fst x) = 1
      \<or> set_bytes (limitMultiFileUploadSizeOverhead st) (fst x) \<le> limitMultiFileUploadSize st)"
proof -
  obtain n where n: "up_size (hd files) = Some n" using assms(1,2) by (cases files) auto
  have "file_sets st True names files = size_sets st names 0 [] (Some 0) files"
    using assms(1,4,5) n by (simp add: file_sets_def Let_def)
  then have x: "x \<in> set (size_sets st names 0 [] (Some 0) files)" using assms(3) by simp
  show ?thesis
    using size_sets_sizes [OF assms(2) _ _ _ x] file_sets_files [OF assms(1)] by (simp add: set_bytes_def)
qed

definition demo_batches :: batch_settings where
  "demo_batches = \<lparr>singleFileUploads = False, limitMultiFileUploads = 2, limitMultiFileUploadSize = 10,
     limitMultiFileUploadSizeOverhead = 1\<rparr>"

lemma selection_divided_witness:
  "concat (map fst (file_sets demo_batches True [js ''f''] [demo_file 4, demo_file 4, demo_file 20]))
    = [demo_file 4, demo_file 4, demo_file 20]"
proof -
  have sets: "file_sets demo_batches True [js ''f''] [demo_file 4, demo_file 4, demo_file 20]
    = [([demo_file 4, demo_file 4], Some (Names [js ''f''])), ([demo_file 20], Some (Names [js ''f'']))]"
    by (simp add: file_sets_def demo_batches_def demo_file_def add_size_def exceeds_def name_slice_def Let_def)
  show ?thesis
    using selection_divided [of "[demo_file 4, demo_file 4, demo_file 20]"
        "([demo_file 20], Some (Names [js ''f'']))" demo_batches "[js ''f'']"]
    unfolding sets by (simp add: demo_batches_def demo_file_def)
qed

text \<open>C26. A server that reports no range gets the chunks of the file one after the other, each of the chosen size but the last, until the file is sent; no chunk ever passes the end of the file.\<close>
theorem chunks_cover_file:
  assumes "0 < mcs" and "ub < fs"
  shows "chunkedUpload mcs fs ub (replicate ((fs - ub - 1) div mcs + 1) (Chunk_done None))
      = (map (\<lambda>i. (ub + i * mcs, min mcs (fs - (ub + i * mcs)))) [0..<(fs - ub - 1) div mcs + 1], All_sent)
    \<and> (\<forall>x \<in> set (fst (chunkedUpload mcs fs ub answers)). 0 < snd x \<and> snd x \<le> mcs \<and> fst x + snd x \<le> fs)"
proof
  define m where "m = (fs - ub - 1) div mcs"
  have "m * mcs + (fs - ub - 1) mod mcs = fs - ub - 1" by (simp add: m_def)
  moreover have "(fs - ub - 1) mod mcs < mcs" "Suc m * mcs = m * mcs + mcs" using assms(1) by simp_all
  ultimately have "ub + m * mcs < fs" "fs \<le> ub + Suc m * mcs" using assms(2) by linarith+
  then show "chunkedUpload mcs fs ub (replicate (m + 1) (Chunk_done None))
      = (map (\<lambda>i. (ub + i * mcs, min mcs (fs - (ub + i * mcs)))) [0..<m + 1], All_sent)"
    using chunks_follow assms by (simp add: chunkedUpload_def del: upt_Suc replicate_Suc)
  show "\<forall>x \<in> set (fst (chunkedUpload mcs fs ub answers)). 0 < snd x \<and> snd x \<le> mcs \<and> fst x + snd x \<le> fs"
    using assms chunk_inside by (auto simp: chunkedUpload_def)
qed

lemma chunks_cover_file_witness:
  "chunkedUpload 4 10 0 [Chunk_done None, Chunk_done None, Chunk_done None] = ([(0, 4), (4, 4), (8, 2)], All_sent)"
proof -
  have three: "(10 - 0 - 1 :: nat) div 4 + 1 = Suc (Suc (Suc 0))" by simp
  have "chunkedUpload 4 10 0 (replicate ((10 - 0 - 1) div 4 + 1) (Chunk_done None))
      = (map (\<lambda>i. (0 + i * 4, min 4 (10 - (0 + i * 4)))) [0..<(10 - 0 - 1) div 4 + 1], All_sent)"
    by (rule conjunct1 [OF chunks_cover_file]) simp_all
  then show ?thesis unfolding three by simp
qed

text \<open>A server that reports a range gets the bytes after it, and the same chunk without end if it stands still; a range of the first byte alone is taken for none, so that the next chunk leaves a gap.\<close>
theorem range_answers:
  assumes "1 < ub" and "ub < fs" and "1 < mcs" and "mcs < fs" and "fs < 2 ^ 53"
  shows "upload_chunks mcs fs ub (replicate n (Chunk_done (Some (js ''bytes=0-'' @ string_of_nat (ub - 1)))))
      = (replicate (n + 1) (ub, min (ub + mcs) fs - ub), Waits)
    \<and> fst (upload_chunks mcs fs 0 [Chunk_done (Some (js ''bytes=0-'' @ string_of_nat 0))])
      = [(0, mcs), (mcs, min (mcs + mcs) fs - mcs)]"
proof
  have w: "js ''bytes=0-'' @ s = js ''bytes=0'' @ 45 # s" "45 \<notin> set (js ''bytes=0'')" for s
    by (simp_all add: js_def)
  have "bytes_after (Some (js ''bytes=0-'' @ string_of_nat (ub - 1))) next_byte fs = ub" for next_byte
    unfolding w(1) using range_bytes [OF w(2), of "ub - 1"] assms(1,2,5) by simp
  then show "upload_chunks mcs fs ub (replicate n (Chunk_done (Some (js ''bytes=0-'' @ string_of_nat (ub - 1)))))
      = (replicate (n + 1) (ub, min (ub + mcs) fs - ub), Waits)"
    using assms(2) by (rule chunk_again)
  have "bytes_after (Some (js ''bytes=0-'' @ string_of_nat 0)) next_byte fs = next_byte" for next_byte
    unfolding w(1) using range_bytes [OF w(2), of 0] by simp
  then show "fst (upload_chunks mcs fs 0 [Chunk_done (Some (js ''bytes=0-'' @ string_of_nat 0))])
      = [(0, mcs), (mcs, min (mcs + mcs) fs - mcs)]"
    using assms(4) by (subst upload_chunks.simps, subst upload_chunks.simps) (simp add: Let_def)
qed

lemma range_answers_witness:
  "fst (upload_chunks 4 10 0 [Chunk_done (Some (js ''bytes=0-'' @ string_of_nat 0))]) = [(0, 4), (4, 4)]"
  using range_answers [of 2 10 4 0] by simp

text \<open>A regular expression written in an attribute as \<open>/pattern/flags\<close> is read back, whatever the pattern contains.\<close>
theorem pattern_roundtrip:
  assumes "47 \<notin> set flags"
  shows "getRegExp (47 # pat @ 47 # flags) = (pat, flags)"
  using split_on_snoc [OF assms, of "47 # pat"] join_split [of 47 pat] by (simp add: getRegExp_def)

lemma pattern_roundtrip_witness: "getRegExp (js ''/a/b/gi'') = (js ''a/b'', js ''gi'')"
  using pattern_roundtrip [of "js ''gi''" "js ''a/b''"] by (simp add: js_def)

section \<open>The gallery\<close>

definition no_veto :: "file_set \<Rightarrow> bool" where
  "no_veto fs = False"

definition demo_png :: up_file where
  "demo_png = \<lparr>up_name = js ''a.png'', up_type = js ''image/png'', up_size = Some 4\<rparr>"

definition demo_text :: up_file where
  "demo_text = \<lparr>up_name = js ''b.txt'', up_type = js ''text/plain'', up_size = Some 4\<rparr>"

text \<open>C23. The files of a selection before the first that is refused are submitted; the refusal throws, so that all files after it are lost without a word.\<close>
theorem refused_ends_selection:
  assumes "singleFileUploads bst" and "files \<noteq> []"
  shows "map fst (submitted (fst (gallery_select st bst True no_veto names files g)))
      = map fst (submitted g) @ map (\<lambda>f. [f]) (takeWhile (\<lambda>f. check_files st [f] = None) files)
    \<and> snd (gallery_select st bst True no_veto names files g) = (\<forall>f \<in> set files. check_files st [f] = None)"
proof -
  define sets where "sets = file_sets bst True names files"
  have sets: "map fst sets = map (\<lambda>f. [f]) files"
  proof -
    have "map fst sets = map (\<lambda>f. [f]) (map ((!) files) [0..<length files])"
      using assms by (simp add: sets_def file_sets_def Let_def)
    then show ?thesis by (simp only: map_nth)
  qed
  have "gallery_select st bst True no_veto names files g = gallery_add_all st no_veto sets g"
    using assms(2) by (simp add: gallery_select_def sets_def)
  moreover have "map fst (takeWhile (\<lambda>fs. check_files st (fst fs) = None) sets)
      = map (\<lambda>f. [f]) (takeWhile (\<lambda>f. check_files st [f] = None) files)"
    using sets takeWhile_map [of "\<lambda>fs. check_files st fs = None" fst sets]
      takeWhile_map [of "\<lambda>fs. check_files st fs = None" "\<lambda>f. [f]" files] by (simp add: comp_def)
  moreover have "(\<forall>fs \<in> set sets. check_files st (fst fs) = None) = (\<forall>f \<in> set files. check_files st [f] = None)"
  proof -
    have "(\<forall>fs \<in> set sets. check_files st (fst fs) = None) = (\<forall>fs \<in> set (map fst sets). check_files st fs = None)" by simp
    then show ?thesis unfolding sets by simp
  qed
  ultimately show ?thesis using gallery_add_all_submits [of no_veto st sets g] by (simp add: no_veto_def)
qed

lemma refused_ends_selection_witness:
  "map fst (submitted (fst (gallery_select gallery_defaults (demo_batches\<lparr>singleFileUploads := True\<rparr>) True no_veto
      [js ''files[]''] [demo_png, demo_text, demo_png] empty_gallery))) = [[demo_png]]"
proof -
  have ok: "check_files gallery_defaults [demo_png] = None"
    by (simp add: demo_png_def gallery_defaults_def refusal_def too_large_def image_type_def lower_def js_def)
  have bad: "check_files gallery_defaults [demo_text] \<noteq> None"
    by (simp add: demo_text_def gallery_defaults_def refusal_def image_type_def lower_def js_def)
  show ?thesis
    using conjunct1 [OF refused_ends_selection [of "demo_batches\<lparr>singleFileUploads := True\<rparr>"
          "[demo_png, demo_text, demo_png]" gallery_defaults "[js ''files[]'']" empty_gallery]] ok bad
    by (simp add: empty_gallery_def)
qed

text \<open>C15. The files of the gallery are those of the answers, in their order, without the one whose cross is clicked, wherever the button stands and whether it is shown or not.\<close>
theorem gallery_keeps_files:
  assumes "buttons_empty (gallery_items g)" and "gallery_items g' = a @ i # b" and "item_file i = Some f"
  shows "gallery_files (gallery_done st (Inl fs) g) = gallery_files g @ fs
    \<and> gallery_files g' = concat (map has_file a) @ f # concat (map has_file b)
    \<and> gallery_files (remove_item st (length a) g') = concat (map has_file a) @ concat (map has_file b)"
proof (intro conjI)
  define g1 where "g1 = fold renderPhoto fs g"
  have "concat (map has_file (map (\<lambda>f. \<lparr>is_new = False, item_file = Some f, visible = True\<rparr>) fs)) = fs"
    by (induction fs) (auto simp: has_file_def)
  then have "gallery_files g1 = gallery_files g @ fs" by (simp add: gallery_files_alt items_renderPhotos g1_def)
  moreover have "buttons_empty (gallery_items g1)" using assms(1) by (auto simp: buttons_empty_def items_renderPhotos g1_def)
  ultimately show "gallery_files (gallery_done st (Inl fs) g) = gallery_files g @ fs"
    using files_renderAddButton(1) [of g1 st] by (simp add: gallery_done_def g1_def)
  show "gallery_files g' = concat (map has_file a) @ f # concat (map has_file b)"
    using assms(2,3) by (simp add: gallery_files_alt has_file_def)
  show "gallery_files (remove_item st (length a) g') = concat (map has_file a) @ concat (map has_file b)"
    using assms(2) by (cases "a = []") (simp_all add: remove_item_def gallery_files_alt Let_def show_first_append)
qed

definition demo_picture :: "nat \<Rightarrow> picture" where
  "demo_picture n = \<lparr>pic_id = n, pic_name = js ''a.png'', fileUrl = js ''/a'', thumbnailUrl = js ''/t''\<rparr>"

definition demo_gallery :: gallery where
  "demo_gallery = gallery_done gallery_defaults (Inl [demo_picture 1]) empty_gallery"

lemma demo_gallery_items: "gallery_items demo_gallery = [\<lparr>is_new = True, item_file = None, visible = True\<rparr>,
    \<lparr>is_new = False, item_file = Some (demo_picture 1), visible = True\<rparr>]"
  by (simp add: demo_gallery_def gallery_done_def renderAddButton_def renderPhoto_def empty_gallery_def gallery_defaults_def
      lower_def js_def Let_def)

lemma gallery_keeps_files_witness: "gallery_files (remove_item gallery_defaults 1 demo_gallery) = []"
  using gallery_keeps_files [of empty_gallery demo_gallery "[\<lparr>is_new = True, item_file = None, visible = True\<rparr>]"
      "\<lparr>is_new = False, item_file = Some (demo_picture 1), visible = True\<rparr>" "[]" "demo_picture 1" gallery_defaults "[]"]
  by (simp add: demo_gallery_items empty_gallery_def buttons_empty_def has_file_def)

text \<open>What the user and the server do in a gallery: an answer with files, and a click on the cross of a picture.\<close>

datatype gallery_act = Answered "picture list" | Crossed nat

fun gallery_step :: "gallery_settings \<Rightarrow> gallery_act \<Rightarrow> gallery \<Rightarrow> gallery" where
  "gallery_step st (Answered fs) g = gallery_done st (Inl fs) g"
| "gallery_step st (Crossed i) g =
    (if i < length (gallery_items g) \<and> \<not> is_new (gallery_items g ! i) then remove_item st i g else g)"

definition hidden_last :: "gallery_item list \<Rightarrow> bool" where
  "hidden_last is \<longleftrightarrow> (\<exists>ps b. is = ps @ [b] \<and> is_new b \<and> \<not> visible b \<and> (\<forall>p \<in> set ps. \<not> is_new p))"

lemma hidden_last_done:
  assumes "single st" and "lower (addButtonPosition st) = js ''tail''" and "hidden_last (gallery_items g)"
  shows "hidden_last (gallery_items (gallery_done st (Inl fs) g))"
proof -
  obtain ps b where g: "gallery_items g = ps @ [b]" "is_new b" "\<not> visible b" "\<forall>p \<in> set ps. \<not> is_new p"
    using assms(3) by (auto simp: hidden_last_def)
  define new where "new = map (\<lambda>f. \<lparr>is_new = False, item_file = Some f, visible = True\<rparr>) fs"
  define its where "its = ps @ [b] @ new"
  have n: "\<forall>p \<in> set new. \<not> is_new p" by (auto simp: new_def)
  have f: "filter is_new its = [b]" "filter (\<lambda>i. \<not> is_new i) its = ps @ new"
    using g(2,4) n by (simp_all add: its_def filter_empty_conv filter_id_conv)
  have h: "hide_new (ps @ new @ [b]) = ps @ new @ [b\<lparr>visible := False\<rparr>]"
    using g(2,4) n by (simp add: hide_new_def map_idI)
  have pos: "addButtonPosition st \<noteq> []" "js ''tail'' \<noteq> js ''head''" using assms(2) by (auto simp: lower_def js_def)
  have "gallery_items (fold renderPhoto fs g) = its" by (simp add: items_renderPhotos g(1) its_def new_def)
  then have "gallery_items (gallery_done st (Inl fs) g)
      = (if ps @ new \<noteq> [] then ps @ new @ [b\<lparr>visible := False\<rparr>] else [b])"
    using assms(1,2) pos f h by (auto simp: gallery_done_def renderAddButton_def Let_def)
  then show ?thesis using g n unfolding hidden_last_def
    by (cases "ps @ new = []") (auto intro!: exI [of _ "ps @ new"])
qed

lemma hidden_last_crossed:
  assumes "hidden_last (gallery_items g)"
  shows "hidden_last (gallery_items (gallery_step st (Crossed i) g))"
proof (cases "i < length (gallery_items g) \<and> \<not> is_new (gallery_items g ! i)")
  case True
  obtain ps b where g: "gallery_items g = ps @ [b]" "is_new b" "\<not> visible b" "\<forall>p \<in> set ps. \<not> is_new p"
    using assms by (auto simp: hidden_last_def)
  have i: "i < length ps" using True g by (cases "i = length ps") (auto simp: nth_append)
  define ps' where "ps' = (if single st then show_first ps else ps)"
  have ps': "length ps' = length ps" "\<forall>p \<in> set ps'. \<not> is_new p"
    using g(4) show_first_new by (auto simp: ps'_def)
  have "(if single st then show_first (gallery_items g) else gallery_items g) = ps' @ [b]"
    using i show_first_append [of ps "[b]"] by (cases "ps = []") (simp_all add: g(1) ps'_def)
  then have "gallery_items (remove_item st i g) = (take i ps' @ drop (i + 1) ps') @ [b]"
    using i ps'(1) by (simp add: remove_item_def Let_def)
  moreover have "\<forall>p \<in> set (take i ps' @ drop (i + 1) ps'). \<not> is_new p"
    using ps'(2) by (auto dest: in_set_takeD in_set_dropD)
  moreover have "gallery_step st (Crossed i) g = remove_item st i g" using True by simp
  ultimately show ?thesis using g(2,3) unfolding hidden_last_def by metis
next
  case False
  then have "gallery_step st (Crossed i) g = g" by auto
  then show ?thesis using assms by simp
qed

text \<open>C35. In a gallery for a single picture with its button at the end, the button is never seen again after the first upload, even when no picture is left; at the head, it comes back with a click on the cross.\<close>
theorem tail_button_lost:
  assumes "single st" and "lower (addButtonPosition st) = js ''tail''" and "fs \<noteq> []"
    and "gallery_items g = [\<lparr>is_new = True, item_file = None, visible = True\<rparr>]"
  shows "filter (\<lambda>i. is_new i \<and> visible i) (gallery_items (fold (gallery_step st) acts (gallery_done st (Inl fs) g))) = []
    \<and> gallery_items (remove_item (st\<lparr>addButtonPosition := js ''head''\<rparr>) 1
        (gallery_done (st\<lparr>addButtonPosition := js ''head''\<rparr>) (Inl [f]) g)) = gallery_items g"
proof
  define new where "new = map (\<lambda>f. \<lparr>is_new = False, item_file = Some f, visible = True\<rparr>) fs"
  have n: "\<forall>p \<in> set new. \<not> is_new p" "new \<noteq> []" using assms(3) by (auto simp: new_def)
  then have f: "filter is_new new = []" "filter (\<lambda>i. \<not> is_new i) new = new" "map (\<lambda>i. if is_new i then i\<lparr>visible := False\<rparr> else i) new = new"
    by (auto simp: filter_empty_conv filter_id_conv intro: map_idI)
  have pos: "addButtonPosition st \<noteq> []" "js ''tail'' \<noteq> js ''head''" using assms(2) by (auto simp: lower_def js_def)
  have "gallery_items (gallery_done st (Inl fs) g) = new @ [\<lparr>is_new = True, item_file = None, visible = False\<rparr>]"
    using assms pos f n by (simp add: gallery_done_def renderAddButton_def Let_def items_renderPhotos new_def [symmetric] hide_new_def)
  then have "hidden_last (gallery_items (gallery_done st (Inl fs) g))" using n(1) by (auto simp: hidden_last_def)
  then have "hidden_last (gallery_items (fold (gallery_step st) acts (gallery_done st (Inl fs) g)))"
  proof (induction acts rule: rev_induct)
    case (snoc a acts)
    then show ?case
      using hidden_last_done [OF assms(1,2)] hidden_last_crossed by (cases a) (auto simp del: gallery_step.simps(2))
  qed simp
  then show "filter (\<lambda>i. is_new i \<and> visible i) (gallery_items (fold (gallery_step st) acts (gallery_done st (Inl fs) g))) = []"
    by (auto simp: hidden_last_def filter_empty_conv)
  show "gallery_items (remove_item (st\<lparr>addButtonPosition := js ''head''\<rparr>) 1
        (gallery_done (st\<lparr>addButtonPosition := js ''head''\<rparr>) (Inl [f]) g)) = gallery_items g"
    using assms(1,4)
    by (simp add: gallery_done_def renderAddButton_def renderPhoto_def Let_def hide_new_def remove_item_def show_first_def lower_def js_def)
qed

lemma tail_button_lost_witness:
  "filter (\<lambda>i. is_new i \<and> visible i) (gallery_items (fold (gallery_step (gallery_defaults\<lparr>single := True, addButtonPosition := js ''tail''\<rparr>))
    [Crossed 0] (gallery_done (gallery_defaults\<lparr>single := True, addButtonPosition := js ''tail''\<rparr>) (Inl [demo_picture 1]) empty_gallery))) = []"
  using tail_button_lost [of "gallery_defaults\<lparr>single := True, addButtonPosition := js ''tail''\<rparr>" "[demo_picture 1]" empty_gallery
      "[Crossed 0]" "demo_picture 1"]
  by (simp add: empty_gallery_def lower_def js_def)

text \<open>The title of a picture, as a browser reads it from the markup, is the name of its file exactly if the name has no quotation mark; else the rest of the name is read as markup.\<close>
theorem title_is_name:
  assumes "photo_markup st f = photo_head st f @ rest"
  shows "takeWhile (\<lambda>c. c \<noteq> 34) rest = pic_name f \<longleftrightarrow> 34 \<notin> set (pic_name f)"
proof -
  have r: "rest = pic_name f @ 34 # drop 1 (drop (length (pic_name f)) rest)"
    using assms by (auto simp: photo_markup_def js_def)
  show ?thesis
  proof
    assume "34 \<notin> set (pic_name f)"
    then show "takeWhile (\<lambda>c. c \<noteq> 34) rest = pic_name f" by (subst r) (auto simp: takeWhile_tail)
  next
    assume "takeWhile (\<lambda>c. c \<noteq> 34) rest = pic_name f"
    then show "34 \<notin> set (pic_name f)" by (metis (mono_tags, lifting) set_takeWhileD)
  qed
qed

lemma title_is_name_witness:
  "takeWhile (\<lambda>c. c \<noteq> 34) (drop (length (photo_head gallery_defaults (demo_picture 1))) (photo_markup gallery_defaults (demo_picture 1)))
    = js ''a.png''"
  using title_is_name [of gallery_defaults "demo_picture 1"
      "drop (length (photo_head gallery_defaults (demo_picture 1))) (photo_markup gallery_defaults (demo_picture 1))"]
  by (simp add: photo_markup_def demo_picture_def js_def)

end
