(* ===== verification/Upload_List.thy ===== *)
theory Upload_List
  imports Main
begin

text \<open>
  \<open>assets/plugins/jquery-file-upload/js/jquery.fileupload-ui.custom.js\<close>: the list of uploads of a page, of which the
  part that says when all is shown: each row that ends gets a deferred, and \<open>stopped\<close> is triggered when the ones noted
  since the last \<open>start\<close> are resolved. \<open>anim\<close> says that rows change by a transition of the style sheet, which ends
  later and in any order; else a row changes at once. A call of a handler has one variable \<open>deferred\<close>, which all rows
  of the upload share. The last section has the files that the rows show. Their markup is left out.
\<close>

section \<open>The state\<close>

datatype row_end = Completed | Failed_row | Removed_row

datatype list_event = Started_ev | Row_ev row_end | Finished_ev | Stopped_ev

text \<open>What a transition under way is for: the old row, the new row, the bar at the start and at the stop.\<close>

datatype row_transition = Old_row row_end nat | New_row row_end nat | Bar_start | Bar_stop nat

text \<open>
  \<open>resolved\<close> has all deferreds, \<open>finished\<close> the numbers of those that are noted (\<open>_finishedUploads\<close>), \<open>deferred_of\<close> the
  variable of each call of a handler, \<open>when_all\<close> the deferreds each \<open>$.when\<close> still waits for.
\<close>

record upload_list =
  resolved :: "bool list"
  finished :: "nat list"
  deferred_of :: "nat list"
  under_way :: "row_transition list"
  when_all :: "nat list list"
  list_log :: "list_event list"

definition fresh_list :: upload_list where
  "fresh_list = \<lparr>resolved = [], finished = [], deferred_of = [], under_way = [], when_all = [], list_log = []\<rparr>"

definition resetFinishedDeferreds :: "upload_list \<Rightarrow> upload_list" where
  "resetFinishedDeferreds s = s\<lparr>finished := []\<rparr>"

text \<open>A new deferred is noted; its number is the one before.\<close>

definition addFinishedDeferreds :: "upload_list \<Rightarrow> nat \<times> upload_list" where
  "addFinishedDeferreds s = (length (resolved s),
     s\<lparr>resolved := resolved s @ [False], finished := finished s @ [length (resolved s)]\<rparr>)"

text \<open>\<open>deferred.resolve()\<close>: \<open>stopped\<close> is triggered for each \<open>$.when\<close> that has all.\<close>

definition resolve :: "nat \<Rightarrow> upload_list \<Rightarrow> upload_list" where
  "resolve d s =
    (let r = (resolved s)[d := True]; ready = filter (list_all (\<lambda>i. r ! i)) (when_all s)
     in s\<lparr>resolved := r, when_all := filter (\<lambda>ws. \<not> list_all (\<lambda>i. r ! i) ws) (when_all s),
          list_log := list_log s @ map (\<lambda>_. Stopped_ev) ready\<rparr>)"

section \<open>Rows\<close>

text \<open>The last callback of a row: the events of the widget, then the deferred of the variable.\<close>

definition row_done :: "row_end \<Rightarrow> nat \<Rightarrow> upload_list \<Rightarrow> upload_list" where
  "row_done k h s = resolve (deferred_of s ! h) (s\<lparr>list_log := list_log s @ [Row_ev k, Finished_ev]\<rparr>)"

text \<open>The callback after the transition of the old row: it is removed, or replaced by a new one with a transition of its own.\<close>

definition old_row_gone :: "bool \<Rightarrow> row_end \<Rightarrow> nat \<Rightarrow> upload_list \<Rightarrow> upload_list" where
  "old_row_gone anim k h s =
    (if k = Removed_row then row_done Failed_row h s
     else if anim then s\<lparr>under_way := under_way s @ [New_row k h]\<rparr> else row_done k h s)"

text \<open>\<open>_transition(node).done(...)\<close>\<close>

definition transition :: "bool \<Rightarrow> row_transition \<Rightarrow> (upload_list \<Rightarrow> upload_list) \<Rightarrow> upload_list \<Rightarrow> upload_list" where
  "transition anim t callback s = (if anim then s\<lparr>under_way := under_way s @ [t]\<rparr> else callback s)"

text \<open>The loop over the \<open>n\<close> rows of an upload.\<close>

fun row_loop :: "bool \<Rightarrow> row_end \<Rightarrow> nat \<Rightarrow> nat \<Rightarrow> upload_list \<Rightarrow> upload_list" where
  "row_loop anim k h 0 s = s"
| "row_loop anim k h (Suc n) s =
    (let (d, s1) = addFinishedDeferreds s in
     row_loop anim k h n (transition anim (Old_row k h) (old_row_gone anim k h) (s1\<lparr>deferred_of := (deferred_of s1)[h := d]\<rparr>)))"

text \<open>The handlers of \<open>done\<close> and \<open>fail\<close> for an upload with \<open>n\<close> rows; without rows they make one.\<close>

definition list_done :: "bool \<Rightarrow> nat option \<Rightarrow> upload_list \<Rightarrow> upload_list" where
  "list_done anim rows s =
    (let h = length (deferred_of s); s1 = s\<lparr>deferred_of := deferred_of s @ [0]\<rparr> in
     case rows of
       Some n \<Rightarrow> row_loop anim Completed h n s1
     | None \<Rightarrow> let (d, s2) = addFinishedDeferreds s1 in
         transition anim (New_row Completed h) (row_done Completed h) (s2\<lparr>deferred_of := (deferred_of s2)[h := d]\<rparr>))"

definition list_fail :: "bool \<Rightarrow> bool \<Rightarrow> nat option \<Rightarrow> upload_list \<Rightarrow> upload_list" where
  "list_fail anim aborted rows s =
    (let h = length (deferred_of s); s1 = s\<lparr>deferred_of := deferred_of s @ [0]\<rparr> in
     case rows of
       Some n \<Rightarrow> row_loop anim (if aborted then Removed_row else Failed_row) h n s1
     | None \<Rightarrow>
         if \<not> aborted then
           let (d, s2) = addFinishedDeferreds s1 in
           transition anim (New_row Failed_row h) (row_done Failed_row h) (s2\<lparr>deferred_of := (deferred_of s2)[h := d]\<rparr>)
         else
           let (d, s2) = addFinishedDeferreds (s1\<lparr>list_log := list_log s1 @ [Row_ev Failed_row, Finished_ev]\<rparr>)
           in resolve d s2)"

section \<open>Start, stop and the ends of transitions\<close>

definition bar_started :: "upload_list \<Rightarrow> upload_list" where
  "bar_started s = s\<lparr>list_log := list_log s @ [Started_ev]\<rparr>"

definition list_start :: "bool \<Rightarrow> upload_list \<Rightarrow> upload_list" where
  "list_start anim s = transition anim Bar_start bar_started (resetFinishedDeferreds s)"

definition list_stop :: "bool \<Rightarrow> upload_list \<Rightarrow> upload_list" where
  "list_stop anim s =
    (let (d, s1) = addFinishedDeferreds s;
         s2 = s1\<lparr>when_all := when_all s1 @ [filter (\<lambda>i. \<not> resolved s1 ! i) (finished s1)]\<rparr>
     in transition anim (Bar_stop d) (resolve d) s2)"

text \<open>The transition number \<open>i\<close> of those under way ends.\<close>

definition transition_ends :: "nat \<Rightarrow> upload_list \<Rightarrow> upload_list" where
  "transition_ends i s =
    (if i < length (under_way s) then
       let s1 = s\<lparr>under_way := take i (under_way s) @ drop (i + 1) (under_way s)\<rparr> in
       case under_way s ! i of
         Old_row k h \<Rightarrow> old_row_gone True k h s1
       | New_row k h \<Rightarrow> row_done k h s1
       | Bar_start \<Rightarrow> bar_started s1
       | Bar_stop d \<Rightarrow> resolve d s1
     else s)"

section \<open>The deferred that nobody resolves\<close>

text \<open>Deferred \<open>d\<close> is in no variable and in no transition, and every \<open>$.when\<close> waits for it.\<close>

fun trans_ok :: "nat \<Rightarrow> nat \<Rightarrow> row_transition \<Rightarrow> bool" where
  "trans_ok n d (Old_row k h) = (h < n)"
| "trans_ok n d (New_row k h) = (h < n)"
| "trans_ok n d Bar_start = True"
| "trans_ok n d (Bar_stop e) = (e \<noteq> d)"

definition orphan :: "nat \<Rightarrow> upload_list \<Rightarrow> bool" where
  "orphan d s \<longleftrightarrow> d < length (resolved s) \<and> \<not> resolved s ! d \<and> d \<notin> set (deferred_of s)
     \<and> (\<forall>t \<in> set (under_way s). trans_ok (length (deferred_of s)) d t)
     \<and> (\<forall>ws \<in> set (when_all s). d \<in> set ws) \<and> Stopped_ev \<notin> set (list_log s)"

lemma orphan_resolve:
  assumes "orphan d s" and "e \<noteq> d"
  shows "orphan d (resolve e s)"
proof -
  have kept: "\<not> (resolved s)[e := True] ! d" using assms by (simp add: orphan_def)
  have waits: "\<forall>ws \<in> set (when_all s). \<not> list_all (\<lambda>i. (resolved s)[e := True] ! i) ws"
    using assms(1) kept by (auto simp: orphan_def list_all_iff)
  then have "filter (list_all (\<lambda>i. (resolved s)[e := True] ! i)) (when_all s) = []" by (simp add: filter_empty_conv)
  then show ?thesis using assms(1) kept by (simp add: orphan_def resolve_def Let_def)
qed

lemma orphan_row_done: "orphan d s \<Longrightarrow> h < length (deferred_of s) \<Longrightarrow> orphan d (row_done k h s)"
  unfolding row_done_def by (rule orphan_resolve) (auto simp: orphan_def)

lemma orphan_old_row: "orphan d s \<Longrightarrow> h < length (deferred_of s) \<Longrightarrow> orphan d (old_row_gone True k h s)"
  by (auto simp: old_row_gone_def orphan_row_done) (auto simp: orphan_def)

lemma orphan_ends: "orphan d s \<Longrightarrow> orphan d (transition_ends i s)"
proof (cases "i < length (under_way s)")
  case True
  assume o: "orphan d s"
  define s1 where "s1 = s\<lparr>under_way := take i (under_way s) @ drop (i + 1) (under_way s)\<rparr>"
  have o1: "orphan d s1" using o by (auto simp: orphan_def s1_def dest: in_set_takeD in_set_dropD)
  have t: "under_way s ! i \<in> set (under_way s)" using True by simp
  have same: "deferred_of s1 = deferred_of s" by (simp add: s1_def)
  have "orphan d (case under_way s ! i of Old_row k h \<Rightarrow> old_row_gone True k h s1 | New_row k h \<Rightarrow> row_done k h s1
       | Bar_start \<Rightarrow> bar_started s1 | Bar_stop d \<Rightarrow> resolve d s1)"
  proof (cases "under_way s ! i")
    case (Old_row k h)
    then have "h < length (deferred_of s1)" using o t by (force simp: orphan_def s1_def)
    then show ?thesis using Old_row o1 by (simp add: orphan_old_row)
  next
    case (New_row k h)
    then have "h < length (deferred_of s1)" using o t by (force simp: orphan_def s1_def)
    then show ?thesis using New_row o1 by (simp add: orphan_row_done)
  next
    case Bar_start
    then show ?thesis using o1 by (auto simp: bar_started_def orphan_def)
  next
    case (Bar_stop e)
    then have "e \<noteq> d" using o t by (force simp: orphan_def)
    then show ?thesis using Bar_stop o1 by (simp add: orphan_resolve)
  qed
  then show ?thesis using True unfolding transition_ends_def by (simp only: if_True Let_def s1_def [symmetric])
qed (simp add: transition_ends_def)

lemma row_loop_animated:
  "row_loop True k h n s = s\<lparr>resolved := resolved s @ replicate n False,
     finished := finished s @ [length (resolved s)..<length (resolved s) + n],
     deferred_of := (if n = 0 then deferred_of s else (deferred_of s)[h := length (resolved s) + n - 1]),
     under_way := under_way s @ replicate n (Old_row k h)\<rparr>"
proof (induction n arbitrary: s)
  case (Suc n)
  have "[length (resolved s)..<length (resolved s) + Suc n] = length (resolved s) # [Suc (length (resolved s))..<Suc (length (resolved s) + n)]"
    by (simp add: upt_conv_Cons del: upt_Suc)
  then show ?case
    by (simp add: Suc.IH addFinishedDeferreds_def transition_def del: upt_Suc)
qed simp

lemma row_loop_at_once:
  assumes "k \<noteq> Removed_row" and "h < length (deferred_of s)" and "when_all s = []" and "list_all (\<lambda>b. b) (resolved s)"
    and "\<forall>i \<in> set (finished s). i < length (resolved s)"
  shows "list_all (\<lambda>b. b) (resolved (row_loop False k h n s)) \<and> when_all (row_loop False k h n s) = []
    \<and> (\<forall>i \<in> set (finished (row_loop False k h n s)). i < length (resolved (row_loop False k h n s)))"
  using assms
proof (induction n arbitrary: s)
  case (Suc n)
  define s1 where "s1 = transition False (Old_row k h) (old_row_gone False k h)
      ((snd (addFinishedDeferreds s))\<lparr>deferred_of := (deferred_of s)[h := length (resolved s)]\<rparr>)"
  have "row_loop False k h (Suc n) s = row_loop False k h n s1" by (simp add: s1_def addFinishedDeferreds_def)
  moreover have "h < length (deferred_of s1)" "when_all s1 = []" "list_all (\<lambda>b. b) (resolved s1)"
    "\<forall>i \<in> set (finished s1). i < length (resolved s1)"
    using Suc.prems by (auto simp add: s1_def addFinishedDeferreds_def transition_def old_row_gone_def row_done_def resolve_def Let_def less_Suc_eq)
  ultimately show ?case using Suc.IH [OF Suc.prems(1), of s1] by simp
qed simp

text \<open>C18. When an upload of two or more files ends and its rows change by transitions, \<open>stopped\<close> is never triggered, in whatever order the transitions end; without transitions it is.\<close>
theorem stopped_is_lost:
  assumes "n \<ge> 2"
  shows "Stopped_ev \<notin> set (list_log (fold transition_ends ends (list_stop True (list_done True (Some n) (list_start True fresh_list)))))
    \<and> Stopped_ev \<in> set (list_log (list_stop False (list_done False (Some n) (list_start False fresh_list))))"
proof
  have "orphan 0 (list_stop True (list_done True (Some n) (list_start True fresh_list)))"
    using assms
    by (auto simp: orphan_def list_stop_def list_start_def resetFinishedDeferreds_def list_done_def row_loop_animated fresh_list_def addFinishedDeferreds_def
        transition_def nth_append)
  then have "orphan 0 (fold transition_ends ends (list_stop True (list_done True (Some n) (list_start True fresh_list))))"
    by (induction ends rule: rev_induct) (auto simp: orphan_ends)
  then show "Stopped_ev \<notin> set (list_log (fold transition_ends ends (list_stop True (list_done True (Some n) (list_start True fresh_list)))))"
    by (simp add: orphan_def)
next
  define s where "s = list_done False (Some n) (list_start False fresh_list)"
  have s: "list_all (\<lambda>b. b) (resolved s)" "when_all s = []" "\<forall>i \<in> set (finished s). i < length (resolved s)"
    using row_loop_at_once [of Completed 0 "(list_start False fresh_list)\<lparr>deferred_of := [0]\<rparr>" n]
    by (simp_all add: s_def list_done_def list_start_def resetFinishedDeferreds_def transition_def bar_started_def fresh_list_def)
  define ws where "ws = filter (\<lambda>i. \<not> (resolved s @ [False]) ! i) (finished s @ [length (resolved s)])"
  have "((resolved s @ [False])[length (resolved s) := True]) = resolved s @ [True]" by simp
  moreover have "list_all (\<lambda>i. (resolved s @ [True]) ! i) ws"
    using s(1,3) by (auto simp: ws_def list_all_iff nth_append)
  ultimately show "Stopped_ev \<in> set (list_log (list_stop False (list_done False (Some n) (list_start False fresh_list))))"
    by (auto simp: s_def [symmetric] list_stop_def addFinishedDeferreds_def transition_def resolve_def s(2) ws_def Let_def split: if_splits)
qed

lemma stopped_is_lost_witness:
  "Stopped_ev \<notin> set (list_log (fold transition_ends [1, 0, 1, 0] (list_stop True (list_done True (Some 2) (list_start True fresh_list)))))
    \<and> Stopped_ev \<in> set (list_log (list_stop False (list_done False (Some 2) (list_start False fresh_list))))"
  by (rule stopped_is_lost) simp

section \<open>What the rows show\<close>

text \<open>A file of the server's answer, and the answer: \<open>files\<close> is \<open>None\<close> when it is not an array.\<close>

record server_file =
  file_title :: string
  file_error :: "string option"

record upload_answer =
  success :: bool
  answer_files :: "server_file list option"
  answer_message :: string

definition getFilesFromResponse :: "upload_answer option \<Rightarrow> server_file list" where
  "getFilesFromResponse result = (case result of
      None \<Rightarrow> []
    | Some a \<Rightarrow> (case answer_files a of
        None \<Rightarrow> []
      | Some fs \<Rightarrow>
          if success a
          then map (\<lambda>f. if \<not> success a then f\<lparr>file_error := Some (answer_message a)\<rparr> else f) fs
          else []))"

text \<open>\<open>files[index] || {error: 'Empty file upload result'}\<close>\<close>

definition row_file :: "server_file list \<Rightarrow> nat \<Rightarrow> server_file" where
  "row_file fs i = (if i < length fs then fs ! i else \<lparr>file_title = [], file_error = Some ''Empty file upload result''\<rparr>)"

text \<open>The rows never show the message of the answer; when the server refuses, all show the same text.\<close>

lemma message_never_shown:
  "getFilesFromResponse (Some (a\<lparr>answer_message := m\<rparr>)) = getFilesFromResponse (Some a)"
  "row_file (getFilesFromResponse (Some (a\<lparr>success := False\<rparr>))) i = \<lparr>file_title = [], file_error = Some ''Empty file upload result''\<rparr>"
  by (auto simp: getFilesFromResponse_def row_file_def cong: option.case_cong split: option.splits)

end
