(* ===== verification/Menu_Accordion.thy ===== *)
theory Menu_Accordion
  imports Js_Strings "HOL-Library.Sublist"
begin

text \<open>
  \<open>assets/plugins/multiple-accordion/scriptbreaker-multiple-accordion-1.js\<close>, which \<open>main.js\<close> puts on the menu: lists
  that open and close below the items of a list. An item is the path of positions from the root list, and the list
  below it has the same path. The state are the lists that are not folded and the items whose sign says so; a list is
  seen when all lists around it are open too. Animations are taken at their end.
\<close>

section \<open>Menus\<close>

text \<open>An item: whether it has the classes \<open>hidden\<close> and \<open>active\<close>, and the list below it.\<close>

datatype menu_item = Menu_item (hidden_item: bool) (active_item: bool) (below: "menu_item list")

fun shown_inside :: "menu_item \<Rightarrow> bool" where
  "shown_inside (Menu_item h a ms) = list_ex (\<lambda>m. \<not> hidden_item m \<or> shown_inside m) ms"

fun item_at :: "menu_item list \<Rightarrow> nat list \<Rightarrow> menu_item option" where
  "item_at ms [] = None"
| "item_at ms [i] = (if i < length ms then Some (ms ! i) else None)"
| "item_at ms (i # p) = (if i < length ms then item_at (below (ms ! i)) p else None)"

definition has_sign :: "menu_item list \<Rightarrow> nat list \<Rightarrow> bool" where
  "has_sign ms p = (case item_at ms p of None \<Rightarrow> False | Some m \<Rightarrow> shown_inside m)"

record menu_state =
  open_lists :: "nat list set"
  open_signs :: "nat list set"

definition list_seen :: "nat list set \<Rightarrow> nat list \<Rightarrow> bool" where
  "list_seen opened p \<longleftrightarrow> (\<forall>n \<in> {1..length p}. take n p \<in> opened)"

text \<open>The paths of the active items, in the order of the document.\<close>

fun active_paths :: "nat list \<Rightarrow> nat \<Rightarrow> menu_item list \<Rightarrow> nat list list" where
  "active_paths p i [] = []"
| "active_paths p i (Menu_item h a ms # rest) =
    (if a then [p @ [i]] else []) @ active_paths (p @ [i]) 0 ms @ active_paths p (i + 1) rest"

section \<open>Opening and closing\<close>

definition open_list :: "menu_item list \<Rightarrow> nat list \<Rightarrow> menu_state \<Rightarrow> menu_state" where
  "open_list ms p s = s\<lparr>open_lists := insert p (open_lists s),
     open_signs := if has_sign ms p then insert p (open_signs s) else open_signs s\<rparr>"

definition close_lists :: "nat list set \<Rightarrow> menu_state \<Rightarrow> menu_state" where
  "close_lists ps s = s\<lparr>open_lists := open_lists s - ps, open_signs := open_signs s - ps\<rparr>"

text \<open>At the start the lists around active items are opened.\<close>

definition open_active :: "menu_item list \<Rightarrow> nat list \<Rightarrow> menu_state \<Rightarrow> menu_state" where
  "open_active ms p s = fold (\<lambda>n. open_list ms (take n p)) [1..<length p] s"

definition accordion_start :: "menu_item list \<Rightarrow> menu_state" where
  "accordion_start ms = fold (open_active ms) (active_paths [] 0 ms) \<lparr>open_lists = {}, open_signs = {}\<rparr>"

text \<open>A click on item \<open>p\<close>. \<open>accordion\<close> is the setting; with it, the lists that are seen and not around the item are closed.\<close>

definition accordion_click :: "bool \<Rightarrow> menu_item list \<Rightarrow> nat list \<Rightarrow> menu_state \<Rightarrow> menu_state" where
  "accordion_click accordion ms p s =
    (if \<not> has_sign ms p then s
     else let seen = {q \<in> open_lists s. list_seen (open_lists s) q};
              s1 = (if accordion \<and> (\<forall>q \<in> seen. \<not> prefix p q)
                    then close_lists {q \<in> seen. \<not> strict_prefix q p} s else s)
       in if p \<in> seen then close_lists {p} s1 else open_list ms p s1)"

text \<open>The user can click an item that is seen.\<close>

definition item_seen :: "nat list set \<Rightarrow> nat list \<Rightarrow> bool" where
  "item_seen opened p \<longleftrightarrow> (\<forall>n \<in> {1..<length p}. take n p \<in> opened)"

definition menu_click :: "bool \<Rightarrow> menu_item list \<Rightarrow> nat list \<Rightarrow> menu_state \<Rightarrow> menu_state" where
  "menu_click accordion ms p s = (if item_seen (open_lists s) p then accordion_click accordion ms p s else s)"

section \<open>One list on each level\<close>

definition alone :: "nat list set \<Rightarrow> bool" where
  "alone opened \<longleftrightarrow> [] \<notin> opened \<and> (\<forall>q \<in> opened. \<forall>r \<in> opened. butlast q = butlast r \<longrightarrow> q = r)"

lemma alone_subset: "alone opened \<Longrightarrow> ps \<subseteq> opened \<Longrightarrow> alone ps"
  by (auto simp: alone_def)

lemma alone_insert: "alone opened \<Longrightarrow> p \<noteq> [] \<Longrightarrow> (\<And>q. q \<in> opened \<Longrightarrow> butlast q = butlast p \<Longrightarrow> q = p) \<Longrightarrow> alone (insert p opened)"
  by (auto simp: alone_def)

lemma butlast_same_length: "butlast q = butlast p \<Longrightarrow> q \<noteq> [] \<Longrightarrow> p \<noteq> [] \<Longrightarrow> length q = length p"
proof -
  assume a: "butlast q = butlast p" "q \<noteq> []" "p \<noteq> []"
  have "length q - 1 = length p - 1" using arg_cong [OF a(1), of length] unfolding length_butlast .
  moreover have "0 < length q" "0 < length p" using a(2,3) by simp_all
  ultimately show ?thesis by linarith
qed

lemma open_active_fields:
  "open_lists (open_active ms p s) = open_lists s \<union> (\<lambda>n. take n p) ` {1..<length p}"
  "open_signs (open_active ms p s) = open_signs s \<union> {q. \<exists>n \<in> {1..<length p}. q = take n p \<and> has_sign ms q}"
proof -
  have "open_lists (fold (\<lambda>n. open_list ms (take n p)) ns s) = open_lists s \<union> (\<lambda>n. take n p) ` set ns
    \<and> open_signs (fold (\<lambda>n. open_list ms (take n p)) ns s) = open_signs s \<union> {q. \<exists>n \<in> set ns. q = take n p \<and> has_sign ms q}" for ns
    by (induction ns arbitrary: s) (auto simp: open_list_def)
  from this [of "[1..<length p]"]
  show "open_lists (open_active ms p s) = open_lists s \<union> (\<lambda>n. take n p) ` {1..<length p}"
    "open_signs (open_active ms p s) = open_signs s \<union> {q. \<exists>n \<in> {1..<length p}. q = take n p \<and> has_sign ms q}"
    by (simp_all add: open_active_def)
qed

lemma fold_open_active:
  "open_lists (fold (open_active ms) ps s) = open_lists s \<union> (\<Union>p \<in> set ps. (\<lambda>n. take n p) ` {1..<length p})"
  by (induction ps arbitrary: s) (auto simp: open_active_fields)

text \<open>The lists around items on one path are alone on their levels.\<close>

lemma alone_prefixes:
  assumes "\<forall>p \<in> set ps. \<forall>q \<in> set ps. prefix p q \<or> prefix q p"
  shows "alone (\<Union>p \<in> set ps. (\<lambda>n. take n p) ` {1..<length p})"
proof -
  have "take n p = take m q"
    if "p \<in> set ps" "q \<in> set ps" "n < length p" "m < length q" "0 < n" "0 < m" "butlast (take n p) = butlast (take m q)" for n m p q
  proof -
    have "length (take n p) = length (take m q)" using that by (intro butlast_same_length) auto
    then have "n = m" using that by simp
    moreover have "prefix p q \<or> prefix q p" using assms that by blast
    ultimately show ?thesis using that by (auto simp: prefix_def)
  qed
  then show ?thesis by (auto simp: alone_def)
qed

lemma has_sign_nonempty: "has_sign ms p \<Longrightarrow> p \<noteq> []"
  by (auto simp: has_sign_def)

lemma sibling_seen:
  assumes "item_seen opened p" and "q \<in> opened" and "butlast q = butlast p" and "q \<noteq> []" "p \<noteq> []"
  shows "list_seen opened q"
  unfolding list_seen_def
proof
  fix n assume n: "n \<in> {1..length q}"
  have len: "length q = length p" using assms(3,4,5) by (rule butlast_same_length)
  show "take n q \<in> opened"
  proof (cases "n = length q")
    case False
    then have "take n q = take n (butlast q)" "take n p = take n (butlast p)" using n len by (auto simp: take_butlast)
    then have "take n q = take n p" using assms(3) by simp
    then show ?thesis using assms(1) n len False by (auto simp: item_seen_def)
  qed (use assms(2) in simp)
qed

lemma alone_click:
  assumes "alone (open_lists s)" and "item_seen (open_lists s) p"
  shows "alone (open_lists (accordion_click True ms p s))"
proof (cases "has_sign ms p")
  case True
  define opened where "opened = open_lists s"
  define seen where "seen = {q \<in> opened. list_seen opened q}"
  have p: "p \<noteq> []" using True by (rule has_sign_nonempty)
  show ?thesis
  proof (cases "p \<in> seen")
    case True
    have "alone (opened - {p})" using assms(1) by (auto simp: opened_def intro: alone_subset)
    then show ?thesis
      using True \<open>has_sign ms p\<close> by (auto simp: accordion_click_def Let_def close_lists_def opened_def [symmetric] seen_def [symmetric])
  next
    case False
    have new: "p \<notin> opened"
    proof
      assume "p \<in> opened"
      then have "list_seen opened p" using assms(2) p sibling_seen [of opened p p] by (auto simp: opened_def)
      then show False using False \<open>p \<in> opened\<close> by (simp add: seen_def)
    qed
    have none: "\<not> prefix p q" if "q \<in> seen" for q
    proof
      assume "prefix p q"
      then have "take (length p) q = p" "length p \<in> {1..length q}" using p by (auto simp: prefix_def Suc_le_eq)
      moreover have "\<forall>n \<in> {1..length q}. take n q \<in> opened" using that by (simp add: seen_def list_seen_def)
      ultimately show False using new by metis
    qed
    have "alone (insert p (opened - {q \<in> seen. \<not> strict_prefix q p}))"
    proof (rule alone_insert)
      show "alone (opened - {q \<in> seen. \<not> strict_prefix q p})" using assms(1) by (auto simp: opened_def intro: alone_subset)
      fix q assume q: "q \<in> opened - {q \<in> seen. \<not> strict_prefix q p}" "butlast q = butlast p"
      then have "q \<noteq> []" using assms(1) by (auto simp: alone_def opened_def)
      then have "q \<in> seen" using q p sibling_seen [of opened p q] assms(2) by (auto simp: seen_def opened_def)
      then have "strict_prefix q p" using q by blast
      moreover have "length q = length p"
        using q(2) \<open>q \<noteq> []\<close> p by (rule butlast_same_length)
      ultimately show "q = p" using prefix_length_less by fastforce
    qed (rule p)
    then show ?thesis
      using False none \<open>has_sign ms p\<close>
      by (auto simp: accordion_click_def Let_def close_lists_def open_list_def opened_def [symmetric] seen_def [symmetric])
  qed
qed (simp add: accordion_click_def assms(1))

definition signs_right :: "menu_item list \<Rightarrow> menu_state \<Rightarrow> bool" where
  "signs_right ms s \<longleftrightarrow> open_signs s = {p \<in> open_lists s. has_sign ms p}"

lemma signs_click: "signs_right ms s \<Longrightarrow> signs_right ms (accordion_click accordion ms p s)"
  by (auto simp: signs_right_def accordion_click_def Let_def close_lists_def open_list_def)

lemma signs_start: "signs_right ms (accordion_start ms)"
proof -
  have one: "signs_right ms s \<Longrightarrow> signs_right ms (open_active ms p s)" for p s
    by (auto simp: signs_right_def open_active_fields)
  have "signs_right ms s \<Longrightarrow> signs_right ms (fold (open_active ms) ps s)" for ps s
    by (induction ps arbitrary: s) (auto simp: one)
  then show ?thesis by (simp add: accordion_start_def signs_right_def)
qed

text \<open>Lists that are seen and alone on their levels are on one path.\<close>

lemma seen_comparable:
  assumes "alone opened" and "list_seen opened q" and "list_seen opened r"
  shows "prefix q r \<or> prefix r q"
proof -
  have "take n q = take n r" if "n \<le> length q" "n \<le> length r" for n
    using that
  proof (induction n)
    case (Suc n)
    have "butlast (take (Suc n) q) = butlast (take (Suc n) r)" using Suc by (simp add: butlast_take)
    moreover have "take (Suc n) q \<in> opened" "take (Suc n) r \<in> opened" using Suc.prems assms(2,3) by (auto simp: list_seen_def)
    ultimately show ?case using assms(1) by (auto simp: alone_def)
  qed simp
  note same = this
  show ?thesis
  proof (cases "length q \<le> length r")
    case True
    then have "q = take (length q) r" using same [of "length q"] by simp
    then show ?thesis by (metis take_is_prefix)
  next
    case False
    then have "r = take (length r) q" using same [of "length r"] by simp
    then show ?thesis by (metis take_is_prefix)
  qed
qed

text \<open>C17. In a menu whose active items are on one path, as the server marks them, the lists that are seen lie on one path whatever is clicked, and every sign says whether its list is open.\<close>
theorem menu_one_path:
  assumes "\<forall>p \<in> set (active_paths [] 0 ms). \<forall>q \<in> set (active_paths [] 0 ms). prefix p q \<or> prefix q p" and "s = fold (menu_click True ms) ps (accordion_start ms)"
  shows "(list_seen (open_lists s) q \<and> list_seen (open_lists s) r \<longrightarrow> prefix q r \<or> prefix r q)
    \<and> open_signs s = {p \<in> open_lists s. has_sign ms p}"
proof -
  have "alone (open_lists (accordion_start ms))"
    using alone_prefixes [OF assms(1)] by (simp add: accordion_start_def fold_open_active)
  then have "alone (open_lists (fold (menu_click True ms) ps (accordion_start ms)))
    \<and> signs_right ms (fold (menu_click True ms) ps (accordion_start ms))"
    by (induction ps rule: rev_induct) (auto simp: signs_start menu_click_def alone_click signs_click)
  then show ?thesis using seen_comparable assms(2) by (auto simp: signs_right_def)
qed

definition demo_menu :: "menu_item list" where
  "demo_menu = [Menu_item False True [Menu_item False True []], Menu_item False False [Menu_item False False []]]"

lemma menu_one_path_witness:
  "open_signs (fold (menu_click True demo_menu) [[1], [0], [0]] (accordion_start demo_menu))
    = {p \<in> open_lists (fold (menu_click True demo_menu) [[1], [0], [0]] (accordion_start demo_menu)). has_sign demo_menu p}"
  by (rule conjunct2 [OF menu_one_path [OF _ refl]]) (simp add: demo_menu_def)

end
