(* ===== verification/Page_Console.thy ===== *)
theory Page_Console
  imports Service
begin

text \<open>
  \<open>assets/plugins/jquery.console.js\<close>: the log that a page shows, in which a message that comes again is counted, and
  the choice of the language, which is a parameter of the address. The animation of colours is left out.
\<close>

section \<open>The log\<close>

text \<open>An entry: the message, the number it shows if any, and whether it is an error. The newest is first.\<close>

record console_state =
  entries :: "(jsstr \<times> nat option \<times> bool) list"
  old_message :: "jsstr option"
  message_count :: nat

definition console_log :: "jsstr \<Rightarrow> bool \<Rightarrow> console_state \<Rightarrow> console_state" where
  "console_log msg err s = (case entries s of
      (m, n, e) # rest \<Rightarrow>
        if old_message s \<noteq> Some msg
        then s\<lparr>old_message := Some msg, message_count := 1, entries := (msg, None, err) # entries s\<rparr>
        else s\<lparr>message_count := message_count s + 1, entries := (m, Some (message_count s + 1), e) # rest\<rparr>
    | [] \<Rightarrow> s\<lparr>old_message := Some msg, message_count := 1, entries := [(msg, None, err)]\<rparr>)"

definition console_error :: "jsstr \<Rightarrow> console_state \<Rightarrow> console_state" where
  "console_error msg s = console_log msg True s"

section \<open>The language\<close>

definition culture_key :: jsstr where
  "culture_key = js ''culture=''"

text \<open>What follows the last occurrence of a text.\<close>

fun after_last_of :: "jsstr \<Rightarrow> jsstr \<Rightarrow> jsstr option" where
  "after_last_of t [] = None"
| "after_last_of t (c # s) = (case after_last_of t s of
      Some u \<Rightarrow> Some u
    | None \<Rightarrow> if take (length t) (c # s) = t then Some (drop (length t) (c # s)) else None)"

text \<open>\<open>href.replace(/(.*)culture=([^&]*)/, "$2")\<close>: the rest of the address after the match stays. The address has no line breaks.\<close>

definition shown_culture :: "jsstr \<Rightarrow> jsstr option" where
  "shown_culture href = (if index_of href (js ''culture'') > -1
     then Some (case after_last_of culture_key href of Some u \<Rightarrow> takeWhile (\<lambda>c. c \<noteq> 38) u @ dropWhile (\<lambda>c. c \<noteq> 38) u | None \<Rightarrow> href)
     else None)"

text \<open>\<open>href.replace(/culture=([^&]*)/, "culture=" + value)\<close>, or a new parameter. The value has no dollar sign.\<close>

definition change_culture :: "jsstr \<Rightarrow> jsstr \<Rightarrow> jsstr" where
  "change_culture v href =
    (if index_of href (js ''culture'') > -1 then
       (let i = index_of href culture_key in
        if i = -1 then href
        else take (nat i) href @ culture_key @ v @ dropWhile (\<lambda>c. c \<noteq> 38) (drop (nat i + length culture_key) href))
     else if index_of href (js ''?'') > -1 then href @ js ''&culture='' @ v
     else href @ js ''?culture='' @ v)"

section \<open>Messages are counted\<close>

text \<open>Runs of equal messages with their lengths, the latest first.\<close>

fun runs :: "jsstr list \<Rightarrow> (jsstr \<times> nat) list \<Rightarrow> (jsstr \<times> nat) list" where
  "runs [] rs = rs"
| "runs (m # ms) [] = runs ms [(m, 1)]"
| "runs (m # ms) ((k, n) # rs) = runs ms (if m = k then (k, n + 1) # rs else (m, 1) # (k, n) # rs)"

definition entry_runs :: "console_state \<Rightarrow> (jsstr \<times> nat) list" where
  "entry_runs s = map (\<lambda>(m, n, e). (m, case n of None \<Rightarrow> 1 | Some k \<Rightarrow> k)) (entries s)"

definition console_ok :: "console_state \<Rightarrow> bool" where
  "console_ok s \<longleftrightarrow> (case entries s of [] \<Rightarrow> True
     | (m, n, e) # rest \<Rightarrow> old_message s = Some m \<and> message_count s = (case n of None \<Rightarrow> 1 | Some k \<Rightarrow> k))"

definition fresh_console :: console_state where
  "fresh_console = \<lparr>entries = [], old_message = None, message_count = 0\<rparr>"

lemma console_log_runs:
  "console_ok s \<Longrightarrow> console_ok (console_log msg err s) \<and> entry_runs (console_log msg err s) = runs [msg] (entry_runs s)"
  by (cases "entries s") (auto simp: console_ok_def console_log_def entry_runs_def split: option.splits prod.splits)

lemma runs_snoc: "runs (ms @ [m]) rs = runs [m] (runs ms rs)"
  by (induction ms rs rule: runs.induct) auto

text \<open>The log shows the runs of equal messages with their lengths, the latest first, whatever was logged as an error.\<close>
theorem console_counts_runs:
  "entry_runs (fold (\<lambda>(m, e). console_log m e) msgs fresh_console) = runs (map fst msgs) []"
proof -
  have "console_ok (fold (\<lambda>(m, e). console_log m e) msgs fresh_console)
    \<and> entry_runs (fold (\<lambda>(m, e). console_log m e) msgs fresh_console) = runs (map fst msgs) []"
  proof (induction msgs rule: rev_induct)
    case Nil
    then show ?case by (simp add: console_ok_def fresh_console_def entry_runs_def)
  next
    case (snoc x msgs)
    then show ?case using console_log_runs by (auto simp: runs_snoc split: prod.splits)
  qed
  then show ?thesis by simp
qed

section \<open>The language is read back\<close>

lemma after_last_none: "61 \<notin> set s \<Longrightarrow> after_last_of culture_key s = None"
proof (induction s)
  case (Cons c s)
  have "61 \<in> set culture_key" by (simp add: culture_key_def js_def)
  then have "take (length culture_key) (c # s) \<noteq> culture_key" using Cons.prems by (metis in_set_takeD)
  then show ?case using Cons by simp
qed simp

lemma after_last_key: "61 \<notin> set v \<Longrightarrow> after_last_of culture_key (x @ culture_key @ v) = Some v"
proof (induction x)
  case Nil
  then have "after_last_of culture_key v = None" by (rule after_last_none)
  then show ?case by (simp add: culture_key_def js_def)
qed simp

lemma index_from_ge: "\<exists>a b. s = a @ t @ b \<Longrightarrow> index_from n t s \<ge> int n"
proof (induction s arbitrary: n)
  case Nil
  then show ?case by (subst index_from.simps) auto
next
  case (Cons c s)
  show ?case
  proof (cases "take (length t) (c # s) = t")
    case False
    then obtain a b where "s = a @ t @ b" using Cons.prems by (metis append_eq_Cons_conv append_eq_conv_conj)
    then show ?thesis using False Cons.IH [of "Suc n"] by (subst index_from.simps) force
  qed (subst index_from.simps, simp)
qed

text \<open>A language chosen on a page without one is shown on the next, unless the address has a fragment, which it is put into; and a language with other parameters after it is shown with all of them.\<close>
theorem culture_readback:
  assumes "\<not> index_of href (js ''culture'') > -1" and "61 \<notin> set v" and "61 \<notin> set v'"
  shows "shown_culture (change_culture v href) = Some v
    \<and> (35 \<in> set href \<longrightarrow> takeWhile (\<lambda>c. c \<noteq> 35) (change_culture v href) = takeWhile (\<lambda>c. c \<noteq> 35) href)
    \<and> shown_culture (x @ culture_key @ v @ 38 # v') = Some (v @ 38 # v')"
proof -
  have key: "culture_key = js ''culture'' @ js ''=''" by (simp add: culture_key_def js_def)
  have shown: "shown_culture (y @ culture_key @ u) = Some u" if "61 \<notin> set u" for y u
  proof -
    have "index_of (y @ culture_key @ u) (js ''culture'') \<ge> 0"
      unfolding index_of_def using index_from_ge [of "y @ culture_key @ u" "js ''culture''" 0] by (auto simp: key)
    then show ?thesis using after_last_key [OF that, of y] by (simp add: shown_culture_def)
  qed
  have "change_culture v href = href @ js ''&culture='' @ v \<or> change_culture v href = href @ js ''?culture='' @ v"
    using assms(1) by (simp add: change_culture_def)
  then obtain c where c: "change_culture v href = (href @ [c]) @ culture_key @ v" by (auto simp: culture_key_def js_def)
  have "35 \<in> set href \<longrightarrow> takeWhile (\<lambda>c. c \<noteq> 35) (change_culture v href) = takeWhile (\<lambda>c. c \<noteq> 35) href"
    unfolding c by (auto simp: takeWhile_append1)
  then show ?thesis using shown [OF assms(2), of "href @ [c]"] shown [of "v @ 38 # v'" x] assms(2,3) c by simp
qed

lemma culture_readback_witness: "shown_culture (change_culture (js ''zh'') (js ''/a?b'')) = Some (js ''zh'')"
proof -
  have "\<not> index_of (js ''/a?b'') (js ''culture'') > -1"
    by (simp add: index_of_def js_def index_from.simps)
  then show ?thesis using culture_readback [of "js ''/a?b''" "js ''zh''" "[]"] by (simp add: js_def)
qed

end
