(* ===== verification/Spec2Isabelle.thy ===== *)
theory Spec2Isabelle
  imports Rsa_Contract Table_Contract Format_Contract Validate_Contract Page_Form_Contract Page_Url_Contract Service_Contract Check_Tree App_Shell Validator_Contract Upload_Contract
    Upload_List Menu_Accordion Page_Console
begin

text \<open>
  Verification library for the browser code of qrmp-manage, the files under
  \<open>qrmp-manage/qrmp-manage-webapp/src/main/webapp/assets\<close> (below: \<open>assets\<close>).

  \<^bold>\<open>The program and its parts.\<close> The pages of this administration tool are made on the server; in the browser they
  work by plugins of jQuery. The frame of a page (\<open>js/app.js\<close>, \<open>js/main.js\<close>) keeps the menu, the panels, the mask
  shown while requests run, and the window in which the user logs in again. A list page fills and pages its table
  (\<open>plugins/jquery.table.js\<close>), writes the numbers in it by \<open>libs/ecma.script.plus.js\<close>, and hands its parameters to
  the page it opens and back (\<open>libs/jquery.url.js\<close>). An edit page reads and writes its form
  (\<open>plugins/jquery.form.js\<close>), checks it with the validator (\<open>plugins/jquery-validation\<close>,
  \<open>plugins/jquery.validation.js\<close>), uploads pictures into a gallery (\<open>plugins/jquery-file-upload\<close>), and calls the
  server (\<open>libs/jquery.service.js\<close>). The login and password pages encrypt the password before they send it
  (\<open>plugins/rsa\<close>). A page that assigns rights shows a tree of boxes (\<open>plugins/boostrap-tree\<close>).

  \<^bold>\<open>Theories and sources.\<close>
  \<^item> \<^theory_text>\<open>Prelude\<close>, \<^theory_text>\<open>Js_Values\<close>, \<^theory_text>\<open>Js_Strings\<close>, \<^theory_text>\<open>Js_Text\<close>, \<^theory_text>\<open>Js_Float\<close>, \<^theory_text>\<open>Js_Object\<close>, \<^theory_text>\<open>Regexp\<close>: what the code
    uses of the language. Numbers are exact integers with \<open>NaN\<close> and \<open>undefined\<close> where the code stays below
    \<open>2 ^ 53\<close>, and doubles with their rounding elsewhere; strings are lists of UTF-16 units; objects used as tables keep
    the order of their keys; regular expressions have a matcher and the set of texts they describe.
  \<^item> \<^theory_text>\<open>Big_Int\<close> to \<^theory_text>\<open>Big_Int_Decimal\<close>, \<^theory_text>\<open>Knuth_Division\<close>: \<open>rsa/BigInt.js\<close>. Its arrays of digits stand for numbers
    (\<open>bival\<close>); each operation keeps \<open>wf_bi\<close> and refines the operation on numbers. \<^theory_text>\<open>Barrett\<close>: \<open>rsa/Barrett.js\<close>.
    \<^theory_text>\<open>Rsa\<close>, \<^theory_text>\<open>Rsa_Numbers\<close>, \<^theory_text>\<open>Rsa_Limits\<close>, \<^theory_text>\<open>Rsa_Contract\<close>: \<open>rsa/RSA.js\<close>, what it computes and where it fails.
  \<^item> \<^theory_text>\<open>Ecma_Plus\<close>, \<^theory_text>\<open>Format_Contract\<close>: the formats. \<^theory_text>\<open>Table\<close>, \<^theory_text>\<open>Table_Contract\<close>: the table, whose state are the rows, the
    items of the pager and the two fields. \<^theory_text>\<open>Page_Url\<close>, \<^theory_text>\<open>Page_Url_Contract\<close>: addresses, and the escapes of
    \<open>plugins/util.js\<close>. \<^theory_text>\<open>Page_Form\<close>, \<^theory_text>\<open>Page_Form_Contract\<close>: forms, whose state is the list of the elements of
    the document. \<^theory_text>\<open>Service\<close>, \<^theory_text>\<open>Service_Contract\<close>: calls of the server. \<^theory_text>\<open>Check_Tree\<close>: the tree, refined to the set of the
    leaves that are chosen. \<^theory_text>\<open>App_Shell\<close>: the frame.
  \<^item> \<^theory_text>\<open>Validate_Util\<close>, \<^theory_text>\<open>Validation_Rules\<close>, \<^theory_text>\<open>Checksum_Rules\<close>, \<^theory_text>\<open>Checksum_Correct\<close>, \<^theory_text>\<open>Check_Digit\<close>,
    \<^theory_text>\<open>Validate_Contract\<close>: the checks of values in \<open>jquery.validation.js\<close> and \<open>additional-methods.js\<close>, and what
    wrong digits they notice.
  \<^item> \<^theory_text>\<open>Validator_Rules\<close>, \<^theory_text>\<open>Validator_Methods\<close>, \<^theory_text>\<open>Validator\<close>, \<^theory_text>\<open>Validator_Frame\<close>, \<^theory_text>\<open>Validator_Check\<close>,
    \<^theory_text>\<open>Validator_Requests\<close>, \<^theory_text>\<open>Validator_Late\<close> (answers that arrive after a reset), \<^theory_text>\<open>Validator_Contract\<close>:
    \<open>jquery.validate.js\<close> with the project's settings in
    \<open>jquery.validate.custom.js\<close>. The state is a record of the fields of the validator, the marks and labels of the document, and
    a log of what leaves the page; remote checks are requests whose answers come in any order or never.
  \<^item> \<^theory_text>\<open>Upload_Files\<close>: how \<open>jquery.fileupload.js\<close> collects files, divides a selection and sends chunks.
    \<^theory_text>\<open>Upload_Queue\<close>: its queue, with \<^theory_text>\<open>Upload_Queue_Frame\<close> (what each change keeps), \<^theory_text>\<open>Upload_Queue_Books\<close> (counters and
    progress), \<^theory_text>\<open>Upload_Queue_Order\<close> (limits and order) and \<^theory_text>\<open>Upload_Queue_Chain\<close> (uploads in sequence, and that all end).
    \<^theory_text>\<open>Gallery\<close>, \<^theory_text>\<open>Upload_Lemmas\<close>, \<^theory_text>\<open>Upload_Contract\<close>: the project's gallery on top of it.
    \<^theory_text>\<open>Upload_List\<close>: \<open>jquery.fileupload-ui.custom.js\<close>, the rows of the uploads as events and deferreds.
  \<^item> \<^theory_text>\<open>Menu_Accordion\<close>: the menu, whose lists open and close (\<open>plugins/multiple-accordion\<close>). \<^theory_text>\<open>Page_Console\<close>: the log on
    the page and the choice of the language (\<open>plugins/jquery.console.js\<close>).

  \<^bold>\<open>How the parts meet.\<close> The form of a page is read by \<^theory_text>\<open>Page_Form\<close> and, with the values of \<^theory_text>\<open>Validator_Rules\<close>, checked by
  \<^theory_text>\<open>Validator\<close>, whose rules are those of \<^theory_text>\<open>Validate_Util\<close> and \<^theory_text>\<open>Validator_Methods\<close>. Addresses and forms share the
  values of JSON. \<open>start\<close> and \<open>stop\<close> of the upload queue drive the bar of the gallery, and the gallery's refusal of
  a file meets the queue's \<open>abort\<close>. \<open>Rsa\<close> rests on \<open>Barrett\<close> and \<open>Big_Int\<close>.

  \<^bold>\<open>Interfaces.\<close> The locales are \<open>modular_mult\<close> (the multiplication square-and-multiply needs, given by Barrett's and by
  plain reduction), \<open>knuth_radix\<close> (long division for any radix, at \<open>2 ^ 16\<close>), those of the weighted check sums,
  \<open>effect\<close> (what the parts of a check keep of a validator) and \<open>queue_effect\<close> (what the changes of the upload queue
  keep); each is interpreted on the definitions of the model.

  \<^bold>\<open>Properties.\<close> The contract theories have, as theorems with a concrete witness each, the round trips (password, form,
  numbers as text, addresses), functional behaviour (division, pager, calls, checks of a form, chunks of a file),
  equivalences with reference definitions (Barrett, IBAN), invariants over all sequences of events (requests of the
  validator, login window, upload queue, menu), a refinement (the tree), and termination or its failure
  (encryption, uploads, lost answers, rows of uploads). Where the code does not do what it means to, the theorem says what
  it does instead.

  \<^bold>\<open>Loops, bounds and assumptions.\<close> A loop that may not end is a partial function with result \<open>None\<close> (encryption, division,
  the handler of refused files); theorems state when the result is \<open>Some\<close>. All other loops are recursive functions with
  a measure; there is no fuel. \<open>maxDigits\<close> is the parameter \<open>N\<close> of the big integers, 130 on the pages, and the
  theorems hold for every \<open>N\<close> large enough for the operands. Byte counts of uploads are below \<open>2 ^ 53\<close> where
  rounding matters. Handlers of the page, the selector engine, the server's answers and the browser's requests are
  arguments; animations are taken at their end; deferreds of jQuery 1.12 call their handlers at once.

  \<^bold>\<open>Not modelled.\<close> Third-party widgets (charts, calendars, lists to choose from, trees that are dragged, messages,
  jQuery UI, Bootstrap, video) and all of jQuery but the functions the forms and addresses rest on: they are used as
  documented, and most are the output of bundlers. The transports of uploads and the registration of handlers are
  input and output. Of \<open>additional-methods.js\<close> the rules that read other fields and two long patterns without
  arithmetic are left out. The markup of \<open>jquery.fileupload-ui.custom.js\<close> comes from templates that are not in the
  repository, its buttons and formats repeat modelled ones. The animation of colours is left out. The copies of the assets under \<open>yanyan-jdbc\<close> and \<open>yanyan-mybatis\<close> are the same files. The Java
  back end is another program.
\<close>

end
